(* ===== verification/Gem5_Prelude.thy ===== *)
theory Gem5_Prelude
  imports Main "HOL-Library.Word"
begin

text \<open>
  Shared vocabulary of the development: the machine types of the simulator
  (\<^verbatim>\<open>base/types.hh\<close>), the ways a simulation stops (\<^verbatim>\<open>assert\<close>, \<^verbatim>\<open>panic\<close>, \<^verbatim>\<open>fatal\<close> and an
  access outside the host allocation), the result type every fallible operation returns,
  and the lemmas on results, lists and words that the component theories share.

  Ticks are natural numbers.  The source keeps them in 64 bits; additions of ticks are
  modelled without wrap-around (a tick is a picosecond, so a run would need 213 simulated
  days to overflow), while every subtraction of ticks goes through \<open>tick_sub\<close>, which
  writes the 64-bit wrap-around out.
\<close>

unbundle bit_operations_syntax

named_theorems result_simps \<open>inversion rules for results\<close>

subsection \<open>Machine types\<close>

type_synonym addr = "64 word"
type_synonym byte = "8 word"
type_synonym tick = nat

definition MaxTick :: tick where
  "MaxTick = 2 ^ 64 - 1"

definition tick_sub :: "tick \<Rightarrow> tick \<Rightarrow> tick" where
  "tick_sub a b = (if b \<le> a then a - b else 2 ^ 64 + a - b)"

lemma tick_sub_le [simp]: "b \<le> a \<Longrightarrow> tick_sub a b = a - b"
  by (simp add: tick_sub_def)

subsection \<open>Results\<close>

datatype sim_error =
    Assertion string
  | Panic string
  | Fatal string
  | HostFault

type_synonym 'a result = "sim_error + 'a"

definition rbind :: "'a result \<Rightarrow> ('a \<Rightarrow> 'b result) \<Rightarrow> 'b result" where
  "rbind m f = (case m of Inl e \<Rightarrow> Inl e | Inr x \<Rightarrow> f x)"

definition assertr :: "bool \<Rightarrow> string \<Rightarrow> unit result" where
  "assertr c msg = (if c then Inr () else Inl (Assertion msg))"

definition fatal_if :: "bool \<Rightarrow> string \<Rightarrow> unit result" where
  "fatal_if c msg = (if c then Inl (Fatal msg) else Inr ())"

lemma rbind_simps [simp]:
  "rbind (Inl e) f = Inl e"
  "rbind (Inr x) f = f x"
  by (simp_all add: rbind_def)

lemma rbind_assoc: "rbind (rbind m f) g = rbind m (\<lambda>x. rbind (f x) g)"
  by (simp add: rbind_def split: sum.splits)

lemma rbind_Inr_iff [result_simps]:
  "rbind m f = Inr y \<longleftrightarrow> (\<exists>x. m = Inr x \<and> f x = Inr y)"
  by (simp add: rbind_def split: sum.splits)

lemma rbind_Inl_iff [result_simps]:
  "rbind m f = Inl e \<longleftrightarrow> m = Inl e \<or> (\<exists>x. m = Inr x \<and> f x = Inl e)"
  by (auto simp: rbind_def split: sum.splits)

lemma assertr_Inr_iff [simp]: "assertr c msg = Inr u \<longleftrightarrow> c"
  by (simp add: assertr_def)

lemma assertr_Inl_iff [simp]: "assertr c msg = Inl e \<longleftrightarrow> \<not> c \<and> e = Assertion msg"
  by (auto simp: assertr_def)

lemma assertr_True [simp]: "assertr True msg = Inr ()"
  by (simp add: assertr_def)

lemma assertr_False [simp]: "assertr False msg = Inl (Assertion msg)"
  by (simp add: assertr_def)

lemma fatal_if_Inr_iff [simp]: "fatal_if c msg = Inr u \<longleftrightarrow> \<not> c"
  by (simp add: fatal_if_def)

lemma fatal_if_simps [simp]:
  "fatal_if False msg = Inr ()"
  "fatal_if True msg = Inl (Fatal msg)"
  by (simp_all add: fatal_if_def)

subsection \<open>Bits and sizes of words\<close>

lemma unat64_less: "unat (x :: 64 word) < 2 ^ 64"
proof -
  have "unat x < 2 ^ LENGTH(64)" by (rule unsigned_less)
  then show ?thesis by simp
qed

lemma drop_bit_zero_iff: "drop_bit k (x :: 'a::len word) = 0 \<longleftrightarrow> (\<forall>i\<ge>k. \<not> bit x i)"
proof
  assume "drop_bit k x = 0"
  then have "\<not> bit (drop_bit k x) j" for j by simp
  then show "\<forall>i\<ge>k. \<not> bit x i"
    by (metis bit_drop_bit_eq comp_apply le_add_diff_inverse)
next
  assume "\<forall>i\<ge>k. \<not> bit x i"
  then show "drop_bit k x = 0"
    by (intro bit_word_eqI) (simp add: bit_simps)
qed

lemma unat_drop_bit_div: "unat (drop_bit k (x :: 'a::len word)) = unat x div 2 ^ k"
  by (subst unat_drop_bit_eq) (simp only: drop_bit_eq_div)

lemma unat_less_exp_iff: "unat (x :: 'a::len word) < 2 ^ k \<longleftrightarrow> (\<forall>i\<ge>k. \<not> bit x i)"
proof -
  have "unat x < 2 ^ k \<longleftrightarrow> unat x div 2 ^ k = 0"
    by (simp add: div_eq_0_iff)
  also have "\<dots> \<longleftrightarrow> drop_bit k x = 0"
    by (simp only: unat_drop_bit_div [symmetric] unat_eq_zero)
  finally show ?thesis by (simp add: drop_bit_zero_iff)
qed

lemma word_bit_ex: "x \<noteq> 0 \<Longrightarrow> \<exists>k < LENGTH('a). bit (x :: 'a::len word) k"
  by (metis bit_0_eq bit_word_eqI bot_apply bot_bool_def)

text \<open>The upper half of a \<open>2k\<close>-bit value is tested by masking it.\<close>

lemma upper_half_zero_iff:
  fixes x :: "'a::len word"
  assumes "unat x < 2 ^ (k + k)" "k + k \<le> LENGTH('a)"
  shows "x AND push_bit k (mask k) = 0 \<longleftrightarrow> unat x < 2 ^ k"
proof -
  have hi: "\<not> bit x i" if "i \<ge> k + k" for i
    using assms(1) that by (simp add: unat_less_exp_iff)
  have "bit (x AND push_bit k (mask k)) i \<longleftrightarrow> k \<le> i \<and> bit x i" for i
    using hi [of i] assms(2)
    by (cases "k + k \<le> i") (auto simp: bit_simps dest: bit_imp_le_length)
  then have "x AND push_bit k (mask k) = 0 \<longleftrightarrow> (\<forall>i\<ge>k. \<not> bit x i)"
    by (metis bit_0_eq bot_apply bot_bool_def bit_word_eqI)
  then show ?thesis by (simp add: unat_less_exp_iff)
qed

lemma unat_of_nat_diff:
  assumes "k \<le> n" "n < 2 ^ LENGTH('a)"
  shows "unat (of_nat n - of_nat k :: 'a::len word) = n - k"
proof -
  have "(of_nat n - of_nat k :: 'a word) = of_nat (n - k)"
    using assms(1) by (simp add: of_nat_diff)
  then show ?thesis
    using assms(2) by (simp add: unat_of_nat less_imp_diff_less)
qed

end
