(* ===== verification/Int_Math.thy ===== *)
theory Int_Math
  imports Gem5_Prelude
begin

text \<open>
  Integer helpers of \<^verbatim>\<open>gem5/src/base/intmath.hh\<close> used by the memory system: the power of
  two test, the binary-search logarithms, rounding and ceiling division.  The templates are
  instantiated at the unsigned words the memory system uses them on.
\<close>

definition leastSigBit :: "'a::len word \<Rightarrow> 'a word" where
  "leastSigBit n = n AND NOT (n - 1)"

definition isPowerOf2 :: "'a::len word \<Rightarrow> bool" where
  "isPowerOf2 n \<longleftrightarrow> n \<noteq> 0 \<and> leastSigBit n = n"

text \<open>One line \<^verbatim>\<open>if (x & m) { y += k; x >>= k; }\<close> of the logarithm.\<close>

definition log2_step :: "64 word \<Rightarrow> nat \<Rightarrow> nat \<times> 64 word \<Rightarrow> nat \<times> 64 word" where
  "log2_step m k = (\<lambda>(y, x). if x AND m \<noteq> 0 then (y + k, drop_bit k x) else (y, x))"

definition floorLog2 :: "64 word \<Rightarrow> nat result" where
  "floorLog2 x0 =
     rbind (assertr (x0 > 0) ''x > 0'') (\<lambda>_.
       let s1 = log2_step 0xffffffff00000000 32 (0, x0);
           s2 = log2_step 0x00000000ffff0000 16 s1;
           s3 = log2_step 0x000000000000ff00 8 s2;
           s4 = log2_step 0x00000000000000f0 4 s3;
           (y, x) = log2_step 0x000000000000000c 2 s4
       in Inr (if x AND 0x0000000000000002 \<noteq> 0 then y + 1 else y))"

definition ceilLog2 :: "64 word \<Rightarrow> nat result" where
  "ceilLog2 n =
     (if n = 1 then Inr 0 else rbind (floorLog2 (n - 1)) (\<lambda>l. Inr (l + 1)))"

definition divCeil :: "nat \<Rightarrow> nat \<Rightarrow> nat" where
  "divCeil a b = (a + b - 1) div b"

definition roundUp :: "64 word \<Rightarrow> 64 word \<Rightarrow> 64 word" where
  "roundUp val align = (let m = align - 1 in (val + m) AND NOT m)"

definition roundDown :: "64 word \<Rightarrow> 64 word \<Rightarrow> 64 word" where
  "roundDown val align = (let m = align - 1 in val AND NOT m)"

subsection \<open>Powers of two\<close>

lemma leastSigBit_exp: "leastSigBit (2 ^ k :: 'a::len word) = 2 ^ k"
  unfolding leastSigBit_def
  by (rule bit_word_eqI) (auto simp: bit_simps simp flip: mask_eq_exp_minus_1)

lemma drop_bit_pred:
  fixes n :: "'a::len word"
  assumes "bit n k" "k < j"
  shows "drop_bit j (n - 1) = drop_bit j n"
proof -
  have n0: "n \<noteq> 0" using assms(1) by auto
  have "bit (unat n) k" using assms(1) by (simp add: bit_simps)
  then have "unat n mod 2 ^ j \<noteq> 0"
    using assms(2) by (metis bit_take_bit_iff bit_0_eq bot_apply bot_bool_def take_bit_eq_mod)
  moreover have "(a - 1) div c = a div c" if "a mod c \<noteq> 0" for a c :: nat
    using that by (cases a) (auto simp: div_Suc)
  ultimately have "unat (n - 1) div 2 ^ j = unat n div 2 ^ j"
    using n0 by (simp add: unat_minus_one)
  then show ?thesis
    by (simp only: word_unat_eq_iff unat_drop_bit_div)
qed

lemma isPowerOf2_bits:
  assumes "isPowerOf2 n" "bit n k" "k < i"
  shows "\<not> bit n i"
proof
  assume i: "bit n i"
  have "bit (drop_bit i (n - 1)) 0 \<longleftrightarrow> bit (drop_bit i n) 0"
    using drop_bit_pred [OF assms(2,3)] by simp
  then have "bit (n - 1) i" using i by (simp add: bit_simps)
  then have "\<not> bit (leastSigBit n) i" by (simp add: leastSigBit_def bit_simps)
  then show False using assms(1) i by (simp add: isPowerOf2_def)
qed

lemma isPowerOf2_exp_iff:
  fixes n :: "'a::len word"
  shows "isPowerOf2 n \<longleftrightarrow> (\<exists>k < LENGTH('a). n = 2 ^ k)"
proof
  assume n: "isPowerOf2 n"
  then obtain k where k: "k < LENGTH('a)" "bit n k"
    using word_bit_ex [of n] by (auto simp: isPowerOf2_def)
  have "bit n i \<longleftrightarrow> i = k" for i
    using isPowerOf2_bits [OF n k(2), of i] isPowerOf2_bits [OF n, of i k] k(2)
    by (cases i k rule: linorder_cases) auto
  then have "n = 2 ^ k"
    using k(1) by (intro bit_word_eqI) (auto simp: bit_simps)
  with k(1) show "\<exists>k < LENGTH('a). n = 2 ^ k" by blast
next
  assume "\<exists>k < LENGTH('a). n = 2 ^ k"
  then show "isPowerOf2 n" by (auto simp: isPowerOf2_def leastSigBit_exp)
qed

subsection \<open>Logarithms\<close>

lemma log2_masks:
  "(0xffffffff00000000 :: 64 word) = push_bit 32 (mask 32)"
  "(0x00000000ffff0000 :: 64 word) = push_bit 16 (mask 16)"
  "(0x000000000000ff00 :: 64 word) = push_bit 8 (mask 8)"
  "(0x00000000000000f0 :: 64 word) = push_bit 4 (mask 4)"
  "(0x000000000000000c :: 64 word) = push_bit 2 (mask 2)"
  "(0x0000000000000002 :: 64 word) = push_bit 1 (mask 1)"
  by (simp_all add: mask_eq_exp_minus_1)

text \<open>The search invariant: \<open>x\<close> is \<open>x0\<close> without its low \<open>y\<close> bits and fits in \<open>k\<close> bits.\<close>

definition log2_inv :: "64 word \<Rightarrow> nat \<Rightarrow> nat \<times> 64 word \<Rightarrow> bool" where
  "log2_inv x0 k = (\<lambda>(y, x). unat x = unat x0 div 2 ^ y \<and> 0 < unat x \<and> unat x < 2 ^ k)"

lemma log2_step_inv:
  assumes "log2_inv x0 (k + k) s" "k + k \<le> 64"
  shows "log2_inv x0 k (log2_step (push_bit k (mask k)) k s)"
proof -
  obtain y x where s: "s = (y, x)" by (cases s)
  have x: "unat x = unat x0 div 2 ^ y" "0 < unat x" "unat x < 2 ^ (k + k)"
    using assms(1) by (auto simp: s log2_inv_def)
  have z: "x AND push_bit k (mask k) = 0 \<longleftrightarrow> unat x < 2 ^ k"
    using upper_half_zero_iff [OF x(3)] assms(2) by simp
  show ?thesis
  proof (cases "unat x < 2 ^ k")
    case True
    then show ?thesis using x z by (simp add: s log2_step_def log2_inv_def)
  next
    case False
    then have "unat (drop_bit k x) = unat x0 div 2 ^ (y + k)"
      by (simp only: unat_drop_bit_div x(1) div_mult2_eq [symmetric] power_add)
    moreover have "0 < unat x div 2 ^ k"
      using False by (simp add: div_greater_zero_iff)
    moreover have "unat x div 2 ^ k < 2 ^ k"
      using x(3) by (simp add: power_add less_mult_imp_div_less)
    ultimately show ?thesis
      using False z by (simp add: s log2_step_def log2_inv_def unat_drop_bit_div)
  qed
qed

lemma floorLog2_spec:
  assumes "x0 \<noteq> 0"
  shows "\<exists>l. floorLog2 x0 = Inr l \<and> 2 ^ l \<le> unat x0 \<and> unat x0 < 2 ^ (l + 1) \<and> l < 64"
proof -
  define s1 where "s1 = log2_step (push_bit 32 (mask 32)) 32 (0, x0)"
  define s2 where "s2 = log2_step (push_bit 16 (mask 16)) 16 s1"
  define s3 where "s3 = log2_step (push_bit 8 (mask 8)) 8 s2"
  define s4 where "s4 = log2_step (push_bit 4 (mask 4)) 4 s3"
  define s5 where "s5 = log2_step (push_bit 2 (mask 2)) 2 s4"
  define s6 where "s6 = log2_step (push_bit 1 (mask 1)) 1 s5"
  have "log2_inv x0 (32 + 32) (0, x0)"
    using assms unat64_less [of x0] by (simp add: log2_inv_def unat_gt_0)
  then have "log2_inv x0 (16 + 16) s1"
    unfolding s1_def using log2_step_inv [of x0 32] by simp
  then have "log2_inv x0 (8 + 8) s2"
    unfolding s2_def using log2_step_inv [of x0 16] by simp
  then have "log2_inv x0 (4 + 4) s3"
    unfolding s3_def using log2_step_inv [of x0 8] by simp
  then have "log2_inv x0 (2 + 2) s4"
    unfolding s4_def using log2_step_inv [of x0 4] by simp
  then have "log2_inv x0 2 s5"
    unfolding s5_def using log2_step_inv [of x0 2] by simp
  then have s6: "log2_inv x0 1 s6"
    unfolding s6_def using log2_step_inv [of x0 1] by (simp add: numeral_2_eq_2)
  obtain l x where l: "s6 = (l, x)" by (cases s6)
  have q: "unat x0 div 2 ^ l = 1"
    using s6 by (simp add: l log2_inv_def)
  obtain y5 x5 where s5: "s5 = (y5, x5)" by (cases s5)
  have "floorLog2 x0 = Inr (if x5 AND push_bit 1 (mask 1) \<noteq> 0 then y5 + 1 else y5)"
    using assms s5
    unfolding floorLog2_def log2_masks s5_def s4_def s3_def s2_def s1_def Let_def
    by (simp add: word_neq_0_conv)
  then have "floorLog2 x0 = Inr l"
    using l unfolding s6_def s5 log2_step_def by (auto split: if_splits)
  moreover have "2 ^ l \<le> unat x0 \<and> unat x0 < 2 ^ (l + 1)"
    using q by (metis One_nat_def Suc_1 add.commute div_less_iff_less_mult div_greater_zero_iff
        less_2_cases_iff less_Suc0 mult_2 nat_less_le power_Suc plus_1_eq_Suc zero_less_numeral zero_less_power)
  moreover have "l < 64"
  proof (rule ccontr)
    assume "\<not> l < 64"
    then have "(2 :: nat) ^ 64 \<le> 2 ^ l" by (intro power_increasing) auto
    with \<open>2 ^ l \<le> unat x0 \<and> _\<close> unat64_less [of x0] show False by simp
  qed
  ultimately show ?thesis by blast
qed

lemma floorLog2_0 [simp]: "floorLog2 0 = Inl (Assertion ''x > 0'')"
  by (simp add: floorLog2_def)

lemma ceilLog2_spec:
  assumes "n \<noteq> 0"
  shows "\<exists>l. ceilLog2 n = Inr l \<and> unat n \<le> 2 ^ l \<and> l \<le> 64 \<and> (\<forall>j < l. 2 ^ j < unat n)"
proof (cases "n = 1")
  case True
  then show ?thesis by (simp add: ceilLog2_def)
next
  case False
  then have n1: "n - 1 \<noteq> 0" by auto
  then obtain l where l: "floorLog2 (n - 1) = Inr l" "2 ^ l \<le> unat (n - 1)"
      "unat (n - 1) < 2 ^ (l + 1)" "l < 64"
    using floorLog2_spec [of "n - 1"] by blast
  have u: "unat (n - 1) = unat n - 1" "0 < unat n"
    using assms by (simp_all add: unat_minus_one unat_gt_0)
  have "2 ^ j < unat n" if "j < l + 1" for j
  proof -
    have "(2 :: nat) ^ j \<le> 2 ^ l" using that by (intro power_increasing) auto
    then show ?thesis using l(2) u by linarith
  qed
  then show ?thesis
    using False l u by (intro exI [of _ "l + 1"]) (auto simp: ceilLog2_def)
qed

subsection \<open>Rounding and ceiling division\<close>

lemma divCeil_bounds:
  assumes "0 < b"
  shows "a \<le> divCeil a b * b" "divCeil a b * b < a + b"
proof -
  have "(a + b - 1) = divCeil a b * b + (a + b - 1) mod b"
    by (simp add: divCeil_def)
  moreover have "(a + b - 1) mod b < b" using assms by simp
  ultimately show "a \<le> divCeil a b * b" "divCeil a b * b < a + b"
    using assms by linarith+
qed

lemma divCeil_pos: "0 < b \<Longrightarrow> 0 < a \<Longrightarrow> 0 < divCeil a b"
  using divCeil_bounds(1) [of b a] by (cases "divCeil a b") auto

lemma unat_and_not_mask: "unat (x AND NOT (mask k) :: 64 word) = unat x - unat x mod 2 ^ k"
proof -
  have "x AND NOT (mask k) = push_bit k (drop_bit k x)"
    by (rule bit_word_eqI) (auto simp: bit_simps)
  moreover have "unat (push_bit k (drop_bit k x)) = unat x div 2 ^ k * 2 ^ k"
  proof -
    have "unat x div 2 ^ k * 2 ^ k < 2 ^ 64"
      using unat64_less [of x] div_times_less_eq_dividend [of "unat x" "2 ^ k"] by linarith
    then have "take_bit 64 (push_bit k (unat x div 2 ^ k)) = unat x div 2 ^ k * 2 ^ k"
      by (simp add: push_bit_eq_mult take_bit_nat_eq_self)
    then show ?thesis
      by (simp add: unsigned_push_bit_eq unat_drop_bit_div del: drop_bit_eq_div)
  qed
  ultimately show ?thesis by (simp add: minus_mod_eq_div_mult)
qed

end
