(* ===== verification/Bit_Field.thy ===== *)
theory Bit_Field
  imports Int_Math
begin

text \<open>
  Bit-field helpers of \<^verbatim>\<open>gem5/src/base/bitfield.hh\<close> at the 64-bit instance the memory system
  uses: masks, extraction and insertion of a field, sign extension and the binary searches
  for the last and first set bit.  Field positions are naturals with \<open>lo \<le> hi\<close> (the source calls
  them \<^verbatim>\<open>last\<close> and \<^verbatim>\<open>first\<close>), which is how every caller passes them.
\<close>

definition mask64 :: "nat \<Rightarrow> 64 word" where
  "mask64 nbits = (if nbits = 64 then - 1 else push_bit nbits 1 - 1)"

definition bits :: "64 word \<Rightarrow> nat \<Rightarrow> nat \<Rightarrow> 64 word" where
  "bits val hi lo = (let nbits = hi - lo + 1 in drop_bit lo val AND mask64 nbits)"

definition mbits :: "64 word \<Rightarrow> nat \<Rightarrow> nat \<Rightarrow> 64 word" where
  "mbits val hi lo = val AND (mask64 (hi + 1) AND NOT (mask64 lo))"

definition mask_range :: "nat \<Rightarrow> nat \<Rightarrow> 64 word" where
  "mask_range hi lo = mbits (- 1) hi lo"

definition sext :: "nat \<Rightarrow> 64 word \<Rightarrow> 64 word" where
  "sext N val =
     (let sign_bit = bits val (N - 1) (N - 1)
      in if sign_bit \<noteq> 0 then val OR NOT (mask64 N) else val)"

definition insertBits :: "64 word \<Rightarrow> nat \<Rightarrow> nat \<Rightarrow> 64 word \<Rightarrow> 64 word" where
  "insertBits val hi lo bit_val =
     (let bmask = push_bit lo (mask64 (hi - lo + 1))
      in (push_bit lo bit_val AND bmask) OR (val AND NOT bmask))"

definition replaceBits :: "64 word \<Rightarrow> nat \<Rightarrow> nat \<Rightarrow> 64 word \<Rightarrow> 64 word" where
  "replaceBits val hi lo bit_val = insertBits val hi lo bit_val"

definition msb_step :: "nat \<Rightarrow> nat \<times> 64 word \<Rightarrow> nat \<times> 64 word" where
  "msb_step k = (\<lambda>(msb, val).
     if bits val (2 * k - 1) k \<noteq> 0 then (msb + k, drop_bit k val) else (msb, val))"

definition findMsbSet :: "64 word \<Rightarrow> nat" where
  "findMsbSet val =
     (if val = 0 then 0
      else let s = msb_step 2 (msb_step 4 (msb_step 8 (msb_step 16 (msb_step 32 (0, val)))))
           in case s of (msb, v) \<Rightarrow> if bits v 1 1 \<noteq> 0 then msb + 1 else msb)"

definition lsb_step :: "nat \<Rightarrow> nat \<times> 64 word \<Rightarrow> nat \<times> 64 word" where
  "lsb_step k = (\<lambda>(lsb, val).
     if bits val (k - 1) 0 = 0 then (lsb + k, drop_bit k val) else (lsb, val))"

definition findLsbSet :: "64 word \<Rightarrow> nat" where
  "findLsbSet val =
     (if val = 0 then 64
      else let s = lsb_step 2 (lsb_step 4 (lsb_step 8 (lsb_step 16 (lsb_step 32 (0, val)))))
           in case s of (lsb, v) \<Rightarrow> if bits v 0 0 = 0 then lsb + 1 else lsb)"

definition isPow2 :: "64 word \<Rightarrow> bool" where
  "isPow2 v \<longleftrightarrow> v AND (v - 1) = 0"

subsection \<open>Fields bit by bit\<close>

lemma mask64_eq: "n \<le> 64 \<Longrightarrow> mask64 n = mask n"
proof (cases "n = 64")
  case True
  have "mask 64 = (- 1 :: 64 word)"
    by (rule bit_word_eqI) (simp add: bit_simps)
  with True show ?thesis by (simp add: mask64_def)
qed (simp add: mask64_def mask_eq_exp_minus_1 push_bit_eq_mult)

lemma bit_bits_iff [bit_simps]:
  "lo \<le> hi \<Longrightarrow> hi < 64 \<Longrightarrow>
   bit (bits val hi lo) i \<longleftrightarrow> i \<le> hi - lo \<and> bit val (lo + i)"
  by (auto simp: bits_def mask64_eq bit_simps dest: bit_imp_le_length)

lemma bit_insertBits_iff [bit_simps]:
  "lo \<le> hi \<Longrightarrow> hi < 64 \<Longrightarrow>
   bit (insertBits val hi lo b) i \<longleftrightarrow>
     (if lo \<le> i \<and> i \<le> hi then bit b (i - lo) else bit val i)"
  by (auto simp: insertBits_def Let_def mask64_eq bit_simps dest: bit_imp_le_length)

lemma bit_mbits_iff [bit_simps]:
  "lo \<le> hi \<Longrightarrow> hi < 64 \<Longrightarrow>
   bit (mbits val hi lo) i \<longleftrightarrow> lo \<le> i \<and> i \<le> hi \<and> bit val i"
  by (auto simp: mbits_def mask64_eq bit_simps dest: bit_imp_le_length)

lemma bits_insertBits:
  "lo \<le> hi \<Longrightarrow> hi < 64 \<Longrightarrow>
   bits (insertBits val hi lo b) hi lo = b AND mask64 (hi - lo + 1)"
  by (rule bit_word_eqI) (auto simp: bit_simps mask64_eq)

lemma bits_insertBits_other:
  assumes "l \<le> f" "f < 64" "lo \<le> hi" "hi < 64" "f < lo \<or> hi < l"
  shows "bits (insertBits val hi lo b) f l = bits val f l"
  using assms by (intro bit_word_eqI) (auto simp: bit_simps)

lemma insertBits_bits:
  "lo \<le> hi \<Longrightarrow> hi < 64 \<Longrightarrow> insertBits val hi lo (bits val hi lo) = val"
  by (rule bit_word_eqI) (auto simp: bit_simps)

lemma bits_single_zero_iff [simp]: "i < 64 \<Longrightarrow> bits val i i = 0 \<longleftrightarrow> \<not> bit val i"
proof -
  assume i: "i < 64"
  have "bits val i i = of_bool (bit val i)"
    using i by (intro bit_word_eqI) (auto simp: bit_simps)
  then show ?thesis by simp
qed

lemma unat_bits: "lo \<le> hi \<Longrightarrow> hi < 64 \<Longrightarrow>
    unat (bits val hi lo) = unat val div 2 ^ lo mod 2 ^ (hi - lo + 1)"
proof -
  assume "lo \<le> hi" "hi < 64"
  then have "bits val hi lo = take_bit (hi - lo + 1) (drop_bit lo val)"
    by (simp only: bits_def Let_def mask64_eq take_bit_eq_mask)
  then show ?thesis
    by (simp only: unsigned_take_bit_eq unat_drop_bit_div) (simp only: take_bit_eq_mod)
qed

subsection \<open>Sign extension\<close>

lemma sext_bits:
  assumes "0 < N" "N \<le> 64" "i < 64"
  shows "bit (sext N val) i \<longleftrightarrow> bit val i \<or> N \<le> i \<and> bit val (N - 1)"
  using assms by (auto simp: sext_def mask64_eq bit_simps Let_def)

subsection \<open>Searching for a set bit\<close>

lemma msb_step_inv:
  assumes "log2_inv x0 (k + k) s" "k + k \<le> 64" "0 < k"
  shows "log2_inv x0 k (msb_step k s)"
proof -
  obtain y x where s: "s = (y, x)" by (cases s)
  have "unat x < 2 ^ (k + k)" using assms(1) by (simp add: s log2_inv_def)
  then have "bit x i \<Longrightarrow> i < k + k" for i
    by (meson not_le unat_less_exp_iff)
  then have "bits x (2 * k - 1) k = drop_bit k x"
    using assms(2,3) by (intro bit_word_eqI) (fastforce simp: bit_simps mult_2)
  moreover have "x AND push_bit k (mask k) = 0 \<longleftrightarrow> drop_bit k x = 0"
    using upper_half_zero_iff [OF \<open>unat x < 2 ^ (k + k)\<close>] assms(2)
    by (simp add: drop_bit_zero_iff unat_less_exp_iff)
  ultimately have "msb_step k s = log2_step (push_bit k (mask k)) k s"
    by (simp add: s msb_step_def log2_step_def)
  then show ?thesis using log2_step_inv [OF assms(1,2)] by simp
qed

lemma findMsbSet_floorLog2:
  assumes "val \<noteq> 0"
  shows "2 ^ findMsbSet val \<le> unat val \<and> unat val < 2 ^ (findMsbSet val + 1)"
proof -
  define s where "s = msb_step 2 (msb_step 4 (msb_step 8 (msb_step 16 (msb_step 32 (0, val)))))"
  have "log2_inv val (32 + 32) (0, val)"
    using assms unat64_less [of val] by (simp add: log2_inv_def unat_gt_0)
  then have "log2_inv val 2 s"
    unfolding s_def
    using msb_step_inv [of val 32] msb_step_inv [of val 16] msb_step_inv [of val 8]
      msb_step_inv [of val 4] msb_step_inv [of val 2] by simp
  moreover obtain m v where s: "s = (m, v)" by (cases s)
  ultimately have v: "unat v = unat val div 2 ^ m" "0 < unat v" "unat v < 4"
    by (simp_all add: log2_inv_def)
  have "bit v 1 \<longleftrightarrow> unat v \<ge> 2"
  proof -
    have "bit v 1 \<longleftrightarrow> odd (unat v div 2)"
      by (metis bit_iff_odd bit_unsigned_iff power_one_right possible_bit_nat)
    then show ?thesis using v(3) by presburger
  qed
  moreover have "findMsbSet val = (if bit v 1 then m + 1 else m)"
    using assms s by (simp add: findMsbSet_def s_def)
  moreover have "unat val div 2 ^ (m + 1) = unat v div 2"
    by (simp add: v(1) div_mult2_eq [symmetric] mult.commute)
  moreover have "unat v \<ge> 2 \<Longrightarrow> unat v div 2 = 1" using v(3) by linarith
  ultimately have "unat val div 2 ^ findMsbSet val = 1"
    using v by (auto simp: not_le)
  then show ?thesis
    by (metis One_nat_def Suc_1 add.commute div_less_iff_less_mult div_greater_zero_iff
        less_2_cases_iff less_Suc0 mult_2 nat_less_le power_Suc plus_1_eq_Suc zero_less_numeral zero_less_power)
qed

lemma findMsbSet_spec:
  assumes "val \<noteq> 0"
  shows "bit val (findMsbSet val)" "findMsbSet val < i \<Longrightarrow> \<not> bit val i"
proof -
  have lt: "\<not> bit val i" if "findMsbSet val < i" for i
    using findMsbSet_floorLog2 [OF assms] that
    by (metis add.commute Suc_leI plus_1_eq_Suc unat_less_exp_iff)
  then show "findMsbSet val < i \<Longrightarrow> \<not> bit val i" .
  show "bit val (findMsbSet val)"
    using findMsbSet_floorLog2 [OF assms] lt unat_less_exp_iff [of val "findMsbSet val"]
    by (metis nat_less_le not_le)
qed

definition lsb_inv :: "64 word \<Rightarrow> nat \<Rightarrow> nat \<times> 64 word \<Rightarrow> bool" where
  "lsb_inv x0 k = (\<lambda>(y, x). x = drop_bit y x0 \<and> (\<forall>i < y. \<not> bit x0 i) \<and> (\<exists>i < k. bit x i))"

lemma lsb_step_inv:
  assumes "lsb_inv x0 (k + k) s" "k + k \<le> 64" "0 < k"
  shows "lsb_inv x0 k (lsb_step k s)"
proof -
  obtain y x where s: "s = (y, x)" by (cases s)
  have x: "x = drop_bit y x0" "\<forall>i < y. \<not> bit x0 i" "\<exists>i < k + k. bit x i"
    using assms(1) by (auto simp: s lsb_inv_def)
  have "bit (bits x (k - 1) 0) i \<longleftrightarrow> i < k \<and> bit x i" for i
    using assms(2,3) by (auto simp: bit_simps)
  then have z: "bits x (k - 1) 0 = 0 \<longleftrightarrow> (\<forall>i < k. \<not> bit x i)"
    by (metis bit_0_eq bot_apply bot_bool_def bit_word_eqI)
  show ?thesis
  proof (cases "\<forall>i < k. \<not> bit x i")
    case True
    then obtain i where i: "k \<le> i" "i < k + k" "bit x i"
      using x(3) by (meson not_le)
    have "\<not> bit x0 j" if "j < y + k" for j
    proof (cases "j < y")
      case False
      then have "\<not> bit x (j - y)" using True that by simp
      with False show ?thesis by (simp add: x(1) bit_simps)
    qed (use x(2) in simp)
    moreover have "bit (drop_bit k x) (i - k)" "i - k < k"
      using i by (auto simp: bit_simps)
    moreover have "drop_bit k x = drop_bit (y + k) x0"
      by (simp add: x(1) drop_bit_drop_bit add.commute)
    ultimately show ?thesis
      using True z by (auto simp: s lsb_step_def lsb_inv_def)
  next
    case False
    then show ?thesis using x z by (auto simp: s lsb_step_def lsb_inv_def)
  qed
qed

lemma findLsbSet_spec:
  assumes "val \<noteq> 0"
  shows "bit val (findLsbSet val)" "i < findLsbSet val \<Longrightarrow> \<not> bit val i"
proof -
  define s where "s = lsb_step 2 (lsb_step 4 (lsb_step 8 (lsb_step 16 (lsb_step 32 (0, val)))))"
  have "lsb_inv val (32 + 32) (0, val)"
    using word_bit_ex [OF assms] by (simp add: lsb_inv_def)
  then have "lsb_inv val 2 s"
    unfolding s_def
    using lsb_step_inv [of val 32] lsb_step_inv [of val 16] lsb_step_inv [of val 8]
      lsb_step_inv [of val 4] lsb_step_inv [of val 2] by simp
  then have "lsb_inv val 1 (lsb_step 1 s)"
    using lsb_step_inv [of val 1 s] by (simp add: numeral_2_eq_2)
  moreover have "findLsbSet val = fst (lsb_step 1 s)"
    using assms unfolding findLsbSet_def s_def [symmetric]
    by (simp add: lsb_step_def split: prod.splits)
  ultimately show "bit val (findLsbSet val)" "i < findLsbSet val \<Longrightarrow> \<not> bit val i"
    by (auto simp: lsb_inv_def bit_simps split: prod.splits)
qed

end
