(* ===== verification/Addr_Range.thy ===== *)
theory Addr_Range
  imports Bit_Field
begin

text \<open>
  Address ranges and the interval map over them: \<^verbatim>\<open>gem5/src/base/addr_range.hh\<close> and
  \<^verbatim>\<open>gem5/src/base/addr_range_map.hh\<close>.  A range may be one stripe of an interleaved chunk:
  a slice of address bits, optionally XOR-hashed with a second slice, has to equal the
  stripe's match value.  The map is a \<^verbatim>\<open>std::map\<close> ordered by \<^verbatim>\<open>operator<\<close>, kept here as the list
  of its entries in iteration order; an iterator is an index and \<^verbatim>\<open>end()\<close> is \<open>None\<close>.
\<close>

record AddrRange =
  rstart :: addr
  rend :: addr
  intlvHighBit :: nat
  xorHighBit :: nat
  intlvBits :: nat
  intlvMatch :: nat

definition empty_range :: AddrRange where
  "empty_range = \<lparr>rstart = 1, rend = 0, intlvHighBit = 0, xorHighBit = 0,
                  intlvBits = 0, intlvMatch = 0\<rparr>"

definition plain_range :: "addr \<Rightarrow> addr \<Rightarrow> AddrRange" where
  "plain_range s e = \<lparr>rstart = s, rend = e, intlvHighBit = 0, xorHighBit = 0,
                      intlvBits = 0, intlvMatch = 0\<rparr>"

definition intlv_range ::
  "addr \<Rightarrow> addr \<Rightarrow> nat \<Rightarrow> nat \<Rightarrow> nat \<Rightarrow> nat \<Rightarrow> AddrRange result" where
  "intlv_range s e ihb xhb ib im =
     rbind (fatal_if (ib \<noteq> 0 \<and> im \<ge> 2 ^ ib) ''Match value does not fit'') (\<lambda>_.
     rbind (if ib \<noteq> 0 \<and> xhb \<noteq> 0 then
              if xhb = ihb then Inl (Fatal ''XOR and interleave high bit must be different'')
              else if xhb > ihb then
                fatal_if (xhb - ihb < ib) ''XOR and interleave high bit too close''
              else fatal_if (ihb - xhb < ib) ''Interleave and XOR high bit too close''
            else Inr ()) (\<lambda>_.
     Inr \<lparr>rstart = s, rend = e, intlvHighBit = ihb, xorHighBit = xhb,
          intlvBits = ib, intlvMatch = im\<rparr>))"

definition interleaved :: "AddrRange \<Rightarrow> bool" where
  "interleaved r \<longleftrightarrow> intlvBits r \<noteq> 0"

definition hashed :: "AddrRange \<Rightarrow> bool" where
  "hashed r \<longleftrightarrow> interleaved r \<and> xorHighBit r \<noteq> 0"

definition granularity :: "AddrRange \<Rightarrow> 64 word" where
  "granularity r = push_bit (intlvHighBit r + 1 - intlvBits r) 1"

definition stripes :: "AddrRange \<Rightarrow> nat" where
  "stripes r = 2 ^ intlvBits r mod 2 ^ 32"

definition range_size :: "AddrRange \<Rightarrow> addr" where
  "range_size r = drop_bit (intlvBits r) (rend r - rstart r + 1)"

definition range_valid :: "AddrRange \<Rightarrow> bool" where
  "range_valid r \<longleftrightarrow> rstart r \<le> rend r"

definition mergesWith :: "AddrRange \<Rightarrow> AddrRange \<Rightarrow> bool" where
  "mergesWith self r \<longleftrightarrow>
     rstart r = rstart self \<and> rend r = rend self \<and>
     intlvHighBit r = intlvHighBit self \<and> xorHighBit r = xorHighBit self \<and>
     intlvBits r = intlvBits self"

definition contains :: "AddrRange \<Rightarrow> addr \<Rightarrow> bool" where
  "contains r a =
     (let in_range = (a \<ge> rstart r \<and> a \<le> rend r)
      in if \<not> interleaved r then in_range
         else if in_range then
           if \<not> hashed r then
             unat (bits a (intlvHighBit r) (intlvHighBit r + 1 - intlvBits r)) = intlvMatch r
           else
             unat (bits a (intlvHighBit r) (intlvHighBit r + 1 - intlvBits r) XOR
                   bits a (xorHighBit r) (xorHighBit r + 1 - intlvBits r)) = intlvMatch r
         else False)"

definition intersects :: "AddrRange \<Rightarrow> AddrRange \<Rightarrow> bool result" where
  "intersects self r =
     (if rstart self > rend r \<or> rend self < rstart r then Inr False
      else if \<not> interleaved self \<and> \<not> interleaved r then Inr True
      else if range_size r = 1 then Inr (contains self (rstart r))
      else if mergesWith self r then Inr (intlvMatch self = intlvMatch r)
      else Inl (Panic ''Cannot test intersection''))"

definition isSubset :: "AddrRange \<Rightarrow> AddrRange \<Rightarrow> bool result" where
  "isSubset self r =
     (if interleaved self then Inl (Panic ''Cannot test subset of interleaved range'')
      else Inr (rstart self \<ge> rstart r \<and> rend self \<le> rend r))"

definition range_less :: "AddrRange \<Rightarrow> AddrRange \<Rightarrow> bool" where
  "range_less self r =
     (if rstart self \<noteq> rstart r then rstart self < rstart r
      else intlvMatch self < intlvMatch r)"

definition range_eq :: "AddrRange \<Rightarrow> AddrRange \<Rightarrow> bool" where
  "range_eq self r =
     (if rstart self \<noteq> rstart r then False
      else if rend self \<noteq> rend r then False
      else if intlvBits self \<noteq> intlvBits r then False
      else if intlvBits self \<noteq> 0 then
        if intlvHighBit self \<noteq> intlvHighBit r then False
        else if intlvMatch self \<noteq> intlvMatch r then False
        else True
      else True)"

definition RangeEx :: "addr \<Rightarrow> addr \<Rightarrow> AddrRange" where
  "RangeEx s e = plain_range s (e - 1)"

definition RangeIn :: "addr \<Rightarrow> addr \<Rightarrow> AddrRange" where
  "RangeIn s e = plain_range s e"

definition RangeSize :: "addr \<Rightarrow> addr \<Rightarrow> AddrRange" where
  "RangeSize s sz = plain_range s (s + sz - 1)"

text \<open>The merging constructor: the loop over the stripes, with its 8-bit match counter.\<close>

fun merge_check :: "AddrRange \<Rightarrow> nat \<Rightarrow> AddrRange list \<Rightarrow> unit result" where
  "merge_check self m [] = Inr ()"
| "merge_check self m (r # rs) =
     (if \<not> mergesWith self r then Inl (Fatal ''Can only merge ranges of one chunk'')
      else if intlvMatch r \<noteq> m then Inl (Fatal ''Unexpected interleave match'')
      else merge_check self ((m + 1) mod 256) rs)"

definition merge_ranges :: "AddrRange list \<Rightarrow> AddrRange result" where
  "merge_ranges ranges =
     (case ranges of
        [] \<Rightarrow> Inr empty_range
      | r # _ \<Rightarrow>
          let self = r\<lparr>intlvMatch := 0\<rparr>
          in if length ranges \<noteq> 2 ^ intlvBits self then Inl (Fatal ''Wrong number of ranges'')
             else rbind (merge_check self 0 ranges) (\<lambda>_.
               Inr (self\<lparr>intlvHighBit := 0, xorHighBit := 0, intlvBits := 0\<rparr>)))"

subsection \<open>The interval map\<close>

type_synonym 'v range_map = "(AddrRange \<times> 'v) list"

definition upper_bound :: "'v range_map \<Rightarrow> AddrRange \<Rightarrow> nat" where
  "upper_bound tree r = length (takeWhile (\<lambda>e. \<not> range_less r (fst e)) tree)"

fun find_back :: "'v range_map \<Rightarrow> AddrRange \<Rightarrow> AddrRange \<Rightarrow> nat \<Rightarrow> nat option result" where
  "find_back tree orig r 0 =
     rbind (intersects (fst (tree ! 0)) r) (\<lambda>b. Inr (if b then Some 0 else None))"
| "find_back tree orig r (Suc i) =
     (if mergesWith (fst (tree ! Suc i)) orig then
        rbind (intersects (fst (tree ! i)) r) (\<lambda>b.
          if b then Inr (Some i) else find_back tree orig r i)
      else rbind (intersects (fst (tree ! Suc i)) r) (\<lambda>b.
          Inr (if b then Some (Suc i) else None)))"

definition find_range :: "'v range_map \<Rightarrow> AddrRange \<Rightarrow> nat option result" where
  "find_range tree r =
     (if tree = [] then Inr None
      else let i = upper_bound tree r
           in if i = 0 then
                rbind (intersects (fst (tree ! 0)) r) (\<lambda>b. Inr (if b then Some 0 else None))
              else let p = fst (tree ! (i - 1))
                   in rbind (intersects p r) (\<lambda>b.
                        if b then Inr (Some (i - 1))
                        else if interleaved p then find_back tree p r (i - 1)
                        else Inr None))"

definition find_addr :: "'v range_map \<Rightarrow> addr \<Rightarrow> nat option result" where
  "find_addr tree a = find_range tree (RangeSize a 1)"

definition map_intersect :: "'v range_map \<Rightarrow> AddrRange \<Rightarrow> bool result" where
  "map_intersect tree r = rbind (find_range tree r) (\<lambda>i. Inr (i \<noteq> None))"

text \<open>\<^verbatim>\<open>std::map::insert\<close>: in key order, and only when no equivalent key is present.\<close>

fun tree_insert :: "AddrRange \<Rightarrow> 'v \<Rightarrow> 'v range_map \<Rightarrow> 'v range_map" where
  "tree_insert r d [] = [(r, d)]"
| "tree_insert r d (e # es) =
     (if range_less r (fst e) then (r, d) # e # es
      else if range_less (fst e) r then e # tree_insert r d es
      else e # es)"

definition map_insert :: "'v range_map \<Rightarrow> AddrRange \<Rightarrow> 'v \<Rightarrow> 'v range_map result" where
  "map_insert tree r d =
     rbind (map_intersect tree r) (\<lambda>b. Inr (if b then tree else tree_insert r d tree))"

definition map_erase :: "'v range_map \<Rightarrow> nat \<Rightarrow> 'v range_map" where
  "map_erase tree p = take p tree @ drop (p + 1) tree"

definition map_erase_range :: "'v range_map \<Rightarrow> nat \<Rightarrow> nat \<Rightarrow> 'v range_map" where
  "map_erase_range tree p q = take p tree @ drop q tree"

definition map_clear :: "'v range_map \<Rightarrow> 'v range_map" where
  "map_clear tree = map_erase_range tree 0 (length tree)"

lemmas range_defs = interleaved_def hashed_def mergesWith_def

subsection \<open>Stripes partition a chunk\<close>

text \<open>The value the interleaving bits of an address select.\<close>

definition stripe_of :: "AddrRange \<Rightarrow> addr \<Rightarrow> nat" where
  "stripe_of r a =
     (if \<not> interleaved r then 0
      else if \<not> hashed r then
        unat (bits a (intlvHighBit r) (intlvHighBit r + 1 - intlvBits r))
      else unat (bits a (intlvHighBit r) (intlvHighBit r + 1 - intlvBits r) XOR
                 bits a (xorHighBit r) (xorHighBit r + 1 - intlvBits r)))"

text \<open>A sane configuration: the slices lie inside the 64 address bits and the match value is
  one the slice can take.\<close>

definition intlv_ok :: "AddrRange \<Rightarrow> bool" where
  "intlv_ok r \<longleftrightarrow>
     intlvHighBit r < 64 \<and> xorHighBit r < 64 \<and> intlvBits r \<le> 8 \<and>
     intlvBits r \<le> intlvHighBit r + 1 \<and>
     (xorHighBit r \<noteq> 0 \<longrightarrow> intlvBits r \<le> xorHighBit r + 1) \<and>
     intlvMatch r < 2 ^ intlvBits r"

lemma contains_iff:
  "intlv_ok r \<Longrightarrow> contains r a \<longleftrightarrow> rstart r \<le> a \<and> a \<le> rend r \<and> stripe_of r a = intlvMatch r"
  by (auto simp: contains_def stripe_of_def intlv_ok_def Let_def interleaved_def)

lemma unat_bits_less:
  assumes "lo \<le> hi" "hi < 64" "n = hi + 1 - lo"
  shows "unat (bits a hi lo) < 2 ^ n"
  using assms by (simp add: unat_bits Suc_diff_le)

lemma stripe_of_less:
  assumes "intlv_ok r"
  shows "stripe_of r a < 2 ^ intlvBits r"
proof (cases "interleaved r")
  case True
  have lt: "unat (bits a h (h + 1 - intlvBits r)) < 2 ^ intlvBits r"
    if "h < 64" "intlvBits r \<le> h + 1" for h
    using unat_bits_less [of "h + 1 - intlvBits r" h "intlvBits r" a] that True
    by (simp add: interleaved_def)
  then have "\<not> bit (bits a h (h + 1 - intlvBits r)) i"
    if "h < 64" "intlvBits r \<le> h + 1" "intlvBits r \<le> i" for h i
    using that by (meson unat_less_exp_iff)
  then have "unat (bits a (intlvHighBit r) (intlvHighBit r + 1 - intlvBits r) XOR
                 bits a (xorHighBit r) (xorHighBit r + 1 - intlvBits r)) < 2 ^ intlvBits r"
    if "hashed r"
    using that assms by (auto simp: unat_less_exp_iff bit_simps intlv_ok_def hashed_def)
  then show ?thesis
    using lt assms by (auto simp: stripe_of_def intlv_ok_def)
qed (simp add: stripe_of_def)

lemma stripe_of_mergesWith: "mergesWith r s \<Longrightarrow> stripe_of s a = stripe_of r a"
  by (simp add: stripe_of_def range_defs)

lemma mergesWith_sym: "mergesWith r s \<longleftrightarrow> mergesWith s r"
  by (auto simp: mergesWith_def)

lemma mergesWith_trans: "mergesWith r s \<Longrightarrow> mergesWith s t \<Longrightarrow> mergesWith r t"
  by (auto simp: mergesWith_def)

lemma merge_check_Inr:
  "merge_check self m rs = Inr u \<Longrightarrow> m < 256 \<Longrightarrow> i < length rs \<Longrightarrow>
   mergesWith self (rs ! i) \<and> intlvMatch (rs ! i) = (m + i) mod 256"
proof (induction self m rs arbitrary: i rule: merge_check.induct)
  case (2 self m r rs)
  then show ?case
    by (cases i) (auto simp: mod_simps split: if_splits)
qed simp

lemma merge_ranges_contains:
  assumes "merge_ranges rs = Inr m" "rs \<noteq> []" "intlv_ok (hd rs)"
  shows "contains m a \<longleftrightarrow> (\<exists>!i. i < length rs \<and> contains (rs ! i) a)"
proof -
  define self where "self = hd rs"
  have len: "length rs = 2 ^ intlvBits self"
    and chk: "merge_check (self\<lparr>intlvMatch := 0\<rparr>) 0 rs = Inr ()"
    and m: "m = self\<lparr>intlvMatch := 0, intlvHighBit := 0, xorHighBit := 0, intlvBits := 0\<rparr>"
    using assms(1,2)
    by (auto simp: merge_ranges_def Let_def self_def rbind_Inr_iff split: list.splits if_splits)
  have ok: "intlvBits self \<le> 8" "intlv_ok self"
    using assms(3) by (auto simp: self_def intlv_ok_def)
  have "length rs \<le> 256"
    using ok(1) power_increasing [of "intlvBits self" 8 "2::nat"] by (simp add: len)
  then have ith: "mergesWith self (rs ! i)" "intlvMatch (rs ! i) = i" if "i < length rs" for i
    using merge_check_Inr [OF chk _ that] that by (auto simp: mergesWith_def)
  have "contains (rs ! i) a \<longleftrightarrow> rstart self \<le> a \<and> a \<le> rend self \<and> stripe_of self a = i"
    if "i < length rs" for i
  proof -
    have "intlv_ok (rs ! i)"
      using ok(2) ith [OF that] that len by (auto simp: intlv_ok_def mergesWith_def)
    then show ?thesis
      using ith [OF that] stripe_of_mergesWith [OF ith(1) [OF that]]
      by (auto simp: contains_iff mergesWith_def)
  qed
  moreover have "contains m a \<longleftrightarrow> rstart self \<le> a \<and> a \<le> rend self"
    by (simp add: m contains_def interleaved_def Let_def)
  moreover have "stripe_of self a < length rs"
    using stripe_of_less [OF ok(2)] len by simp
  ultimately show ?thesis by auto
qed

subsection \<open>Address lookup\<close>

lemma intersects_addr:
  assumes "intlv_ok k"
  shows "intersects k (RangeSize a 1) = Inr (contains k a)"
  using assms
  by (auto simp: intersects_def RangeSize_def plain_range_def range_size_def interleaved_def
      contains_iff intlv_ok_def stripe_of_def not_less)

text \<open>
  What the users of the map establish: sane valid entries in key order, where two entries are
  either stripes of one chunk or lie apart, and the first address of a chunk belongs to
  stripe 0.
\<close>

definition wf_map :: "'v range_map \<Rightarrow> bool" where
  "wf_map tree \<longleftrightarrow>
     (\<forall>e \<in> set tree. intlv_ok (fst e) \<and> range_valid (fst e) \<and>
        stripe_of (fst e) (rstart (fst e)) = 0) \<and>
     (\<forall>i j. i < j \<longrightarrow> j < length tree \<longrightarrow>
        range_less (fst (tree ! i)) (fst (tree ! j)) \<and>
        (mergesWith (fst (tree ! i)) (fst (tree ! j)) \<or>
         rend (fst (tree ! i)) < rstart (fst (tree ! j))))"

lemma wf_map_entry:
  assumes "wf_map tree" "i < length tree"
  shows "intlv_ok (fst (tree ! i))" "range_valid (fst (tree ! i))"
    "stripe_of (fst (tree ! i)) (rstart (fst (tree ! i))) = 0"
  using assms by (auto simp: wf_map_def)

lemma wf_map_unique:
  assumes "wf_map tree" "i < j" "j < length tree"
    and "contains (fst (tree ! i)) a" "contains (fst (tree ! j)) a"
  shows False
proof -
  let ?r = "fst (tree ! i)" and ?s = "fst (tree ! j)"
  have ok: "intlv_ok ?r" "intlv_ok ?s" using assms(1-3) by (auto intro: wf_map_entry)
  have c: "rstart ?r \<le> a" "a \<le> rend ?r" "stripe_of ?r a = intlvMatch ?r"
      "rstart ?s \<le> a" "a \<le> rend ?s" "stripe_of ?s a = intlvMatch ?s"
    using assms(4,5) ok by (simp_all add: contains_iff)
  have "\<not> rend ?r < rstart ?s" using c by force
  then have m: "mergesWith ?r ?s" and l: "range_less ?r ?s"
    using assms(1-3) by (auto simp: wf_map_def)
  then have "intlvMatch ?r < intlvMatch ?s"
    by (simp add: range_less_def mergesWith_def)
  then show False
    using c stripe_of_mergesWith [OF m, of a] by simp
qed

lemma find_back_spec:
  assumes wf: "wf_map tree" and "i < length tree"
    and "\<not> contains (fst (tree ! i)) a" and orig: "mergesWith orig (fst (tree ! i))"
    and "\<And>j. j < i \<Longrightarrow> contains (fst (tree ! j)) a \<Longrightarrow> mergesWith orig (fst (tree ! j))"
  shows "\<exists>res. find_back tree orig (RangeSize a 1) i = Inr res \<and>
           (case res of None \<Rightarrow> \<forall>j \<le> i. \<not> contains (fst (tree ! j)) a
            | Some j \<Rightarrow> j < i \<and> contains (fst (tree ! j)) a)"
  using assms(2-)
proof (induction i)
  case 0
  then show ?case using wf by (simp add: intersects_addr wf_map_entry)
next
  case (Suc i)
  have i: "i < length tree" using Suc.prems by simp
  have m: "mergesWith (fst (tree ! Suc i)) orig"
    using Suc.prems(3) mergesWith_sym by blast
  have step: "find_back tree orig (RangeSize a 1) (Suc i) =
      (if contains (fst (tree ! i)) a then Inr (Some i) else find_back tree orig (RangeSize a 1) i)"
    using m by (simp add: intersects_addr wf_map_entry [OF wf i])
  show ?case
  proof (cases "contains (fst (tree ! i)) a")
    case True
    then show ?thesis by (simp add: step del: find_back.simps)
  next
    case False
    show ?thesis
    proof (cases "mergesWith orig (fst (tree ! i))")
      case True
      have "\<exists>res. find_back tree orig (RangeSize a 1) i = Inr res \<and>
           (case res of None \<Rightarrow> \<forall>j \<le> i. \<not> contains (fst (tree ! j)) a
            | Some j \<Rightarrow> j < i \<and> contains (fst (tree ! j)) a)"
        using Suc.IH [OF i False True] Suc.prems(4) by simp
      then show ?thesis
        using False Suc.prems(2) by (auto simp: step le_Suc_eq simp del: find_back.simps split: option.splits)
    next
      case nm: False
      have none: "\<not> contains (fst (tree ! j)) a" if "j \<le> Suc i" for j
      proof (rule ccontr)
        assume c: "\<not> \<not> contains (fst (tree ! j)) a"
        then have "j < i" using that False Suc.prems(2) by (metis le_Suc_eq nat_less_le)
        then have mj: "mergesWith orig (fst (tree ! j))" using Suc.prems(4) c by simp
        then have r: "rstart (fst (tree ! j)) = rstart (fst (tree ! Suc i))"
            "rend (fst (tree ! j)) = rend (fst (tree ! Suc i))"
          using Suc.prems(3) by (auto simp: mergesWith_def)
        have "mergesWith (fst (tree ! j)) (fst (tree ! i)) \<or>
            rend (fst (tree ! j)) < rstart (fst (tree ! i))"
          "range_less (fst (tree ! i)) (fst (tree ! Suc i))"
          using wf \<open>j < i\<close> Suc.prems(1) i by (auto simp: wf_map_def)
        then have "rend (fst (tree ! j)) < rstart (fst (tree ! j))"
          using nm mergesWith_trans [OF mj] r
          by (auto simp: range_less_def split: if_splits)
        then show False
          using wf_map_entry(2) [OF wf, of j] \<open>j < i\<close> i by (simp add: range_valid_def)
      qed
      have "find_back tree orig (RangeSize a 1) i = Inr None"
        using none [of i] nm mergesWith_sym [of orig] intersects_addr [OF wf_map_entry(1) [OF wf i]]
        by (cases i) simp_all
      then show ?thesis using none False by (simp add: step del: find_back.simps)
    qed
  qed
qed

lemma upper_bound_split:
  assumes "wf_map tree"
  shows "upper_bound tree (RangeSize a 1) \<le> length tree"
    and "i < upper_bound tree (RangeSize a 1) \<Longrightarrow> rstart (fst (tree ! i)) \<le> a"
    and "upper_bound tree (RangeSize a 1) \<le> i \<Longrightarrow> i < length tree \<Longrightarrow>
         \<not> contains (fst (tree ! i)) a"
proof -
  let ?P = "\<lambda>e. \<not> range_less (RangeSize a 1) (fst e)"
  let ?u = "upper_bound tree (RangeSize a 1)"
  have P: "?P e \<longleftrightarrow> rstart (fst e) < a \<or> rstart (fst e) = a \<and> intlvMatch (fst e) = 0" for e :: "AddrRange \<times> 'v"
    by (auto simp: range_less_def RangeSize_def plain_range_def)
  show le: "?u \<le> length tree"
    by (simp add: upper_bound_def length_takeWhile_le)
  show "rstart (fst (tree ! i)) \<le> a" if "i < ?u"
  proof -
    have "?P (tree ! i)"
      using that unfolding upper_bound_def by (metis nth_mem set_takeWhileD takeWhile_nth)
    then show ?thesis using P by auto
  qed
  show "\<not> contains (fst (tree ! i)) a" if "?u \<le> i" "i < length tree"
  proof
    assume c: "contains (fst (tree ! i)) a"
    have u: "?u < length tree" using that by simp
    have nP: "\<not> ?P (tree ! ?u)"
      using u nth_length_takeWhile [of ?P tree] unfolding upper_bound_def by simp
    have e: "intlv_ok (fst (tree ! i))" "stripe_of (fst (tree ! i)) (rstart (fst (tree ! i))) = 0"
      using assms that(2) by (auto intro: wf_map_entry)
    then have ci: "rstart (fst (tree ! i)) \<le> a" "stripe_of (fst (tree ! i)) a = intlvMatch (fst (tree ! i))"
      using c by (simp_all add: contains_iff)
    have "?u = i \<or> range_less (fst (tree ! ?u)) (fst (tree ! i))"
      using assms that by (cases "?u = i") (auto simp: wf_map_def)
    then have "\<not> ?P (tree ! i)"
      using nP unfolding range_less_def RangeSize_def plain_range_def
      by (auto split: if_splits)
    then show False using ci e P [of "tree ! i"] by force
  qed
qed

lemma find_addr_spec:
  assumes wf: "wf_map tree"
  shows "\<exists>res. find_addr tree a = Inr res \<and>
           (case res of None \<Rightarrow> \<forall>j < length tree. \<not> contains (fst (tree ! j)) a
            | Some j \<Rightarrow> j < length tree \<and> contains (fst (tree ! j)) a)"
proof -
  let ?u = "upper_bound tree (RangeSize a 1)"
  note ub = upper_bound_split [OF wf, where a = a]
  consider "tree = []" | "tree \<noteq> []" "?u = 0" | "tree \<noteq> []" "0 < ?u" by auto
  then show ?thesis
  proof cases
    case 1
    then show ?thesis by (simp add: find_addr_def find_range_def)
  next
    case 2
    then have none: "\<forall>j < length tree. \<not> contains (fst (tree ! j)) a"
      using ub(3) by simp
    moreover have "find_addr tree a = Inr None"
      using 2 none by (simp add: find_addr_def find_range_def intersects_addr wf_map_entry [OF wf])
    ultimately show ?thesis by simp
  next
    case 3
    define i where "i = ?u - 1"
    have i: "i < length tree" "?u = Suc i"
      using 3 ub(1) by (auto simp: i_def)
    let ?p = "fst (tree ! i)"
    have eq: "find_addr tree a =
        (if contains ?p a then Inr (Some i)
         else if interleaved ?p then find_back tree ?p (RangeSize a 1) i else Inr None)"
      using 3 i(1) intersects_addr [OF wf_map_entry(1) [OF wf i(1)]]
      unfolding find_addr_def find_range_def Let_def i_def [symmetric] by simp
    have before: "mergesWith ?p (fst (tree ! j))" if "j < i" "contains (fst (tree ! j)) a" for j
    proof -
      have "a \<le> rend (fst (tree ! j))"
        using that wf_map_entry(1) [OF wf, of j] i by (simp add: contains_iff)
      moreover have "rstart ?p \<le> a" using ub(2) [of i] i by simp
      ultimately have "\<not> rend (fst (tree ! j)) < rstart ?p" by force
      then show ?thesis
        using wf that(1) i(1) mergesWith_sym unfolding wf_map_def by blast
    qed
    show ?thesis
    proof (cases "contains ?p a")
      case True
      then show ?thesis using eq i by simp
    next
      case notp: False
      show ?thesis
      proof (cases "interleaved ?p")
        case True
        have "mergesWith ?p ?p" by (simp add: mergesWith_def)
        then obtain res where res: "find_back tree ?p (RangeSize a 1) i = Inr res"
          "case res of None \<Rightarrow> \<forall>j \<le> i. \<not> contains (fst (tree ! j)) a
            | Some j \<Rightarrow> j < i \<and> contains (fst (tree ! j)) a"
          using find_back_spec [OF wf i(1) notp] before by blast
        have "\<not> contains (fst (tree ! j)) a" if "\<forall>j \<le> i. \<not> contains (fst (tree ! j)) a" "j < length tree" for j
          using that ub(3) [of j] i by (cases "j \<le> i") auto
        then show ?thesis
          using eq notp True res i by (auto split: option.splits)
      next
        case False
        have "\<not> contains (fst (tree ! j)) a" if "j < length tree" for j
        proof (cases "j < i")
          case True
          show ?thesis
          proof
            assume c: "contains (fst (tree ! j)) a"
            have "mergesWith ?p (fst (tree ! j))" using before True c by simp
            then show False
              using c notp False wf_map_entry(1) [OF wf that] wf_map_entry(1) [OF wf i(1)]
              by (auto simp: contains_iff stripe_of_def range_defs intlv_ok_def)
          qed
        next
          case False
          then show ?thesis using notp ub(3) [of j] that i by (cases "j = i") auto
        qed
        then show ?thesis using eq notp False by simp
      qed
    qed
  qed
qed

subsection \<open>Insertion\<close>

definition apart :: "AddrRange \<Rightarrow> AddrRange \<Rightarrow> bool" where
  "apart k r \<longleftrightarrow> rend k < rstart r \<or> rend r < rstart k \<or>
     mergesWith k r \<and> intlvMatch k \<noteq> intlvMatch r \<and> range_size r \<noteq> 1"

lemma intersects_apart:
  "intlv_ok k \<Longrightarrow> intlv_ok r \<Longrightarrow> apart k r \<Longrightarrow> intersects k r = Inr False"
  by (auto simp: apart_def intersects_def intlv_ok_def range_defs)

lemma find_back_none:
  "(\<And>j. j \<le> i \<Longrightarrow> intersects (fst (tree ! j)) r = Inr False) \<Longrightarrow>
   find_back tree orig r i = Inr None"
  by (induction tree orig r i rule: find_back.induct) auto

lemma find_range_none:
  assumes "\<And>e. e \<in> set tree \<Longrightarrow> intersects (fst e) r = Inr False"
  shows "find_range tree r = Inr None"
proof -
  have le: "upper_bound tree r \<le> length tree"
    by (simp add: upper_bound_def length_takeWhile_le)
  have nth: "intersects (fst (tree ! j)) r = Inr False" if "j < length tree" for j
    using assms that by simp
  have fb: "find_back tree (fst (tree ! (upper_bound tree r - 1))) r (upper_bound tree r - 1) = Inr None"
    if "tree \<noteq> []"
    using le that by (intro find_back_none nth) (cases tree; auto)
  have "upper_bound tree r - 1 < length tree" if "tree \<noteq> []"
    using le that by (cases tree) auto
  then show ?thesis
    using fb nth by (auto simp: find_range_def Let_def)
qed

definition entry_before :: "AddrRange \<times> 'v \<Rightarrow> AddrRange \<times> 'v \<Rightarrow> bool" where
  "entry_before e f \<longleftrightarrow> range_less (fst e) (fst f) \<and>
     (mergesWith (fst e) (fst f) \<or> rend (fst e) < rstart (fst f))"

lemma wf_map_sorted:
  "wf_map tree \<longleftrightarrow>
     (\<forall>e \<in> set tree. intlv_ok (fst e) \<and> range_valid (fst e) \<and>
        stripe_of (fst e) (rstart (fst e)) = 0) \<and> sorted_wrt entry_before tree"
  by (simp add: wf_map_def sorted_wrt_iff_nth_less entry_before_def)

lemma apart_cases:
  assumes "apart k r" "range_valid k" "range_valid r"
  shows "range_less r k \<and> entry_before (r, d) (k, d') \<or>
         \<not> range_less r k \<and> range_less k r \<and> entry_before (k, d') (r, d)"
proof -
  consider "rend k < rstart r" | "rend r < rstart k"
    | "mergesWith k r" "mergesWith r k" "rstart k = rstart r" "intlvMatch k \<noteq> intlvMatch r"
    using assms(1) by (auto simp: apart_def mergesWith_def)
  then show ?thesis
  proof cases
    case 1
    then have "rstart k < rstart r" using assms(2) by (simp add: range_valid_def)
    then show ?thesis using 1 by (auto simp: entry_before_def range_less_def)
  next
    case 2
    then have "rstart r < rstart k" using assms(3) by (simp add: range_valid_def)
    then show ?thesis using 2 by (auto simp: entry_before_def range_less_def)
  next
    case 3
    then show ?thesis by (auto simp: entry_before_def range_less_def)
  qed
qed

lemma apart_comparable:
  "apart k r \<Longrightarrow> range_valid k \<Longrightarrow> range_valid r \<Longrightarrow> range_less r k \<or> range_less k r"
  using apart_cases [of k r "()" "()"] by blast

lemma range_less_trans: "range_less r s \<Longrightarrow> range_less s t \<Longrightarrow> range_less r t"
  by (auto simp: range_less_def split: if_splits)

lemma entry_before_trans:
  assumes "entry_before e f" "entry_before f g" "range_valid (fst f)"
  shows "entry_before e g"
proof -
  have "mergesWith (fst e) (fst g) \<or> rend (fst e) < rstart (fst g)"
  proof (cases "mergesWith (fst e) (fst f)")
    case True
    then show ?thesis
      using assms(2) mergesWith_trans [OF True, of "fst g"]
      by (auto simp: entry_before_def mergesWith_def)
  next
    case False
    then have "rend (fst e) < rstart (fst f)" using assms(1) by (simp add: entry_before_def)
    moreover have "rstart (fst f) \<le> rstart (fst g)"
      using assms(2) by (auto simp: entry_before_def range_less_def split: if_splits)
    ultimately show ?thesis using less_le_trans by blast
  qed
  then show ?thesis
    using assms range_less_trans unfolding entry_before_def by blast
qed

lemma tree_insert_set:
  "\<forall>e \<in> set tree. apart (fst e) r \<and> range_valid (fst e) \<Longrightarrow> range_valid r \<Longrightarrow>
   set (tree_insert r d tree) = insert (r, d) (set tree)"
  by (induction r d tree rule: tree_insert.induct) (auto dest: apart_comparable)

lemma tree_insert_sorted:
  assumes "\<forall>e \<in> set tree. apart (fst e) r \<and> range_valid (fst e)" "range_valid r"
    "sorted_wrt entry_before tree"
  shows "sorted_wrt entry_before (tree_insert r d tree)"
  using assms
proof (induction r d tree rule: tree_insert.induct)
  case (2 r d e es)
  have cs: "range_less r (fst e) \<and> entry_before (r, d) e \<or>
         \<not> range_less r (fst e) \<and> range_less (fst e) r \<and> entry_before e (r, d)"
    using apart_cases [of "fst e" r d "snd e"] "2.prems" by simp
  show ?case
  proof (cases "range_less r (fst e)")
    case True
    then have "entry_before (r, d) e" using cs by simp
    then have "\<forall>f \<in> set es. entry_before (r, d) f"
      using "2.prems"(1,3) entry_before_trans [of "(r, d)" e] by simp
    then show ?thesis using True cs "2.prems" by simp
  next
    case False
    then show ?thesis
      using cs "2.IH" "2.prems" tree_insert_set [of es r d] by auto
  qed
qed simp

lemma map_insert_spec:
  assumes wf: "wf_map tree" and r: "intlv_ok r" "range_valid r" "stripe_of r (rstart r) = 0"
    and ap: "\<forall>e \<in> set tree. apart (fst e) r"
  shows "\<exists>tree'. map_insert tree r d = Inr tree' \<and> wf_map tree' \<and>
           set tree' = insert (r, d) (set tree)"
proof -
  have "find_range tree r = Inr None"
    using wf r ap by (intro find_range_none intersects_apart) (auto simp: wf_map_sorted)
  then have "map_insert tree r d = Inr (tree_insert r d tree)"
    by (simp add: map_insert_def map_intersect_def)
  moreover have v: "\<forall>e \<in> set tree. apart (fst e) r \<and> range_valid (fst e)"
    using wf ap by (auto simp: wf_map_sorted)
  moreover have "wf_map (tree_insert r d tree)"
    using wf r tree_insert_set [OF v r(2)] tree_insert_sorted [OF v r(2)]
    by (auto simp: wf_map_sorted)
  ultimately show ?thesis using tree_insert_set [OF v r(2)] by auto
qed

text \<open>Erasing and clearing keep the map well formed.\<close>

lemma wf_map_append: "wf_map (xs @ ys @ zs) \<Longrightarrow> wf_map (xs @ zs)"
  by (auto simp: wf_map_sorted sorted_wrt_append)

lemma map_erase_range_wf:
  assumes "wf_map tree" "p \<le> q"
  shows "wf_map (map_erase_range tree p q)"
proof -
  have "take p tree @ take (q - p) (drop p tree) @ drop q tree = tree"
    using assms(2) append_take_drop_id [of "q - p" "drop p tree"] by simp
  then show ?thesis
    using assms(1) wf_map_append unfolding map_erase_range_def by metis
qed

lemma find_addr_iff:
  assumes wf: "wf_map tree"
  shows "find_addr tree a = Inr (Some i) \<longleftrightarrow> i < length tree \<and> contains (fst (tree ! i)) a"
proof -
  obtain res where res: "find_addr tree a = Inr res"
    "case res of None \<Rightarrow> \<forall>j < length tree. \<not> contains (fst (tree ! j)) a
            | Some j \<Rightarrow> j < length tree \<and> contains (fst (tree ! j)) a"
    using find_addr_spec [OF assms] by blast
  show ?thesis
  proof (cases res)
    case (Some j)
    then have "i = j" if "i < length tree" "contains (fst (tree ! i)) a"
      using res(2) that wf_map_unique [OF wf, of i j a] wf_map_unique [OF wf, of j i a]
      by (cases i j rule: linorder_cases) auto
    then show ?thesis using res Some by auto
  qed (use res in auto)
qed

subsection \<open>Properties\<close>

text \<open>C20: for a well-formed map, looking an address up never panics and yields an entry
  exactly when that entry's range contains the address.\<close>

theorem find_addr_correct:
  assumes "wf_map tree"
  shows "(\<exists>res. find_addr tree a = Inr res) \<and>
         (\<forall>i. find_addr tree a = Inr (Some i) \<longleftrightarrow> i < length tree \<and> contains (fst (tree ! i)) a)"
  using find_addr_spec [OF assms] find_addr_iff [OF assms] by blast

definition two_channels :: "nat range_map" where
  "two_channels =
     [(\<lparr>rstart = 0, rend = 0xFFF, intlvHighBit = 6, xorHighBit = 0, intlvBits = 1, intlvMatch = 0\<rparr>, 10),
      (\<lparr>rstart = 0, rend = 0xFFF, intlvHighBit = 6, xorHighBit = 0, intlvBits = 1, intlvMatch = 1\<rparr>, 11),
      (plain_range 0x2000 0x2FFF, 12)]"

lemma two_channels_wf: "wf_map two_channels"
  by (simp add: wf_map_sorted two_channels_def entry_before_def range_defs range_less_def
      stripe_of_def intlv_ok_def range_valid_def plain_range_def bits_def mask64_def)

theorem find_addr_correct_witness:
  "wf_map two_channels \<and> contains (fst (two_channels ! 1)) 0x40 \<and>
   find_addr two_channels 0x40 = Inr (Some 1)"
proof -
  have "contains (fst (two_channels ! 1)) 0x40" "(1::nat) < length two_channels"
    by (simp_all add: two_channels_def contains_def range_defs bits_def mask64_def)
  then show ?thesis
    using two_channels_wf find_addr_correct [OF two_channels_wf, of "0x40"] by blast
qed

text \<open>C21: inserting a range that lies apart from every entry, or is a further stripe of a chunk
  already present, succeeds, keeps the map well formed and makes exactly that range's
  addresses resolve to the new entry.\<close>

theorem map_insert_lookup:
  assumes "wf_map tree" "intlv_ok r" "range_valid r" "stripe_of r (rstart r) = 0"
    and "\<forall>e \<in> set tree. apart (fst e) r"
  shows "\<exists>tree'. map_insert tree r d = Inr tree' \<and> wf_map tree' \<and>
           set tree' = insert (r, d) (set tree) \<and>
           (\<forall>a. contains r a \<longrightarrow> (\<exists>i. find_addr tree' a = Inr (Some i) \<and> tree' ! i = (r, d)))"
proof -
  obtain tree' where t: "map_insert tree r d = Inr tree'" "wf_map tree'"
      "set tree' = insert (r, d) (set tree)"
    using map_insert_spec [OF assms] by blast
  have "\<exists>i. find_addr tree' a = Inr (Some i) \<and> tree' ! i = (r, d)" if "contains r a" for a
  proof -
    obtain i where "i < length tree'" "tree' ! i = (r, d)"
      using t(3) by (metis in_set_conv_nth insertI1)
    then show ?thesis using find_addr_iff [OF t(2)] that by (metis fst_conv)
  qed
  then show ?thesis using t by blast
qed

theorem map_insert_lookup_witness:
  "\<exists>tree' i. map_insert two_channels (plain_range 0x1000 0x1FFF) 13 = Inr tree' \<and>
     find_addr tree' 0x1800 = Inr (Some i) \<and> tree' ! i = (plain_range 0x1000 0x1FFF, 13)"
proof -
  let ?r = "plain_range 0x1000 0x1FFF"
  have "intlv_ok ?r" "range_valid ?r" "stripe_of ?r (rstart ?r) = 0"
      "\<forall>e \<in> set two_channels. apart (fst e) ?r" "contains ?r 0x1800"
    by (simp_all add: intlv_ok_def plain_range_def range_valid_def stripe_of_def range_defs
        two_channels_def apart_def contains_def)
  then show ?thesis using map_insert_lookup [OF two_channels_wf] by blast
qed

text \<open>C22: the merging constructor accepts only the complete set of stripes of one chunk: an
  address lies in the merged range exactly when one and only one of the stripes contains it.\<close>

theorem merge_ranges_partition:
  assumes "merge_ranges rs = Inr m" "rs \<noteq> []" "intlv_ok (hd rs)"
  shows "contains m a \<longleftrightarrow> (\<exists>!i. i < length rs \<and> contains (rs ! i) a)"
  using assms by (rule merge_ranges_contains)

theorem merge_ranges_partition_witness:
  "merge_ranges (map fst (take 2 two_channels)) = Inr (plain_range 0 0xFFF) \<and>
   (\<exists>!i. i < 2 \<and> contains (map fst (take 2 two_channels) ! i) 0x7C0)"
proof -
  let ?rs = "map fst (take 2 two_channels)"
  have m: "merge_ranges ?rs = Inr (plain_range 0 0xFFF)" "?rs \<noteq> []" "intlv_ok (hd ?rs)"
      "length ?rs = 2" "contains (plain_range 0 0xFFF) 0x7C0"
    by (simp_all add: two_channels_def merge_ranges_def plain_range_def mergesWith_def
        intlv_ok_def contains_def range_defs)
  then show ?thesis
    using merge_ranges_partition [OF m(1-3), of "0x7C0"] by simp
qed

text \<open>Inserting a range never compares it with the entry that follows it: an overlapping
  range is accepted when only its successor overlaps, and the map then holds two ranges that
  both contain an address.\<close>

theorem map_insert_misses_successor:
  "map_insert [(plain_range 0 9, 0), (plain_range 20 29, 1)] (plain_range 15 25) (2::nat) =
     Inr [(plain_range 0 9, 0), (plain_range 15 25, 2), (plain_range 20 29, 1)] \<and>
   intersects (plain_range 15 25) (plain_range 20 29) = Inr True \<and>
   contains (plain_range 15 25) 22 \<and> contains (plain_range 20 29) 22"
  by (simp add: map_insert_def map_intersect_def find_range_def upper_bound_def range_less_def
      intersects_def plain_range_def range_defs contains_def)

text \<open>The lookup steps over the first address of a chunk whose start is not in stripe 0:
  the map holds a range that contains the address, and the lookup answers that none does.\<close>

theorem find_addr_misses_unaligned_start:
  "let t = [(\<lparr>rstart = 0x40, rend = 0x103F, intlvHighBit = 6, xorHighBit = 0,
              intlvBits = 1, intlvMatch = 0\<rparr>, 10::nat),
            (\<lparr>rstart = 0x40, rend = 0x103F, intlvHighBit = 6, xorHighBit = 0,
              intlvBits = 1, intlvMatch = 1\<rparr>, 11)]
   in contains (fst (t ! 1)) 0x40 \<and> find_addr t 0x40 = Inr None"
  by (simp add: find_addr_def find_range_def upper_bound_def range_less_def RangeSize_def
      intersects_def plain_range_def range_defs contains_def bits_def mask64_def Let_def range_size_def)

end
