(* ===== verification/Mem_Request.thy ===== *)
theory Mem_Request
  imports Addr_Range
begin

text \<open>
  Memory requests: \<^verbatim>\<open>gem5/src/mem/request.hh\<close> over the flag words of
  \<^verbatim>\<open>gem5/src/base/flags.hh\<close>.  A request is a value; the constructors that copy \<^verbatim>\<open>*this\<close>
  return a new one.  The validity bits of the private flags guard the accessors.
\<close>

subsection \<open>Flag words\<close>

definition isSet :: "'a::len word \<Rightarrow> 'a word \<Rightarrow> bool" where
  "isSet f m \<longleftrightarrow> f AND m \<noteq> 0"

definition allSet :: "'a::len word \<Rightarrow> 'a word \<Rightarrow> bool" where
  "allSet f m \<longleftrightarrow> f AND m = m"

definition noneSet :: "'a::len word \<Rightarrow> 'a word \<Rightarrow> bool" where
  "noneSet f m \<longleftrightarrow> f AND m = 0"

definition clearFlags :: "'a::len word \<Rightarrow> 'a word \<Rightarrow> 'a word" where
  "clearFlags f m = f AND NOT m"

definition setFlag :: "'a::len word \<Rightarrow> 'a word \<Rightarrow> 'a word" where
  "setFlag f m = f OR m"

definition setFlagTo :: "'a::len word \<Rightarrow> 'a word \<Rightarrow> bool \<Rightarrow> 'a word" where
  "setFlagTo f m v = (f AND NOT m) OR (if v then m else 0)"

definition updateFlags :: "'a::len word \<Rightarrow> 'a word \<Rightarrow> 'a word \<Rightarrow> 'a word" where
  "updateFlags f v m = (f AND NOT m) OR (v AND m)"

lemma noneSet_iff [simp]: "noneSet f m \<longleftrightarrow> \<not> isSet f m"
  by (simp add: noneSet_def isSet_def)

lemma isSet_bits: "isSet f m \<longleftrightarrow> (\<exists>i. bit f i \<and> bit m i)"
  by (auto simp: isSet_def bit_eq_iff bit_simps dest: bit_imp_le_length)

lemma isSet_setFlag [simp]: "isSet (setFlag f m) k \<longleftrightarrow> isSet f k \<or> isSet m k"
  by (auto simp: isSet_bits setFlag_def bit_simps)

lemma isSet_clear_same [simp]: "\<not> isSet (clearFlags f m) m"
  by (auto simp: isSet_bits clearFlags_def bit_simps)

lemma isSet_clear_other:
  assumes "k AND m = 0"
  shows "isSet (clearFlags f m) k \<longleftrightarrow> isSet f k"
proof -
  have "\<not> (bit k i \<and> bit m i)" for i
    using assms by (metis bit_0_eq bit_and_iff bot_apply bot_bool_def)
  then show ?thesis
    by (auto simp: isSet_bits clearFlags_def bit_simps bit_imp_le_length)
qed

subsection \<open>Request flags\<close>

definition INST_FETCH :: "32 word" where "INST_FETCH = 0x00000100"
definition UNCACHEABLE :: "32 word" where "UNCACHEABLE = 0x00000400"
definition STRICT_ORDER :: "32 word" where "STRICT_ORDER = 0x00000800"
definition MMAPPED_IPR :: "32 word" where "MMAPPED_IPR = 0x00002000"
definition PRIVILEGED :: "32 word" where "PRIVILEGED = 0x00008000"
definition LOCKED_RMW :: "32 word" where "LOCKED_RMW = 0x00100000"
definition LLSC :: "32 word" where "LLSC = 0x00200000"
definition MEM_SWAP :: "32 word" where "MEM_SWAP = 0x00400000"
definition MEM_SWAP_COND :: "32 word" where "MEM_SWAP_COND = 0x00800000"
definition PREFETCH :: "32 word" where "PREFETCH = 0x01000000"
definition SECURE :: "32 word" where "SECURE = 0x10000000"
definition PT_WALK :: "32 word" where "PT_WALK = 0x20000000"
definition ROWOP :: "32 word" where "ROWOP = 0x40000000"

definition STICKY_FLAGS :: "32 word" where "STICKY_FLAGS = INST_FETCH"

definition VALID_SIZE_P :: "8 word" where "VALID_SIZE_P = 0x01"
definition VALID_PADDR :: "8 word" where "VALID_PADDR = 0x02"
definition VALID_VADDR :: "8 word" where "VALID_VADDR = 0x04"
definition VALID_PC :: "8 word" where "VALID_PC = 0x10"
definition VALID_CONTEXT_ID :: "8 word" where "VALID_CONTEXT_ID = 0x20"
definition VALID_THREAD_ID :: "8 word" where "VALID_THREAD_ID = 0x40"
definition VALID_EXTRA_DATA :: "8 word" where "VALID_EXTRA_DATA = 0x80"

definition STICKY_PRIVATE_FLAGS :: "8 word" where
  "STICKY_PRIVATE_FLAGS = VALID_CONTEXT_ID OR VALID_THREAD_ID"

lemmas req_flag_defs = INST_FETCH_def UNCACHEABLE_def STRICT_ORDER_def MMAPPED_IPR_def
  PRIVILEGED_def LOCKED_RMW_def LLSC_def MEM_SWAP_def MEM_SWAP_COND_def PREFETCH_def
  SECURE_def PT_WALK_def ROWOP_def STICKY_FLAGS_def

lemmas private_flag_defs = VALID_SIZE_P_def VALID_PADDR_def VALID_VADDR_def VALID_PC_def
  VALID_CONTEXT_ID_def VALID_THREAD_ID_def VALID_EXTRA_DATA_def STICKY_PRIVATE_FLAGS_def

subsection \<open>Row operations\<close>

text \<open>The width of a DRAM row in bytes, fixed in the source.\<close>

definition ROW_SIZE :: nat where "ROW_SIZE = 8192"

datatype RowOp = ROWAND | ROWOR | ROWNOT | ROWXOR | ROWAP | ROWAAP | ROWLS | ROWRS

record RowOpPayload =
  rop :: RowOp
  rdest :: addr
  rsrc1 :: addr
  rsrc2 :: addr

subsection \<open>Requests\<close>

record Request =
  req_paddr :: addr
  req_size :: nat
  req_masterId :: nat
  req_flags :: "32 word"
  privateFlags :: "8 word"
  req_time :: tick
  req_taskId :: nat
  req_asid :: int
  req_vaddr :: addr
  req_extraData :: "64 word"
  req_contextId :: nat
  req_threadId :: nat
  req_pc :: addr
  translateDelta :: tick
  accessDelta :: tick
  req_depth :: int

definition invldMasterId :: nat where "invldMasterId = 2 ^ 16 - 1"

definition Unknown_TaskId :: nat where "Unknown_TaskId = 1024"

definition empty_request :: Request where
  "empty_request = \<lparr>req_paddr = 0, req_size = 0, req_masterId = invldMasterId, req_flags = 0,
     privateFlags = 0, req_time = 0, req_taskId = Unknown_TaskId, req_asid = 0, req_vaddr = 0,
     req_extraData = 0, req_contextId = 0, req_threadId = 0, req_pc = 0, translateDelta = 0,
     accessDelta = 0, req_depth = 0\<rparr>"

definition setPhys :: "addr \<Rightarrow> nat \<Rightarrow> 32 word \<Rightarrow> nat \<Rightarrow> tick \<Rightarrow> Request \<Rightarrow> Request" where
  "setPhys pa sz flags mid time r =
     r\<lparr>req_paddr := pa, req_size := sz, req_time := time, req_masterId := mid,
       req_flags := setFlag (clearFlags (req_flags r) (NOT STICKY_FLAGS)) flags,
       privateFlags := setFlag (clearFlags (privateFlags r) (NOT STICKY_PRIVATE_FLAGS))
                               (VALID_PADDR OR VALID_SIZE_P),
       req_depth := 0, accessDelta := 0\<rparr>"

definition setThreadContext :: "nat \<Rightarrow> nat \<Rightarrow> Request \<Rightarrow> Request" where
  "setThreadContext cid tid r =
     r\<lparr>req_contextId := cid, req_threadId := tid,
       privateFlags := setFlag (privateFlags r) (VALID_CONTEXT_ID OR VALID_THREAD_ID)\<rparr>"

definition setVirt ::
  "tick \<Rightarrow> int \<Rightarrow> addr \<Rightarrow> nat \<Rightarrow> 32 word \<Rightarrow> nat \<Rightarrow> addr \<Rightarrow> Request \<Rightarrow> Request" where
  "setVirt now asid va sz flags mid pc r =
     r\<lparr>req_asid := asid, req_vaddr := va, req_size := sz, req_masterId := mid, req_pc := pc,
       req_time := now,
       req_flags := setFlag (clearFlags (req_flags r) (NOT STICKY_FLAGS)) flags,
       privateFlags := setFlag (clearFlags (privateFlags r) (NOT STICKY_PRIVATE_FLAGS))
                               (VALID_VADDR OR VALID_SIZE_P OR VALID_PC),
       req_depth := 0, accessDelta := 0, translateDelta := 0\<rparr>"

definition phys_request :: "addr \<Rightarrow> nat \<Rightarrow> 32 word \<Rightarrow> nat \<Rightarrow> tick \<Rightarrow> Request" where
  "phys_request pa sz flags mid time = setPhys pa sz flags mid time empty_request"

definition phys_pc_request :: "addr \<Rightarrow> nat \<Rightarrow> 32 word \<Rightarrow> nat \<Rightarrow> tick \<Rightarrow> addr \<Rightarrow> Request" where
  "phys_pc_request pa sz flags mid time pc =
     (let r = setPhys pa sz flags mid time empty_request
      in r\<lparr>privateFlags := setFlag (privateFlags r) VALID_PC, req_pc := pc\<rparr>)"

definition virt_request ::
  "tick \<Rightarrow> int \<Rightarrow> addr \<Rightarrow> nat \<Rightarrow> 32 word \<Rightarrow> nat \<Rightarrow> addr \<Rightarrow> nat \<Rightarrow> nat \<Rightarrow> Request" where
  "virt_request now asid va sz flags mid pc cid tid =
     setThreadContext cid tid (setVirt now asid va sz flags mid pc empty_request)"

definition setPaddr :: "addr \<Rightarrow> Request \<Rightarrow> Request" where
  "setPaddr pa r = r\<lparr>req_paddr := pa, privateFlags := setFlag (privateFlags r) VALID_PADDR\<rparr>"

definition splitOnVaddr :: "addr \<Rightarrow> Request \<Rightarrow> (Request \<times> Request) result" where
  "splitOnVaddr split_addr r =
     rbind (assertr (isSet (privateFlags r) VALID_VADDR) ''VALID_VADDR'') (\<lambda>_.
     rbind (assertr (noneSet (privateFlags r) VALID_PADDR) ''VALID_PADDR'') (\<lambda>_.
     rbind (assertr (split_addr > req_vaddr r \<and>
                     split_addr < req_vaddr r + of_nat (req_size r)) ''split_addr'') (\<lambda>_.
     let sz1 = unat (split_addr - req_vaddr r) mod 2 ^ 32
     in Inr (r\<lparr>req_size := sz1\<rparr>,
             r\<lparr>req_vaddr := split_addr,
               req_size := unat (of_nat (req_size r) - of_nat sz1 :: 32 word)\<rparr>))))"

definition splitRowOp ::
  "RowOpPayload \<Rightarrow> Request \<Rightarrow> (Request \<times> Request option \<times> Request option) result" where
  "splitRowOp addrs r =
     rbind (assertr (isSet (privateFlags r) VALID_VADDR) ''VALID_VADDR'') (\<lambda>_.
     rbind (assertr (noneSet (privateFlags r) VALID_PADDR) ''VALID_PADDR'') (\<lambda>_.
     Inr (r\<lparr>req_vaddr := rdest addrs\<rparr>,
          (if rop addrs = ROWAP then None else Some (r\<lparr>req_vaddr := rsrc1 addrs\<rparr>)),
          (if rop addrs = ROWNOT \<or> rop addrs = ROWAP \<or> rop addrs = ROWAAP \<or>
              rop addrs = ROWLS \<or> rop addrs = ROWRS
           then None else Some (r\<lparr>req_vaddr := rsrc2 addrs\<rparr>)))))"

definition hasPaddr :: "Request \<Rightarrow> bool" where
  "hasPaddr r \<longleftrightarrow> isSet (privateFlags r) VALID_PADDR"

definition getPaddr :: "Request \<Rightarrow> addr result" where
  "getPaddr r = rbind (assertr (isSet (privateFlags r) VALID_PADDR) ''VALID_PADDR'')
     (\<lambda>_. Inr (req_paddr r))"

definition hasSize :: "Request \<Rightarrow> bool" where
  "hasSize r \<longleftrightarrow> isSet (privateFlags r) VALID_SIZE_P"

definition getReqSize :: "Request \<Rightarrow> nat result" where
  "getReqSize r = rbind (assertr (isSet (privateFlags r) VALID_SIZE_P) ''VALID_SIZE'')
     (\<lambda>_. Inr (req_size r))"

definition setReqFlags :: "32 word \<Rightarrow> Request \<Rightarrow> Request result" where
  "setReqFlags flags r =
     rbind (assertr (isSet (privateFlags r) (VALID_PADDR OR VALID_VADDR)) ''VALID_ADDR'')
       (\<lambda>_. Inr (r\<lparr>req_flags := setFlag (req_flags r) flags\<rparr>))"

definition hasVaddr :: "Request \<Rightarrow> bool" where
  "hasVaddr r \<longleftrightarrow> isSet (privateFlags r) VALID_VADDR"

definition getVaddr :: "Request \<Rightarrow> addr result" where
  "getVaddr r = rbind (assertr (isSet (privateFlags r) VALID_VADDR) ''VALID_VADDR'')
     (\<lambda>_. Inr (req_vaddr r))"

definition extraDataValid :: "Request \<Rightarrow> bool" where
  "extraDataValid r \<longleftrightarrow> isSet (privateFlags r) VALID_EXTRA_DATA"

definition getExtraData :: "Request \<Rightarrow> 64 word result" where
  "getExtraData r = rbind (assertr (isSet (privateFlags r) VALID_EXTRA_DATA) ''VALID_EXTRA_DATA'')
     (\<lambda>_. Inr (req_extraData r))"

definition setExtraData :: "64 word \<Rightarrow> Request \<Rightarrow> Request" where
  "setExtraData d r =
     r\<lparr>req_extraData := d, privateFlags := setFlag (privateFlags r) VALID_EXTRA_DATA\<rparr>"

definition hasContextId :: "Request \<Rightarrow> bool" where
  "hasContextId r \<longleftrightarrow> isSet (privateFlags r) VALID_CONTEXT_ID"

definition contextId :: "Request \<Rightarrow> nat result" where
  "contextId r = rbind (assertr (isSet (privateFlags r) VALID_CONTEXT_ID) ''VALID_CONTEXT_ID'')
     (\<lambda>_. Inr (req_contextId r))"

definition setPC :: "addr \<Rightarrow> Request \<Rightarrow> Request" where
  "setPC pc r = r\<lparr>privateFlags := setFlag (privateFlags r) VALID_PC, req_pc := pc\<rparr>"

definition setTranslateLatency :: "tick \<Rightarrow> Request \<Rightarrow> Request" where
  "setTranslateLatency now r = r\<lparr>translateDelta := tick_sub now (req_time r)\<rparr>"

definition setAccessLatency :: "tick \<Rightarrow> Request \<Rightarrow> Request" where
  "setAccessLatency now r =
     r\<lparr>accessDelta := tick_sub (tick_sub now (req_time r)) (translateDelta r)\<rparr>"

definition req_isUncacheable :: "Request \<Rightarrow> bool" where
  "req_isUncacheable r \<longleftrightarrow> isSet (req_flags r) UNCACHEABLE"

definition req_isPrefetch :: "Request \<Rightarrow> bool" where
  "req_isPrefetch r \<longleftrightarrow> isSet (req_flags r) PREFETCH"

definition req_isLLSC :: "Request \<Rightarrow> bool" where
  "req_isLLSC r \<longleftrightarrow> isSet (req_flags r) LLSC"

definition req_isSwap :: "Request \<Rightarrow> bool" where
  "req_isSwap r \<longleftrightarrow> isSet (req_flags r) (MEM_SWAP OR MEM_SWAP_COND)"

definition req_isCondSwap :: "Request \<Rightarrow> bool" where
  "req_isCondSwap r \<longleftrightarrow> isSet (req_flags r) MEM_SWAP_COND"

definition req_isSecure :: "Request \<Rightarrow> bool" where
  "req_isSecure r \<longleftrightarrow> isSet (req_flags r) SECURE"

definition req_isRowOp :: "Request \<Rightarrow> bool" where
  "req_isRowOp r \<longleftrightarrow> isSet (req_flags r) ROWOP"

subsection \<open>Validity bits\<close>

lemma setPhys_valid [simp]:
  "hasPaddr (setPhys pa sz f mid t r)" "hasSize (setPhys pa sz f mid t r)"
  "\<not> hasVaddr (setPhys pa sz f mid t r)"
  by (simp_all add: setPhys_def hasPaddr_def hasSize_def hasVaddr_def)
     (simp_all add: isSet_def clearFlags_def private_flag_defs and.assoc)

lemma setVirt_valid [simp]:
  "hasVaddr (setVirt t asid va sz f mid pc r)" "hasSize (setVirt t asid va sz f mid pc r)"
  "\<not> hasPaddr (setVirt t asid va sz f mid pc r)"
  by (simp_all add: setVirt_def hasPaddr_def hasSize_def hasVaddr_def)
     (simp_all add: isSet_def clearFlags_def private_flag_defs and.assoc)

text \<open>The address range of a split request is the two halves, end to end.\<close>

lemma splitOnVaddr_halves:
  assumes "splitOnVaddr s r = Inr (r1, r2)" "req_size r < 2 ^ 32"
    and "unat (req_vaddr r) + req_size r < 2 ^ 64"
  shows "req_size r1 + req_size r2 = req_size r" "0 < req_size r1" "0 < req_size r2"
    "req_vaddr r1 = req_vaddr r" "req_vaddr r2 = req_vaddr r + of_nat (req_size r1)"
proof -
  let ?v = "req_vaddr r" and ?n = "req_size r"
  have sp: "?v < s" "s < ?v + of_nat ?n"
    and eq: "r1 = r\<lparr>req_size := unat (s - ?v) mod 2 ^ 32\<rparr>"
      "r2 = r\<lparr>req_vaddr := s, req_size :=
          unat (of_nat ?n - of_nat (unat (s - ?v) mod 2 ^ 32) :: 32 word)\<rparr>"
    using assms(1) by (auto simp: splitOnVaddr_def Let_def result_simps)
  have uv: "unat (?v + of_nat ?n) = unat ?v + ?n"
    using assms(3) by (simp add: unat_word_ariths unat_of_nat)
  have d: "unat (s - ?v) = unat s - unat ?v"
    using sp(1) by (simp add: unat_sub order.strict_implies_order)
  have lt: "unat ?v < unat s" "unat s < unat ?v + ?n"
    using sp uv by (simp_all add: word_less_nat_alt)
  then have k: "unat (s - ?v) mod 2 ^ 32 = unat s - unat ?v"
    using assms(2) d by simp
  have w: "unat (of_nat ?n - of_nat (unat s - unat ?v) :: 32 word) = ?n - (unat s - unat ?v)"
    using assms(2) lt by (intro unat_of_nat_diff) simp_all
  show "req_size r1 + req_size r2 = ?n" "0 < req_size r1" "0 < req_size r2"
    using lt k w by (simp_all add: eq)
  show "req_vaddr r1 = ?v" by (simp add: eq)
  show "req_vaddr r2 = ?v + of_nat (req_size r1)"
    using lt k by (simp add: eq word_unat_eq_iff d [symmetric])
qed

end
