(* ===== verification/Mem_Packet.thy ===== *)
theory Mem_Packet
  imports Mem_Request
begin

text \<open>
  Memory commands and packets: \<^verbatim>\<open>gem5/src/mem/packet.hh\<close> and \<^verbatim>\<open>gem5/src/mem/packet.cc\<close>.
  The command table is a function on the command enumeration.  A packet is a record; its data
  pointer is \<open>None\<close> or the bytes it points to, and its chain of sender states is the list of
  their identities, top first.
\<close>

subsection \<open>Commands\<close>

datatype Command =
  InvalidCmd | ReadReq | ReadResp | ReadRespWithInvalidate | WriteReq | WriteResp | Writeback
| CleanEvict | SoftPFReq | HardPFReq | SoftPFResp | HardPFResp | WriteLineReq | UpgradeReq
| SCUpgradeReq | UpgradeResp | SCUpgradeFailReq | UpgradeFailResp | ReadExReq | ReadExResp
| ReadCleanReq | ReadSharedReq | LoadLockedReq | StoreCondReq | StoreCondFailReq | StoreCondResp
| SwapReq | SwapResp | MessageReq | MessageResp | ReleaseReq | ReleaseResp | AcquireReq
| AcquireResp | InvalidDestError | BadAddressError | FunctionalReadError | FunctionalWriteError
| PrintReq | FlushReq | InvalidateReq | InvalidateResp

datatype Attribute =
  IsRead | IsWrite | IsUpgrade | IsInvalidate | NeedsExclusive | IsRequest | IsResponse
| NeedsResponse | IsSWPrefetch | IsHWPrefetch | IsLlsc | HasData | IsError | IsPrint | IsFlush

record CommandInfo =
  attributes :: "Attribute list"
  response :: Command
  cmd_str :: string

definition info :: "Attribute list \<Rightarrow> Command \<Rightarrow> string \<Rightarrow> CommandInfo" where
  "info as r s = \<lparr>attributes = as, response = r, cmd_str = s\<rparr>"

fun commandInfo :: "Command \<Rightarrow> CommandInfo" where
  "commandInfo InvalidCmd = info [] InvalidCmd ''InvalidCmd''"
| "commandInfo ReadReq = info [IsRead, IsRequest, NeedsResponse] ReadResp ''ReadReq''"
| "commandInfo ReadResp = info [IsRead, IsResponse, HasData] InvalidCmd ''ReadResp''"
| "commandInfo ReadRespWithInvalidate =
     info [IsRead, IsResponse, HasData, IsInvalidate] InvalidCmd ''ReadRespWithInvalidate''"
| "commandInfo WriteReq =
     info [IsWrite, NeedsExclusive, IsRequest, NeedsResponse, HasData] WriteResp ''WriteReq''"
| "commandInfo WriteResp = info [IsWrite, NeedsExclusive, IsResponse] InvalidCmd ''WriteResp''"
| "commandInfo Writeback =
     info [IsWrite, NeedsExclusive, IsRequest, HasData] InvalidCmd ''Writeback''"
| "commandInfo CleanEvict = info [IsWrite, IsRequest] InvalidCmd ''CleanEvict''"
| "commandInfo SoftPFReq =
     info [IsRead, IsRequest, IsSWPrefetch, NeedsResponse] SoftPFResp ''SoftPFReq''"
| "commandInfo HardPFReq =
     info [IsRead, IsRequest, IsHWPrefetch, NeedsResponse] HardPFResp ''HardPFReq''"
| "commandInfo SoftPFResp =
     info [IsRead, IsResponse, IsSWPrefetch, HasData] InvalidCmd ''SoftPFResp''"
| "commandInfo HardPFResp =
     info [IsRead, IsResponse, IsHWPrefetch, HasData] InvalidCmd ''HardPFResp''"
| "commandInfo WriteLineReq =
     info [IsWrite, NeedsExclusive, IsRequest, NeedsResponse, HasData] WriteResp ''WriteLineReq''"
| "commandInfo UpgradeReq =
     info [IsInvalidate, NeedsExclusive, IsUpgrade, IsRequest, NeedsResponse]
       UpgradeResp ''UpgradeReq''"
| "commandInfo SCUpgradeReq =
     info [IsInvalidate, NeedsExclusive, IsUpgrade, IsLlsc, IsRequest, NeedsResponse]
       UpgradeResp ''SCUpgradeReq''"
| "commandInfo UpgradeResp =
     info [NeedsExclusive, IsUpgrade, IsResponse] InvalidCmd ''UpgradeResp''"
| "commandInfo SCUpgradeFailReq =
     info [IsRead, NeedsExclusive, IsInvalidate, IsLlsc, IsRequest, NeedsResponse]
       UpgradeFailResp ''SCUpgradeFailReq''"
| "commandInfo UpgradeFailResp =
     info [IsRead, NeedsExclusive, IsResponse, HasData] InvalidCmd ''UpgradeFailResp''"
| "commandInfo ReadExReq =
     info [IsRead, NeedsExclusive, IsInvalidate, IsRequest, NeedsResponse]
       ReadExResp ''ReadExReq''"
| "commandInfo ReadExResp =
     info [IsRead, NeedsExclusive, IsResponse, HasData] InvalidCmd ''ReadExResp''"
| "commandInfo ReadCleanReq = info [IsRead, IsRequest, NeedsResponse] ReadResp ''ReadCleanReq''"
| "commandInfo ReadSharedReq = info [IsRead, IsRequest, NeedsResponse] ReadResp ''ReadSharedReq''"
| "commandInfo LoadLockedReq =
     info [IsRead, IsLlsc, IsRequest, NeedsResponse] ReadResp ''LoadLockedReq''"
| "commandInfo StoreCondReq =
     info [IsWrite, NeedsExclusive, IsLlsc, IsRequest, NeedsResponse, HasData]
       StoreCondResp ''StoreCondReq''"
| "commandInfo StoreCondFailReq =
     info [IsWrite, NeedsExclusive, IsLlsc, IsRequest, NeedsResponse, HasData]
       StoreCondResp ''StoreCondFailReq''"
| "commandInfo StoreCondResp =
     info [IsWrite, NeedsExclusive, IsLlsc, IsResponse] InvalidCmd ''StoreCondResp''"
| "commandInfo SwapReq =
     info [IsRead, IsWrite, NeedsExclusive, IsRequest, HasData, NeedsResponse]
       SwapResp ''SwapReq''"
| "commandInfo SwapResp =
     info [IsRead, IsWrite, NeedsExclusive, IsResponse, HasData] InvalidCmd ''SwapResp''"
| "commandInfo MessageReq =
     info [IsWrite, IsRequest, NeedsResponse, HasData] MessageResp ''MessageReq''"
| "commandInfo MessageResp = info [IsWrite, IsResponse] InvalidCmd ''MessageResp''"
| "commandInfo ReleaseReq = info [IsRequest, NeedsResponse] ReleaseResp ''ReleaseReq''"
| "commandInfo ReleaseResp = info [IsResponse] InvalidCmd ''ReleaseResp''"
| "commandInfo AcquireReq = info [IsRequest, NeedsResponse] AcquireResp ''AcquireReq''"
| "commandInfo AcquireResp = info [IsResponse, NeedsResponse] InvalidCmd ''AcquireResp''"
| "commandInfo InvalidDestError = info [IsResponse, IsError] InvalidCmd ''InvalidDestError''"
| "commandInfo BadAddressError = info [IsResponse, IsError] InvalidCmd ''BadAddressError''"
| "commandInfo FunctionalReadError =
     info [IsRead, IsResponse, IsError] InvalidCmd ''FunctionalReadError''"
| "commandInfo FunctionalWriteError =
     info [IsWrite, IsResponse, IsError] InvalidCmd ''FunctionalWriteError''"
| "commandInfo PrintReq = info [IsRequest, IsPrint] InvalidCmd ''PrintReq''"
| "commandInfo FlushReq = info [IsRequest, IsFlush, NeedsExclusive] InvalidCmd ''FlushReq''"
| "commandInfo InvalidateReq =
     info [IsInvalidate, IsRequest, NeedsExclusive, NeedsResponse] InvalidateResp ''InvalidateReq''"
| "commandInfo InvalidateResp =
     info [IsInvalidate, IsResponse, NeedsExclusive] InvalidCmd ''InvalidateResp''"

definition testCmdAttrib :: "Command \<Rightarrow> Attribute \<Rightarrow> bool" where
  "testCmdAttrib c a \<longleftrightarrow> a \<in> set (attributes (commandInfo c))"

definition responseCommand :: "Command \<Rightarrow> Command" where
  "responseCommand c = response (commandInfo c)"

definition cmd_isPrefetch :: "Command \<Rightarrow> bool" where
  "cmd_isPrefetch c \<longleftrightarrow> testCmdAttrib c IsSWPrefetch \<or> testCmdAttrib c IsHWPrefetch"

lemmas cmd_defs = testCmdAttrib_def responseCommand_def info_def

subsection \<open>Packets\<close>

definition COPY_FLAGS :: "32 word" where "COPY_FLAGS = 0x0000000F"
definition SHARED :: "32 word" where "SHARED = 0x00000001"
definition EXPRESS_SNOOP :: "32 word" where "EXPRESS_SNOOP = 0x00000002"
definition SUPPLY_EXCLUSIVE :: "32 word" where "SUPPLY_EXCLUSIVE = 0x00000004"
definition MEM_INHIBIT :: "32 word" where "MEM_INHIBIT = 0x00000008"
definition VALID_ADDR :: "32 word" where "VALID_ADDR = 0x00000100"
definition VALID_SIZE :: "32 word" where "VALID_SIZE = 0x00000200"
definition STATIC_DATA :: "32 word" where "STATIC_DATA = 0x00001000"
definition DYNAMIC_DATA :: "32 word" where "DYNAMIC_DATA = 0x00002000"
definition SUPPRESS_FUNC_ERROR :: "32 word" where "SUPPRESS_FUNC_ERROR = 0x00008000"
definition BLOCK_CACHED :: "32 word" where "BLOCK_CACHED = 0x00010000"

lemmas pkt_flag_defs = COPY_FLAGS_def SHARED_def EXPRESS_SNOOP_def SUPPLY_EXCLUSIVE_def
  MEM_INHIBIT_def VALID_ADDR_def VALID_SIZE_def STATIC_DATA_def DYNAMIC_DATA_def
  SUPPRESS_FUNC_ERROR_def BLOCK_CACHED_def

record Packet =
  pkt_flags :: "32 word"
  pkt_cmd :: Command
  pkt_req :: Request
  pkt_data :: "byte list option"
  pkt_addr :: addr
  pkt_isSecure :: bool
  pkt_size :: nat
  bytesValid :: "bool list"
  headerDelay :: nat
  snoopDelay :: nat
  payloadDelay :: nat
  senderState :: "nat list"

definition isRead :: "Packet \<Rightarrow> bool" where "isRead p = testCmdAttrib (pkt_cmd p) IsRead"
definition isWrite :: "Packet \<Rightarrow> bool" where "isWrite p = testCmdAttrib (pkt_cmd p) IsWrite"
definition isRequest :: "Packet \<Rightarrow> bool" where "isRequest p = testCmdAttrib (pkt_cmd p) IsRequest"
definition isResponse :: "Packet \<Rightarrow> bool" where "isResponse p = testCmdAttrib (pkt_cmd p) IsResponse"
definition isInvalidate :: "Packet \<Rightarrow> bool" where
  "isInvalidate p = testCmdAttrib (pkt_cmd p) IsInvalidate"
definition needsExclusive :: "Packet \<Rightarrow> bool" where
  "needsExclusive p = testCmdAttrib (pkt_cmd p) NeedsExclusive"
definition needsResponse :: "Packet \<Rightarrow> bool" where
  "needsResponse p = testCmdAttrib (pkt_cmd p) NeedsResponse"
definition hasData :: "Packet \<Rightarrow> bool" where "hasData p = testCmdAttrib (pkt_cmd p) HasData"
definition isLLSC :: "Packet \<Rightarrow> bool" where "isLLSC p = testCmdAttrib (pkt_cmd p) IsLlsc"
definition isError :: "Packet \<Rightarrow> bool" where "isError p = testCmdAttrib (pkt_cmd p) IsError"
definition isPrint :: "Packet \<Rightarrow> bool" where "isPrint p = testCmdAttrib (pkt_cmd p) IsPrint"
definition isRowOp :: "Packet \<Rightarrow> bool" where "isRowOp p = req_isRowOp (pkt_req p)"

definition assertMemInhibit :: "Packet \<Rightarrow> Packet result" where
  "assertMemInhibit p =
     rbind (assertr (isRequest p) ''isRequest()'') (\<lambda>_.
     rbind (assertr (\<not> isSet (pkt_flags p) MEM_INHIBIT) ''MEM_INHIBIT'') (\<lambda>_.
     Inr (p\<lparr>pkt_flags := setFlag (pkt_flags p) MEM_INHIBIT\<rparr>)))"

definition memInhibitAsserted :: "Packet \<Rightarrow> bool" where
  "memInhibitAsserted p = isSet (pkt_flags p) MEM_INHIBIT"

definition isExpressSnoop :: "Packet \<Rightarrow> bool" where
  "isExpressSnoop p = isSet (pkt_flags p) EXPRESS_SNOOP"

definition setBadAddress :: "Packet \<Rightarrow> Packet result" where
  "setBadAddress p =
     rbind (assertr (isResponse p) ''isResponse()'') (\<lambda>_. Inr (p\<lparr>pkt_cmd := BadAddressError\<rparr>))"

definition copyError :: "Packet \<Rightarrow> Packet \<Rightarrow> Packet result" where
  "copyError p other =
     rbind (assertr (isError other) ''isError()'') (\<lambda>_. Inr (p\<lparr>pkt_cmd := pkt_cmd other\<rparr>))"

definition getAddr :: "Packet \<Rightarrow> addr result" where
  "getAddr p = rbind (assertr (isSet (pkt_flags p) VALID_ADDR) ''VALID_ADDR'')
     (\<lambda>_. Inr (pkt_addr p))"

definition setAddr :: "addr \<Rightarrow> Packet \<Rightarrow> Packet result" where
  "setAddr a p = rbind (assertr (isSet (pkt_flags p) VALID_ADDR) ''VALID_ADDR'')
     (\<lambda>_. Inr (p\<lparr>pkt_addr := a\<rparr>))"

definition getSize :: "Packet \<Rightarrow> nat result" where
  "getSize p = rbind (assertr (isSet (pkt_flags p) VALID_SIZE) ''VALID_SIZE'')
     (\<lambda>_. Inr (pkt_size p))"

definition getOffset :: "32 word \<Rightarrow> Packet \<Rightarrow> addr result" where
  "getOffset blk p = rbind (getAddr p) (\<lambda>a. Inr (a AND ucast (blk - 1)))"

definition getBlockAddr :: "32 word \<Rightarrow> Packet \<Rightarrow> addr result" where
  "getBlockAddr blk p = rbind (getAddr p) (\<lambda>a. Inr (a AND NOT (ucast (blk - 1))))"

definition convertScToWrite :: "Packet \<Rightarrow> Packet result" where
  "convertScToWrite p =
     rbind (assertr (isLLSC p) ''isLLSC()'') (\<lambda>_.
     rbind (assertr (isWrite p) ''isWrite()'') (\<lambda>_. Inr (p\<lparr>pkt_cmd := WriteReq\<rparr>)))"

definition convertLlToRead :: "Packet \<Rightarrow> Packet result" where
  "convertLlToRead p =
     rbind (assertr (isLLSC p) ''isLLSC()'') (\<lambda>_.
     rbind (assertr (isRead p) ''isRead()'') (\<lambda>_. Inr (p\<lparr>pkt_cmd := ReadReq\<rparr>)))"

subsection \<open>Constructors\<close>

definition new_packet :: "Request \<Rightarrow> Command \<Rightarrow> Packet" where
  "new_packet r c =
     (let p = \<lparr>pkt_flags = 0, pkt_cmd = c, pkt_req = r, pkt_data = None, pkt_addr = 0,
               pkt_isSecure = False, pkt_size = 0, bytesValid = [], headerDelay = 0,
               snoopDelay = 0, payloadDelay = 0, senderState = []\<rparr>;
          p1 = (if hasPaddr r then
                  p\<lparr>pkt_addr := req_paddr r, pkt_flags := setFlag (pkt_flags p) VALID_ADDR,
                    pkt_isSecure := req_isSecure r\<rparr>
                else p)
      in if hasSize r then
           p1\<lparr>pkt_size := req_size r, pkt_flags := setFlag (pkt_flags p1) VALID_SIZE\<rparr>
         else p1)"

text \<open>\<^verbatim>\<open>~(_blkSize - 1)\<close> is an \<^verbatim>\<open>int\<close> and is sign-extended to the width of an address.\<close>

definition new_block_packet :: "Request \<Rightarrow> Command \<Rightarrow> 32 word \<Rightarrow> Packet" where
  "new_block_packet r c blk =
     (let p = \<lparr>pkt_flags = 0, pkt_cmd = c, pkt_req = r, pkt_data = None, pkt_addr = 0,
               pkt_isSecure = False, pkt_size = 0, bytesValid = [], headerDelay = 0,
               snoopDelay = 0, payloadDelay = 0, senderState = []\<rparr>;
          p1 = (if hasPaddr r then
                  p\<lparr>pkt_addr := req_paddr r AND scast (NOT (blk - 1)),
                    pkt_flags := setFlag (pkt_flags p) VALID_ADDR,
                    pkt_isSecure := req_isSecure r\<rparr>
                else p)
      in p1\<lparr>pkt_size := unat blk, pkt_flags := setFlag (pkt_flags p1) VALID_SIZE\<rparr>)"

text \<open>The bytes of a fresh allocation are not initialised; they are the parameter \<open>junk\<close>.\<close>

definition allocate :: "(nat \<Rightarrow> byte) \<Rightarrow> Packet \<Rightarrow> Packet result" where
  "allocate junk p =
     rbind (assertr (noneSet (pkt_flags p) (STATIC_DATA OR DYNAMIC_DATA)) ''noneSet'') (\<lambda>_.
     rbind (getSize p) (\<lambda>n.
     Inr (p\<lparr>pkt_flags := setFlag (pkt_flags p) DYNAMIC_DATA,
            pkt_data := Some (map junk [0..<n])\<rparr>)))"

definition copy_packet :: "(nat \<Rightarrow> byte) \<Rightarrow> Packet \<Rightarrow> bool \<Rightarrow> bool \<Rightarrow> Packet result" where
  "copy_packet junk pkt clear_flags alloc_data =
     (let f1 = (if \<not> clear_flags then setFlag 0 (pkt_flags pkt AND COPY_FLAGS) else 0);
          p = pkt\<lparr>pkt_flags := setFlag f1 (pkt_flags pkt AND (VALID_ADDR OR VALID_SIZE)),
                  pkt_data := None, snoopDelay := 0\<rparr>
      in if alloc_data then
           if isSet (pkt_flags pkt) STATIC_DATA then
             Inr (p\<lparr>pkt_data := pkt_data pkt, pkt_flags := setFlag (pkt_flags p) STATIC_DATA\<rparr>)
           else allocate junk p
         else Inr p)"

definition makeReadCmd :: "Request \<Rightarrow> Command" where
  "makeReadCmd r =
     (if req_isLLSC r then LoadLockedReq else if req_isPrefetch r then SoftPFReq else ReadReq)"

definition makeWriteCmd :: "Request \<Rightarrow> Command" where
  "makeWriteCmd r =
     (if req_isLLSC r then StoreCondReq else if req_isSwap r then SwapReq else WriteReq)"

definition createRead :: "Request \<Rightarrow> Packet" where
  "createRead r = new_packet r (makeReadCmd r)"

definition createWrite :: "Request \<Rightarrow> Packet" where
  "createWrite r = new_packet r (makeWriteCmd r)"

subsection \<open>Responses\<close>

definition makeResponse :: "Packet \<Rightarrow> Packet result" where
  "makeResponse p =
     rbind (assertr (needsResponse p) ''needsResponse()'') (\<lambda>_.
     rbind (assertr (isRequest p) ''isRequest()'') (\<lambda>_.
     Inr (p\<lparr>pkt_cmd := responseCommand (pkt_cmd p),
            pkt_flags := clearFlags (pkt_flags p) EXPRESS_SNOOP\<rparr>)))"

definition setFunctionalResponseStatus :: "bool \<Rightarrow> Packet \<Rightarrow> Packet" where
  "setFunctionalResponseStatus success p =
     (if \<not> success then
        if isWrite p then p\<lparr>pkt_cmd := FunctionalWriteError\<rparr>
        else p\<lparr>pkt_cmd := FunctionalReadError\<rparr>
      else p)"

definition setSize :: "nat \<Rightarrow> Packet \<Rightarrow> Packet result" where
  "setSize n p =
     rbind (assertr (\<not> isSet (pkt_flags p) VALID_SIZE) ''VALID_SIZE'') (\<lambda>_.
     Inr (p\<lparr>pkt_size := n, pkt_flags := setFlag (pkt_flags p) VALID_SIZE\<rparr>))"

subsection \<open>Data\<close>

definition dataStatic :: "byte list \<Rightarrow> Packet \<Rightarrow> Packet result" where
  "dataStatic d p =
     rbind (assertr (noneSet (pkt_flags p) (STATIC_DATA OR DYNAMIC_DATA)) ''noneSet'') (\<lambda>_.
     Inr (p\<lparr>pkt_data := Some d, pkt_flags := setFlag (pkt_flags p) STATIC_DATA\<rparr>))"

definition dataDynamic :: "byte list \<Rightarrow> Packet \<Rightarrow> Packet result" where
  "dataDynamic d p =
     rbind (assertr (noneSet (pkt_flags p) (STATIC_DATA OR DYNAMIC_DATA)) ''noneSet'') (\<lambda>_.
     Inr (p\<lparr>pkt_data := Some d, pkt_flags := setFlag (pkt_flags p) DYNAMIC_DATA\<rparr>))"

definition getPtr :: "Packet \<Rightarrow> byte list result" where
  "getPtr p =
     rbind (assertr (isSet (pkt_flags p) (STATIC_DATA OR DYNAMIC_DATA)) ''isSet'') (\<lambda>_.
     case pkt_data p of None \<Rightarrow> Inl HostFault | Some d \<Rightarrow> Inr d)"

text \<open>\<^verbatim>\<open>memcpy\<close> between two byte arrays at given offsets; an access outside an array is a fault.\<close>

definition memcpy_bytes ::
  "byte list \<Rightarrow> int \<Rightarrow> byte list \<Rightarrow> int \<Rightarrow> int \<Rightarrow> byte list result" where
  "memcpy_bytes dst d src s n =
     (if 0 \<le> n \<and> 0 \<le> d \<and> 0 \<le> s \<and> d + n \<le> int (length dst) \<and> s + n \<le> int (length src)
      then Inr (take (nat d) dst @ take (nat n) (drop (nat s) src) @ drop (nat (d + n)) dst)
      else Inl HostFault)"

definition setData :: "byte list \<Rightarrow> Packet \<Rightarrow> Packet result" where
  "setData src p =
     rbind (getPtr p) (\<lambda>d.
     rbind (getSize p) (\<lambda>n.
     rbind (memcpy_bytes d 0 src 0 (int n)) (\<lambda>d'. Inr (p\<lparr>pkt_data := Some d'\<rparr>))))"

definition writeData :: "Packet \<Rightarrow> byte list \<Rightarrow> byte list result" where
  "writeData p dst =
     rbind (getPtr p) (\<lambda>d.
     rbind (getSize p) (\<lambda>n. memcpy_bytes dst 0 d 0 (int n)))"

definition deleteData :: "Packet \<Rightarrow> Packet" where
  "deleteData p =
     p\<lparr>pkt_flags := clearFlags (pkt_flags p) (STATIC_DATA OR DYNAMIC_DATA), pkt_data := None\<rparr>"

definition evictingBlock :: "Packet \<Rightarrow> bool" where
  "evictingBlock p \<longleftrightarrow> pkt_cmd p = Writeback \<or> pkt_cmd p = CleanEvict"

definition mustCheckAbove :: "Packet \<Rightarrow> bool" where
  "mustCheckAbove p \<longleftrightarrow> pkt_cmd p = HardPFReq \<or> evictingBlock p"

subsection \<open>Sender states\<close>

definition pushSenderState :: "nat \<Rightarrow> Packet \<Rightarrow> Packet" where
  "pushSenderState st p = p\<lparr>senderState := st # senderState p\<rparr>"

definition popSenderState :: "Packet \<Rightarrow> (nat \<times> Packet) result" where
  "popSenderState p =
     (case senderState p of
        [] \<Rightarrow> Inl (Assertion ''senderState != NULL'')
      | st # rest \<Rightarrow> Inr (st, p\<lparr>senderState := rest\<rparr>))"

subsection \<open>Functional accesses that meet a value in flight\<close>

text \<open>An address difference assigned to an \<^verbatim>\<open>int\<close>.\<close>

definition int_of_diff :: "addr \<Rightarrow> int" where
  "int_of_diff w = sint (ucast w :: 32 word)"

text \<open>The offsets and the number of bytes copied when a read overlaps the value in part:
  \<open>(val_offset, func_offset, overlap_size)\<close>.\<close>

definition partial_overlap ::
  "addr \<Rightarrow> addr \<Rightarrow> addr \<Rightarrow> addr \<Rightarrow> int \<Rightarrow> (int \<times> int \<times> int) result" where
  "partial_overlap func_start func_end val_start val_end vsize =
     (if val_start < func_start \<and> val_end \<le> func_end then
        Inr (int_of_diff (func_start - val_start), 0, int_of_diff (val_end - func_start))
      else if val_start \<ge> func_start \<and> val_end > func_end then
        Inr (0, int_of_diff (val_start - func_start), int_of_diff (func_end - val_start))
      else if val_start \<ge> func_start \<and> val_end \<le> func_end then
        Inr (0, int_of_diff (val_start - func_start), vsize)
      else if val_start < func_start \<and> val_end > func_end then
        Inr (int_of_diff (func_start - val_start), 0, int_of_diff (func_end - func_start))
      else Inl (Panic ''Missed a case for checkFunctional''))"

definition mark_valid :: "bool list \<Rightarrow> nat \<Rightarrow> nat \<Rightarrow> bool list" where
  "mark_valid bv off n =
     take off bv @ replicate (min n (length bv - off)) True @ drop (off + n) bv"

definition checkFunctional ::
  "Packet \<Rightarrow> addr \<Rightarrow> bool \<Rightarrow> int \<Rightarrow> byte list option \<Rightarrow>
     (bool \<times> Packet \<times> byte list option) result" where
  "checkFunctional p a is_secure vsize data =
     rbind (getAddr p) (\<lambda>func_start.
     rbind (getSize p) (\<lambda>psize.
     let func_end = func_start + of_nat psize - 1;
         val_start = a;
         val_end = val_start + of_int vsize - 1
     in if is_secure \<noteq> pkt_isSecure p \<or> func_start > val_end \<or> val_start > func_end then
          Inr (False, p, data)
        else if isPrint p then
          rbind (assertr (data = None) ''!_data'') (\<lambda>_. Inr (False, p, data))
        else case data of
          None \<Rightarrow> Inr (False, p, data)
        | Some vd \<Rightarrow>
            let offset = int_of_diff (func_start - val_start)
            in if isRead p then
                 rbind (getPtr p) (\<lambda>pd.
                 if func_start \<ge> val_start \<and> func_end \<le> val_end then
                   rbind (memcpy_bytes pd 0 vd offset (int psize)) (\<lambda>pd'.
                   Inr (True,
                        p\<lparr>pkt_data := Some pd',
                          bytesValid := (if bytesValid p = [] then replicate psize True
                                         else bytesValid p)\<rparr>, data))
                 else
                   rbind (partial_overlap func_start func_end val_start val_end vsize)
                     (\<lambda>(val_offset, func_offset, overlap_size).
                   rbind (memcpy_bytes pd func_offset vd val_offset overlap_size) (\<lambda>pd'.
                   let bv = (if bytesValid p = [] then replicate psize False else bytesValid p);
                       bv' = mark_valid bv (nat func_offset) (nat overlap_size);
                       all_bytes_valid =
                         (list_all id (take (nat func_offset) bv) \<and>
                          list_all id (drop (nat (func_offset + overlap_size)) (take psize bv')))
                   in Inr (all_bytes_valid,
                           p\<lparr>pkt_data := Some pd', bytesValid := bv'\<rparr>, data))))
               else if isWrite p then
                 rbind (getPtr p) (\<lambda>pd.
                 rbind (if offset \<ge> 0 then
                          memcpy_bytes vd offset pd 0
                            (uint (min func_end val_end - func_start + 1))
                        else
                          memcpy_bytes vd 0 pd (- offset)
                            (uint (min func_end val_end - val_start + 1))) (\<lambda>vd'.
                 Inr (False, p, Some vd')))
               else Inl (Panic ''Don't know how to handle command'')))"

definition checkFunctional_pkt :: "Packet \<Rightarrow> Packet \<Rightarrow> (bool \<times> Packet \<times> Packet) result" where
  "checkFunctional_pkt p other =
     rbind (getAddr other) (\<lambda>a.
     rbind (getSize other) (\<lambda>n.
     rbind (if hasData other then rbind (getPtr other) (\<lambda>d. Inr (Some d)) else Inr None) (\<lambda>d.
     rbind (checkFunctional p a (pkt_isSecure other) (int n) d) (\<lambda>(done, p', d').
     Inr (done, p', case d' of None \<Rightarrow> other
                    | Some bytes \<Rightarrow> other\<lparr>pkt_data := Some bytes\<rparr>)))))"

subsection \<open>Lemmas\<close>

lemma response_table:
  assumes "testCmdAttrib c NeedsResponse" "testCmdAttrib c IsRequest"
  shows "testCmdAttrib (responseCommand c) IsResponse \<and>
         \<not> testCmdAttrib (responseCommand c) IsRequest \<and>
         \<not> testCmdAttrib (responseCommand c) IsError \<and>
         (testCmdAttrib (responseCommand c) IsRead \<longleftrightarrow> testCmdAttrib c IsRead) \<and>
         (testCmdAttrib (responseCommand c) IsWrite \<longleftrightarrow> testCmdAttrib c IsWrite) \<and>
         (testCmdAttrib (responseCommand c) HasData \<longleftrightarrow> testCmdAttrib c IsRead) \<and>
         (testCmdAttrib (responseCommand c) NeedsExclusive \<longleftrightarrow> testCmdAttrib c NeedsExclusive)"
  using assms by (cases c) (simp_all add: cmd_defs)

lemma request_xor_response: "c \<noteq> InvalidCmd \<Longrightarrow> testCmdAttrib c IsRequest \<longleftrightarrow> \<not> testCmdAttrib c IsResponse"
  by (cases c) (simp_all add: cmd_defs)

lemma no_response_iff: "responseCommand c = InvalidCmd \<longleftrightarrow> \<not> testCmdAttrib c NeedsResponse \<or> c = AcquireResp"
  by (cases c) (simp_all add: cmd_defs)

lemma memcpy_bytes_ok:
  "(\<exists>r. memcpy_bytes dst d src s n = Inr r) \<longleftrightarrow>
   0 \<le> n \<and> 0 \<le> d \<and> 0 \<le> s \<and> d + n \<le> int (length dst) \<and> s + n \<le> int (length src)"
  by (simp add: memcpy_bytes_def)

lemma memcpy_bytes_length: "memcpy_bytes dst d src s n = Inr r \<Longrightarrow> length r = length dst"
  by (auto simp: memcpy_bytes_def nat_add_distrib split: if_splits)

lemma memcpy_bytes_nth:
  assumes "memcpy_bytes dst d src s n = Inr r" "i < length dst"
  shows "r ! i = (if d \<le> int i \<and> int i < d + n then src ! nat (s + int i - d) else dst ! i)"
proof -
  have c: "0 \<le> n" "0 \<le> d" "0 \<le> s" "d + n \<le> int (length dst)" "s + n \<le> int (length src)"
    and r: "r = take (nat d) dst @ take (nat n) (drop (nat s) src) @ drop (nat (d + n)) dst"
    using assms(1) by (auto simp: memcpy_bytes_def split: if_splits)
  obtain d' n' s' where e: "d = int d'" "n = int n'" "s = int s'"
    using c by (metis nonneg_int_cases)
  have len: "length (take n' (drop s' src)) = n'" "d' + n' \<le> length dst" "length (take d' dst) = d'"
    using c by (auto simp: e)
  consider "i < d'" | "d' \<le> i" "i < d' + n'" | "d' + n' \<le> i" by linarith
  then show ?thesis
  proof cases
    case 2
    then have "nat (s + int i - d) = s' + (i - d')" by (simp add: e)
    then show ?thesis using 2 len c by (auto simp: r e nth_append nat_int_add)
  next
    case 3
    then show ?thesis
      using len assms(2) by (auto simp: r e nth_append nat_int_add simp del: length_take)
  qed (use len assms(2) in \<open>auto simp: r e nth_append\<close>)
qed

text \<open>The hypotheses under which a functional access is checked: a packet with a valid address,
  size and data, and a value of that many bytes, neither of which wraps around the address
  space nor exceeds an \<^verbatim>\<open>int\<close>.\<close>

definition pkt_ok :: "Packet \<Rightarrow> bool" where
  "pkt_ok p \<longleftrightarrow> isSet (pkt_flags p) VALID_ADDR \<and> isSet (pkt_flags p) VALID_SIZE \<and>
     isSet (pkt_flags p) (STATIC_DATA OR DYNAMIC_DATA) \<and>
     (\<exists>d. pkt_data p = Some d \<and> length d = pkt_size p) \<and>
     0 < pkt_size p \<and> pkt_size p < 2 ^ 31 \<and> unat (pkt_addr p) + pkt_size p < 2 ^ 64"

definition val_ok :: "addr \<Rightarrow> byte list \<Rightarrow> bool" where
  "val_ok a vd \<longleftrightarrow> vd \<noteq> [] \<and> length vd < 2 ^ 31 \<and> unat a + length vd < 2 ^ 64"

lemma uint_end:
  assumes "0 < n" "unat a + n < 2 ^ 64"
  shows "uint (a + of_nat n - 1 :: addr) = uint a + int n - 1"
proof -
  have "a + of_nat n - 1 = (of_nat (unat a + n - 1) :: addr)"
    using assms(1) by (simp add: of_nat_diff)
  moreover have small: "unat (of_nat k :: addr) = k" if "k < 2 ^ 64" for k
    using that by (simp add: unat_of_nat)
  ultimately have "unat (a + of_nat n - 1) = unat a + n - 1"
    using assms small [of "unat a + n - 1"] by simp
  then show ?thesis using assms(1) unfolding uint_nat by linarith
qed

lemma int_of_diff_eq:
  assumes "- (2 ^ 31) \<le> uint x - uint y" "uint x - uint y < 2 ^ 31"
  shows "int_of_diff (x - y) = uint x - uint y"
proof -
  have "uint (x - y) = take_bit 64 (uint x - uint y)"
    by (simp add: uint_word_ariths take_bit_eq_mod)
  then have "int_of_diff (x - y) = signed_take_bit 31 (take_bit 32 (take_bit 64 (uint x - uint y)))"
    by (simp add: int_of_diff_def sint_uint unsigned_ucast_eq del: take_bit_take_bit)
  also have "\<dots> = signed_take_bit 31 (uint x - uint y)"
    by (simp add: signed_take_bit_take_bit)
  also have "\<dots> = uint x - uint y"
    using assms by (simp add: signed_take_bit_int_eq_self)
  finally show ?thesis .
qed


text \<open>Copying the overlap of a value at \<open>F\<close> onto one at \<open>A\<close>, up to the last common address.\<close>

definition overlay :: "int \<Rightarrow> int \<Rightarrow> int \<Rightarrow> byte list \<Rightarrow> byte list \<Rightarrow> byte list result" where
  "overlay A F e vd pd =
     (if F - A \<ge> 0 then memcpy_bytes vd (F - A) pd 0 (e - F + 1)
      else memcpy_bytes vd 0 pd (- (F - A)) (e - A + 1))"

lemma overlay_ok:
  assumes "F \<le> e" "A \<le> e" "e \<le> F + int (length pd) - 1" "e \<le> A + int (length vd) - 1"
  shows "\<exists>r. overlay A F e vd pd = Inr r \<and> length r = length vd \<and>
    (\<forall>i < length vd.
       r ! i = (if F \<le> A + int i \<and> A + int i \<le> e then pd ! nat (A + int i - F) else vd ! i))"
proof (cases "F - A \<ge> 0")
  case True
  then obtain r where r: "memcpy_bytes vd (F - A) pd 0 (e - F + 1) = Inr r"
    using assms memcpy_bytes_ok [of vd "F - A" pd 0 "e - F + 1"] by auto
  have "r ! i = (if F \<le> A + int i \<and> A + int i \<le> e then pd ! nat (A + int i - F) else vd ! i)"
    if "i < length vd" for i
    using memcpy_bytes_nth [OF r that] by (auto simp: algebra_simps)
  then show ?thesis using r memcpy_bytes_length [OF r] True by (simp add: overlay_def)
next
  case False
  then obtain r where r: "memcpy_bytes vd 0 pd (- (F - A)) (e - A + 1) = Inr r"
    using assms memcpy_bytes_ok [of vd 0 pd "- (F - A)" "e - A + 1"] by auto
  have "r ! i = (if F \<le> A + int i \<and> A + int i \<le> e then pd ! nat (A + int i - F) else vd ! i)"
    if "i < length vd" for i
    using memcpy_bytes_nth [OF r that] False by (auto simp: algebra_simps)
  then show ?thesis using r memcpy_bytes_length [OF r] False by (simp add: overlay_def)
qed

lemma uint_diff_Suc: "uint b \<le> uint c \<Longrightarrow> uint c - uint b + 1 < 2 ^ 64 \<Longrightarrow>
  uint (c - b + 1 :: addr) = uint c - uint b + 1"
  by (simp add: uint_word_ariths mod_simps)

lemma checkFunctional_write_overlay:
  assumes p: "pkt_ok p" "pkt_data p = Some pd" and v: "val_ok a vd"
    and w: "isWrite p" "\<not> isRead p" "\<not> isPrint p"
    and ov: "uint (pkt_addr p) < uint a + int (length vd)" "uint a < uint (pkt_addr p) + int (pkt_size p)"
  shows "checkFunctional p a (pkt_isSecure p) (int (length vd)) (Some vd) =
    rbind (overlay (uint a) (uint (pkt_addr p))
      (min (uint (pkt_addr p) + int (pkt_size p) - 1) (uint a + int (length vd) - 1)) vd pd)
      (\<lambda>vd'. Inr (False, p, Some vd'))"
proof -
  let ?fs = "pkt_addr p" and ?n = "pkt_size p" and ?m = "length vd"
  let ?fe = "?fs + of_nat ?n - 1" and ?ve = "a + of_nat ?m - 1"
  have ue: "uint ?fe = uint ?fs + int ?n - 1" "uint ?ve = uint a + int ?m - 1"
    using p v by (auto simp: pkt_ok_def val_ok_def intro!: uint_end)
  have ub: "int ?n < 2 ^ 31" "int ?m < 2 ^ 31" "0 < ?n" "0 < ?m"
    using p v by (auto simp: pkt_ok_def val_ok_def)
  have off: "int_of_diff (?fs - a) = uint ?fs - uint a"
    using ov ub by (intro int_of_diff_eq) auto
  have mn: "uint (min ?fe ?ve) = min (uint ?fe) (uint ?ve)"
    by (auto simp: min_def word_le_def)
  have n1: "uint (min ?fe ?ve - ?fs + 1) = min (uint ?fe) (uint ?ve) - uint ?fs + 1"
    "uint (min ?fe ?ve - a + 1) = min (uint ?fe) (uint ?ve) - uint a + 1"
    using ov ue ub by (simp_all add: uint_diff_Suc mn)
  have "\<not> (?fs > ?ve \<or> a > ?fe)" using ov ue by (auto simp: word_less_alt)
  then show ?thesis
    using p w n1 off ue
    by (auto simp: checkFunctional_def getAddr_def getSize_def getPtr_def pkt_ok_def Let_def overlay_def)
qed

lemma checkFunctional_disjoint:
  assumes "pkt_ok p" "val_ok a vd"
    and "uint a + int (length vd) \<le> uint (pkt_addr p) \<or> uint (pkt_addr p) + int (pkt_size p) \<le> uint a"
  shows "checkFunctional p a s (int (length vd)) (Some vd) = Inr (False, p, Some vd)"
proof -
  have "uint (pkt_addr p + of_nat (pkt_size p) - 1) = uint (pkt_addr p) + int (pkt_size p) - 1"
    "uint (a + of_nat (length vd) - 1) = uint a + int (length vd) - 1"
    using assms(1,2) by (auto simp: pkt_ok_def val_ok_def intro!: uint_end)
  then show ?thesis
    using assms(1,3) by (auto simp: checkFunctional_def getAddr_def getSize_def pkt_ok_def Let_def word_less_alt)
qed

lemma checkFunctional_write_ok:
  assumes p: "pkt_ok p" "pkt_data p = Some pd" and v: "val_ok a vd"
    and w: "isWrite p" "\<not> isRead p" "\<not> isPrint p"
  shows "\<exists>vd'. checkFunctional p a (pkt_isSecure p) (int (length vd)) (Some vd) =
             Inr (False, p, Some vd') \<and> length vd' = length vd \<and>
    (\<forall>i < length vd. vd' ! i =
       (if unat (pkt_addr p) \<le> unat a + i \<and> unat a + i < unat (pkt_addr p) + pkt_size p
        then pd ! (unat a + i - unat (pkt_addr p)) else vd ! i))"
proof (cases "uint (pkt_addr p) < uint a + int (length vd) \<and> uint a < uint (pkt_addr p) + int (pkt_size p)")
  case True
  let ?e = "min (uint (pkt_addr p) + int (pkt_size p) - 1) (uint a + int (length vd) - 1)"
  have "length pd = pkt_size p" "0 < pkt_size p" "0 < length vd"
    using p v by (auto simp: pkt_ok_def val_ok_def)
  then have pre: "uint (pkt_addr p) \<le> ?e" "uint a \<le> ?e"
      "?e \<le> uint (pkt_addr p) + int (length pd) - 1" "?e \<le> uint a + int (length vd) - 1"
    using True by auto
  obtain r where r: "overlay (uint a) (uint (pkt_addr p)) ?e vd pd = Inr r" "length r = length vd"
    "\<And>i. i < length vd \<Longrightarrow> r ! i = (if uint (pkt_addr p) \<le> uint a + int i \<and> uint a + int i \<le> ?e
        then pd ! nat (uint a + int i - uint (pkt_addr p)) else vd ! i)"
    using overlay_ok [OF pre] by blast
  have c: "uint (pkt_addr p) \<le> uint a + int i \<and> uint a + int i \<le> ?e \<longleftrightarrow>
      unat (pkt_addr p) \<le> unat a + i \<and> unat a + i < unat (pkt_addr p) + pkt_size p"
    if "i < length vd" for i
    using that unfolding uint_nat by linarith
  have ix: "nat (uint a + int i - uint (pkt_addr p)) = unat a + i - unat (pkt_addr p)" for i
    unfolding uint_nat by arith
  have "checkFunctional p a (pkt_isSecure p) (int (length vd)) (Some vd) = Inr (False, p, Some r)"
    using checkFunctional_write_overlay [OF p v w] True r(1) by simp
  then show ?thesis
    using r(2,3) unfolding ix by (auto simp only: c)
next
  case False
  then have "checkFunctional p a (pkt_isSecure p) (int (length vd)) (Some vd) = Inr (False, p, Some vd)"
    using checkFunctional_disjoint [OF p(1) v] by auto
  moreover have "\<not> (unat (pkt_addr p) \<le> unat a + i \<and> unat a + i < unat (pkt_addr p) + pkt_size p)"
    if "i < length vd" for i
    using False that unfolding uint_nat by linarith
  ultimately show ?thesis by auto
qed

lemma checkFunctional_read_ok:
  assumes p: "pkt_ok p" and v: "val_ok a vd" and r: "isRead p" "\<not> isPrint p"
    and cov: "unat a \<le> unat (pkt_addr p)" "unat (pkt_addr p) + pkt_size p \<le> unat a + length vd"
  shows "\<exists>p'. checkFunctional p a (pkt_isSecure p) (int (length vd)) (Some vd) =
             Inr (True, p', Some vd) \<and>
           pkt_data p' = Some (take (pkt_size p) (drop (unat (pkt_addr p) - unat a) vd))"
proof -
  let ?fs = "pkt_addr p" and ?n = "pkt_size p" and ?m = "length vd"
  let ?fe = "?fs + of_nat ?n - 1" and ?ve = "a + of_nat ?m - 1"
  have ue: "uint ?fe = uint ?fs + int ?n - 1" "uint ?ve = uint a + int ?m - 1"
    using p v by (auto simp: pkt_ok_def val_ok_def intro!: uint_end)
  have ub: "int ?n < 2 ^ 31" "int ?m < 2 ^ 31" "0 < ?n"
    using p v by (auto simp: pkt_ok_def val_ok_def)
  have cv: "uint a \<le> uint ?fs" "uint ?fs + int ?n \<le> uint a + int ?m"
    using cov unfolding uint_nat by linarith+
  have off: "int_of_diff (?fs - a) = uint ?fs - uint a"
    using cv ub by (intro int_of_diff_eq) auto
  obtain pd where pd: "pkt_data p = Some pd" "length pd = ?n" using p by (auto simp: pkt_ok_def)
  have k: "nat (uint ?fs - uint a) = unat ?fs - unat a" unfolding uint_nat by arith
  have "?fs \<ge> a" "?fe \<le> ?ve" "\<not> (?fs > ?ve \<or> a > ?fe)"
    using cv ue ub by (auto simp: word_less_alt word_le_def)
  then have "checkFunctional p a (pkt_isSecure p) (int ?m) (Some vd) =
     Inr (True, p\<lparr>pkt_data := Some (take ?n (drop (unat ?fs - unat a) vd)),
        bytesValid := (if bytesValid p = [] then replicate ?n True else bytesValid p)\<rparr>, Some vd)"
    using p r off cv pd k
    by (auto simp: checkFunctional_def getAddr_def getSize_def getPtr_def pkt_ok_def Let_def memcpy_bytes_def)
  then show ?thesis by simp
qed

subsection \<open>Properties\<close>

text \<open>A request that needs a response turns into a response: it is no longer a request, is
  not an error and never express, carries data exactly when the request was a read, is a write
  exactly when the request was, and keeps address, size, payload and sender states.\<close>

theorem makeResponse_matches:
  assumes "needsResponse p" "isRequest p"
  shows "\<exists>q. makeResponse p = Inr q \<and> isResponse q \<and> \<not> isRequest q \<and> \<not> isError q \<and>
           (hasData q \<longleftrightarrow> isRead p) \<and> (isRead q \<longleftrightarrow> isRead p) \<and> (isWrite q \<longleftrightarrow> isWrite p) \<and>
           (needsExclusive q \<longleftrightarrow> needsExclusive p) \<and> \<not> isExpressSnoop q \<and>
           pkt_addr q = pkt_addr p \<and> pkt_size q = pkt_size p \<and> pkt_data q = pkt_data p \<and>
           senderState q = senderState p \<and> pkt_req q = pkt_req p"
  using assms response_table [of "pkt_cmd p"]
  by (simp add: makeResponse_def needsResponse_def isRequest_def isResponse_def isError_def
      hasData_def isRead_def isWrite_def needsExclusive_def isExpressSnoop_def)

theorem makeResponse_matches_witness:
  "\<exists>q. makeResponse (createRead (phys_request 0x1000 64 0 0 5)) = Inr q \<and> isResponse q \<and> hasData q"
  using makeResponse_matches [of "createRead (phys_request 0x1000 64 0 0 5)"]
  by (auto simp: createRead_def new_packet_def makeReadCmd_def needsResponse_def isRequest_def
      isRead_def cmd_defs Let_def req_isLLSC_def req_isPrefetch_def phys_request_def setPhys_def
      empty_request_def isSet_def setFlag_def clearFlags_def req_flag_defs)

text \<open>Of all commands that are responses, the acquire response alone is marked as needing a
  response of its own, and the table has none to give it.\<close>

theorem acquire_response_needs_response:
  "testCmdAttrib c IsResponse \<and> testCmdAttrib c NeedsResponse \<longleftrightarrow> c = AcquireResp \<and> responseCommand c = InvalidCmd"
  by (cases c) (simp_all add: cmd_defs)

text \<open>C25: a functional write that meets a value in flight overwrites exactly the bytes both have
  in common, whatever their relative position, and a functional read that the value covers is
  then completed with the written bytes where they were written and the old ones elsewhere.\<close>

theorem functional_write_read:
  assumes "pkt_ok w" "pkt_data w = Some pd" "isWrite w" "\<not> isRead w" "\<not> isPrint w"
    and "pkt_ok r" "isRead r" "\<not> isPrint r" "pkt_isSecure r = pkt_isSecure w"
    and "val_ok a vd"
    and "unat a \<le> unat (pkt_addr r)" "unat (pkt_addr r) + pkt_size r \<le> unat a + length vd"
  shows "\<exists>vd' r' rd.
    checkFunctional w a (pkt_isSecure w) (int (length vd)) (Some vd) = Inr (False, w, Some vd') \<and>
    checkFunctional r a (pkt_isSecure w) (int (length vd)) (Some vd') = Inr (True, r', Some vd') \<and>
    pkt_data r' = Some rd \<and> length rd = pkt_size r \<and>
    (\<forall>i < pkt_size r. let x = unat (pkt_addr r) + i in rd ! i =
       (if unat (pkt_addr w) \<le> x \<and> x < unat (pkt_addr w) + pkt_size w
        then pd ! (x - unat (pkt_addr w)) else vd ! (x - unat a)))"
proof -
  obtain vd' where vd': "checkFunctional w a (pkt_isSecure w) (int (length vd)) (Some vd) =
      Inr (False, w, Some vd')" "length vd' = length vd"
    "\<forall>i < length vd. vd' ! i =
       (if unat (pkt_addr w) \<le> unat a + i \<and> unat a + i < unat (pkt_addr w) + pkt_size w
        then pd ! (unat a + i - unat (pkt_addr w)) else vd ! i)"
    using checkFunctional_write_ok [OF assms(1,2,10,3,4,5)] by blast
  have v: "val_ok a vd'" using assms(10) vd'(2) by (auto simp: val_ok_def)
  obtain r' where r': "checkFunctional r a (pkt_isSecure w) (int (length vd)) (Some vd') =
      Inr (True, r', Some vd')"
    "pkt_data r' = Some (take (pkt_size r) (drop (unat (pkt_addr r) - unat a) vd'))"
    using checkFunctional_read_ok [OF assms(6) v assms(7,8)] assms(9,11,12) vd'(2) by auto
  show ?thesis
    using vd' r' assms(11,12) by (auto simp: Let_def)
qed

definition demo_write :: Packet where
  "demo_write = (createWrite (phys_request 0x1002 2 0 0 0))
     \<lparr>pkt_data := Some [0xAA, 0xBB], pkt_flags := VALID_ADDR OR VALID_SIZE OR STATIC_DATA\<rparr>"

definition demo_read :: Packet where
  "demo_read = (createRead (phys_request 0x1001 3 0 0 0))
     \<lparr>pkt_data := Some [0, 0, 0], pkt_flags := VALID_ADDR OR VALID_SIZE OR STATIC_DATA\<rparr>"

lemmas demo_defs = demo_write_def demo_read_def createWrite_def createRead_def new_packet_def
  makeWriteCmd_def makeReadCmd_def cmd_defs Let_def req_isLLSC_def req_isPrefetch_def
  req_isSwap_def phys_request_def setPhys_def empty_request_def isSet_def setFlag_def
  clearFlags_def req_flag_defs pkt_flag_defs private_flag_defs hasPaddr_def hasSize_def
  req_isSecure_def isRead_def isWrite_def isPrint_def

theorem functional_write_read_witness:
  "\<exists>r' rd. checkFunctional demo_read 0x1000 False 4 (Some [1, 2, 0xAA, 0xBB]) =
     Inr (True, r', Some [1, 2, 0xAA, 0xBB]) \<and> pkt_data r' = Some rd \<and> rd ! 0 = 2 \<and> rd ! 1 = 0xAA"
proof -
  have w: "pkt_ok demo_write" "pkt_data demo_write = Some [0xAA, 0xBB]" "isWrite demo_write"
      "\<not> isRead demo_write" "\<not> isPrint demo_write"
    and r: "pkt_ok demo_read" "isRead demo_read" "\<not> isPrint demo_read"
      "pkt_isSecure demo_read = pkt_isSecure demo_write"
    and v: "val_ok 0x1000 [1, 2, 3, 4]" 
      "unat (0x1000::addr) \<le> unat (pkt_addr demo_read)"
      "unat (pkt_addr demo_read) + pkt_size demo_read \<le> unat (0x1000::addr) + length [1, 2, 3, 4::byte]"
    and d: "pkt_addr demo_read = 0x1001" "pkt_size demo_read = 3" "pkt_addr demo_write = 0x1002"
      "pkt_size demo_write = 2" "pkt_isSecure demo_write = False"
    by (simp_all add: pkt_ok_def val_ok_def demo_defs)
  obtain vd' r' rd where *: "checkFunctional demo_write 0x1000 False 4 (Some [1, 2, 3, 4]) =
      Inr (False, demo_write, Some vd')"
    "checkFunctional demo_read 0x1000 False 4 (Some vd') = Inr (True, r', Some vd')"
    "pkt_data r' = Some rd"
    and nth: "\<forall>i < pkt_size demo_read. let x = unat (pkt_addr demo_read) + i in rd ! i =
       (if unat (pkt_addr demo_write) \<le> x \<and> x < unat (pkt_addr demo_write) + pkt_size demo_write
        then [0xAA, 0xBB] ! (x - unat (pkt_addr demo_write)) else [1, 2, 3, 4] ! (x - unat (0x1000::addr)))"
    using functional_write_read [OF w r v] d(5) by auto
  have "vd' = [1, 2, 0xAA, 0xBB]"
    using *(1) by (simp add: checkFunctional_def getAddr_def getSize_def getPtr_def demo_defs
        int_of_diff_def memcpy_bytes_def min_def)
  moreover have "rd ! 0 = 2" "rd ! 1 = 0xAA"
    using nth [rule_format, of 0] nth [rule_format, of 1] d by (simp_all add: Let_def)
  ultimately show ?thesis using * by blast
qed

text \<open>When a functional read of eight bytes meets a value that covers only its upper half, the
  last common byte is neither copied nor marked valid: the overlap is one byte short.\<close>

theorem checkFunctional_partial_one_short:
  "\<exists>p'. checkFunctional (demo_read\<lparr>pkt_addr := 0x1000, pkt_size := 8, pkt_data := Some (replicate 8 0)\<rparr>)
       0x1004 False 8 (Some [1, 2, 3, 4, 5, 6, 7, 8]) = Inr (False, p', Some [1, 2, 3, 4, 5, 6, 7, 8]) \<and>
     pkt_data p' = Some [0, 0, 0, 0, 1, 2, 3, 0] \<and>
     bytesValid p' = [False, False, False, False, True, True, True, False]"
  by (simp add: checkFunctional_def getAddr_def getSize_def getPtr_def demo_defs
        int_of_diff_def memcpy_bytes_def partial_overlap_def mark_valid_def)
     (simp add: numeral_eq_Suc)

end
