(* ===== verification/Row_Ops.thy ===== *)
theory Row_Ops
  imports Mem_Packet
begin

text \<open>
  The row-wide operations computed in the backing store, the row-operation branch of
  \<^verbatim>\<open>AbstractMemory::access\<close> in \<^verbatim>\<open>gem5/src/mem/abstract_mem.cc\<close>.  The store is a function from
  offsets to bytes with a size; 64-bit loads and stores are little-endian, as on the host, and
  fault outside the store.  Each loop of the source is a recursion on the number of words that
  remain; the source runs it for \<open>ROW_SIZE div 8\<close> words.
\<close>

type_synonym store = "nat \<Rightarrow> byte"

fun join_bytes :: "byte list \<Rightarrow> 64 word" where
  "join_bytes [] = 0"
| "join_bytes (b # bs) = ucast b OR push_bit 8 (join_bytes bs)"

definition read64 :: "store \<Rightarrow> nat \<Rightarrow> 64 word" where
  "read64 m off = join_bytes (map (\<lambda>i. m (off + i)) [0..<8])"

definition write64 :: "store \<Rightarrow> nat \<Rightarrow> 64 word \<Rightarrow> store" where
  "write64 m off w =
     (\<lambda>j. if off \<le> j \<and> j < off + 8 then ucast (drop_bit (8 * (j - off)) w) else m j)"

definition load64 :: "nat \<Rightarrow> store \<Rightarrow> nat \<Rightarrow> 64 word result" where
  "load64 N m off = (if off + 8 \<le> N then Inr (read64 m off) else Inl HostFault)"

definition store64 :: "nat \<Rightarrow> store \<Rightarrow> nat \<Rightarrow> 64 word \<Rightarrow> store result" where
  "store64 N m off w = (if off + 8 \<le> N then Inr (write64 m off w) else Inl HostFault)"

subsection \<open>The loops\<close>

text \<open>\<^verbatim>\<open>*dest++ = *src1++ op *src2++\<close> and \<^verbatim>\<open>*dest++ = op *src1++\<close>.\<close>

fun row_binary ::
  "(64 word \<Rightarrow> 64 word \<Rightarrow> 64 word) \<Rightarrow> nat \<Rightarrow> nat \<Rightarrow> nat \<Rightarrow> nat \<Rightarrow> nat \<Rightarrow> store \<Rightarrow> store result" where
  "row_binary f N 0 dest src1 src2 m = Inr m"
| "row_binary f N (Suc n) dest src1 src2 m =
     rbind (load64 N m src1) (\<lambda>x.
     rbind (load64 N m src2) (\<lambda>y.
     rbind (store64 N m dest (f x y)) (\<lambda>m'.
     row_binary f N n (dest + 8) (src1 + 8) (src2 + 8) m')))"

fun row_unary ::
  "(64 word \<Rightarrow> 64 word) \<Rightarrow> nat \<Rightarrow> nat \<Rightarrow> nat \<Rightarrow> nat \<Rightarrow> store \<Rightarrow> store result" where
  "row_unary f N 0 dest src1 m = Inr m"
| "row_unary f N (Suc n) dest src1 m =
     rbind (load64 N m src1) (\<lambda>x.
     rbind (store64 N m dest (f x)) (\<lambda>m'.
     row_unary f N n (dest + 8) (src1 + 8) m'))"

text \<open>The shifts keep the bit that crosses a word boundary in \<^verbatim>\<open>shift_last\<close>, which they take from
  \<^verbatim>\<open>*src1\<close> after the store through \<^verbatim>\<open>dest\<close>.\<close>

fun row_ls :: "nat \<Rightarrow> nat \<Rightarrow> nat \<Rightarrow> nat \<Rightarrow> 64 word \<Rightarrow> store \<Rightarrow> store result" where
  "row_ls N 0 dest src1 shift_last m = Inr m"
| "row_ls N (Suc n) dest src1 shift_last m =
     rbind (load64 N m src1) (\<lambda>x.
     rbind (store64 N m dest (push_bit 1 x)) (\<lambda>m1.
     rbind (load64 N m1 dest) (\<lambda>d.
     rbind (store64 N m1 dest ((d AND 0xFFFFFFFFFFFFFFFE) OR shift_last)) (\<lambda>m2.
     rbind (load64 N m2 src1) (\<lambda>x'.
     row_ls N n (dest + 8) (src1 + 8) (if drop_bit 63 x' \<noteq> 0 then 1 else 0) m2)))))"

text \<open>The right shift first moves both pointers behind the row and then walks down:
  \<open>dest\<close> and \<open>src1\<close> are one past the word of the next iteration.\<close>

fun row_rs :: "nat \<Rightarrow> nat \<Rightarrow> nat \<Rightarrow> nat \<Rightarrow> 64 word \<Rightarrow> store \<Rightarrow> store result" where
  "row_rs N 0 dest src1 shift_last m = Inr m"
| "row_rs N (Suc n) dest src1 shift_last m =
     rbind (load64 N m (src1 - 8)) (\<lambda>x.
     rbind (store64 N m (dest - 8) (drop_bit 1 x)) (\<lambda>m1.
     rbind (load64 N m1 (dest - 8)) (\<lambda>d.
     rbind (store64 N m1 (dest - 8)
              ((d AND 0x7FFFFFFFFFFFFFFF) OR push_bit 63 shift_last)) (\<lambda>m2.
     rbind (load64 N m2 (src1 - 8)) (\<lambda>x'.
     row_rs N n (dest - 8) (src1 - 8) (if x' AND 1 \<noteq> 0 then 1 else 0) m2)))))"

text \<open>The switch over the operation, for rows of \<open>n\<close> words.\<close>

definition row_op :: "RowOp \<Rightarrow> nat \<Rightarrow> nat \<Rightarrow> nat \<Rightarrow> nat \<Rightarrow> nat \<Rightarrow> store \<Rightarrow> store result" where
  "row_op op N n dest src1 src2 m =
     (case op of
        ROWAND \<Rightarrow> row_binary (\<lambda>x y. x AND y) N n dest src1 src2 m
      | ROWOR \<Rightarrow> row_binary (\<lambda>x y. x OR y) N n dest src1 src2 m
      | ROWNOT \<Rightarrow> row_unary (\<lambda>x. NOT x) N n dest src1 m
      | ROWXOR \<Rightarrow> row_binary (\<lambda>x y. x XOR y) N n dest src1 src2 m
      | ROWAP \<Rightarrow> Inr m
      | ROWAAP \<Rightarrow> row_unary (\<lambda>x. x) N n dest src1 m
      | ROWLS \<Rightarrow> row_ls N n dest src1 0 m
      | ROWRS \<Rightarrow> row_rs N n (dest + 8 * n) (src1 + 8 * n) 0 m)"

subsection \<open>Words in the store\<close>

lemma bit_join_bytes:
  "bit (join_bytes bs) k \<longleftrightarrow> k < 64 \<and> k div 8 < length bs \<and> bit (bs ! (k div 8)) (k mod 8)"
proof (induction bs arbitrary: k)
  case (Cons b bs)
  show ?case
  proof (cases "k < 8")
    case True
    then show ?thesis by (simp add: bit_simps)
  next
    case False
    then have "k div 8 = Suc ((k - 8) div 8)" "k mod 8 = (k - 8) mod 8"
      by (simp_all add: le_div_geq le_mod_geq)
    moreover have "\<not> bit b k" using False bit_imp_le_length [of b k] by auto
    ultimately show ?thesis using False Cons.IH [of "k - 8"] by (auto simp: bit_simps)
  qed
qed simp

lemma bit_read64: "bit (read64 m off) k \<longleftrightarrow> k < 64 \<and> bit (m (off + k div 8)) (k mod 8)"
  by (auto simp: read64_def bit_join_bytes)

lemma write64_nth:
  "write64 m off w j = (if off \<le> j \<and> j < off + 8 then ucast (drop_bit (8 * (j - off)) w) else m j)"
  by (simp add: write64_def)

lemma read64_write64_same [simp]: "read64 (write64 m off w) off = w"
proof (rule bit_word_eqI)
  fix k assume "k < LENGTH(64)"
  then show "bit (read64 (write64 m off w) off) k \<longleftrightarrow> bit w k"
    by (auto simp: bit_read64 write64_nth bit_simps)
qed

lemma read64_write64_other [simp]:
  "off + 8 \<le> off' \<or> off' + 8 \<le> off \<Longrightarrow> read64 (write64 m off w) off' = read64 m off'"
  by (rule bit_word_eqI) (auto simp: bit_read64 write64_nth)

lemma write64_outside [simp]: "j < off \<or> off + 8 \<le> j \<Longrightarrow> write64 m off w j = m j"
  by (auto simp: write64_def)

lemma read64_cong: "(\<And>j. off \<le> j \<Longrightarrow> j < off + 8 \<Longrightarrow> m j = m' j) \<Longrightarrow> read64 m off = read64 m' off"
  by (rule bit_word_eqI) (auto simp: bit_read64)

subsection \<open>What the loops compute\<close>

definition row_apart :: "nat \<Rightarrow> nat \<Rightarrow> nat \<Rightarrow> bool" where
  "row_apart n d s \<longleftrightarrow> d + 8 * n \<le> s \<or> s + 8 * n \<le> d"

definition same_outside :: "nat \<Rightarrow> nat \<Rightarrow> store \<Rightarrow> store \<Rightarrow> bool" where
  "same_outside n d m m' \<longleftrightarrow> (\<forall>j. j < d \<or> d + 8 * n \<le> j \<longrightarrow> m' j = m j)"

definition in_place :: "nat \<Rightarrow> nat \<Rightarrow> nat \<Rightarrow> bool" where
  "in_place n d s \<longleftrightarrow> d = s \<or> row_apart n d s"

lemma in_place_Suc: "in_place (Suc n) d s \<Longrightarrow> in_place n (d + 8) (s + 8) \<and> in_place n d s"
  by (auto simp: in_place_def row_apart_def)

lemma read_next:
  "in_place (Suc n) d s \<Longrightarrow> i < n \<Longrightarrow> read64 (write64 m d w) (s + 8 + 8 * i) = read64 m (s + 8 + 8 * i)"
  by (rule read64_write64_other) (auto simp: in_place_def row_apart_def)

lemma same_outside_trans_up:
  "same_outside n (d + 8) (write64 m d w) m' \<Longrightarrow> same_outside (Suc n) d m m' \<and> read64 m' d = w"
  by (auto simp: same_outside_def intro!: trans [OF read64_cong read64_write64_same])

lemmas access_simps = load64_def store64_def

lemma row_binary_ok:
  assumes "d + 8 * n \<le> N" "s1 + 8 * n \<le> N" "s2 + 8 * n \<le> N" "in_place n d s1" "in_place n d s2"
  shows "\<exists>m'. row_binary f N n d s1 s2 m = Inr m' \<and> same_outside n d m m' \<and>
           (\<forall>i < n. read64 m' (d + 8 * i) = f (read64 m (s1 + 8 * i)) (read64 m (s2 + 8 * i)))"
  using assms
proof (induction n arbitrary: d s1 s2 m)
  case 0
  then show ?case by (simp add: same_outside_def)
next
  case (Suc n)
  let ?m1 = "write64 m d (f (read64 m s1) (read64 m s2))"
  obtain m' where m': "row_binary f N n (d + 8) (s1 + 8) (s2 + 8) ?m1 = Inr m'"
      "same_outside n (d + 8) ?m1 m'"
      "\<forall>i < n. read64 m' (d + 8 + 8 * i) = f (read64 ?m1 (s1 + 8 + 8 * i)) (read64 ?m1 (s2 + 8 + 8 * i))"
    using Suc.IH [of "d + 8" "s1 + 8" "s2 + 8" ?m1] Suc.prems by (auto dest: in_place_Suc)
  have "row_binary f N (Suc n) d s1 s2 m = Inr m'"
    using m'(1) Suc.prems by (simp add: access_simps)
  moreover have "same_outside (Suc n) d m m'" "read64 m' d = f (read64 m s1) (read64 m s2)"
    using same_outside_trans_up [OF m'(2)] by auto
  moreover have "read64 m' (d + 8 * i) = f (read64 m (s1 + 8 * i)) (read64 m (s2 + 8 * i))"
    if "i < Suc n" for i
    using that m'(3) read_next [OF Suc.prems(4)] read_next [OF Suc.prems(5)] calculation(3)
    by (cases i) (simp_all add: add.assoc)
  ultimately show ?case by blast
qed

lemma row_unary_binary: "row_unary f N n d s m = row_binary (\<lambda>x _. f x) N n d s s m"
  by (induction n arbitrary: d s m) (simp_all add: rbind_def load64_def split: sum.splits)

lemma row_unary_ok:
  assumes "d + 8 * n \<le> N" "s + 8 * n \<le> N" "in_place n d s"
  shows "\<exists>m'. row_unary f N n d s m = Inr m' \<and> same_outside n d m m' \<and>
           (\<forall>i < n. read64 m' (d + 8 * i) = f (read64 m (s + 8 * i)))"
  using row_binary_ok [OF assms(1,2,2,3,3)] by (simp add: row_unary_binary)

definition carry_ls :: "bool \<Rightarrow> 64 word \<Rightarrow> 64 word" where
  "carry_ls same x = (if bit x (if same then 62 else 63) then 1 else 0)"

definition carry_rs :: "bool \<Rightarrow> 64 word \<Rightarrow> 64 word" where
  "carry_rs same x = (if bit x (if same then 1 else 0) then 1 else 0)"

lemma drop_bit_63: "drop_bit 63 (x :: 64 word) \<noteq> 0 \<longleftrightarrow> bit x 63"
proof
  assume "drop_bit 63 x \<noteq> 0"
  then obtain k where "bit (drop_bit 63 x) k" by (auto simp: bit_eq_iff)
  then show "bit x 63" using bit_imp_le_length [of x "63 + k"] by (simp add: bit_simps)
qed (auto simp: bit_eq_iff bit_simps intro: exI [of _ 0])

lemma ls_word: "(push_bit 1 x AND 0xFFFFFFFFFFFFFFFE) = push_bit 1 (x :: 64 word)"
proof -
  have "(0xFFFFFFFFFFFFFFFE :: 64 word) = NOT (mask 1)" by (simp add: mask_eq_exp_minus_1)
  then show ?thesis
    by (intro bit_word_eqI)
       (auto simp only: bit_and_iff bit_not_iff bit_mask_iff bit_push_bit_iff)
qed

lemma rs_word: "(drop_bit 1 x AND 0x7FFFFFFFFFFFFFFF) = drop_bit 1 (x :: 64 word)"
proof -
  have "(0x7FFFFFFFFFFFFFFF :: 64 word) = mask 63" by (simp add: mask_eq_exp_minus_1)
  then show ?thesis by (simp only:) (auto simp: bit_eq_iff bit_simps dest: bit_imp_le_length)
qed

lemma write64_write64 [simp]: "write64 (write64 m d v) d w = write64 m d w"
  by (auto simp: write64_def)

lemma ls_step:
  assumes "d + 8 \<le> N" "s + 8 \<le> N" "in_place (Suc n) d s" "c = 0 \<or> c = 1"
  shows "row_ls N (Suc n) d s c m =
    row_ls N n (d + 8) (s + 8) (carry_ls (d = s) (read64 m s))
      (write64 m d (push_bit 1 (read64 m s) OR c))"
proof -
  let ?x = "read64 m s" and ?w = "push_bit 1 (read64 m s) OR c"
  have r: "read64 (write64 m d ?w) s = (if d = s then ?w else ?x)"
    using assms(3) by (auto simp: in_place_def row_apart_def)
  have "bit ?w 63 \<longleftrightarrow> bit ?x 62"
    using assms(4) by (auto simp only: bit_or_iff bit_push_bit_iff bit_1_iff bit_0_eq) auto
  then have "(if drop_bit 63 (read64 (write64 m d ?w) s) \<noteq> 0 then 1 else 0) = carry_ls (d = s) ?x"
    unfolding r drop_bit_63 by (simp add: carry_ls_def)
  then show ?thesis
    using assms(1,2)
    by (simp only: row_ls.simps access_simps if_True rbind_simps ls_word
        read64_write64_same write64_write64)
qed

lemma and_1_iff: "(x :: 64 word) AND 1 \<noteq> 0 \<longleftrightarrow> bit x 0"
  by (simp add: and_one_eq bit_0 odd_iff_mod_2_eq_one)

lemma rs_step:
  assumes "d + 8 * Suc n \<le> N" "s + 8 * Suc n \<le> N" "in_place (Suc n) d s" "c = 0 \<or> c = 1"
  shows "row_rs N (Suc n) (d + 8 * Suc n) (s + 8 * Suc n) c m =
    row_rs N n (d + 8 * n) (s + 8 * n) (carry_rs (d = s) (read64 m (s + 8 * n)))
      (write64 m (d + 8 * n) (drop_bit 1 (read64 m (s + 8 * n)) OR push_bit 63 c))"
proof -
  let ?d = "d + 8 * n" and ?s = "s + 8 * n"
  let ?x = "read64 m ?s" and ?w = "drop_bit 1 (read64 m (s + 8 * n)) OR push_bit 63 c"
  have r: "read64 (write64 m ?d ?w) ?s = (if d = s then ?w else ?x)"
    using assms(3) by (auto simp: in_place_def row_apart_def)
  have "bit ?w 0 \<longleftrightarrow> bit ?x 1"
    by (simp add: bit_simps)
  then have "(if read64 (write64 m ?d ?w) ?s AND 1 \<noteq> 0 then 1 else 0) = carry_rs (d = s) ?x"
    unfolding r and_1_iff by (simp add: carry_rs_def)
  moreover have "d + 8 * Suc n - 8 = ?d" "s + 8 * Suc n - 8 = ?s" "?d + 8 \<le> N" "?s + 8 \<le> N"
    using assms(1,2) by simp_all
  ultimately show ?thesis
    by (simp only: row_rs.simps access_simps if_True rbind_simps rs_word
        read64_write64_same write64_write64)
qed

lemma carry_bool: "carry_ls e x = 0 \<or> carry_ls e x = 1" "carry_rs e x = 0 \<or> carry_rs e x = 1"
  by (simp_all add: carry_ls_def carry_rs_def)

lemma row_ls_ok:
  assumes "d + 8 * n \<le> N" "s + 8 * n \<le> N" "in_place n d s" "c = 0 \<or> c = 1"
  shows "\<exists>m'. row_ls N n d s c m = Inr m' \<and> same_outside n d m m' \<and>
           (\<forall>i < n. read64 m' (d + 8 * i) = push_bit 1 (read64 m (s + 8 * i)) OR
              (if i = 0 then c else carry_ls (d = s) (read64 m (s + 8 * (i - 1)))))"
  using assms
proof (induction n arbitrary: d s c m)
  case 0
  then show ?case by (simp add: same_outside_def)
next
  case (Suc n)
  let ?w = "push_bit 1 (read64 m s) OR c"
  let ?m1 = "write64 m d ?w"
  obtain m' where m': "row_ls N n (d + 8) (s + 8) (carry_ls (d = s) (read64 m s)) ?m1 = Inr m'"
      "same_outside n (d + 8) ?m1 m'"
      "\<forall>i < n. read64 m' (d + 8 + 8 * i) = push_bit 1 (read64 ?m1 (s + 8 + 8 * i)) OR
         (if i = 0 then carry_ls (d = s) (read64 m s)
          else carry_ls (d + 8 = s + 8) (read64 ?m1 (s + 8 + 8 * (i - 1))))"
    using Suc.IH [of "d + 8" "s + 8" "carry_ls (d = s) (read64 m s)" ?m1] Suc.prems carry_bool
    by (auto dest: in_place_Suc)
  have "row_ls N (Suc n) d s c m = Inr m'"
    using m'(1) Suc.prems by (subst ls_step) auto
  moreover have "same_outside (Suc n) d m m'" "read64 m' d = ?w"
    using same_outside_trans_up [OF m'(2)] by auto
  moreover have "read64 m' (d + 8 * i) = push_bit 1 (read64 m (s + 8 * i)) OR
              (if i = 0 then c else carry_ls (d = s) (read64 m (s + 8 * (i - 1))))"
    if "i < Suc n" for i
  proof (cases i)
    case (Suc k)
    then have "read64 m' (d + 8 * i) = push_bit 1 (read64 m (s + 8 * i)) OR
        (if k = 0 then carry_ls (d = s) (read64 m s)
          else carry_ls (d = s) (read64 ?m1 (s + 8 + 8 * (k - 1))))"
      using that m'(3) [rule_format, of k] read_next [OF Suc.prems(3), of k m ?w]
      by (simp add: add.assoc)
    then show ?thesis
      using that Suc read_next [OF Suc.prems(3), of "k - 1" m ?w] by (cases k) (simp_all add: add.assoc)
  qed (use calculation(3) in simp)
  ultimately show ?case by blast
qed

lemma same_outside_trans_down:
  "same_outside n d (write64 m (d + 8 * n) w) m' \<Longrightarrow>
   same_outside (Suc n) d m m' \<and> read64 m' (d + 8 * n) = w"
  by (auto simp: same_outside_def intro!: trans [OF read64_cong read64_write64_same])

lemma read_prev:
  "in_place (Suc n) d s \<Longrightarrow> i < n \<Longrightarrow> read64 (write64 m (d + 8 * n) w) (s + 8 * i) = read64 m (s + 8 * i)"
  by (rule read64_write64_other) (auto simp: in_place_def row_apart_def)

lemma row_rs_ok:
  assumes "d + 8 * n \<le> N" "s + 8 * n \<le> N" "in_place n d s" "c = 0 \<or> c = 1"
  shows "\<exists>m'. row_rs N n (d + 8 * n) (s + 8 * n) c m = Inr m' \<and> same_outside n d m m' \<and>
           (\<forall>i < n. read64 m' (d + 8 * i) = drop_bit 1 (read64 m (s + 8 * i)) OR
              push_bit 63 (if Suc i = n then c else carry_rs (d = s) (read64 m (s + 8 * Suc i))))"
  using assms
proof (induction n arbitrary: c m)
  case 0
  then show ?case by (simp add: same_outside_def)
next
  case (Suc n)
  let ?x = "read64 m (s + 8 * n)"
  let ?w = "drop_bit 1 ?x OR push_bit 63 c"
  let ?m1 = "write64 m (d + 8 * n) ?w"
  obtain m' where m': "row_rs N n (d + 8 * n) (s + 8 * n) (carry_rs (d = s) ?x) ?m1 = Inr m'"
      "same_outside n d ?m1 m'"
      "\<forall>i < n. read64 m' (d + 8 * i) = drop_bit 1 (read64 ?m1 (s + 8 * i)) OR
         push_bit 63 (if Suc i = n then carry_rs (d = s) ?x
           else carry_rs (d = s) (read64 ?m1 (s + 8 * Suc i)))"
    using Suc.IH [of "carry_rs (d = s) ?x" ?m1] Suc.prems carry_bool by (auto dest: in_place_Suc)
  have "row_rs N (Suc n) (d + 8 * Suc n) (s + 8 * Suc n) c m = Inr m'"
    using m'(1) rs_step [OF Suc.prems] by simp
  moreover have "same_outside (Suc n) d m m'" "read64 m' (d + 8 * n) = ?w"
    using same_outside_trans_down [OF m'(2)] by auto
  moreover have "read64 m' (d + 8 * i) = drop_bit 1 (read64 m (s + 8 * i)) OR
      push_bit 63 (if Suc i = Suc n then c else carry_rs (d = s) (read64 m (s + 8 * Suc i)))"
    if "i < Suc n" for i
  proof (cases "i = n")
    case False
    then have i: "i < n" using that by simp
    have "read64 ?m1 (s + 8 * i) = read64 m (s + 8 * i)"
      "Suc i \<noteq> n \<Longrightarrow> read64 ?m1 (s + 8 * Suc i) = read64 m (s + 8 * Suc i)"
      using i by (intro read_prev [OF Suc.prems(3)]; simp)+
    then show ?thesis
      using m'(3) [rule_format, OF i] i by (cases "Suc i = n") auto
  qed (use calculation(3) in simp)
  ultimately show ?case by blast
qed

subsection \<open>The contract of a row operation\<close>

definition row_at :: "store \<Rightarrow> nat \<Rightarrow> nat \<Rightarrow> 64 word" where
  "row_at m off i = read64 m (off + 8 * i)"

text \<open>The sources an operation reads, and the word it leaves in the destination.\<close>

definition row_sources :: "RowOp \<Rightarrow> nat \<Rightarrow> nat \<Rightarrow> nat list" where
  "row_sources op s1 s2 =
     (case op of ROWAND \<Rightarrow> [s1, s2] | ROWOR \<Rightarrow> [s1, s2] | ROWXOR \<Rightarrow> [s1, s2]
      | ROWAP \<Rightarrow> [] | _ \<Rightarrow> [s1])"

definition row_spec ::
  "RowOp \<Rightarrow> nat \<Rightarrow> (nat \<Rightarrow> 64 word) \<Rightarrow> (nat \<Rightarrow> 64 word) \<Rightarrow> (nat \<Rightarrow> 64 word) \<Rightarrow> nat \<Rightarrow> 64 word" where
  "row_spec op n rd r1 r2 i =
     (case op of
        ROWAND \<Rightarrow> r1 i AND r2 i
      | ROWOR \<Rightarrow> r1 i OR r2 i
      | ROWNOT \<Rightarrow> NOT (r1 i)
      | ROWXOR \<Rightarrow> r1 i XOR r2 i
      | ROWAP \<Rightarrow> rd i
      | ROWAAP \<Rightarrow> r1 i
      | ROWLS \<Rightarrow> push_bit 1 (r1 i) OR (if i \<noteq> 0 \<and> bit (r1 (i - 1)) 63 then 1 else 0)
      | ROWRS \<Rightarrow> drop_bit 1 (r1 i) OR push_bit 63 (if Suc i \<noteq> n \<and> bit (r1 (Suc i)) 0 then 1 else 0))"

locale row_operation =
  fixes run :: "nat \<Rightarrow> nat \<Rightarrow> nat \<Rightarrow> nat \<Rightarrow> nat \<Rightarrow> store \<Rightarrow> store result"
    and srcs :: "nat \<Rightarrow> nat \<Rightarrow> nat list"
    and spec :: "nat \<Rightarrow> (nat \<Rightarrow> 64 word) \<Rightarrow> (nat \<Rightarrow> 64 word) \<Rightarrow> (nat \<Rightarrow> 64 word) \<Rightarrow> nat \<Rightarrow> 64 word"
  assumes run_ok: "d + 8 * n \<le> N \<Longrightarrow> (\<And>s. s \<in> set (srcs s1 s2) \<Longrightarrow> s + 8 * n \<le> N \<and> row_apart n d s) \<Longrightarrow>
      \<exists>m'. run N n d s1 s2 m = Inr m' \<and> same_outside n d m m' \<and>
        (\<forall>i < n. row_at m' d i = spec n (row_at m d) (row_at m s1) (row_at m s2) i)"
    and spec_cong: "(\<And>i. i < n \<Longrightarrow> row_at m d i = row_at m' d i) \<Longrightarrow>
      (\<And>s i. s \<in> set (srcs s1 s2) \<Longrightarrow> i < n \<Longrightarrow> row_at m s i = row_at m' s i) \<Longrightarrow> i < n \<Longrightarrow>
      spec n (row_at m d) (row_at m s1) (row_at m s2) i =
      spec n (row_at m' d) (row_at m' s1) (row_at m' s2) i"
begin

lemma other_row_kept:
  assumes "run N n d s1 s2 m = Inr m'" "row_apart n d r" "i < n"
    and "d + 8 * n \<le> N" "\<And>s. s \<in> set (srcs s1 s2) \<Longrightarrow> s + 8 * n \<le> N \<and> row_apart n d s"
  shows "row_at m' r i = row_at m r i"
proof -
  have "same_outside n d m m'" using run_ok [OF assms(4), of s1 s2 m] assms(1,5) by auto
  then show ?thesis
    using assms(2,3) unfolding row_at_def
    by (intro read64_cong) (auto simp: same_outside_def row_apart_def)
qed

end

text \<open>Two operations, neither of which writes what the other one writes or reads, commute.\<close>

lemma byte_of_word: "m (off + k) = ucast (drop_bit (8 * k) (read64 m off))" if "k < 8"
proof (rule bit_word_eqI)
  fix i assume "i < LENGTH(8)"
  then show "bit (m (off + k)) i \<longleftrightarrow> bit (ucast (drop_bit (8 * k) (read64 m off)) :: byte) i"
    using that by (auto simp: bit_simps bit_read64 div_add1_eq)
qed

lemma row_bytes_eq:
  assumes "\<forall>i < n. row_at m d i = row_at m' d i" "d \<le> j" "j < d + 8 * n"
  shows "m j = m' j"
proof -
  let ?i = "(j - d) div 8" and ?k = "(j - d) mod 8"
  have j: "j = d + 8 * ?i + ?k" using assms(2) by simp
  have "?i < n" using assms(2,3) by (simp add: less_mult_imp_div_less mult.commute)
  then have "read64 m (d + 8 * ?i) = read64 m' (d + 8 * ?i)" using assms(1) by (simp add: row_at_def)
  then show ?thesis using byte_of_word [of ?k _ "d + 8 * ?i"] j by (metis mod_less_divisor zero_less_numeral)
qed

locale two_row_operations =
  a: row_operation runa srcsa speca + b: row_operation runb srcsb specb
  for runa srcsa speca runb srcsb specb
begin

lemma commute:
  assumes "da + 8 * n \<le> N" "\<And>s. s \<in> set (srcsa a1 a2) \<Longrightarrow> s + 8 * n \<le> N \<and> row_apart n da s \<and> row_apart n db s"
    and "db + 8 * n \<le> N" "\<And>s. s \<in> set (srcsb b1 b2) \<Longrightarrow> s + 8 * n \<le> N \<and> row_apart n db s \<and> row_apart n da s"
    and "row_apart n da db"
  shows "rbind (runa N n da a1 a2 m) (runb N n db b1 b2) = rbind (runb N n db b1 b2 m) (runa N n da a1 a2)"
proof -
  have pa: "da + 8 * n \<le> N" "\<And>s. s \<in> set (srcsa a1 a2) \<Longrightarrow> s + 8 * n \<le> N \<and> row_apart n da s"
    and pb: "db + 8 * n \<le> N" "\<And>s. s \<in> set (srcsb b1 b2) \<Longrightarrow> s + 8 * n \<le> N \<and> row_apart n db s"
    using assms(1-4) by auto
  have ba: "row_apart n db da" using assms(5) by (auto simp: row_apart_def)
  obtain ma mab where a: "runa N n da a1 a2 m = Inr ma" "same_outside n da m ma"
      "\<forall>i < n. row_at ma da i = speca n (row_at m da) (row_at m a1) (row_at m a2) i"
    and ab: "runb N n db b1 b2 ma = Inr mab" "same_outside n db ma mab"
      "\<forall>i < n. row_at mab db i = specb n (row_at ma db) (row_at ma b1) (row_at ma b2) i"
    using a.run_ok [OF pa] b.run_ok [OF pb] by metis
  obtain mb mba where b: "runb N n db b1 b2 m = Inr mb" "same_outside n db m mb"
      "\<forall>i < n. row_at mb db i = specb n (row_at m db) (row_at m b1) (row_at m b2) i"
    and bb: "runa N n da a1 a2 mb = Inr mba" "same_outside n da mb mba"
      "\<forall>i < n. row_at mba da i = speca n (row_at mb da) (row_at mb a1) (row_at mb a2) i"
    using a.run_ok [OF pa] b.run_ok [OF pb] by metis
  have "row_at mab da i = row_at mba da i" if "i < n" for i
  proof -
    have "row_at mba da i = row_at ma da i"
      using a(3) bb(3) that assms(2) ba
      by (auto intro!: a.spec_cong b.other_row_kept [OF b(1) _ _ pb])
    then show ?thesis using b.other_row_kept [OF ab(1) ba that pb] by simp
  qed
  moreover have "row_at mab db i = row_at mba db i" if "i < n" for i
  proof -
    have "row_at mab db i = row_at mb db i"
      using b(3) ab(3) that assms(4,5)
      by (auto intro!: b.spec_cong a.other_row_kept [OF a(1) _ _ pa])
    then show ?thesis using a.other_row_kept [OF bb(1) assms(5) that pa] by simp
  qed
  ultimately have "mab j = mba j" for j
    using row_bytes_eq [of n mab da mba j] row_bytes_eq [of n mab db mba j] a(2) ab(2) b(2) bb(2)
    by (cases "da \<le> j \<and> j < da + 8 * n"; cases "db \<le> j \<and> j < db + 8 * n")
       (auto simp: same_outside_def)
  then show ?thesis using a(1) ab(1) b(1) bb(1) by auto
qed

end

lemma row_apart_neq: "row_apart n d s \<Longrightarrow> i < n \<Longrightarrow> d \<noteq> s"
  by (auto simp: row_apart_def)

lemma row_op_words:
  assumes d: "d + 8 * n \<le> N"
    and s: "\<And>s. s \<in> set (row_sources op s1 s2) \<Longrightarrow> s + 8 * n \<le> N \<and> row_apart n d s"
  shows "\<exists>m'. row_op op N n d s1 s2 m = Inr m' \<and> same_outside n d m m' \<and>
        (\<forall>i < n. row_at m' d i = row_spec op n (row_at m d) (row_at m s1) (row_at m s2) i)"
proof -
  have in1: "s1 + 8 * n \<le> N" "in_place n d s1" "row_apart n d s1" if "op \<noteq> ROWAP"
    using s that by (cases op; simp add: row_sources_def in_place_def)+
  have in2: "s2 + 8 * n \<le> N" "in_place n d s2" if "op = ROWAND \<or> op = ROWOR \<or> op = ROWXOR"
    using s that by (cases op; simp add: row_sources_def in_place_def)+
  note defs = row_op_def row_spec_def row_at_def
  show ?thesis
  proof (cases op)
    case ROWLS
    obtain m' where m': "row_ls N n d s1 0 m = Inr m'" "same_outside n d m m'"
        "\<forall>i < n. read64 m' (d + 8 * i) = push_bit 1 (read64 m (s1 + 8 * i)) OR
           (if i = 0 then 0 else carry_ls (d = s1) (read64 m (s1 + 8 * (i - 1))))"
      using row_ls_ok [OF d in1(1,2), of 0 m] ROWLS by auto
    have "row_at m' d i = row_spec op n (row_at m d) (row_at m s1) (row_at m s2) i" if "i < n" for i
      using m'(3) [rule_format, OF that] row_apart_neq [OF in1(3) that] ROWLS
      by (cases "i = 0") (simp_all add: defs carry_ls_def)
    then show ?thesis using m' ROWLS by (auto simp: row_op_def)
  next
    case ROWRS
    then show ?thesis
      using row_rs_ok [OF d in1(1,2), of 0 m] row_apart_neq [OF in1(3)]
      by (fastforce simp: defs carry_rs_def)
  next
    case ROWAP
    then show ?thesis by (simp add: defs same_outside_def)
  qed (use row_binary_ok [OF d in1(1) in2(1) in1(2) in2(2)] row_unary_ok [OF d in1(1,2)]
       in \<open>simp_all add: defs\<close>)
qed

lemma row_op_contract: "row_operation (row_op op) (row_sources op) (row_spec op)"
proof
  fix d n N s1 s2 m
  assume "d + 8 * n \<le> N" "\<And>s. s \<in> set (row_sources op s1 s2) \<Longrightarrow> s + 8 * n \<le> N \<and> row_apart n d s"
  then show "\<exists>m'. row_op op N n d s1 s2 m = Inr m' \<and> same_outside n d m m' \<and>
        (\<forall>i < n. row_at m' d i = row_spec op n (row_at m d) (row_at m s1) (row_at m s2) i)"
    using row_op_words by blast
next
  fix n m d m' s1 s2 i
  assume "\<And>i. i < n \<Longrightarrow> row_at m d i = row_at m' d i"
    "\<And>s i. s \<in> set (row_sources op s1 s2) \<Longrightarrow> i < n \<Longrightarrow> row_at m s i = row_at m' s i" "i < (n::nat)"
  then show "row_spec op n (row_at m d) (row_at m s1) (row_at m s2) i =
      row_spec op n (row_at m' d) (row_at m' s1) (row_at m' s2) i"
    by (cases op) (auto simp: row_spec_def row_sources_def)
qed

text \<open>A row operation may also write one of its own sources. The bitwise operations do not notice; a shift
  onto its own source takes the bit that crosses a word boundary from the word it has already shifted.\<close>

definition row_result ::
  "RowOp \<Rightarrow> bool \<Rightarrow> nat \<Rightarrow> (nat \<Rightarrow> 64 word) \<Rightarrow> (nat \<Rightarrow> 64 word) \<Rightarrow> (nat \<Rightarrow> 64 word) \<Rightarrow> nat \<Rightarrow> 64 word" where
  "row_result op same n rd r1 r2 i =
     (if same \<and> op = ROWLS then push_bit 1 (r1 i) OR (if i \<noteq> 0 \<and> bit (r1 (i - 1)) 62 then 1 else 0)
      else if same \<and> op = ROWRS then drop_bit 1 (r1 i) OR push_bit 63 (if Suc i \<noteq> n \<and> bit (r1 (Suc i)) 1 then 1 else 0)
      else row_spec op n rd r1 r2 i)"

lemma row_op_in_place:
  assumes d: "d + 8 * n \<le> N" and s: "\<And>s. s \<in> set (row_sources op s1 s2) \<Longrightarrow> s + 8 * n \<le> N \<and> in_place n d s"
  shows "\<exists>m'. row_op op N n d s1 s2 m = Inr m' \<and> same_outside n d m m' \<and>
        (\<forall>i < n. row_at m' d i = row_result op (d = s1) n (row_at m d) (row_at m s1) (row_at m s2) i)"
proof -
  have in1: "s1 + 8 * n \<le> N" "in_place n d s1" if "op \<noteq> ROWAP" using s that by (cases op; simp add: row_sources_def)+
  have in2: "s2 + 8 * n \<le> N" "in_place n d s2" if "op = ROWAND \<or> op = ROWOR \<or> op = ROWXOR"
    using s that by (cases op; simp add: row_sources_def)+
  note defs = row_op_def row_result_def row_spec_def row_at_def
  show ?thesis
  proof (cases op)
    case ROWLS
    obtain m' where m': "row_ls N n d s1 0 m = Inr m'" "same_outside n d m m'"
        "\<forall>i < n. read64 m' (d + 8 * i) = push_bit 1 (read64 m (s1 + 8 * i)) OR
           (if i = 0 then 0 else carry_ls (d = s1) (read64 m (s1 + 8 * (i - 1))))"
      using row_ls_ok [OF d in1, of 0 m] ROWLS by auto
    have "row_at m' d i = row_result op (d = s1) n (row_at m d) (row_at m s1) (row_at m s2) i" if "i < n" for i
      using m'(3) [rule_format, OF that] ROWLS by (cases "i = 0"; cases "d = s1") (simp_all add: defs carry_ls_def)
    then show ?thesis using m' ROWLS by (auto simp: row_op_def)
  next
    case ROWRS
    then show ?thesis using row_rs_ok [OF d in1, of 0 m] by (fastforce simp: defs carry_rs_def)
  next
    case ROWAP
    then show ?thesis by (simp add: defs same_outside_def)
  qed (use row_binary_ok [OF d in1(1) in2(1) in1(2) in2(2)] row_unary_ok [OF d in1] in \<open>simp_all add: defs\<close>)
qed

interpretation rop: row_operation "row_op op" "row_sources op" "row_spec op" for op
  by (rule row_op_contract)

interpretation rops: two_row_operations "row_op op1" "row_sources op1" "row_spec op1" "row_op op2" "row_sources op2" "row_spec op2" for op1 op2
  by unfold_locales

subsection \<open>Rows as numbers\<close>

primrec row_num :: "nat \<Rightarrow> (nat \<Rightarrow> 64 word) \<Rightarrow> nat" where
  "row_num 0 r = 0"
| "row_num (Suc n) r = row_num n r + 2 ^ (64 * n) * unat (r n)"

lemma row_num_less: "row_num n r < 2 ^ (64 * n)"
proof (induction n)
  case (Suc n)
  have "row_num (Suc n) r < 2 ^ (64 * n) * (unat (r n) + 1)" using Suc by simp
  also have "\<dots> \<le> 2 ^ (64 * n) * 2 ^ 64"
    using unat64_less [of "r n"] by (intro mult_le_mono2) simp
  also have "\<dots> = 2 ^ (64 * Suc n)" by (simp add: power_add mult.commute)
  finally show ?case .
qed simp

lemma bit_add_high:
  fixes a b :: nat
  assumes "a < 2 ^ m"
  shows "bit (a + 2 ^ m * b) k \<longleftrightarrow> (if k < m then bit a k else bit b (k - m))"
proof -
  show ?thesis
  proof (cases "k < m")
    case True
    then have "2 ^ m * b = 2 ^ k * (2 ^ (m - k) * b)" by (simp flip: power_add)
    then have "(a + 2 ^ m * b) div 2 ^ k = 2 ^ (m - k) * b + a div 2 ^ k"
      by (simp only:) simp
    then show ?thesis using True by (simp add: bit_iff_odd)
  next
    case False
    then have "(2 :: nat) ^ k = 2 ^ m * 2 ^ (k - m)" by (simp flip: power_add)
    then have "(a + 2 ^ m * b) div 2 ^ k = b div 2 ^ (k - m)"
      using assms by (simp only: div_mult2_eq) simp
    then show ?thesis using False by (simp add: bit_iff_odd)
  qed
qed

lemma bit_row_num: "bit (row_num n r) k \<longleftrightarrow> k < 64 * n \<and> bit (r (k div 64)) (k mod 64)"
proof (induction n)
  case (Suc n)
  show ?case
  proof (cases "k < 64 * n")
    case True
    then show ?thesis using Suc by (simp add: bit_add_high [OF row_num_less])
  next
    case False
    then show ?thesis
    proof (cases "k < 64 * Suc n")
      case True
      then have n: "k div 64 = n"
        using False by (intro div_nat_eqI) simp_all
      then have "k mod 64 = k - 64 * n"
        by (simp flip: minus_mult_div_eq_mod)
      with n show ?thesis using False True
        by (simp add: bit_add_high [OF row_num_less] bit_unsigned_iff)
    next
      case out: False
      then show ?thesis
        using False bit_imp_le_length [of "r n" "k - 64 * n"]
        by (auto simp: bit_add_high [OF row_num_less] bit_unsigned_iff)
    qed
  qed
qed simp

lemma bit_row_spec_ls:
  "b < 64 \<Longrightarrow> bit (row_spec ROWLS n rd r r2 i) b \<longleftrightarrow>
     (if b = 0 then i \<noteq> 0 \<and> bit (r (i - 1)) 63 else bit (r i) (b - 1))"
  by (auto simp only: row_spec_def RowOp.case bit_or_iff bit_push_bit_iff if_distrib [of "\<lambda>w. bit w b"]
      bit_1_iff bit_0_eq split: if_splits) auto

lemma bit_row_spec_rs:
  "b < 64 \<Longrightarrow> bit (row_spec ROWRS n rd r r2 i) b \<longleftrightarrow>
     (if b = 63 then Suc i \<noteq> n \<and> bit (r (Suc i)) 0 else bit (r i) (Suc b))"
  using bit_imp_le_length [of "r i" 64]
  by (auto simp: row_spec_def bit_simps split: if_splits)

lemma nat_bit_pred: "k mod 64 \<noteq> 0 \<Longrightarrow> (k - 1) div 64 = k div 64 \<and> (k - 1) mod 64 = k mod 64 - (1::nat)"
  by (cases k) (auto simp: mod_Suc div_Suc split: if_splits)

lemma nat_bit_pred0: "k mod 64 = 0 \<Longrightarrow> 0 < k \<Longrightarrow> (k - 1) div 64 = k div 64 - 1 \<and> (k - 1) mod 64 = (63::nat)"
  by (cases k) (auto simp: mod_Suc div_Suc split: if_splits)

lemma nat_bit_suc: "k mod 64 \<noteq> 63 \<Longrightarrow> Suc k div 64 = k div 64 \<and> Suc k mod 64 = Suc (k mod 64)"
  by (auto simp: mod_Suc div_Suc)

lemma nat_bit_suc0: "k mod 64 = 63 \<Longrightarrow> Suc k div 64 = Suc (k div 64) \<and> Suc k mod 64 = 0"
  by (auto simp: mod_Suc div_Suc)

lemma row_num_ls:
  assumes "\<forall>i < n. r' i = row_spec ROWLS n rd r r2 i"
  shows "row_num n r' = (2 * row_num n r) mod 2 ^ (64 * n)"
proof -
  have "bit (row_num n r') k \<longleftrightarrow> bit (take_bit (64 * n) (2 * row_num n r)) k" for k
  proof (cases "k < 64 * n")
    case True
    then have i: "k div 64 < n" by (simp add: less_mult_imp_div_less mult.commute)
    have "bit (row_num n r') k \<longleftrightarrow>
        (if k mod 64 = 0 then k div 64 \<noteq> 0 \<and> bit (r (k div 64 - 1)) 63 else bit (r (k div 64)) (k mod 64 - 1))"
      using True assms i by (simp add: bit_row_num bit_row_spec_ls)
    moreover have "bit (take_bit (64 * n) (2 * row_num n r)) k \<longleftrightarrow> 0 < k \<and> bit (row_num n r) (k - 1)"
      using True by (simp add: bit_take_bit_iff bit_double_iff)
    moreover have "bit (row_num n r) (k - 1) \<longleftrightarrow> bit (r ((k - 1) div 64)) ((k - 1) mod 64)"
      using less_imp_diff_less [OF True, of 1] by (simp add: bit_row_num)
    ultimately show ?thesis
      using nat_bit_pred [of k] nat_bit_pred0 [of k] by (cases "k mod 64 = 0") auto
  qed (simp add: bit_row_num bit_take_bit_iff)
  then have "row_num n r' = take_bit (64 * n) (2 * row_num n r)" by (intro bit_eqI) simp
  then show ?thesis by (simp add: take_bit_eq_mod)
qed

lemma row_num_rs:
  assumes "\<forall>i < n. r' i = row_spec ROWRS n rd r r2 i"
  shows "row_num n r' = row_num n r div 2"
proof -
  have "bit (row_num n r') k \<longleftrightarrow> bit (row_num n r div 2) k" for k
  proof (cases "k < 64 * n")
    case True
    then have i: "k div 64 < n" by (simp add: less_mult_imp_div_less mult.commute)
    have "bit (row_num n r') k \<longleftrightarrow>
        (if k mod 64 = 63 then Suc (k div 64) \<noteq> n \<and> bit (r (Suc (k div 64))) 0 else bit (r (k div 64)) (Suc (k mod 64)))"
      using True assms i by (simp add: bit_row_num bit_row_spec_rs)
    moreover have "bit (row_num n r div 2) k \<longleftrightarrow> Suc k < 64 * n \<and> bit (r (Suc k div 64)) (Suc k mod 64)"
      by (simp add: bit_row_num flip: bit_Suc)
    moreover have "Suc k < 64 * n \<longleftrightarrow> Suc k div 64 < n"
      by (simp add: div_less_iff_less_mult mult.commute)
    ultimately show ?thesis
      using nat_bit_suc [of k] nat_bit_suc0 [of k] i by (cases "k mod 64 = 63") auto
  qed (auto simp: bit_row_num simp flip: bit_Suc)
  then show ?thesis by (intro bit_eqI) simp
qed

subsection \<open>Properties\<close>

text \<open>C13: every row operation whose operand rows lie inside the store, with the destination apart
  from the sources it reads, runs to completion without a fault, leaves every byte outside the
  destination row as it was, and leaves in the destination the bitwise function or the one-bit
  shift of the whole row that the operation stands for.\<close>

theorem row_op_correct:
  assumes "d + 8 * n \<le> N"
    and "\<forall>s \<in> set (row_sources op s1 s2). s + 8 * n \<le> N \<and> row_apart n d s"
  shows "\<exists>m'. row_op op N n d s1 s2 m = Inr m' \<and>
           (\<forall>j. j < d \<or> d + 8 * n \<le> j \<longrightarrow> m' j = m j) \<and>
           (\<forall>i < n. row_at m' d i = row_spec op n (row_at m d) (row_at m s1) (row_at m s2) i)"
  using rop.run_ok [of d n N op s1 s2 m] assms by (simp add: same_outside_def)

theorem row_op_correct_witness:
  "\<exists>m'. row_op ROWXOR 24576 (ROW_SIZE div 8) 16384 0 8192 (\<lambda>j. of_nat j) = Inr m' \<and>
     row_at m' 16384 1023 = row_at (\<lambda>j. of_nat j) 0 1023 XOR row_at (\<lambda>j. of_nat j) 8192 1023"
  using row_op_correct [of 16384 1024 24576 ROWXOR 0 8192 "\<lambda>j. of_nat j"]
  by (auto simp: row_sources_def row_apart_def ROW_SIZE_def row_spec_def)

text \<open>C24: on a row read as one little-endian number, and with the destination row apart from the source
  row, the left shift doubles modulo the width of the row and the right shift halves, carries across
  words included.\<close>

theorem row_shift_numbers:
  assumes "d + 8 * n \<le> N" "s + 8 * n \<le> N" "row_apart n d s"
  shows "\<exists>ml mr. row_op ROWLS N n d s s2 m = Inr ml \<and> row_op ROWRS N n d s s2 m = Inr mr \<and>
           row_num n (row_at ml d) = (2 * row_num n (row_at m s)) mod 2 ^ (64 * n) \<and>
           row_num n (row_at mr d) = row_num n (row_at m s) div 2"
proof -
  have src: "set (row_sources ROWLS s s2) = {s}" "set (row_sources ROWRS s s2) = {s}"
    by (simp_all add: row_sources_def)
  obtain ml where "row_op ROWLS N n d s s2 m = Inr ml"
      "\<forall>i < n. row_at ml d i = row_spec ROWLS n (row_at m d) (row_at m s) (row_at m s2) i"
    using rop.run_ok [of d n N ROWLS s s2 m] assms src by auto
  moreover obtain mr where "row_op ROWRS N n d s s2 m = Inr mr"
      "\<forall>i < n. row_at mr d i = row_spec ROWRS n (row_at m d) (row_at m s) (row_at m s2) i"
    using rop.run_ok [of d n N ROWRS s s2 m] assms src by auto
  ultimately show ?thesis using row_num_ls row_num_rs by blast
qed

lemma row_num_2: "row_num 2 r = unat (r 0) + 2 ^ 64 * unat (r 1)"
proof -
  have "row_num (Suc (Suc 0)) r = unat (r 0) + 2 ^ 64 * unat (r (Suc 0))" by simp
  then show ?thesis by (simp only: numeral_2_eq_2 One_nat_def)
qed

theorem row_shift_numbers_witness:
  "\<exists>ml. row_op ROWLS 32 2 16 0 0 (\<lambda>j. if j = 7 then 0x80 else 0) = Inr ml \<and>
     row_num 2 (row_at ml 16) = 2 ^ 64"
proof -
  have "row_at (\<lambda>j. if j = 7 then 0x80 else 0) 0 0 = 0x8000000000000000"
      "row_at (\<lambda>j. if j = 7 then 0x80 else 0) 0 1 = 0"
    by (simp_all add: row_at_def read64_def upt_conv_Cons)
  then have "row_num 2 (row_at (\<lambda>j. if j = 7 then 0x80 else 0) 0) = 2 ^ 63"
    by (simp add: row_num_2)
  then show ?thesis
    using row_shift_numbers [of 16 2 32 0 0 "\<lambda>j. if j = 7 then 0x80 else 0"]
    by (auto simp: row_apart_def)
qed

text \<open>Two row operations, neither of which writes a row the other reads or writes, can be
  executed in either order with the same effect on every byte of the store.\<close>

theorem row_ops_commute:
  assumes "da + 8 * n \<le> N" "db + 8 * n \<le> N" "row_apart n da db"
    and "\<forall>s \<in> set (row_sources opa a1 a2). s + 8 * n \<le> N \<and> row_apart n da s \<and> row_apart n db s"
    and "\<forall>s \<in> set (row_sources opb b1 b2). s + 8 * n \<le> N \<and> row_apart n db s \<and> row_apart n da s"
  shows "rbind (row_op opa N n da a1 a2 m) (row_op opb N n db b1 b2) =
         rbind (row_op opb N n db b1 b2 m) (row_op opa N n da a1 a2)"
  using rops.commute [of da n N opa a1 a2 db opb b1 b2 m] assms by blast

theorem row_ops_commute_witness:
  "rbind (row_op ROWNOT 32768 1024 16384 0 0 (\<lambda>j. of_nat (j div 3))) (row_op ROWAND 32768 1024 24576 0 8192) =
   rbind (row_op ROWAND 32768 1024 24576 0 8192 (\<lambda>j. of_nat (j div 3))) (row_op ROWNOT 32768 1024 16384 0 0)"
  using row_ops_commute [of 16384 1024 32768 24576 ROWNOT 0 0 ROWAND 0 8192 "\<lambda>j. of_nat (j div 3)"]
  by (simp add: row_sources_def row_apart_def)

text \<open>C26: a left shift whose destination is its own source does not shift the row: the carry into
  the next word is bit 62, not bit 63, of the word before it, because the word is read again
  after it was overwritten.\<close>

theorem row_ls_in_place_carry:
  assumes "d + 8 * n \<le> N"
  shows "\<exists>m'. row_op ROWLS N n d d s2 m = Inr m' \<and>
           (\<forall>i < n. row_at m' d i = push_bit 1 (row_at m d i) OR
              (if i \<noteq> 0 \<and> bit (row_at m d (i - 1)) 62 then 1 else 0))"
proof -
  obtain m' where m': "row_ls N n d d 0 m = Inr m'"
      "\<forall>i < n. read64 m' (d + 8 * i) = push_bit 1 (read64 m (d + 8 * i)) OR
         (if i = 0 then 0 else carry_ls True (read64 m (d + 8 * (i - 1))))"
    using row_ls_ok [of d n N d 0 m] assms by (auto simp: in_place_def)
  have "row_at m' d i = push_bit 1 (row_at m d i) OR
              (if i \<noteq> 0 \<and> bit (row_at m d (i - 1)) 62 then 1 else 0)" if "i < n" for i
    using m'(2) [rule_format, OF that] by (cases "i = 0") (simp_all add: row_at_def carry_ls_def)
  then show ?thesis using m'(1) by (auto simp: row_op_def)
qed

theorem row_ls_in_place_carry_witness:
  "\<exists>m'. row_op ROWLS 8192 1024 0 0 0 (\<lambda>j. if j = 7 then 0x80 else 0) = Inr m' \<and>
     row_at m' 0 1 = 0"
proof -
  have "row_at (\<lambda>j. if j = 7 then 0x80 else 0) 0 0 = 0x8000000000000000"
      "row_at (\<lambda>j. if j = 7 then 0x80 else 0) 0 1 = 0"
    by (simp_all add: row_at_def read64_def upt_conv_Cons)
  then show ?thesis
    using row_ls_in_place_carry [of 0 1024 8192 0 "\<lambda>j. if j = 7 then 0x80 else 0"]
    by (force simp: bit_numeral_word_iff)
qed

end
