(* ===== verification/Abstract_Mem.thy ===== *)
theory Abstract_Mem
  imports Row_Ops
begin

text \<open>
  The abstract memory, \<^verbatim>\<open>gem5/src/mem/abstract_mem.{hh,cc}\<close>: the backing store, the list of
  load-locked reservations, and the two access functions.  The store is present unless the
  memory was configured without one; the byte at host offset \<open>i\<close> holds the address
  \<open>range.start() + i\<close>.  Processor wake-ups caused by clearing a reservation are logged.
\<close>

record LockedAddr =
  lk_addr :: addr
  lk_contextId :: nat

definition Addr_Mask :: addr where "Addr_Mask = 0xf"

definition lock_mask :: "addr \<Rightarrow> addr" where
  "lock_mask paddr = paddr AND NOT Addr_Mask"

definition matchesContext :: "LockedAddr \<Rightarrow> Request \<Rightarrow> bool result" where
  "matchesContext l r = rbind (contextId r) (\<lambda>c. Inr (lk_contextId l = c))"

record AbstractMemory =
  am_range :: AddrRange
  pmem :: "store option"
  pmem_size :: nat
  lockedAddrList :: "LockedAddr list"
  wakeups :: "nat list"
  bytesRead :: "nat \<Rightarrow> nat"
  bytesInstRead :: "nat \<Rightarrow> nat"
  bytesWritten :: "nat \<Rightarrow> nat"
  numReads :: "nat \<Rightarrow> nat"
  numWrites :: "nat \<Rightarrow> nat"
  numOther :: "nat \<Rightarrow> nat"

definition setBackingStore :: "store option \<Rightarrow> AbstractMemory \<Rightarrow> AbstractMemory" where
  "setBackingStore m mem = mem\<lparr>pmem := m\<rparr>"

subsection \<open>Load-locked and store-conditional\<close>

text \<open>The loop of \<^verbatim>\<open>trackLoadLocked\<close>: update the record of the context, if there is one.\<close>

fun update_lock :: "addr \<Rightarrow> Request \<Rightarrow> LockedAddr list \<Rightarrow> LockedAddr list option result" where
  "update_lock paddr r [] = Inr None"
| "update_lock paddr r (l # ls) =
     rbind (matchesContext l r) (\<lambda>b.
     if b then Inr (Some (l\<lparr>lk_addr := paddr\<rparr> # ls))
     else rbind (update_lock paddr r ls) (\<lambda>res. Inr (map_option ((#) l) res)))"

definition trackLoadLocked :: "AbstractMemory \<Rightarrow> Packet \<Rightarrow> AbstractMemory result" where
  "trackLoadLocked mem pkt =
     rbind (getPaddr (pkt_req pkt)) (\<lambda>pa.
     let paddr = lock_mask pa in
     rbind (update_lock paddr (pkt_req pkt) (lockedAddrList mem)) (\<lambda>res.
     case res of
       Some ls \<Rightarrow> Inr (mem\<lparr>lockedAddrList := ls\<rparr>)
     | None \<Rightarrow>
         rbind (contextId (pkt_req pkt)) (\<lambda>c.
         Inr (mem\<lparr>lockedAddrList := \<lparr>lk_addr = paddr, lk_contextId = c\<rparr> # lockedAddrList mem\<rparr>))))"

text \<open>The search of a store-conditional for its own reservation.\<close>

fun find_lock :: "addr \<Rightarrow> Request \<Rightarrow> LockedAddr list \<Rightarrow> bool result" where
  "find_lock paddr r [] = Inr False"
| "find_lock paddr r (l # ls) =
     (if lk_addr l = paddr then
        rbind (matchesContext l r) (\<lambda>b. if b then Inr True else find_lock paddr r ls)
      else find_lock paddr r ls)"

definition checkLockedAddrList ::
  "AbstractMemory \<Rightarrow> Packet \<Rightarrow> (bool \<times> AbstractMemory \<times> Packet) result" where
  "checkLockedAddrList mem pkt =
     rbind (getPaddr (pkt_req pkt)) (\<lambda>pa.
     let paddr = lock_mask pa in
     rbind (if isLLSC pkt then find_lock paddr (pkt_req pkt) (lockedAddrList mem) else Inr True)
       (\<lambda>allowStore.
     let pkt' = (if isLLSC pkt
                 then pkt\<lparr>pkt_req := setExtraData (if allowStore then 1 else 0) (pkt_req pkt)\<rparr>
                 else pkt);
         gone = filter (\<lambda>l. lk_addr l = paddr) (lockedAddrList mem);
         mem' = (if allowStore then
                   mem\<lparr>lockedAddrList := filter (\<lambda>l. lk_addr l \<noteq> paddr) (lockedAddrList mem),
                       wakeups := wakeups mem @ map lk_contextId gone\<rparr>
                 else mem)
     in Inr (allowStore, mem', pkt')))"

definition writeOK :: "AbstractMemory \<Rightarrow> Packet \<Rightarrow> (bool \<times> AbstractMemory \<times> Packet) result" where
  "writeOK mem pkt =
     (if lockedAddrList mem = [] then
        Inr (\<not> isLLSC pkt, mem,
             if isLLSC pkt then pkt\<lparr>pkt_req := setExtraData 0 (pkt_req pkt)\<rparr> else pkt)
      else checkLockedAddrList mem pkt)"

subsection \<open>Row-operation packets\<close>

text \<open>The payload structure in the packet's bytes: a four-byte operation, four bytes of padding
  and three addresses.\<close>

definition rowop_of_nat :: "nat \<Rightarrow> RowOp option" where
  "rowop_of_nat k =
     (if k < 8 then Some ([ROWAND, ROWOR, ROWNOT, ROWXOR, ROWAP, ROWAAP, ROWLS, ROWRS] ! k)
      else None)"

definition decode_payload :: "byte list \<Rightarrow> (RowOp option \<times> addr \<times> addr \<times> addr) result" where
  "decode_payload d =
     (if length d < 32 then Inl HostFault
      else Inr (rowop_of_nat (unat (join_bytes (take 4 d))),
                join_bytes (take 8 (drop 8 d)),
                join_bytes (take 8 (drop 16 d)),
                join_bytes (take 8 (drop 24 d))))"

text \<open>The offset of an address in the store: pointer arithmetic, which wraps.\<close>

definition host_offset :: "AbstractMemory \<Rightarrow> addr \<Rightarrow> nat" where
  "host_offset mem a = unat (a - rstart (am_range mem))"

definition respond_if_needed :: "Packet \<Rightarrow> Packet result" where
  "respond_if_needed pkt = (if needsResponse pkt then makeResponse pkt else Inr pkt)"

definition run_rowop ::
  "AbstractMemory \<Rightarrow> RowOp \<Rightarrow> addr \<Rightarrow> addr \<Rightarrow> addr \<Rightarrow> AbstractMemory result" where
  "run_rowop mem op dest src1 src2 =
     (if op = ROWAP then Inr mem
      else case pmem mem of
        None \<Rightarrow> Inl HostFault
      | Some m \<Rightarrow>
          rbind (row_op op (pmem_size mem) (ROW_SIZE div 8) (host_offset mem dest)
                   (host_offset mem src1) (host_offset mem src2) m) (\<lambda>m'.
          Inr (mem\<lparr>pmem := Some m'\<rparr>)))"

definition access_rowop :: "AbstractMemory \<Rightarrow> Packet \<Rightarrow> (AbstractMemory \<times> Packet) result" where
  "access_rowop mem pkt =
     rbind (getPtr pkt) (\<lambda>d.
     rbind (decode_payload d) (\<lambda>(op, dest, src1, src2).
     rbind (case op of
              None \<Rightarrow> Inl (Assertion ''false'')
            | Some op' \<Rightarrow> run_rowop mem op' dest src1 src2) (\<lambda>mem'.
     rbind (respond_if_needed pkt) (\<lambda>pkt'. Inr (mem', pkt')))))"

subsection \<open>Accesses\<close>

definition copy_out :: "nat \<Rightarrow> store \<Rightarrow> nat \<Rightarrow> nat \<Rightarrow> byte list result" where
  "copy_out N m off n =
     (if off + n \<le> N then Inr (map (\<lambda>i. m (off + i)) [0..<n]) else Inl HostFault)"

definition copy_in :: "nat \<Rightarrow> store \<Rightarrow> nat \<Rightarrow> byte list \<Rightarrow> store result" where
  "copy_in N m off d =
     (if off + length d \<le> N
      then Inr (\<lambda>j. if off \<le> j \<and> j < off + length d then d ! (j - off) else m j)
      else Inl HostFault)"

definition bytes_of :: "nat \<Rightarrow> 64 word \<Rightarrow> byte list" where
  "bytes_of n w = map (\<lambda>i. ucast (drop_bit (8 * i) w)) [0..<n]"

definition access_swap :: "AbstractMemory \<Rightarrow> Packet \<Rightarrow> nat \<Rightarrow> nat \<Rightarrow> (AbstractMemory \<times> Packet) result" where
  "access_swap mem pkt off sz =
     (case pmem mem of
        None \<Rightarrow> Inl (Panic ''Swap only works if there is real memory (i.e. null=False)'')
      | Some m \<Rightarrow>
          rbind (getPtr pkt) (\<lambda>overwrite_val.
          rbind (if length overwrite_val < sz then Inl HostFault else Inr ()) (\<lambda>_.
          rbind (copy_out (pmem_size mem) m off sz) (\<lambda>old.
          rbind (setData old pkt) (\<lambda>pkt'.
          rbind (if req_isCondSwap (pkt_req pkt) then
                   if sz = 8 then
                     rbind (getExtraData (pkt_req pkt)) (\<lambda>c. Inr (bytes_of 8 c = old))
                   else if sz = 4 then
                     rbind (getExtraData (pkt_req pkt)) (\<lambda>c. Inr (bytes_of 4 c = old))
                   else Inl (Panic ''Invalid size for conditional read/write'')
                 else Inr True) (\<lambda>overwrite_mem.
          rbind (if overwrite_mem then copy_in (pmem_size mem) m off (take sz overwrite_val)
                 else Inr m) (\<lambda>m'.
          rbind (assertr (\<not> isSet (req_flags (pkt_req pkt)) INST_FETCH) ''!isInstFetch()'') (\<lambda>_.
          let id = req_masterId (pkt_req pkt)
          in Inr (mem\<lparr>pmem := Some m', numOther := (numOther mem)(id := numOther mem id + 1)\<rparr>,
                  pkt')))))))))"

definition access_read :: "AbstractMemory \<Rightarrow> Packet \<Rightarrow> nat \<Rightarrow> nat \<Rightarrow> (AbstractMemory \<times> Packet) result" where
  "access_read mem pkt off sz =
     rbind (assertr (\<not> isWrite pkt) ''!isWrite()'') (\<lambda>_.
     rbind (if isLLSC pkt then trackLoadLocked mem pkt else Inr mem) (\<lambda>mem1.
     rbind (case pmem mem1 of
              None \<Rightarrow> Inr pkt
            | Some m \<Rightarrow> rbind (copy_out (pmem_size mem1) m off sz) (\<lambda>d. setData d pkt)) (\<lambda>pkt'.
     let id = req_masterId (pkt_req pkt);
         mem2 = mem1\<lparr>numReads := (numReads mem1)(id := numReads mem1 id + 1),
                     bytesRead := (bytesRead mem1)(id := bytesRead mem1 id + sz)\<rparr>
     in Inr (if isSet (req_flags (pkt_req pkt)) INST_FETCH
             then mem2\<lparr>bytesInstRead := (bytesInstRead mem2)(id := bytesInstRead mem2 id + sz)\<rparr>
             else mem2, pkt'))))"

definition access_write :: "AbstractMemory \<Rightarrow> Packet \<Rightarrow> nat \<Rightarrow> nat \<Rightarrow> (AbstractMemory \<times> Packet) result" where
  "access_write mem pkt off sz =
     rbind (writeOK mem pkt) (\<lambda>(ok, mem1, pkt1).
     if ok then
       rbind (case pmem mem1 of
                None \<Rightarrow> Inr mem1
              | Some m \<Rightarrow>
                  rbind (getPtr pkt1) (\<lambda>d.
                  rbind (if length d < sz then Inl HostFault else Inr ()) (\<lambda>_.
                  rbind (copy_in (pmem_size mem1) m off (take sz d)) (\<lambda>m'.
                  Inr (mem1\<lparr>pmem := Some m'\<rparr>))))) (\<lambda>mem2.
       rbind (assertr (\<not> isSet (req_flags (pkt_req pkt1)) INST_FETCH) ''!isInstFetch()'') (\<lambda>_.
       let id = req_masterId (pkt_req pkt1)
       in Inr (mem2\<lparr>numWrites := (numWrites mem2)(id := numWrites mem2 id + 1),
                    bytesWritten := (bytesWritten mem2)(id := bytesWritten mem2 id + sz)\<rparr>, pkt1)))
     else Inr (mem1, pkt1))"

definition access :: "AbstractMemory \<Rightarrow> Packet \<Rightarrow> (AbstractMemory \<times> Packet) result" where
  "access mem pkt =
     (if memInhibitAsserted pkt then Inr (mem, pkt)
      else if pkt_cmd pkt = CleanEvict then Inr (mem, pkt)
      else if isRowOp pkt then access_rowop mem pkt
      else
        rbind (getAddr pkt) (\<lambda>a.
        rbind (getSize pkt) (\<lambda>sz.
        rbind (isSubset (plain_range a (a + ucast (of_nat sz - 1 :: 32 word))) (am_range mem)) (\<lambda>sub.
        rbind (assertr sub ''isSubset(range)'') (\<lambda>_.
        let off = host_offset mem a in
        rbind (if pkt_cmd pkt = SwapReq then access_swap mem pkt off sz
               else if isRead pkt then access_read mem pkt off sz
               else if isInvalidate pkt then Inr (mem, pkt)
               else if isWrite pkt then access_write mem pkt off sz
               else Inl (Panic ''unimplemented'')) (\<lambda>(mem', pkt').
        rbind (respond_if_needed pkt') (\<lambda>pkt''. Inr (mem', pkt''))))))))"

definition functionalAccess :: "AbstractMemory \<Rightarrow> Packet \<Rightarrow> (AbstractMemory \<times> Packet) result" where
  "functionalAccess mem pkt =
     rbind (getAddr pkt) (\<lambda>a.
     rbind (getSize pkt) (\<lambda>sz.
     rbind (isSubset (plain_range a (a + of_nat sz - 1)) (am_range mem)) (\<lambda>sub.
     rbind (assertr sub ''isSubset(range)'') (\<lambda>_.
     let off = host_offset mem a in
     if isRead pkt then
       rbind (case pmem mem of
                None \<Rightarrow> Inr pkt
              | Some m \<Rightarrow> rbind (copy_out (pmem_size mem) m off sz) (\<lambda>d. setData d pkt)) (\<lambda>pkt'.
       rbind (makeResponse pkt') (\<lambda>pkt''. Inr (mem, pkt'')))
     else if isWrite pkt then
       rbind (case pmem mem of
                None \<Rightarrow> Inr mem
              | Some m \<Rightarrow>
                  rbind (getPtr pkt) (\<lambda>d.
                  rbind (if length d < sz then Inl HostFault else Inr ()) (\<lambda>_.
                  rbind (copy_in (pmem_size mem) m off (take sz d)) (\<lambda>m'.
                  Inr (mem\<lparr>pmem := Some m'\<rparr>))))) (\<lambda>mem'.
       rbind (makeResponse pkt) (\<lambda>pkt'. Inr (mem', pkt')))
     else if isPrint pkt then
       rbind (assertr (senderState pkt \<noteq> []) ''prs'') (\<lambda>_. Inr (mem, pkt))
     else Inl (Panic ''AbstractMemory: unimplemented functional command'')))))"

subsection \<open>Plain reads and writes\<close>

definition mem_ok :: "AbstractMemory \<Rightarrow> bool" where
  "mem_ok mem \<longleftrightarrow> pmem mem \<noteq> None \<and> range_valid (am_range mem) \<and>
     pmem_size mem = unat (rend (am_range mem)) - unat (rstart (am_range mem)) + 1"

definition in_mem :: "AbstractMemory \<Rightarrow> addr \<Rightarrow> nat \<Rightarrow> bool" where
  "in_mem mem a n \<longleftrightarrow> 0 < n \<and> unat (rstart (am_range mem)) \<le> unat a \<and>
     unat a + n \<le> unat (rend (am_range mem)) + 1"

lemma host_offset_in:
  assumes "in_mem mem a n"
  shows "host_offset mem a = unat a - unat (rstart (am_range mem))"
  using assms by (simp add: host_offset_def in_mem_def unat_sub word_le_nat_alt)

lemma in_mem_offset:
  assumes "mem_ok mem" "in_mem mem a n"
  shows "host_offset mem a + n \<le> pmem_size mem"
  using assms host_offset_in [OF assms(2)] by (auto simp: mem_ok_def in_mem_def)

lemma unat_last:
  assumes "0 < n" "unat a + n \<le> 2 ^ 64" "n < 2 ^ 32"
  shows "unat (a + ucast (of_nat n - 1 :: 32 word) :: addr) = unat a + n - 1"
proof -
  have "unat (of_nat n - 1 :: 32 word) = n - 1"
    using unat_of_nat_diff [where 'a = 32, of 1 n] assms by simp
  then have "unat (ucast (of_nat n - 1 :: 32 word) :: addr) = n - 1"
    by (simp add: unsigned_ucast_eq take_bit_nat_eq_self less_le_trans [OF _ assms(2)])
       (use assms in \<open>simp add: take_bit_nat_eq_self\<close>)
  then show ?thesis using assms by (simp add: unat_word_ariths)
qed

lemma access_subset:
  assumes "in_mem mem a n" "n < 2 ^ 31"
  shows "isSubset (plain_range a (a + ucast (of_nat n - 1 :: 32 word))) (am_range mem) = Inr True"
proof -
  have "unat (rend (am_range mem)) + 1 \<le> 2 ^ 64" using unat64_less [of "rend (am_range mem)"] by simp
  then have "unat (a + ucast (of_nat n - 1 :: 32 word)) = unat a + n - 1"
    using assms by (intro unat_last) (auto simp: in_mem_def)
  then show ?thesis
    using assms by (auto simp: isSubset_def plain_range_def interleaved_def in_mem_def word_le_nat_alt)
qed

definition access_kind :: "AbstractMemory \<Rightarrow> Packet \<Rightarrow> (AbstractMemory \<times> Packet) result" where
  "access_kind mem pkt =
     (if pkt_cmd pkt = SwapReq then access_swap mem pkt (host_offset mem (pkt_addr pkt)) (pkt_size pkt)
      else if isRead pkt then access_read mem pkt (host_offset mem (pkt_addr pkt)) (pkt_size pkt)
      else if isInvalidate pkt then Inr (mem, pkt)
      else if isWrite pkt then access_write mem pkt (host_offset mem (pkt_addr pkt)) (pkt_size pkt)
      else Inl (Panic ''unimplemented''))"

definition plain_pkt :: "AbstractMemory \<Rightarrow> Packet \<Rightarrow> bool" where
  "plain_pkt mem p \<longleftrightarrow> pkt_ok p \<and> \<not> memInhibitAsserted p \<and> \<not> isRowOp p \<and>
     in_mem mem (pkt_addr p) (pkt_size p)"

lemma access_plain:
  assumes "plain_pkt mem p" "pkt_cmd p \<noteq> CleanEvict"
  shows "access mem p =
    rbind (access_kind mem p) (\<lambda>(mem', p'). rbind (respond_if_needed p') (\<lambda>p''. Inr (mem', p'')))"
proof -
  have "isSubset (plain_range (pkt_addr p) (pkt_addr p + ucast (of_nat (pkt_size p) - 1 :: 32 word)))
      (am_range mem) = Inr True"
    using assms(1) by (intro access_subset) (auto simp: plain_pkt_def pkt_ok_def)
  then show ?thesis
    using assms by (simp add: access_def plain_pkt_def pkt_ok_def getAddr_def getSize_def access_kind_def Let_def)
qed

text \<open>The contents of the memory at a run of addresses.\<close>

definition mem_bytes :: "AbstractMemory \<Rightarrow> addr \<Rightarrow> nat \<Rightarrow> byte list" where
  "mem_bytes mem a n =
     (case pmem mem of None \<Rightarrow> [] | Some m \<Rightarrow> map (\<lambda>i. m (host_offset mem a + i)) [0..<n])"

definition overwrite :: "store \<Rightarrow> nat \<Rightarrow> byte list \<Rightarrow> store" where
  "overwrite m off d = (\<lambda>j. if off \<le> j \<and> j < off + length d then d ! (j - off) else m j)"

definition count_write :: "nat \<Rightarrow> nat \<Rightarrow> AbstractMemory \<Rightarrow> AbstractMemory" where
  "count_write mid sz mem =
     mem\<lparr>numWrites := (numWrites mem)(mid := numWrites mem mid + 1),
         bytesWritten := (bytesWritten mem)(mid := bytesWritten mem mid + sz)\<rparr>"

definition clear_locks :: "addr \<Rightarrow> AbstractMemory \<Rightarrow> AbstractMemory" where
  "clear_locks pa mem =
     mem\<lparr>lockedAddrList := filter (\<lambda>l. lk_addr l \<noteq> pa) (lockedAddrList mem),
         wakeups := wakeups mem @ map lk_contextId (filter (\<lambda>l. lk_addr l = pa) (lockedAddrList mem))\<rparr>"

lemma clear_locks_simps [simp]:
  "pmem (clear_locks pa mem) = pmem mem" "pmem_size (clear_locks pa mem) = pmem_size mem"
  "am_range (clear_locks pa mem) = am_range mem"
  "lockedAddrList (clear_locks pa mem) = filter (\<lambda>l. lk_addr l \<noteq> pa) (lockedAddrList mem)"
  by (simp_all add: clear_locks_def)

lemma count_write_simps [simp]:
  "pmem (count_write i n mem) = pmem mem" "pmem_size (count_write i n mem) = pmem_size mem"
  "am_range (count_write i n mem) = am_range mem"
  "lockedAddrList (count_write i n mem) = lockedAddrList mem"
  by (simp_all add: count_write_def)

lemma writeOK_store:
  assumes "\<not> isLLSC p" "hasPaddr (pkt_req p)"
  shows "writeOK mem p = Inr (True, clear_locks (lock_mask (req_paddr (pkt_req p))) mem, p)"
  using assms
  by (auto simp: writeOK_def checkLockedAddrList_def clear_locks_def getPaddr_def hasPaddr_def Let_def)

definition reserved :: "AbstractMemory \<Rightarrow> addr \<Rightarrow> nat \<Rightarrow> bool" where
  "reserved mem pa c \<longleftrightarrow> (\<exists>l \<in> set (lockedAddrList mem). lk_addr l = pa \<and> lk_contextId l = c)"

lemma find_lock_iff:
  "hasContextId r \<Longrightarrow>
   find_lock pa r ls = Inr (\<exists>l \<in> set ls. lk_addr l = pa \<and> lk_contextId l = req_contextId r)"
  by (induction ls) (auto simp: matchesContext_def contextId_def hasContextId_def)

definition sc_result :: "bool \<Rightarrow> Packet \<Rightarrow> Packet" where
  "sc_result ok p = p\<lparr>pkt_req := setExtraData (if ok then 1 else 0) (pkt_req p)\<rparr>"

lemma writeOK_sc:
  assumes "isLLSC p" "hasPaddr (pkt_req p)" "hasContextId (pkt_req p)"
  shows "writeOK mem p =
    (let pa = lock_mask (req_paddr (pkt_req p)); ok = reserved mem pa (req_contextId (pkt_req p))
     in Inr (ok, if ok then clear_locks pa mem else mem, sc_result ok p))"
  using assms
  by (auto simp: writeOK_def checkLockedAddrList_def clear_locks_def getPaddr_def hasPaddr_def Let_def
      find_lock_iff reserved_def sc_result_def)

lemma sc_result_simps [simp]:
  "pkt_cmd (sc_result ok p) = pkt_cmd p" "pkt_flags (sc_result ok p) = pkt_flags p"
  "pkt_data (sc_result ok p) = pkt_data p" "req_flags (pkt_req (sc_result ok p)) = req_flags (pkt_req p)"
  "req_masterId (pkt_req (sc_result ok p)) = req_masterId (pkt_req p)"
  "pkt_addr (sc_result ok p) = pkt_addr p" "pkt_size (sc_result ok p) = pkt_size p"
  "req_extraData (pkt_req (sc_result ok p)) = (if ok then 1 else 0)"
  by (simp_all add: sc_result_def setExtraData_def)

lemma getPtr_ok: "pkt_ok p \<Longrightarrow> pkt_data p = Some d \<Longrightarrow> getPtr p = Inr d"
  by (simp add: getPtr_def pkt_ok_def)

lemma access_write_store:
  assumes "writeOK mem p = Inr (ok, mem1, p1)" "pkt_flags p1 = pkt_flags p" "pkt_data p1 = pkt_data p"
    and "req_flags (pkt_req p1) = req_flags (pkt_req p)" "\<not> isSet (req_flags (pkt_req p)) INST_FETCH"
    and "pkt_ok p" "pkt_data p = Some d" "pmem mem1 = Some m" "off + pkt_size p \<le> pmem_size mem1"
  shows "access_write mem p off (pkt_size p) =
    Inr (if ok then count_write (req_masterId (pkt_req p1)) (pkt_size p) (mem1\<lparr>pmem := Some (overwrite m off d)\<rparr>)
         else mem1, p1)"
proof -
  have "getPtr p1 = Inr d" and len: "length d = pkt_size p"
    using assms by (auto simp: getPtr_def pkt_ok_def)
  moreover have "take (pkt_size p) d = d" using len by simp
  then have "copy_in (pmem_size mem1) m off (take (pkt_size p) d) = Inr (overwrite m off d)"
    using assms(9) len by (simp only: copy_in_def overwrite_def) simp
  ultimately show ?thesis
    using assms by (simp add: access_write_def count_write_def Let_def)
qed

subsection \<open>The four processor accesses\<close>

definition cpu_cmd :: "Command \<Rightarrow> bool" where
  "cpu_cmd c \<longleftrightarrow> c = ReadReq \<or> c = WriteReq \<or> c = LoadLockedReq \<or> c = StoreCondReq"

definition cpu_pkt :: "AbstractMemory \<Rightarrow> Packet \<Rightarrow> bool" where
  "cpu_pkt mem p \<longleftrightarrow> plain_pkt mem p \<and> cpu_cmd (pkt_cmd p) \<and> hasPaddr (pkt_req p) \<and>
     hasContextId (pkt_req p) \<and> (isWrite p \<longrightarrow> \<not> isSet (req_flags (pkt_req p)) INST_FETCH)"

lemma cpu_cmd_attrs:
  assumes "cpu_cmd (pkt_cmd p)"
  shows "needsResponse p" "isRequest p" "\<not> isInvalidate p" "pkt_cmd p \<noteq> SwapReq" "pkt_cmd p \<noteq> CleanEvict"
    "isRead p \<longleftrightarrow> pkt_cmd p = ReadReq \<or> pkt_cmd p = LoadLockedReq"
    "isWrite p \<longleftrightarrow> pkt_cmd p = WriteReq \<or> pkt_cmd p = StoreCondReq"
    "isLLSC p \<longleftrightarrow> pkt_cmd p = LoadLockedReq \<or> pkt_cmd p = StoreCondReq"
  using assms by (auto simp: cpu_cmd_def needsResponse_def isRequest_def isInvalidate_def isRead_def
      isWrite_def isLLSC_def cmd_defs)

definition lock_line :: "Packet \<Rightarrow> addr" where
  "lock_line p = lock_mask (req_paddr (pkt_req p))"

definition lock_ctx :: "Packet \<Rightarrow> nat" where
  "lock_ctx p = req_contextId (pkt_req p)"

text \<open>Whether an access writes, given the reservations at the time.\<close>

definition stores_to :: "AbstractMemory \<Rightarrow> Packet \<Rightarrow> addr \<Rightarrow> bool" where
  "stores_to mem p pa \<longleftrightarrow> lock_line p = pa \<and>
     (pkt_cmd p = WriteReq \<or> pkt_cmd p = StoreCondReq \<and> reserved mem (lock_line p) (lock_ctx p))"

lemma makeResponse_cpu:
  assumes "cpu_cmd (pkt_cmd p)"
  shows "respond_if_needed p = Inr (p\<lparr>pkt_cmd := responseCommand (pkt_cmd p),
           pkt_flags := clearFlags (pkt_flags p) EXPRESS_SNOOP\<rparr>)"
  using cpu_cmd_attrs [OF assms] by (simp add: respond_if_needed_def makeResponse_def)

lemma access_store:
  assumes "mem_ok mem" "cpu_pkt mem p" "pkt_cmd p = WriteReq \<or> pkt_cmd p = StoreCondReq"
    and d: "pkt_data p = Some d" "pmem mem = Some m"
  shows "\<exists>p'. access mem p = Inr
      (if stores_to mem p (lock_line p) then
         count_write (req_masterId (pkt_req p)) (pkt_size p) ((clear_locks (lock_line p) mem)
           \<lparr>pmem := Some (overwrite m (host_offset mem (pkt_addr p)) d)\<rparr>)
       else mem, p') \<and>
     (pkt_cmd p = StoreCondReq \<longrightarrow>
        req_extraData (pkt_req p') = (if stores_to mem p (lock_line p) then 1 else 0)) \<and>
     pkt_cmd p' = responseCommand (pkt_cmd p) \<and> pkt_data p' = Some d"
proof -
  have c: "cpu_cmd (pkt_cmd p)" "plain_pkt mem p" "pkt_ok p" "hasPaddr (pkt_req p)" "hasContextId (pkt_req p)"
    using assms(2) by (auto simp: cpu_pkt_def plain_pkt_def)
  note at = cpu_cmd_attrs [OF c(1)]
  have nf: "\<not> isSet (req_flags (pkt_req p)) INST_FETCH" using assms(2,3) at by (auto simp: cpu_pkt_def)
  have off: "host_offset mem (pkt_addr p) + pkt_size p \<le> pmem_size mem"
    using in_mem_offset [OF assms(1)] c(2) by (simp add: plain_pkt_def)
  have kind: "access_kind mem p = access_write mem p (host_offset mem (pkt_addr p)) (pkt_size p)"
    using assms(3) at by (auto simp: access_kind_def)
  show ?thesis
  proof (cases "pkt_cmd p = WriteReq")
    case True
    then have "writeOK mem p = Inr (True, clear_locks (lock_line p) mem, p)" "stores_to mem p (lock_line p)"
      using writeOK_store [of p mem] at c by (auto simp: lock_line_def stores_to_def)
    then show ?thesis
      using access_write_store [OF _ refl refl refl nf c(3) d(1), of mem True] d(2) off kind True
        access_plain [OF c(2) at(5)] makeResponse_cpu [OF c(1)] d(1) by auto
  next
    case False
    then have sc: "pkt_cmd p = StoreCondReq" using assms(3) by simp
    then have w: "writeOK mem p = Inr (stores_to mem p (lock_line p),
        if stores_to mem p (lock_line p) then clear_locks (lock_line p) mem else mem,
        sc_result (stores_to mem p (lock_line p)) p)"
      using writeOK_sc [of p mem] at c by (simp add: lock_line_def lock_ctx_def stores_to_def Let_def)
    have r: "respond_if_needed (sc_result b p) = Inr ((sc_result b p)\<lparr>pkt_cmd := responseCommand (pkt_cmd p),
           pkt_flags := clearFlags (pkt_flags p) EXPRESS_SNOOP\<rparr>)" for b
      using makeResponse_cpu [of "sc_result b p"] c(1) by simp
    have "access_write mem p (host_offset mem (pkt_addr p)) (pkt_size p) =
        Inr (if stores_to mem p (lock_line p) then
         count_write (req_masterId (pkt_req p)) (pkt_size p) ((clear_locks (lock_line p) mem)
           \<lparr>pmem := Some (overwrite m (host_offset mem (pkt_addr p)) d)\<rparr>)
       else mem, sc_result (stores_to mem p (lock_line p)) p)"
      using access_write_store [OF w _ _ _ nf c(3) d(1), of m] d(2) off by simp
    then show ?thesis
      using kind access_plain [OF c(2) at(5)] r d(1) by simp
  qed
qed

definition set_lock :: "addr \<Rightarrow> nat \<Rightarrow> LockedAddr list \<Rightarrow> LockedAddr list" where
  "set_lock pa c ls =
     (if c \<in> lk_contextId ` set ls
      then map (\<lambda>l. if lk_contextId l = c then l\<lparr>lk_addr := pa\<rparr> else l) ls
      else \<lparr>lk_addr = pa, lk_contextId = c\<rparr> # ls)"

definition one_lock_each :: "AbstractMemory \<Rightarrow> bool" where
  "one_lock_each mem \<longleftrightarrow> distinct (map lk_contextId (lockedAddrList mem))"

lemma update_lock_eq:
  assumes "hasContextId r" "distinct (map lk_contextId ls)"
  shows "update_lock pa r ls =
    Inr (if req_contextId r \<in> lk_contextId ` set ls
         then Some (map (\<lambda>l. if lk_contextId l = req_contextId r then l\<lparr>lk_addr := pa\<rparr> else l) ls)
         else None)"
  using assms(2)
proof (induction ls)
  case (Cons l ls)
  have m: "matchesContext l r = Inr (lk_contextId l = req_contextId r)"
    using assms(1) by (simp add: matchesContext_def contextId_def hasContextId_def)
  show ?case
  proof (cases "lk_contextId l = req_contextId r")
    case True
    then have "map (\<lambda>l. if lk_contextId l = req_contextId r then l\<lparr>lk_addr := pa\<rparr> else l) ls = ls"
      using Cons.prems by (intro map_idI) (auto simp: image_iff)
    then show ?thesis using m True by simp
  next
    case False
    then show ?thesis using m Cons by auto
  qed
qed simp

lemma trackLoadLocked_eq:
  assumes "hasPaddr (pkt_req p)" "hasContextId (pkt_req p)" "one_lock_each mem"
  shows "trackLoadLocked mem p =
    Inr (mem\<lparr>lockedAddrList := set_lock (lock_line p) (lock_ctx p) (lockedAddrList mem)\<rparr>)"
  using assms
  by (simp add: trackLoadLocked_def update_lock_eq one_lock_each_def getPaddr_def hasPaddr_def
      contextId_def hasContextId_def set_lock_def lock_line_def lock_ctx_def Let_def)

lemma set_lock_distinct: "distinct (map lk_contextId ls) \<Longrightarrow> distinct (map lk_contextId (set_lock pa c ls))"
proof -
  have "map lk_contextId (map (\<lambda>l. if lk_contextId l = c then l\<lparr>lk_addr := pa\<rparr> else l) ls) = map lk_contextId ls"
    by simp
  then show "distinct (map lk_contextId ls) \<Longrightarrow> ?thesis"
    unfolding set_lock_def by (cases "c \<in> lk_contextId ` set ls") (simp_all del: map_map)
qed

lemma reserved_set_lock:
  "reserved (mem\<lparr>lockedAddrList := set_lock pa c (lockedAddrList mem)\<rparr>) pb c' \<longleftrightarrow>
           (if c' = c then pb = pa else reserved mem pb c')"
proof (cases "c \<in> lk_contextId ` set (lockedAddrList mem)")
  case True
  then obtain l where l: "l \<in> set (lockedAddrList mem)" "lk_contextId l = c" by auto
  have "reserved (mem\<lparr>lockedAddrList := set_lock pa c (lockedAddrList mem)\<rparr>) pa c"
    using l True by (auto simp: reserved_def set_lock_def intro!: bexI [of _ "l\<lparr>lk_addr := pa\<rparr>"])
  moreover have "pb = pa" if "reserved (mem\<lparr>lockedAddrList := set_lock pa c (lockedAddrList mem)\<rparr>) pb c"
    using that True by (auto simp: reserved_def set_lock_def)
  moreover have "reserved (mem\<lparr>lockedAddrList := set_lock pa c (lockedAddrList mem)\<rparr>) pb c' \<longleftrightarrow> reserved mem pb c'"
    if "c' \<noteq> c"
    using that True by (auto simp: reserved_def set_lock_def)
  ultimately show ?thesis by auto
next
  case False
  then show ?thesis by (auto simp: reserved_def set_lock_def image_iff)
qed

definition count_read :: "Packet \<Rightarrow> AbstractMemory \<Rightarrow> AbstractMemory" where
  "count_read p mem =
     (let mid = req_masterId (pkt_req p); sz = pkt_size p;
          mem2 = mem\<lparr>numReads := (numReads mem)(mid := numReads mem mid + 1),
                     bytesRead := (bytesRead mem)(mid := bytesRead mem mid + sz)\<rparr>
      in if isSet (req_flags (pkt_req p)) INST_FETCH
         then mem2\<lparr>bytesInstRead := (bytesInstRead mem2)(mid := bytesInstRead mem2 mid + sz)\<rparr>
         else mem2)"

lemma count_read_simps [simp]:
  "pmem (count_read p mem) = pmem mem" "pmem_size (count_read p mem) = pmem_size mem"
  "am_range (count_read p mem) = am_range mem" "lockedAddrList (count_read p mem) = lockedAddrList mem"
  by (simp_all add: count_read_def Let_def)

lemma setData_ok:
  assumes "pkt_ok p" "length d = pkt_size p"
  shows "setData d p = Inr (p\<lparr>pkt_data := Some d\<rparr>)"
  using assms by (auto simp: setData_def pkt_ok_def getPtr_def getSize_def memcpy_bytes_def)

lemma access_load:
  assumes "mem_ok mem" "cpu_pkt mem p" "pkt_cmd p = ReadReq \<or> pkt_cmd p = LoadLockedReq" "one_lock_each mem"
  shows "\<exists>p'. access mem p = Inr (count_read p
      (if pkt_cmd p = LoadLockedReq
       then mem\<lparr>lockedAddrList := set_lock (lock_line p) (lock_ctx p) (lockedAddrList mem)\<rparr> else mem), p') \<and>
    pkt_cmd p' = responseCommand (pkt_cmd p) \<and>
    pkt_data p' = Some (mem_bytes mem (pkt_addr p) (pkt_size p))"
proof -
  have c: "cpu_cmd (pkt_cmd p)" "plain_pkt mem p" "pkt_ok p" "hasPaddr (pkt_req p)" "hasContextId (pkt_req p)"
    using assms(2) by (auto simp: cpu_pkt_def plain_pkt_def)
  note at = cpu_cmd_attrs [OF c(1)]
  let ?mem1 = "if pkt_cmd p = LoadLockedReq
       then mem\<lparr>lockedAddrList := set_lock (lock_line p) (lock_ctx p) (lockedAddrList mem)\<rparr> else mem"
  let ?p1 = "p\<lparr>pkt_data := Some (mem_bytes mem (pkt_addr p) (pkt_size p))\<rparr>"
  obtain m where m: "pmem mem = Some m" using assms(1) by (auto simp: mem_ok_def)
  have off: "host_offset mem (pkt_addr p) + pkt_size p \<le> pmem_size mem"
    using in_mem_offset [OF assms(1)] c(2) by (simp add: plain_pkt_def)
  have "access_read mem p (host_offset mem (pkt_addr p)) (pkt_size p) = Inr (count_read p ?mem1, ?p1)"
    using assms(3,4) at trackLoadLocked_eq [OF c(4,5), of mem] m off setData_ok [OF c(3)]
    by (auto simp: access_read_def copy_out_def count_read_def Let_def mem_bytes_def)
  then have "access_kind mem p = Inr (count_read p ?mem1, ?p1)"
    using assms(3) at by (auto simp: access_kind_def)
  moreover have "respond_if_needed ?p1 = Inr (?p1\<lparr>pkt_cmd := responseCommand (pkt_cmd p),
           pkt_flags := clearFlags (pkt_flags p) EXPRESS_SNOOP\<rparr>)"
    using makeResponse_cpu [of ?p1] c(1) by simp
  ultimately show ?thesis
    using access_plain [OF c(2) at(5)] by simp
qed

subsection \<open>The contract of an exclusive monitor\<close>

text \<open>
  What a load-locked/store-conditional pair relies on: a reservation is made by a load-locked,
  lost by every store to the line, and decides the store-conditional.
\<close>

locale exclusive_monitor =
  fixes step :: "'s \<Rightarrow> 'e \<Rightarrow> 's"
    and valid :: "'s \<Rightarrow> bool"
    and allowed :: "'s \<Rightarrow> 'e \<Rightarrow> bool"
    and holds :: "'s \<Rightarrow> 'l \<Rightarrow> 'c \<Rightarrow> bool"
    and is_ll :: "'e \<Rightarrow> 'l \<Rightarrow> 'c \<Rightarrow> bool"
    and stores :: "'s \<Rightarrow> 'e \<Rightarrow> 'l \<Rightarrow> bool"
  assumes valid_step: "valid s \<Longrightarrow> allowed s e \<Longrightarrow> valid (step s e)"
    and allowed_step: "valid s \<Longrightarrow> allowed s e \<Longrightarrow> allowed s e' \<Longrightarrow> allowed (step s e) e'"
    and ll_law: "valid s \<Longrightarrow> allowed s e \<Longrightarrow> is_ll e l c \<Longrightarrow>
      holds (step s e) l' c' \<longleftrightarrow> (if c' = c then l' = l else holds s l' c')"
    and store_law: "valid s \<Longrightarrow> allowed s e \<Longrightarrow> stores s e l \<Longrightarrow>
      holds (step s e) l' c' \<longleftrightarrow> holds s l' c' \<and> l' \<noteq> l"
    and other_law: "valid s \<Longrightarrow> allowed s e \<Longrightarrow> (\<And>l c. \<not> is_ll e l c) \<Longrightarrow> (\<And>l. \<not> stores s e l) \<Longrightarrow>
      holds (step s e) l' c' \<longleftrightarrow> holds s l' c'"
    and one_kind: "stores s e l \<Longrightarrow> \<not> is_ll e l' c"
begin

lemma valid_foldl: "valid s \<Longrightarrow> \<forall>e \<in> set es. allowed s e \<Longrightarrow> valid (foldl step s es)"
  by (induction es arbitrary: s) (auto intro: valid_step allowed_step)

lemma allowed_foldl:
  "valid s \<Longrightarrow> \<forall>e \<in> set es. allowed s e \<Longrightarrow> allowed s e' \<Longrightarrow> allowed (foldl step s es) e'"
  by (induction es arbitrary: s) (auto intro: valid_step allowed_step)

lemma holds_step:
  assumes "valid s" "allowed s e" "\<forall>l'. \<not> is_ll e l' c"
  shows "holds (step s e) l c \<longleftrightarrow> holds s l c \<and> \<not> stores s e l"
proof (cases "\<exists>l'. stores s e l'")
  case True
  then obtain l' where "stores s e l'" by blast
  then show ?thesis using store_law [OF assms(1,2)] by blast
next
  case False
  then show ?thesis
    using other_law [OF assms(1,2)] ll_law [OF assms(1,2)] assms(3)
    by (cases "\<exists>l' c'. is_ll e l' c'") (metis, blast)
qed

text \<open>A reservation is held exactly when some load-locked made it and nothing has taken it away since.\<close>

lemma reservation_history:
  assumes "valid s" "\<forall>e \<in> set es. allowed s e" "\<not> holds s l c"
  shows "holds (foldl step s es) l c \<longleftrightarrow>
    (\<exists>i < length es. is_ll (es ! i) l c \<and> (\<forall>j. i < j \<and> j < length es \<longrightarrow>
       (\<forall>l'. \<not> is_ll (es ! j) l' c) \<and> \<not> stores (foldl step s (take j es)) (es ! j) l))"
  using assms(2)
proof (induction es rule: rev_induct)
  case Nil
  then show ?case using assms(3) by simp
next
  case (snoc e es)
  let ?s = "foldl step s es"
  have v: "valid ?s" "allowed ?s e" using valid_foldl [OF assms(1)] allowed_foldl [OF assms(1)] snoc.prems by auto
  have pre: "take j (es @ [e]) = take j es" if "j \<le> length es" for j using that by simp
  show ?case
  proof (cases "\<exists>l'. is_ll e l' c")
    case True
    then obtain l' where l': "is_ll e l' c" by blast
    have "holds (step ?s e) l c \<longleftrightarrow> is_ll e l c" using ll_law [OF v l', of l c] ll_law [OF v, of l c l c] l' by auto
    moreover have "(\<exists>i < length (es @ [e]). is_ll ((es @ [e]) ! i) l c \<and> (\<forall>j. i < j \<and> j < length (es @ [e]) \<longrightarrow>
       (\<forall>l'. \<not> is_ll ((es @ [e]) ! j) l' c) \<and> \<not> stores (foldl step s (take j (es @ [e]))) ((es @ [e]) ! j) l)) \<longleftrightarrow> is_ll e l c" (is "?L \<longleftrightarrow> _")
    proof
      assume ?L
      then obtain i where i: "i < length (es @ [e])" "is_ll ((es @ [e]) ! i) l c"
        "\<forall>j. i < j \<and> j < length (es @ [e]) \<longrightarrow> (\<forall>l'. \<not> is_ll ((es @ [e]) ! j) l' c)" by blast
      then have "\<not> i < length es" using l' by (metis length_append_singleton lessI nth_append_length)
      then show "is_ll e l c" using i(1,2) by (simp add: less_Suc_eq)
    next
      assume "is_ll e l c"
      then show ?L by (intro exI [of _ "length es"]) auto
    qed
    ultimately show ?thesis by simp
  next
    case False
    have "holds (step ?s e) l c \<longleftrightarrow> holds ?s l c \<and> \<not> stores ?s e l" using holds_step [OF v] False by blast
    also have "\<dots> \<longleftrightarrow> (\<exists>i < length es. is_ll (es ! i) l c \<and> (\<forall>j. i < j \<and> j < length es \<longrightarrow>
       (\<forall>l'. \<not> is_ll (es ! j) l' c) \<and> \<not> stores (foldl step s (take j es)) (es ! j) l)) \<and> \<not> stores ?s e l"
      using snoc by simp
    finally show ?thesis using False by (auto simp: nth_append pre less_Suc_eq all_conj_distrib; blast)
  qed
qed

end

text \<open>The memory is such a monitor, on the processor accesses.\<close>

definition mem_step :: "AbstractMemory \<Rightarrow> Packet \<Rightarrow> AbstractMemory" where
  "mem_step mem p = (case access mem p of Inr (mem', _) \<Rightarrow> mem' | Inl _ \<Rightarrow> mem)"

definition mem_valid :: "AbstractMemory \<Rightarrow> bool" where
  "mem_valid mem \<longleftrightarrow> mem_ok mem \<and> one_lock_each mem"

definition is_load_locked :: "Packet \<Rightarrow> addr \<Rightarrow> nat \<Rightarrow> bool" where
  "is_load_locked p pa c \<longleftrightarrow> pkt_cmd p = LoadLockedReq \<and> lock_line p = pa \<and> lock_ctx p = c"

lemma mem_step_load:
  assumes "mem_valid mem" "cpu_pkt mem p" "pkt_cmd p = ReadReq \<or> pkt_cmd p = LoadLockedReq"
  shows "mem_step mem p = count_read p
      (if pkt_cmd p = LoadLockedReq
       then mem\<lparr>lockedAddrList := set_lock (lock_line p) (lock_ctx p) (lockedAddrList mem)\<rparr> else mem)"
  using access_load [of mem p] assms by (auto simp: mem_step_def mem_valid_def)

lemma mem_step_store:
  assumes "mem_valid mem" "cpu_pkt mem p" "pkt_cmd p = WriteReq \<or> pkt_cmd p = StoreCondReq"
  shows "\<exists>m. mem_step mem p = (if stores_to mem p (lock_line p) then
         count_write (req_masterId (pkt_req p)) (pkt_size p)
           ((clear_locks (lock_line p) mem)\<lparr>pmem := Some m\<rparr>) else mem)"
proof -
  have "pkt_ok p" using assms(2) by (simp add: cpu_pkt_def plain_pkt_def)
  then obtain d where "pkt_data p = Some d" by (auto simp: pkt_ok_def)
  moreover obtain m where "pmem mem = Some m" using assms(1) by (auto simp: mem_valid_def mem_ok_def)
  ultimately show ?thesis
    using access_store [of mem p d m] assms by (auto simp: mem_step_def mem_valid_def)
qed

lemma reserved_cong: "lockedAddrList mem = lockedAddrList mem' \<Longrightarrow> reserved mem = reserved mem'"
  by (auto simp: reserved_def fun_eq_iff)

lemma reserved_count [simp]:
  "reserved (count_read p mem) = reserved mem" "reserved (count_write i n mem) = reserved mem"
  "reserved (mem\<lparr>pmem := m\<rparr>) = reserved mem"
  by (rule reserved_cong; simp)+

lemma reserved_clear [simp]: "reserved (clear_locks pa mem) pb c \<longleftrightarrow> reserved mem pb c \<and> pb \<noteq> pa"
  by (auto simp: reserved_def)

lemma mem_step_frame:
  assumes "mem_valid mem" "cpu_pkt mem p"
  shows "am_range (mem_step mem p) = am_range mem \<and> mem_valid (mem_step mem p)"
proof (cases "pkt_cmd p = ReadReq \<or> pkt_cmd p = LoadLockedReq")
  case True
  then show ?thesis
    using mem_step_load [OF assms True] assms(1) set_lock_distinct
    by (simp add: mem_valid_def mem_ok_def one_lock_each_def)
next
  case False
  then have "pkt_cmd p = WriteReq \<or> pkt_cmd p = StoreCondReq"
    using assms(2) by (auto simp: cpu_pkt_def cpu_cmd_def)
  then show ?thesis
    using mem_step_store [OF assms] assms(1)
    by (auto simp: mem_valid_def mem_ok_def one_lock_each_def distinct_map_filter)
qed

interpretation monitor: exclusive_monitor mem_step mem_valid cpu_pkt reserved is_load_locked stores_to
proof
  fix s :: AbstractMemory and e e' :: Packet and l l' :: addr and c c' :: nat
  show "mem_valid s \<Longrightarrow> cpu_pkt s e \<Longrightarrow> mem_valid (mem_step s e)"
    by (simp add: mem_step_frame)
  show "mem_valid s \<Longrightarrow> cpu_pkt s e \<Longrightarrow> cpu_pkt s e' \<Longrightarrow> cpu_pkt (mem_step s e) e'"
    by (simp add: cpu_pkt_def plain_pkt_def in_mem_def mem_step_frame)
  show "reserved (mem_step s e) l' c' \<longleftrightarrow> (if c' = c then l' = l else reserved s l' c')"
    if "mem_valid s" "cpu_pkt s e" "is_load_locked e l c"
    using mem_step_load [OF that(1,2)] that(3) by (simp add: is_load_locked_def reserved_set_lock)
  show "reserved (mem_step s e) l' c' \<longleftrightarrow> reserved s l' c' \<and> l' \<noteq> l"
    if "mem_valid s" "cpu_pkt s e" "stores_to s e l"
    using mem_step_store [OF that(1,2)] that(3) by (auto simp: stores_to_def)
  show "reserved (mem_step s e) l' c' \<longleftrightarrow> reserved s l' c'"
    if "mem_valid s" "cpu_pkt s e" "\<And>l c. \<not> is_load_locked e l c" "\<And>l. \<not> stores_to s e l"
  proof (cases "pkt_cmd e = ReadReq")
    case True
    then show ?thesis using mem_step_load [OF that(1,2)] by simp
  next
    case False
    then have "pkt_cmd e = WriteReq \<or> pkt_cmd e = StoreCondReq"
      using that(2,3) by (auto simp: cpu_pkt_def cpu_cmd_def is_load_locked_def)
    then show ?thesis using mem_step_store [OF that(1,2)] that(4) by auto
  qed
  show "stores_to s e l \<Longrightarrow> \<not> is_load_locked e l' c"
    by (auto simp: stores_to_def is_load_locked_def)
qed

subsection \<open>What an access keeps\<close>

definition same_pkt :: "Packet \<Rightarrow> Packet \<Rightarrow> bool" where
  "same_pkt p q \<longleftrightarrow> pkt_cmd q = pkt_cmd p \<and> pkt_addr q = pkt_addr p \<and> pkt_size q = pkt_size p \<and>
     pkt_flags q = pkt_flags p \<and> senderState q = senderState p \<and>
     req_flags (pkt_req q) = req_flags (pkt_req p)"

definition same_shape :: "AbstractMemory \<Rightarrow> AbstractMemory \<Rightarrow> bool" where
  "same_shape a b \<longleftrightarrow> am_range b = am_range a \<and> pmem_size b = pmem_size a \<and> (pmem b = None \<longleftrightarrow> pmem a = None)"

lemma same_pkt_refl [simp]: "same_pkt p p" by (simp add: same_pkt_def)

lemma same_shape_refl [simp]: "same_shape a a" by (simp add: same_shape_def)

lemma setData_same: "setData d p = Inr q \<Longrightarrow> same_pkt p q"
  by (auto simp: setData_def result_simps same_pkt_def)

lemma trackLoadLocked_same: "trackLoadLocked mem p = Inr mem' \<Longrightarrow> same_shape mem mem'"
  by (auto simp: trackLoadLocked_def result_simps same_shape_def Let_def split: option.splits)

lemma writeOK_same: "writeOK mem p = Inr (ok, mem', p') \<Longrightarrow> same_shape mem mem' \<and> same_pkt p p'"
  by (auto simp: writeOK_def checkLockedAddrList_def result_simps same_shape_def same_pkt_def
      setExtraData_def Let_def split: if_splits)

lemma access_swap_same: "access_swap mem p off sz = Inr (mem', p') \<Longrightarrow> same_shape mem mem' \<and> same_pkt p p'"
  by (auto simp: access_swap_def result_simps same_shape_def Let_def split: option.splits dest: setData_same)

lemma access_read_same:
  assumes "access_read mem p off sz = Inr (mem', p')"
  shows "same_shape mem mem' \<and> same_pkt p p'"
proof -
  obtain mem1 where m1: "(if isLLSC p then trackLoadLocked mem p else Inr mem) = Inr mem1"
      "(case pmem mem1 of None \<Rightarrow> Inr p
        | Some m \<Rightarrow> rbind (copy_out (pmem_size mem1) m off sz) (\<lambda>d. setData d p)) = Inr p'"
      "same_shape mem1 mem'"
    using assms by (auto simp: access_read_def result_simps same_shape_def Let_def split: if_splits)
  have "same_shape mem mem1" using m1(1) trackLoadLocked_same by (auto split: if_splits)
  moreover have "same_pkt p p'" using m1(2) by (auto simp: result_simps split: option.splits dest: setData_same)
  ultimately show ?thesis using m1(3) by (simp add: same_shape_def)
qed

lemma access_write_same:
  assumes "access_write mem p off sz = Inr (mem', p')"
  shows "same_shape mem mem' \<and> same_pkt p p'"
proof -
  obtain ok mem1 where w: "writeOK mem p = Inr (ok, mem1, p')" and m: "same_shape mem1 mem'"
    using assms
    by (auto simp: access_write_def result_simps same_shape_def Let_def split: if_splits option.splits)
  show ?thesis using writeOK_same [OF w] m by (auto simp: same_shape_def)
qed

lemma respond_cases:
  assumes "respond_if_needed p = Inr q"
  shows "(needsResponse p \<longrightarrow> isResponse q) \<and> (\<not> needsResponse p \<longrightarrow> q = p) \<and>
    pkt_addr q = pkt_addr p \<and> pkt_size q = pkt_size p \<and> senderState q = senderState p \<and>
    (needsResponse p \<longrightarrow> (hasData q \<longleftrightarrow> isRead p))"
  using assms response_table [of "pkt_cmd p"]
  by (auto simp: respond_if_needed_def makeResponse_def result_simps needsResponse_def isResponse_def
      isRequest_def hasData_def isRead_def split: if_splits)

lemma run_rowop_same:
  "run_rowop mem op d s1 s2 = Inr mem' \<Longrightarrow>
   same_shape mem mem' \<and> lockedAddrList mem' = lockedAddrList mem \<and> wakeups mem' = wakeups mem"
  by (auto simp: run_rowop_def result_simps same_shape_def split: if_splits option.splits)

lemma access_rowop_same:
  assumes "access_rowop mem p = Inr (mem', p')"
  shows "same_shape mem mem' \<and> respond_if_needed p = Inr p' \<and>
    lockedAddrList mem' = lockedAddrList mem \<and> wakeups mem' = wakeups mem"
  using assms
  by (auto simp: access_rowop_def result_simps split: option.splits dest: run_rowop_same)

lemma access_split:
  assumes "access mem p = Inr (mem', p')" "\<not> memInhibitAsserted p" "pkt_cmd p \<noteq> CleanEvict"
  shows "\<exists>q. same_shape mem mem' \<and> same_pkt p q \<and> respond_if_needed q = Inr p'"
proof (cases "isRowOp p")
  case True
  then have "same_shape mem mem' \<and> respond_if_needed p = Inr p'"
    using assms access_rowop_same [of mem p mem' p'] by (auto simp: access_def)
  then show ?thesis by (intro exI [of _ p]) simp
next
  case False
  then obtain a sz q where
    k: "(if pkt_cmd p = SwapReq then access_swap mem p (host_offset mem a) sz
         else if isRead p then access_read mem p (host_offset mem a) sz
         else if isInvalidate p then Inr (mem, p)
         else if isWrite p then access_write mem p (host_offset mem a) sz
         else Inl (Panic ''unimplemented'')) = Inr (mem', q)"
    and r: "respond_if_needed q = Inr p'"
    using assms by (auto simp: access_def rbind_Inr_iff Let_def)
  have "same_shape mem mem' \<and> same_pkt p q"
    using k by (auto split: if_splits dest: access_swap_same access_read_same access_write_same)
  then show ?thesis using r by blast
qed

lemma mem_bytes_overwrite:
  assumes "pmem mem' = Some (overwrite m (host_offset mem a) d)" "am_range mem' = am_range mem" "length d = n"
  shows "mem_bytes mem' a n = d"
  using assms by (auto simp: mem_bytes_def host_offset_def overwrite_def intro!: nth_equalityI)

lemma access_store_bytes:
  assumes "mem_ok mem" "cpu_pkt mem p" "pkt_cmd p = WriteReq \<or> pkt_cmd p = StoreCondReq"
    "stores_to mem p (lock_line p)"
  shows "\<exists>mem' p' d. access mem p = Inr (mem', p') \<and> pkt_data p = Some d \<and> pkt_cmd p' = responseCommand (pkt_cmd p) \<and>
     mem_bytes mem' (pkt_addr p) (pkt_size p) = d \<and> am_range mem' = am_range mem \<and> pmem_size mem' = pmem_size mem \<and>
     (\<forall>m. pmem mem = Some m \<longrightarrow> pmem mem' = Some (overwrite m (host_offset mem (pkt_addr p)) d)) \<and>
     (\<forall>b c. reserved mem' b c \<longleftrightarrow> reserved mem b c \<and> b \<noteq> lock_line p) \<and>
     (pkt_cmd p = StoreCondReq \<longrightarrow> req_extraData (pkt_req p') = 1)"
proof -
  have "pkt_ok p" using assms(2) by (simp add: cpu_pkt_def plain_pkt_def)
  then obtain d where d: "pkt_data p = Some d" "length d = pkt_size p" by (auto simp: pkt_ok_def)
  obtain m where m: "pmem mem = Some m" using assms(1) by (auto simp: mem_ok_def)
  let ?mem' = "count_write (req_masterId (pkt_req p)) (pkt_size p) ((clear_locks (lock_line p) mem)
           \<lparr>pmem := Some (overwrite m (host_offset mem (pkt_addr p)) d)\<rparr>)"
  obtain p' where "access mem p = Inr (?mem', p')" "pkt_cmd p' = responseCommand (pkt_cmd p)"
      "pkt_cmd p = StoreCondReq \<longrightarrow> req_extraData (pkt_req p') = 1"
    using access_store [OF assms(1-3) d(1) m] assms(4) by auto
  moreover have "mem_bytes ?mem' (pkt_addr p) (pkt_size p) = d"
    using d(2) by (intro mem_bytes_overwrite [of _ m mem]) simp_all
  ultimately show ?thesis using d(1) m by (intro exI [of _ ?mem'] exI [of _ p']) simp
qed

lemma access_sc:
  assumes "mem_valid mem" "cpu_pkt mem sc" "pkt_cmd sc = StoreCondReq"
  shows "\<exists>mem2 sc'. access mem sc = Inr (mem2, sc') \<and>
    req_extraData (pkt_req sc') = (if stores_to mem sc (lock_line sc) then 1 else 0) \<and>
    (\<not> stores_to mem sc (lock_line sc) \<longrightarrow> mem2 = mem) \<and>
    (stores_to mem sc (lock_line sc) \<longrightarrow> pkt_data sc = Some (mem_bytes mem2 (pkt_addr sc) (pkt_size sc)))"
proof (cases "stores_to mem sc (lock_line sc)")
  case True
  then show ?thesis
    using access_store_bytes [of mem sc] assms by (auto simp: mem_valid_def)
next
  case False
  have "pkt_ok sc" using assms(2) by (simp add: cpu_pkt_def plain_pkt_def)
  then obtain d where d: "pkt_data sc = Some d" by (auto simp: pkt_ok_def)
  obtain m where "pmem mem = Some m" using assms(1) by (auto simp: mem_valid_def mem_ok_def)
  then show ?thesis
    using access_store [of mem sc d m] assms d False by (auto simp: mem_valid_def)
qed

subsection \<open>Every request that reads or writes\<close>

text \<open>A request that reads or writes a part of the memory, whichever command it is.\<close>

definition port_pkt :: "AbstractMemory \<Rightarrow> Packet \<Rightarrow> bool" where
  "port_pkt mem p \<longleftrightarrow> plain_pkt mem p \<and> isRequest p \<and> pkt_cmd p \<noteq> CleanEvict \<and> isRead p \<noteq> isWrite p \<and> (isRead p \<longrightarrow> needsResponse p) \<and>
     hasPaddr (pkt_req p) \<and> (isLLSC p \<longrightarrow> hasContextId (pkt_req p)) \<and> (isWrite p \<longrightarrow> \<not> isSet (req_flags (pkt_req p)) INST_FETCH)"

lemma cpu_pkt_port: "cpu_pkt mem p \<Longrightarrow> port_pkt mem p"
  using cpu_cmd_attrs [of p] by (auto simp: cpu_pkt_def port_pkt_def cpu_cmd_def)

lemma port_pkt_shape: "port_pkt mem p \<Longrightarrow> am_range mem' = am_range mem \<Longrightarrow> port_pkt mem' p"
  by (simp add: port_pkt_def plain_pkt_def in_mem_def)

lemma access_read_port:
  assumes "mem_valid mem" "port_pkt mem p" "isRead p"
  shows "\<exists>mem' p1. access_read mem p (host_offset mem (pkt_addr p)) (pkt_size p) = Inr (mem', p1) \<and> one_lock_each mem'"
proof -
  have c: "plain_pkt mem p" "pkt_ok p" "hasPaddr (pkt_req p)" "isLLSC p \<longrightarrow> hasContextId (pkt_req p)" "\<not> isWrite p"
    using assms(2,3) by (auto simp: port_pkt_def plain_pkt_def)
  have v: "mem_ok mem" "one_lock_each mem" using assms(1) by (simp_all add: mem_valid_def)
  obtain m where m: "pmem mem = Some m" using v(1) by (auto simp: mem_ok_def)
  have off: "host_offset mem (pkt_addr p) + pkt_size p \<le> pmem_size mem" using in_mem_offset [OF v(1)] c(1) by (simp add: plain_pkt_def)
  let ?mem1 = "if isLLSC p then mem\<lparr>lockedAddrList := set_lock (lock_line p) (lock_ctx p) (lockedAddrList mem)\<rparr> else mem"
  have t: "(if isLLSC p then trackLoadLocked mem p else Inr mem) = Inr ?mem1" using trackLoadLocked_eq [OF c(3) _ v(2)] c(4) by simp
  have "access_read mem p (host_offset mem (pkt_addr p)) (pkt_size p) =
      Inr (count_read p ?mem1, p\<lparr>pkt_data := Some (mem_bytes mem (pkt_addr p) (pkt_size p))\<rparr>)"
    using t c(5) m off setData_ok [OF c(2)] by (simp add: access_read_def copy_out_def count_read_def Let_def mem_bytes_def)
  moreover have "one_lock_each (count_read p ?mem1)" using v(2) set_lock_distinct by (simp add: one_lock_each_def)
  ultimately show ?thesis by blast
qed

lemma access_write_port:
  assumes "mem_valid mem" "port_pkt mem p" "isWrite p"
  shows "\<exists>mem' p1. access_write mem p (host_offset mem (pkt_addr p)) (pkt_size p) = Inr (mem', p1) \<and> one_lock_each mem'"
proof -
  have c: "plain_pkt mem p" "pkt_ok p" "hasPaddr (pkt_req p)" "isLLSC p \<longrightarrow> hasContextId (pkt_req p)" "\<not> isSet (req_flags (pkt_req p)) INST_FETCH"
    using assms(2,3) by (auto simp: port_pkt_def plain_pkt_def)
  have v: "mem_ok mem" "one_lock_each mem" using assms(1) by (simp_all add: mem_valid_def)
  obtain m where m: "pmem mem = Some m" using v(1) by (auto simp: mem_ok_def)
  obtain d where d: "pkt_data p = Some d" using c(2) by (auto simp: pkt_ok_def)
  have off: "host_offset mem (pkt_addr p) + pkt_size p \<le> pmem_size mem" using in_mem_offset [OF v(1)] c(1) by (simp add: plain_pkt_def)
  obtain ok mem1 p1 where w: "writeOK mem p = Inr (ok, mem1, p1)" "mem1 = mem \<or> mem1 = clear_locks (lock_line p) mem" "p1 = p \<or> p1 = sc_result ok p"
    using writeOK_store [of p mem] writeOK_sc [of p mem] c(3,4) by (cases "isLLSC p") (auto simp: lock_line_def Let_def)
  have "one_lock_each mem1" using w(2) v(2) by (auto simp: one_lock_each_def distinct_map_filter)
  moreover have "pkt_flags p1 = pkt_flags p" "pkt_data p1 = pkt_data p" "req_flags (pkt_req p1) = req_flags (pkt_req p)" using w(3) by auto
  moreover have "pmem mem1 = Some m" "pmem_size mem1 = pmem_size mem" using w(2) m by auto
  ultimately show ?thesis using access_write_store [OF w(1) _ _ _ c(5,2) d] off by (auto simp: one_lock_each_def)
qed

lemma access_port:
  assumes "mem_valid mem" "port_pkt mem p"
  shows "\<exists>q. access mem p = Inr (mem_step mem p, q) \<and> mem_valid (mem_step mem p) \<and> am_range (mem_step mem p) = am_range mem \<and>
    (needsResponse p \<longrightarrow> isResponse q) \<and> pkt_addr q = pkt_addr p \<and> pkt_size q = pkt_size p"
proof -
  have c: "plain_pkt mem p" "isRequest p" "pkt_cmd p \<noteq> CleanEvict" "isRead p \<noteq> isWrite p" "\<not> memInhibitAsserted p"
    using assms(2) by (auto simp: port_pkt_def plain_pkt_def)
  then have "pkt_cmd p \<noteq> SwapReq" by (auto simp: isRead_def isWrite_def cmd_defs)
  then obtain mem' p1 where k: "access_kind mem p = Inr (mem', p1)" "one_lock_each mem'" "same_shape mem mem'" "same_pkt p p1"
  proof (cases "isRead p")
    case True
    then show thesis using that \<open>pkt_cmd p \<noteq> SwapReq\<close> access_read_port [OF assms True] access_read_same by (simp add: access_kind_def) blast
  next
    case False
    then have w: "isWrite p" using c(4) by simp
    then show thesis
      using that False \<open>pkt_cmd p \<noteq> SwapReq\<close> access_write_port [OF assms w] access_write_same assms(1)
      by (cases "isInvalidate p") (simp_all add: access_kind_def mem_valid_def, blast)
  qed
  have "isRequest p1" using c(2) k(4) by (simp add: same_pkt_def isRequest_def)
  then obtain q where r: "respond_if_needed p1 = Inr q" by (cases "needsResponse p1") (auto simp: respond_if_needed_def makeResponse_def)
  then have a: "access mem p = Inr (mem', q)" using access_plain [OF c(1,3)] k(1) by simp
  moreover have "mem_valid mem'" "am_range mem' = am_range mem" using assms(1) k(2,3) by (auto simp: mem_valid_def mem_ok_def same_shape_def)
  ultimately show ?thesis using respond_cases [OF r] k(4) by (auto simp: mem_step_def same_pkt_def needsResponse_def)
qed

subsection \<open>Properties\<close>

text \<open>C12: atomicity of load-locked and store-conditional.  From a memory without reservations, after any
  sequence of reads, writes, load-lockeds and store-conditionals of any contexts, a store-conditional
  succeeds, stores its data and reports 1 exactly when an earlier load-locked of the same context to
  the same line is followed by no other load-locked of the context and by no store to the line;
  otherwise the memory is left unchanged and it reports 0.  A store to the line is a write, or a
  successful store-conditional, whose address is in the line: the code looks at the line of the first
  byte only.  Row operations and swaps, which leave the reservations alone, are not among the
  accesses.\<close>

theorem llsc_atomic:
  assumes "mem_valid mem" "lockedAddrList mem = []" "\<forall>p \<in> set ps. cpu_pkt mem p" "cpu_pkt mem sc" "pkt_cmd sc = StoreCondReq"
  shows "let mem1 = foldl mem_step mem ps;
             held = (\<exists>i < length ps. pkt_cmd (ps ! i) = LoadLockedReq \<and> lock_line (ps ! i) = lock_line sc \<and> lock_ctx (ps ! i) = lock_ctx sc \<and>
               (\<forall>j. i < j \<and> j < length ps \<longrightarrow> \<not> (pkt_cmd (ps ! j) = LoadLockedReq \<and> lock_ctx (ps ! j) = lock_ctx sc) \<and>
                  \<not> stores_to (foldl mem_step mem (take j ps)) (ps ! j) (lock_line sc)))
         in \<exists>mem2 sc'. access mem1 sc = Inr (mem2, sc') \<and>
              req_extraData (pkt_req sc') = (if held then 1 else 0) \<and> (\<not> held \<longrightarrow> mem2 = mem1) \<and>
              (held \<longrightarrow> pkt_data sc = Some (mem_bytes mem2 (pkt_addr sc) (pkt_size sc)))"
proof -
  let ?mem1 = "foldl mem_step mem ps" and ?l = "lock_line sc" and ?c = "lock_ctx sc"
  let ?held = "\<exists>i < length ps. pkt_cmd (ps ! i) = LoadLockedReq \<and> lock_line (ps ! i) = ?l \<and> lock_ctx (ps ! i) = ?c \<and>
               (\<forall>j. i < j \<and> j < length ps \<longrightarrow> \<not> (pkt_cmd (ps ! j) = LoadLockedReq \<and> lock_ctx (ps ! j) = ?c) \<and>
                  \<not> stores_to (foldl mem_step mem (take j ps)) (ps ! j) ?l)"
  have "\<not> reserved mem ?l ?c" using assms(2) by (simp add: reserved_def)
  from monitor.reservation_history [OF assms(1,3) this]
  have h: "reserved ?mem1 ?l ?c \<longleftrightarrow> ?held" by (simp add: is_load_locked_def conj_assoc)
  have v: "mem_valid ?mem1" "cpu_pkt ?mem1 sc"
    using monitor.valid_foldl [OF assms(1,3)] monitor.allowed_foldl [OF assms(1,3,4)] by blast+
  have "stores_to ?mem1 sc ?l \<longleftrightarrow> ?held" using h assms(5) by (simp add: stores_to_def)
  then show ?thesis unfolding Let_def using access_sc [OF v assms(5)] by (cases ?held) (simp_all, blast?)
qed

definition demo_mem :: AbstractMemory where
  "demo_mem = \<lparr>am_range = plain_range 0 0xFFFF, pmem = Some (\<lambda>_. 0), pmem_size = 0x10000,
     lockedAddrList = [], wakeups = [], bytesRead = \<lambda>_. 0, bytesInstRead = \<lambda>_. 0,
     bytesWritten = \<lambda>_. 0, numReads = \<lambda>_. 0, numWrites = \<lambda>_. 0, numOther = \<lambda>_. 0\<rparr>"

definition demo_pkt :: "Command \<Rightarrow> addr \<Rightarrow> nat \<Rightarrow> byte \<Rightarrow> Packet" where
  "demo_pkt c a ctx b =
     (new_packet (setThreadContext ctx 0 (phys_request a 1 0 0 0)) c)
       \<lparr>pkt_data := Some [b], pkt_flags := VALID_ADDR OR VALID_SIZE OR STATIC_DATA\<rparr>"

lemma demo_mem_valid: "mem_valid demo_mem"
  by (simp add: mem_valid_def mem_ok_def demo_mem_def plain_range_def range_valid_def one_lock_each_def)

lemma demo_pkt_cpu:
  assumes "cpu_cmd c" "unat a < 0x10000"
  shows "cpu_pkt demo_mem (demo_pkt c a ctx b)" "pkt_cmd (demo_pkt c a ctx b) = c"
    "lock_line (demo_pkt c a ctx b) = lock_mask a" "lock_ctx (demo_pkt c a ctx b) = ctx"
    "pkt_addr (demo_pkt c a ctx b) = a" "pkt_size (demo_pkt c a ctx b) = 1" "pkt_data (demo_pkt c a ctx b) = Some [b]"
  using assms
  by (simp_all add: cpu_pkt_def demo_pkt_def new_packet_def plain_pkt_def pkt_ok_def Let_def setThreadContext_def
      phys_request_def setPhys_def empty_request_def isSet_def setFlag_def clearFlags_def pkt_flag_defs
      private_flag_defs req_flag_defs hasPaddr_def hasSize_def hasContextId_def memInhibitAsserted_def isRowOp_def
      req_isRowOp_def in_mem_def demo_mem_def plain_range_def lock_line_def lock_ctx_def)

theorem llsc_atomic_witness:
  "\<exists>mem2 sc'. access (foldl mem_step demo_mem [demo_pkt LoadLockedReq 0x40 1 0, demo_pkt WriteReq 0x80 2 7])
       (demo_pkt StoreCondReq 0x44 1 9) = Inr (mem2, sc') \<and> req_extraData (pkt_req sc') = 1 \<and>
     [9] = mem_bytes mem2 0x44 1"
proof -
  let ?ps = "[demo_pkt LoadLockedReq 0x40 1 0, demo_pkt WriteReq 0x80 2 7]" and ?sc = "demo_pkt StoreCondReq 0x44 1 9"
  note d = demo_pkt_cpu
  have c: "cpu_cmd LoadLockedReq" "cpu_cmd WriteReq" "cpu_cmd StoreCondReq" by (simp_all add: cpu_cmd_def)
  have ps: "\<forall>p \<in> set ?ps. cpu_pkt demo_mem p" and sc: "cpu_pkt demo_mem ?sc" "pkt_cmd ?sc = StoreCondReq"
    and ll: "pkt_cmd (?ps ! 0) = LoadLockedReq" "lock_line (?ps ! 0) = lock_line ?sc" "lock_ctx (?ps ! 0) = lock_ctx ?sc"
    and w: "pkt_cmd (?ps ! 1) = WriteReq" "\<not> stores_to s (?ps ! 1) (lock_line ?sc)" for s
    using c by (simp_all add: d stores_to_def lock_mask_def Addr_Mask_def)
  have "lockedAddrList demo_mem = []" by (simp add: demo_mem_def)
  moreover have "j = 1" if "0 < j \<and> j < length ?ps" for j using that by (cases j) auto
  then have "\<exists>i < length ?ps. pkt_cmd (?ps ! i) = LoadLockedReq \<and> lock_line (?ps ! i) = lock_line ?sc \<and> lock_ctx (?ps ! i) = lock_ctx ?sc \<and>
     (\<forall>j. i < j \<and> j < length ?ps \<longrightarrow> \<not> (pkt_cmd (?ps ! j) = LoadLockedReq \<and> lock_ctx (?ps ! j) = lock_ctx ?sc) \<and>
        \<not> stores_to (foldl mem_step demo_mem (take j ?ps)) (?ps ! j) (lock_line ?sc))"
    using ll w by (intro exI [of _ 0]) (metis Command.distinct(1) Command.simps length_Cons zero_less_Suc)
  ultimately show ?thesis using llsc_atomic [OF demo_mem_valid _ ps sc] c by (simp add: Let_def d)
qed

text \<open>C17: a write followed by a read of any addresses, however they overlap, returns the written
  bytes where they were written and the previous contents elsewhere; both are answered.\<close>

theorem access_write_read:
  assumes "mem_valid mem" "cpu_pkt mem w" "pkt_cmd w = WriteReq" "pkt_data w = Some d"
    and "cpu_pkt mem r" "pkt_cmd r = ReadReq"
  shows "\<exists>mem1 w' mem2 r' rd. access mem w = Inr (mem1, w') \<and> access mem1 r = Inr (mem2, r') \<and>
    pkt_cmd w' = WriteResp \<and> pkt_cmd r' = ReadResp \<and> pkt_data r' = Some rd \<and>
    (\<forall>i < pkt_size r. let x = unat (pkt_addr r) + i in rd ! i =
       (if unat (pkt_addr w) \<le> x \<and> x < unat (pkt_addr w) + pkt_size w
        then d ! (x - unat (pkt_addr w)) else mem_bytes mem (pkt_addr r) (pkt_size r) ! i))"
proof -
  obtain m where m: "pmem mem = Some m" using assms(1) by (auto simp: mem_valid_def mem_ok_def)
  have "stores_to mem w (lock_line w)" using assms(3) by (simp add: stores_to_def)
  then obtain mem1 w' where w: "access mem w = Inr (mem1, w')" "pkt_cmd w' = WriteResp"
      "am_range mem1 = am_range mem" "pmem mem1 = Some (overwrite m (host_offset mem (pkt_addr w)) d)"
    using access_store_bytes [of mem w] assms m by (auto simp: mem_valid_def cmd_defs)
  have s: "mem_step mem w = mem1" using w(1) by (simp add: mem_step_def)
  then have v: "mem_valid mem1" "cpu_pkt mem1 r"
    using monitor.valid_step [OF assms(1,2)] monitor.allowed_step [OF assms(1,2,5)] by auto
  obtain mem2 r' where r: "access mem1 r = Inr (mem2, r')" "pkt_cmd r' = ReadResp"
      "pkt_data r' = Some (mem_bytes mem1 (pkt_addr r) (pkt_size r))"
    using access_load [of mem1 r] v assms(6) by (auto simp: mem_valid_def cmd_defs)
  have in': "in_mem mem (pkt_addr w) (pkt_size w)" "in_mem mem (pkt_addr r) (pkt_size r)" "length d = pkt_size w"
    using assms(2,4,5) by (auto simp: cpu_pkt_def plain_pkt_def pkt_ok_def)
  have off: "host_offset mem (pkt_addr w) = unat (pkt_addr w) - unat (rstart (am_range mem))"
      "host_offset mem1 (pkt_addr r) = unat (pkt_addr r) - unat (rstart (am_range mem))"
      "host_offset mem (pkt_addr r) = unat (pkt_addr r) - unat (rstart (am_range mem))"
    using host_offset_in [OF in'(1)] host_offset_in [OF in'(2)] w(3) by (simp_all add: host_offset_def)
  have "mem_bytes mem1 (pkt_addr r) (pkt_size r) ! i =
      (let x = unat (pkt_addr r) + i in if unat (pkt_addr w) \<le> x \<and> x < unat (pkt_addr w) + pkt_size w
        then d ! (x - unat (pkt_addr w)) else mem_bytes mem (pkt_addr r) (pkt_size r) ! i)" if "i < pkt_size r" for i
    using in' that m w(4) by (auto simp: mem_bytes_def overwrite_def off in_mem_def Let_def intro!: arg_cong [of _ _ "nth d"])
  then show ?thesis using w r by (auto simp: Let_def)
qed

theorem access_write_read_witness:
  "\<exists>mem1 w' mem2 r' rd. access demo_mem (demo_pkt WriteReq 0x1234 0 0x5A) = Inr (mem1, w') \<and>
     access mem1 (demo_pkt ReadReq 0x1234 1 0) = Inr (mem2, r') \<and> pkt_data r' = Some rd \<and> rd ! 0 = 0x5A"
  using access_write_read [OF demo_mem_valid, of "demo_pkt WriteReq 0x1234 0 0x5A" "[0x5A]" "demo_pkt ReadReq 0x1234 1 0"]
  by (auto simp: demo_pkt_cpu cpu_cmd_def Let_def)

definition payload_bytes :: "nat \<Rightarrow> addr \<Rightarrow> addr \<Rightarrow> addr \<Rightarrow> byte list" where
  "payload_bytes k dest src1 src2 =
     bytes_of 4 (of_nat k) @ [0, 0, 0, 0] @ bytes_of 8 dest @ bytes_of 8 src1 @ bytes_of 8 src2"

lemma join_bytes_of: "n \<le> 8 \<Longrightarrow> join_bytes (bytes_of n w) = take_bit (8 * n) w"
  by (rule bit_word_eqI)
     (auto simp: bit_join_bytes bytes_of_def bit_simps less_mult_imp_div_less mult.commute
       dest: bit_imp_le_length)

lemma decode_payload_bytes:
  assumes "k < 8"
  shows "decode_payload (payload_bytes k d s1 s2) = Inr (rowop_of_nat k, d, s1, s2)"
proof -
  have len: "length (bytes_of n w) = n" for n w by (simp add: bytes_of_def)
  have "take_bit 64 w = w" for w :: "64 word" by (simp add: take_bit_word_eq_self)
  moreover have "unat (take_bit 32 (of_nat k :: 64 word)) = k"
    using assms by (simp add: unsigned_take_bit_eq unat_of_nat take_bit_nat_eq_self)
  ultimately show ?thesis
    by (simp add: decode_payload_def payload_bytes_def len join_bytes_of)
qed

lemma access_rowop_runs:
  assumes "pmem mem = Some m" "isRowOp p" "\<not> memInhibitAsserted p" "needsResponse p" "isRequest p"
    and "getPtr p = Inr (payload_bytes k dest src1 src2)" "rowop_of_nat k = Some op"
    and "row_op op (pmem_size mem) (ROW_SIZE div 8) (host_offset mem dest) (host_offset mem src1) (host_offset mem src2) m = Inr m'"
  shows "\<exists>p'. access mem p = Inr (mem\<lparr>pmem := Some m'\<rparr>, p') \<and> isResponse p' \<and> \<not> isError p'"
proof -
  have k: "k < 8" using assms(7) by (auto simp: rowop_of_nat_def split: if_splits)
  have ap: "m' = m" if "op = ROWAP" using assms(8) that by (simp add: row_op_def)
  obtain p' where p': "respond_if_needed p = Inr p'" "isResponse p'" "\<not> isError p'"
    using assms(4,5) response_table [of "pkt_cmd p"]
    by (auto simp: respond_if_needed_def makeResponse_def needsResponse_def isRequest_def isResponse_def isError_def)
  have "pkt_cmd p \<noteq> CleanEvict" using assms(4) by (auto simp: needsResponse_def cmd_defs)
  then show ?thesis
    using assms k p' ap by (auto simp: access_def access_rowop_def decode_payload_bytes run_rowop_def)
qed

lemma access_rowop_effect:
  assumes "mem_ok mem" "pmem mem = Some m" "isRowOp p" "\<not> memInhibitAsserted p" "needsResponse p" "isRequest p"
    and "getPtr p = Inr (payload_bytes k dest src1 src2)" "rowop_of_nat k = Some op"
    and "in_mem mem dest ROW_SIZE"
    and "\<forall>s \<in> set (row_sources op (host_offset mem src1) (host_offset mem src2)).
           s + ROW_SIZE \<le> pmem_size mem \<and> row_apart (ROW_SIZE div 8) (host_offset mem dest) s"
  shows "\<exists>mem' p' m'. access mem p = Inr (mem', p') \<and> pmem mem' = Some m' \<and> isResponse p' \<and>
    (\<forall>j. j < host_offset mem dest \<or> host_offset mem dest + ROW_SIZE \<le> j \<longrightarrow> m' j = m j) \<and>
    (\<forall>i < ROW_SIZE div 8. row_at m' (host_offset mem dest) i =
       row_spec op (ROW_SIZE div 8) (row_at m (host_offset mem dest))
         (row_at m (host_offset mem src1)) (row_at m (host_offset mem src2)) i)"
proof -
  have n8: "8 * (ROW_SIZE div 8) = ROW_SIZE" by (simp add: ROW_SIZE_def)
  have "host_offset mem dest + 8 * (ROW_SIZE div 8) \<le> pmem_size mem"
    using in_mem_offset [OF assms(1,9)] n8 by simp
  then obtain m' where m': "row_op op (pmem_size mem) (ROW_SIZE div 8) (host_offset mem dest)
        (host_offset mem src1) (host_offset mem src2) m = Inr m'"
      "same_outside (ROW_SIZE div 8) (host_offset mem dest) m m'"
      "\<forall>i < ROW_SIZE div 8. row_at m' (host_offset mem dest) i =
         row_spec op (ROW_SIZE div 8) (row_at m (host_offset mem dest))
         (row_at m (host_offset mem src1)) (row_at m (host_offset mem src2)) i"
    using rop.run_ok [of "host_offset mem dest" "ROW_SIZE div 8" "pmem_size mem" op
        "host_offset mem src1" "host_offset mem src2" m] assms(10) n8 by auto
  then obtain p' where "access mem p = Inr (mem\<lparr>pmem := Some m'\<rparr>, p')" "isResponse p'"
    using access_rowop_runs [OF assms(2-8) m'(1)] by blast
  then show ?thesis using m'(2,3) n8 by (auto simp: same_outside_def)
qed

definition demo_rowop :: "nat \<Rightarrow> addr \<Rightarrow> addr \<Rightarrow> addr \<Rightarrow> Packet" where
  "demo_rowop k d s1 s2 =
     (new_packet (phys_request d 32 ROWOP 0 0) WriteReq)
       \<lparr>pkt_data := Some (payload_bytes k d s1 s2), pkt_flags := VALID_ADDR OR VALID_SIZE OR STATIC_DATA\<rparr>"

lemma demo_rowop_simps [simp]:
  "isRowOp (demo_rowop k d s1 s2)" "\<not> memInhibitAsserted (demo_rowop k d s1 s2)" "needsResponse (demo_rowop k d s1 s2)"
  "isRequest (demo_rowop k d s1 s2)" "getPtr (demo_rowop k d s1 s2) = Inr (payload_bytes k d s1 s2)"
  by (simp_all add: demo_rowop_def new_packet_def isRowOp_def req_isRowOp_def phys_request_def setPhys_def
      empty_request_def isSet_def setFlag_def clearFlags_def req_flag_defs pkt_flag_defs memInhibitAsserted_def
      needsResponse_def isRequest_def cmd_defs getPtr_def Let_def)

text \<open>C18: a row-operation packet whose destination and source rows lie in the memory's range, with
  the destination apart from the sources the operation reads, is executed and answered; the
  destination row then holds the operation's result and no other byte has changed.\<close>

theorem access_rowop_correct:
  assumes "mem_ok mem" "pmem mem = Some m" "isRowOp p" "\<not> memInhibitAsserted p" "needsResponse p" "isRequest p"
    and "getPtr p = Inr (payload_bytes k dest src1 src2)" "rowop_of_nat k = Some op"
    and "in_mem mem dest ROW_SIZE"
    and "\<forall>s \<in> set (row_sources op (host_offset mem src1) (host_offset mem src2)).
           s + ROW_SIZE \<le> pmem_size mem \<and> row_apart (ROW_SIZE div 8) (host_offset mem dest) s"
  shows "\<exists>mem' p' m'. access mem p = Inr (mem', p') \<and> pmem mem' = Some m' \<and> isResponse p' \<and>
    (\<forall>j. j < host_offset mem dest \<or> host_offset mem dest + ROW_SIZE \<le> j \<longrightarrow> m' j = m j) \<and>
    (\<forall>i < ROW_SIZE div 8. row_at m' (host_offset mem dest) i =
       row_spec op (ROW_SIZE div 8) (row_at m (host_offset mem dest))
         (row_at m (host_offset mem src1)) (row_at m (host_offset mem src2)) i)"
  by (rule access_rowop_effect [OF assms])

theorem access_rowop_correct_witness:
  "\<exists>mem' p' m'. access demo_mem (demo_rowop 2 0x2000 0 0) = Inr (mem', p') \<and> pmem mem' = Some m' \<and>
     row_at m' 0x2000 5 = NOT (row_at (\<lambda>_. 0) 0 5)"
proof -
  have "mem_ok demo_mem" "pmem demo_mem = Some (\<lambda>_. 0)"
    "rowop_of_nat 2 = Some ROWNOT" "in_mem demo_mem 0x2000 ROW_SIZE"
    "host_offset demo_mem 0x2000 = 0x2000" "host_offset demo_mem 0 = 0" "pmem_size demo_mem = 0x10000"
    using demo_mem_valid
    by (simp_all add: mem_valid_def demo_mem_def rowop_of_nat_def in_mem_def plain_range_def ROW_SIZE_def host_offset_def)
  then show ?thesis
    using access_rowop_correct [of demo_mem "\<lambda>_. 0" "demo_rowop 2 0x2000 0 0" 2 "0x2000" 0 0 ROWNOT]
    by (fastforce simp: row_sources_def row_apart_def ROW_SIZE_def row_spec_def)
qed

text \<open>A row operation leaves every load-locked reservation in place, including those on lines of
  the row it overwrites, so a store-conditional issued after it can still succeed.\<close>

theorem rowop_keeps_reservations:
  assumes "access mem p = Inr (mem', p')" "isRowOp p"
  shows "\<forall>pa c. reserved mem' pa c \<longleftrightarrow> reserved mem pa c"
proof -
  have "lockedAddrList mem' = lockedAddrList mem"
    using assms access_rowop_same [of mem p mem' p'] by (auto simp: access_def split: if_splits)
  then show ?thesis by (simp add: reserved_def)
qed

theorem rowop_keeps_reservations_witness:
  "\<exists>mem mem' p' m'. reserved mem 0x2000 1 \<and> access mem (demo_rowop 2 0x2000 0 0) = Inr (mem', p') \<and>
     pmem mem = Some (\<lambda>_. 0) \<and> reserved mem' 0x2000 1"
proof -
  let ?mem = "demo_mem\<lparr>lockedAddrList := [\<lparr>lk_addr = 0x2000, lk_contextId = 1\<rparr>]\<rparr>"
  have "mem_ok ?mem" "pmem ?mem = Some (\<lambda>_. 0)" "reserved ?mem 0x2000 1"
    "rowop_of_nat 2 = Some ROWNOT" "in_mem ?mem 0x2000 ROW_SIZE"
    "host_offset ?mem 0x2000 = 0x2000" "host_offset ?mem 0 = 0" "pmem_size ?mem = 0x10000"
    using demo_mem_valid
    by (simp_all add: mem_valid_def mem_ok_def demo_mem_def rowop_of_nat_def in_mem_def plain_range_def ROW_SIZE_def
        host_offset_def reserved_def)
  moreover obtain m' where "row_op ROWNOT 0x10000 (ROW_SIZE div 8) 0x2000 0 0 (\<lambda>_. 0) = Inr m'"
    using rop.run_ok [of "0x2000" "ROW_SIZE div 8" "0x10000" ROWNOT 0 0 "\<lambda>_. 0"]
    by (auto simp: row_sources_def row_apart_def ROW_SIZE_def)
  moreover obtain p' where "respond_if_needed (demo_rowop 2 0x2000 0 0) = Inr p'"
    by (auto simp: respond_if_needed_def makeResponse_def)
  moreover have "pkt_cmd (demo_rowop 2 0x2000 0 0) \<noteq> CleanEvict"
    by (simp add: demo_rowop_def new_packet_def Let_def)
  ultimately have "access ?mem (demo_rowop 2 0x2000 0 0) = Inr (?mem\<lparr>pmem := Some m'\<rparr>, p')"
    by (simp add: access_def access_rowop_def decode_payload_bytes run_rowop_def)
  then show ?thesis
    using rowop_keeps_reservations [of ?mem "demo_rowop 2 0x2000 0 0"] \<open>reserved ?mem 0x2000 1\<close>
      \<open>pmem ?mem = Some (\<lambda>_. 0)\<close> demo_rowop_simps by blast
qed

text \<open>Every access that completes turns a request that needs a response into a response with
  data exactly for reads, keeps the packet's address, size and sender states, and leaves the
  memory's range and size unchanged.\<close>

theorem access_responds:
  assumes "access mem p = Inr (mem', p')" "\<not> memInhibitAsserted p" "needsResponse p"
  shows "isResponse p' \<and> (hasData p' \<longleftrightarrow> isRead p) \<and> pkt_addr p' = pkt_addr p \<and> pkt_size p' = pkt_size p \<and>
    senderState p' = senderState p \<and> am_range mem' = am_range mem \<and> pmem_size mem' = pmem_size mem"
proof -
  have "pkt_cmd p \<noteq> CleanEvict" using assms(3) by (auto simp: needsResponse_def cmd_defs)
  then obtain q where "same_shape mem mem'" "same_pkt p q" "respond_if_needed q = Inr p'"
    using access_split [OF assms(1,2)] by blast
  then show ?thesis
    using respond_cases [of q p'] assms(3)
    by (auto simp: same_shape_def same_pkt_def needsResponse_def isRead_def)
qed

theorem access_responds_witness:
  "\<exists>mem' p'. access demo_mem (demo_pkt ReadReq 0x10 0 0) = Inr (mem', p') \<and> isResponse p' \<and> hasData p'"
proof -
  let ?p = "demo_pkt ReadReq 0x10 0 0"
  have c: "cpu_pkt demo_mem ?p" "pkt_cmd ?p = ReadReq"
    by (simp_all add: demo_pkt_cpu cpu_cmd_def)
  then obtain mem' p' where a: "access demo_mem ?p = Inr (mem', p')"
    using access_load [of demo_mem ?p] demo_mem_valid by (auto simp: mem_valid_def)
  moreover have "\<not> memInhibitAsserted ?p" "needsResponse ?p" "isRead ?p"
    using c by (simp_all add: cpu_pkt_def plain_pkt_def needsResponse_def isRead_def cmd_defs)
  ultimately show ?thesis using access_responds [OF a] by auto
qed

end
