(* ===== verification/Dram_Config.thy ===== *)
theory Dram_Config
  imports Abstract_Mem
begin

text \<open>
  The static part of the DRAM controller \<^verbatim>\<open>gem5/src/mem/dram_ctrl.{hh,cc}\<close>: its configuration with
  the checks of the constructor and of \<^verbatim>\<open>init\<close>, the banks and ranks, the scheduling of events
  (\<^verbatim>\<open>gem5/src/sim/eventq_impl.hh\<close>), and the address decoding.  Every \<^verbatim>\<open>uint32_t\<close> product of
  the constructor is reduced modulo the word size.
\<close>

datatype MemSched = fcfs | frfcfs
datatype AddrMap = RoRaBaChCo | RoRaBaCoCh | RoCoRaBaCh
datatype PageManage = page_open | page_open_adaptive | page_close | page_close_adaptive

subsection \<open>Configuration\<close>

record DRAMCtrlParams =
  p_device_size :: nat
  p_device_bus_width :: nat
  p_burst_length :: nat
  p_device_rowbuffer_size :: nat
  p_devices_per_rank :: nat
  p_ranks_per_channel :: nat
  p_bank_groups_per_rank :: nat
  p_banks_per_rank :: nat
  p_channels :: nat
  p_read_buffer_size :: nat
  p_write_buffer_size :: nat
  p_write_high_thresh_perc :: nat
  p_write_low_thresh_perc :: nat
  p_min_writes_per_switch :: nat
  p_activation_limit :: nat
  p_max_accesses_per_row :: nat
  p_mem_sched_policy :: MemSched
  p_addr_mapping :: AddrMap
  p_page_policy :: PageManage

record DRAMTiming =
  tCK :: tick
  tWTR :: tick
  tRTW :: tick
  tCS :: tick
  tBURST :: tick
  tCCD_L :: tick
  tRCD :: tick
  tCL :: tick
  tRP :: tick
  tRAS :: tick
  tWR :: tick
  tRTP :: tick
  tRFC :: tick
  tREFI :: tick
  tRRD :: tick
  tRRD_L :: tick
  tXAW :: tick
  tWL :: tick
  tWLOV :: tick
  frontendLatency :: tick
  backendLatency :: tick

record DRAMConfig = DRAMTiming +
  burstSize :: nat
  rowBufferSize :: nat
  columnsPerRowBuffer :: nat
  columnsPerStripe :: nat
  ranksPerChannel :: nat
  bankGroupsPerRank :: nat
  banksPerRank :: nat
  channels :: nat
  rowsPerBank :: nat
  readBufferSize :: nat
  writeBufferSize :: nat
  writeHighThreshold :: nat
  writeLowThreshold :: nat
  minWritesPerSwitch :: nat
  activationLimit :: nat
  memSchedPolicy :: MemSched
  addrMapping :: AddrMap
  pageMgmt :: PageManage
  maxAccessesPerRow :: nat

definition bankGroupArch :: "DRAMConfig \<Rightarrow> bool" where
  "bankGroupArch cfg \<longleftrightarrow> bankGroupsPerRank cfg > 0"

definition u32 :: "nat \<Rightarrow> nat" where
  "u32 n = n mod 2 ^ 32"

text \<open>The initialiser list and the checks of the constructor; \<open>mem_range\<close> is the range of the
  abstract memory the controller inherits from.\<close>

definition new_config ::
  "DRAMCtrlParams \<Rightarrow> DRAMTiming \<Rightarrow> AddrRange \<Rightarrow> DRAMConfig result" where
  "new_config p t mem_range =
     (let burst = u32 (p_devices_per_rank p * p_burst_length p * p_device_bus_width p) div 8;
          rowbuf = u32 (p_devices_per_rank p * p_device_rowbuffer_size p) in
      rbind (if burst = 0 then Inl HostFault else Inr ()) (\<lambda>_.
      rbind (fatal_if (\<not> isPowerOf2 (of_nat (p_ranks_per_channel p) :: 32 word))
               ''DRAM rank count is not allowed'') (\<lambda>_.
      rbind (fatal_if (\<not> isPowerOf2 (of_nat burst :: 32 word)) ''DRAM burst size is not allowed'') (\<lambda>_.
      rbind (fatal_if (p_write_low_thresh_perc p \<ge> p_write_high_thresh_perc p)
               ''Write buffer low threshold must be smaller than the high threshold'') (\<lambda>_.
      rbind (ceilLog2 (range_size mem_range)) (\<lambda>lg.
      let capacity = unat (push_bit lg (1 :: 64 word));
          per_row = u32 (rowbuf * p_banks_per_rank p * p_ranks_per_channel p) in
      rbind (if per_row = 0 then Inl HostFault else Inr ()) (\<lambda>_.
      rbind (fatal_if (tREFI t \<le> tRP t \<or> tREFI t \<le> tRFC t) ''tREFI must be larger'') (\<lambda>_.
      rbind (if p_bank_groups_per_rank p > 0 then
               rbind (fatal_if (p_bank_groups_per_rank p > p_banks_per_rank p)
                        ''banks per rank must be equal to or larger than banks groups'') (\<lambda>_.
               rbind (fatal_if (p_banks_per_rank p mod p_bank_groups_per_rank p \<noteq> 0)
                        ''Banks per rank must be evenly divisible by bank groups per rank'') (\<lambda>_.
               rbind (fatal_if (tCCD_L t \<le> tBURST t) ''tCCD_L should be larger than tBURST'') (\<lambda>_.
               fatal_if (tRRD_L t < tRRD t) ''tRRD_L should be larger than tRRD'')))
             else Inr ()) (\<lambda>_.
      Inr (DRAMTiming.extend t
        \<lparr>burstSize = burst,
         rowBufferSize = rowbuf,
         columnsPerRowBuffer = rowbuf div burst,
         columnsPerStripe =
           (if interleaved mem_range then unat (granularity mem_range) div burst else 1),
         ranksPerChannel = p_ranks_per_channel p,
         bankGroupsPerRank = p_bank_groups_per_rank p,
         banksPerRank = p_banks_per_rank p,
         channels = p_channels p,
         rowsPerBank = u32 (capacity div per_row),
         readBufferSize = p_read_buffer_size p,
         writeBufferSize = p_write_buffer_size p,
         writeHighThreshold = u32 (p_write_buffer_size p * p_write_high_thresh_perc p) div 100,
         writeLowThreshold = u32 (p_write_buffer_size p * p_write_low_thresh_perc p) div 100,
         minWritesPerSwitch = p_min_writes_per_switch p,
         activationLimit = p_activation_limit p,
         memSchedPolicy = p_mem_sched_policy p,
         addrMapping = p_addr_mapping p,
         pageMgmt = p_page_policy p,
         maxAccessesPerRow = p_max_accesses_per_row p\<rparr>))))))))))"

text \<open>The interleaving checks of \<^verbatim>\<open>init\<close>; the cache line size comes from the system object.\<close>

definition init_checks :: "DRAMConfig \<Rightarrow> AddrRange \<Rightarrow> nat \<Rightarrow> unit result" where
  "init_checks cfg mem_range cacheLineSize =
     (if interleaved mem_range then
        rbind (fatal_if (channels cfg \<noteq> stripes mem_range) ''stripes do not match channels'') (\<lambda>_.
        if addrMapping cfg = RoRaBaChCo then
          fatal_if (rowBufferSize cfg \<noteq> unat (granularity mem_range))
            ''Channel interleaving does not match RoRaBaChCo address map''
        else
          rbind (assertr (columnsPerStripe cfg \<ge> 1) ''columnsPerStripe >= 1'') (\<lambda>_.
          rbind (fatal_if (cacheLineSize > unat (granularity mem_range))
                   ''Channel interleaving must be at least as large as the cache line size'') (\<lambda>_.
          rbind (fatal_if (rowBufferSize cfg < unat (granularity mem_range))
                   ''Channel interleaving must be at most as large as the row-buffer size'') (\<lambda>_.
          assertr (columnsPerStripe cfg \<le> columnsPerRowBuffer cfg)
            ''columnsPerStripe <= columnsPerRowBuffer''))))
      else Inr ())"

subsection \<open>Events\<close>

text \<open>An event is the tick it is scheduled for, if it is scheduled.\<close>

type_synonym event = "tick option"

definition schedule_event :: "tick \<Rightarrow> event \<Rightarrow> tick \<Rightarrow> event result" where
  "schedule_event now ev w =
     rbind (assertr (w \<ge> now) ''when >= getCurTick()'') (\<lambda>_.
     rbind (assertr (ev = None) ''!event->scheduled()'') (\<lambda>_. Inr (Some w)))"

definition reschedule_event :: "tick \<Rightarrow> event \<Rightarrow> tick \<Rightarrow> event result" where
  "reschedule_event now ev w =
     rbind (assertr (w \<ge> now) ''when >= getCurTick()'') (\<lambda>_.
     rbind (assertr (ev \<noteq> None) ''event->scheduled()'') (\<lambda>_. Inr (Some w)))"

definition deschedule_event :: "event \<Rightarrow> event result" where
  "deschedule_event ev = rbind (assertr (ev \<noteq> None) ''event->scheduled()'') (\<lambda>_. Inr None)"

subsection \<open>Banks and ranks\<close>

definition NO_ROW :: "32 word" where "NO_ROW = -1"
definition DOUBLE_ROW :: "32 word" where "DOUBLE_ROW = -2"
definition B_T0 :: "32 word" where "B_T0 = -3"
definition B_T1 :: "32 word" where "B_T1 = -4"
definition B_T2 :: "32 word" where "B_T2 = -5"
definition B_DCC0 :: "32 word" where "B_DCC0 = -7"
definition B_DCC0N :: "32 word" where "B_DCC0N = -8"
definition B_DCC0N_T0 :: "32 word" where "B_DCC0N_T0 = -11"
definition B_DCC1N_T1 :: "32 word" where "B_DCC1N_T1 = -12"
definition B_T2_T3 :: "32 word" where "B_T2_T3 = -13"
definition B_T0_T1_T2 :: "32 word" where "B_T0_T1_T2 = -15"
definition B_DCC0_T1_T2 :: "32 word" where "B_DCC0_T1_T2 = -17"
definition B_DCC1_T0_T3 :: "32 word" where "B_DCC1_T0_T3 = -18"
definition C_0 :: "32 word" where "C_0 = -19"
definition C_1 :: "32 word" where "C_1 = -20"
definition B_T0_SH :: "32 word" where "B_T0_SH = -21"

lemmas row_consts = NO_ROW_def DOUBLE_ROW_def B_T0_def B_T1_def B_T2_def B_DCC0_def B_DCC0N_def
  B_DCC0N_T0_def B_DCC1N_T1_def B_T2_T3_def B_T0_T1_T2_def B_DCC0_T1_T2_def B_DCC1_T0_T3_def
  C_0_def C_1_def B_T0_SH_def

record Bank =
  openRow :: "32 word"
  bank_no :: nat
  bankgr :: nat
  colAllowedAt :: tick
  preAllowedAt :: tick
  actAllowedAt :: tick
  rowAccesses :: nat
  bytesAccessed :: nat

definition new_bank :: Bank where
  "new_bank = \<lparr>openRow = NO_ROW, bank_no = 0, bankgr = 0, colAllowedAt = 0, preAllowedAt = 0,
               actAllowedAt = 0, rowAccesses = 0, bytesAccessed = 0\<rparr>"

datatype PowerState = PWR_IDLE | PWR_REF | PWR_PRE_PDN | PWR_ACT | PWR_ACT_PDN
datatype RefreshState = REF_IDLE | REF_DRAIN | REF_PRE | REF_RUN
datatype MemCommand = CMD_ACT | CMD_PRE | CMD_PREA | CMD_REF | CMD_RD | CMD_WR

record Rank =
  pwrStateTrans :: PowerState
  pwrState :: PowerState
  pwrStateTick :: tick
  refreshState :: RefreshState
  refreshDueAt :: tick
  pwrStateTime :: "PowerState \<Rightarrow> nat"
  rank_no :: nat
  cmdList :: "(MemCommand \<times> nat \<times> nat) list"
  banks :: "Bank list"
  numBanksActive :: nat
  actTicks :: "tick list"
  bytesPerActivate :: "nat list"
  activateEvent :: event
  prechargeEvent :: event
  refreshEvent :: event
  powerEvent :: event

definition new_rank :: "DRAMConfig \<Rightarrow> nat \<Rightarrow> Rank" where
  "new_rank cfg i =
     \<lparr>pwrStateTrans = PWR_IDLE, pwrState = PWR_IDLE, pwrStateTick = 0, refreshState = REF_IDLE,
      refreshDueAt = 0, pwrStateTime = (\<lambda>_. 0), rank_no = i mod 256, cmdList = [],
      banks = map (\<lambda>b. new_bank\<lparr>bank_no := b mod 256,
                     bankgr := (if bankGroupArch cfg then b mod bankGroupsPerRank cfg else b) mod 256\<rparr>)
                  [0..<banksPerRank cfg],
      numBanksActive = 0, actTicks = replicate (activationLimit cfg) 0, bytesPerActivate = [],
      activateEvent = None, prechargeEvent = None, refreshEvent = None, powerEvent = None\<rparr>"

definition isAvailable :: "Rank \<Rightarrow> bool" where
  "isAvailable r \<longleftrightarrow> refreshState r = REF_IDLE"

subsection \<open>DRAM packets and address decoding\<close>

text \<open>The references to bank and rank are the indices; a burst helper is named by its identity.
  \<open>dp_row_op\<close> is \<open>None\<close> while the field of the source is unset or outside the enumeration.\<close>

record DRAMPacket =
  entryTime :: tick
  readyTime :: tick
  dp_pkt :: Packet
  dp_isRead :: bool
  dp_rank :: nat
  dp_bank :: nat
  dp_row :: "32 word"
  src1_row :: "32 word"
  src2_row :: "32 word"
  is_row_op :: bool
  dp_row_op :: "RowOp option"
  bankId :: nat
  dp_addr :: addr
  dp_size :: nat
  burstHelper :: "nat option"

text \<open>The order in which the mappings take the address apart.\<close>

definition decode_coords :: "DRAMConfig \<Rightarrow> addr \<Rightarrow> (nat \<times> nat \<times> nat) result" where
  "decode_coords cfg dramPktAddr =
     (let a0 = unat dramPktAddr div burstSize cfg;
          B = banksPerRank cfg; R = ranksPerChannel cfg; N = rowsPerBank cfg;
          stripe_cols = columnsPerRowBuffer cfg div columnsPerStripe cfg in
      if burstSize cfg = 0 \<or> channels cfg = 0 \<or> B = 0 \<or> R = 0 \<or> N = 0 then Inl HostFault
      else case addrMapping cfg of
        RoRaBaChCo \<Rightarrow>
          if columnsPerRowBuffer cfg = 0 then Inl HostFault
          else let a1 = a0 div columnsPerRowBuffer cfg; a2 = a1 div channels cfg;
                   bank = a2 mod B; a3 = a2 div B; rank = a3 mod R; a4 = a3 div R
               in Inr (rank mod 256, bank mod 256, a4 mod N)
      | RoRaBaCoCh \<Rightarrow>
          if columnsPerStripe cfg = 0 \<or> stripe_cols = 0 then Inl HostFault
          else let a1 = a0 div columnsPerStripe cfg; a2 = a1 div channels cfg;
                   a3 = a2 div stripe_cols;
                   bank = a3 mod B; a4 = a3 div B; rank = a4 mod R; a5 = a4 div R
               in Inr (rank mod 256, bank mod 256, a5 mod N)
      | RoCoRaBaCh \<Rightarrow>
          if columnsPerStripe cfg = 0 \<or> stripe_cols = 0 then Inl HostFault
          else let a1 = a0 div columnsPerStripe cfg; a2 = a1 div channels cfg;
                   bank = a2 mod B; a3 = a2 div B; rank = a3 mod R; a4 = a3 div R;
                   a5 = a4 div stripe_cols
               in Inr (rank mod 256, bank mod 256, a5 mod N))"

definition decodeAddr ::
  "DRAMConfig \<Rightarrow> tick \<Rightarrow> Packet \<Rightarrow> addr \<Rightarrow> nat \<Rightarrow> bool \<Rightarrow> DRAMPacket result" where
  "decodeAddr cfg now pkt dramPktAddr sz is_read =
     rbind (decode_coords cfg dramPktAddr) (\<lambda>(rank, bank, row).
     rbind (assertr (rank < ranksPerChannel cfg) ''rank < ranksPerChannel'') (\<lambda>_.
     rbind (assertr (bank < banksPerRank cfg) ''bank < banksPerRank'') (\<lambda>_.
     rbind (assertr (row < rowsPerBank cfg) ''row < rowsPerBank'') (\<lambda>_.
     rbind (assertr (row < unat NO_ROW) ''row < Bank::NO_ROW'') (\<lambda>_.
     Inr \<lparr>entryTime = now, readyTime = now, dp_pkt = pkt, dp_isRead = is_read, dp_rank = rank,
          dp_bank = bank, dp_row = of_nat row, src1_row = 0, src2_row = 0, is_row_op = False,
          dp_row_op = None, bankId = (banksPerRank cfg * rank + bank) mod 2 ^ 16,
          dp_addr = dramPktAddr, dp_size = sz, burstHelper = None\<rparr>)))))"

definition burstAlign :: "DRAMConfig \<Rightarrow> addr \<Rightarrow> addr" where
  "burstAlign cfg a = a AND NOT (of_nat (burstSize cfg) - 1)"

subsection \<open>Decoding\<close>

text \<open>A configuration the constructor can produce and that fits the 8-bit bank and rank numbers.\<close>

definition config_ok :: "DRAMConfig \<Rightarrow> bool" where
  "config_ok cfg \<longleftrightarrow>
     0 < channels cfg \<and> 0 < banksPerRank cfg \<and> banksPerRank cfg \<le> 256 \<and>
     0 < ranksPerChannel cfg \<and> ranksPerChannel cfg \<le> 256 \<and>
     banksPerRank cfg * ranksPerChannel cfg \<le> 64 \<and>
     0 < rowsPerBank cfg \<and> rowsPerBank cfg < 2 ^ 32 \<and>
     (\<exists>k < 32. burstSize cfg = 2 ^ k) \<and> 0 < columnsPerStripe cfg \<and>
     columnsPerStripe cfg dvd columnsPerRowBuffer cfg \<and> 0 < columnsPerRowBuffer cfg"

lemma unat_NO_ROW: "unat NO_ROW = 2 ^ 32 - 1"
  by (simp add: NO_ROW_def unsigned_minus_1_eq_mask mask_eq_exp_minus_1)

lemma decode_coords_ok:
  assumes "config_ok cfg"
  shows "\<exists>rank bank row. decode_coords cfg a = Inr (rank, bank, row) \<and> rank < ranksPerChannel cfg \<and>
    bank < banksPerRank cfg \<and> row < rowsPerBank cfg"
proof -
  have m: "x mod B mod 256 < B" if "0 < B" "B \<le> 256" for x B :: nat
    using le_less_trans [OF mod_less_eq_dividend mod_less_divisor] that by blast
  have "columnsPerRowBuffer cfg div columnsPerStripe cfg \<noteq> 0"
    using assms by (auto simp: config_ok_def dvd_div_eq_0_iff)
  then show ?thesis
    using assms m by (cases "addrMapping cfg") (auto simp: decode_coords_def Let_def config_ok_def)
qed

lemma decodeAddr_ok:
  assumes "config_ok cfg"
  shows "\<exists>dp. decodeAddr cfg now pkt a sz rd = Inr dp \<and> dp_rank dp < ranksPerChannel cfg \<and>
    dp_bank dp < banksPerRank cfg \<and> unat (dp_row dp) < rowsPerBank cfg \<and> dp_row dp \<noteq> NO_ROW \<and>
    bankId dp = banksPerRank cfg * dp_rank dp + dp_bank dp \<and> dp_addr dp = a \<and> dp_size dp = sz \<and>
    dp_isRead dp = rd \<and> \<not> is_row_op dp \<and> dp_pkt dp = pkt \<and> entryTime dp = now"
proof -
  obtain rank bank row where c: "decode_coords cfg a = Inr (rank, bank, row)" "rank < ranksPerChannel cfg"
      "bank < banksPerRank cfg" "row < rowsPerBank cfg"
    using decode_coords_ok [OF assms] by blast
  have "rowsPerBank cfg < 2 ^ 32" using assms by (simp add: config_ok_def)
  then have row: "row < unat NO_ROW" "unat (of_nat row :: 32 word) = row"
    using c(4) by (simp_all add: unat_NO_ROW unat_of_nat)
  then have "of_nat row \<noteq> NO_ROW" by (metis less_irrefl)
  moreover have "banksPerRank cfg * rank + bank < banksPerRank cfg * ranksPerChannel cfg"
  proof -
    have "banksPerRank cfg * rank + bank < banksPerRank cfg * (rank + 1)" using c(3) by simp
    also have "\<dots> \<le> banksPerRank cfg * ranksPerChannel cfg" using c(2) by (intro mult_le_mono2) simp
    finally show ?thesis .
  qed
  then have "(banksPerRank cfg * rank + bank) mod 2 ^ 16 = banksPerRank cfg * rank + bank"
    using assms by (simp add: config_ok_def)
  ultimately show ?thesis using c row by (simp add: decodeAddr_def)
qed

definition row_span :: "DRAMConfig \<Rightarrow> nat" where
  "row_span cfg = burstSize cfg * columnsPerRowBuffer cfg * channels cfg"

definition row_major :: "DRAMConfig \<Rightarrow> bool" where
  "row_major cfg \<longleftrightarrow> addrMapping cfg = RoRaBaChCo \<or> addrMapping cfg = RoRaBaCoCh"

lemma decode_coords_quotient:
  assumes "config_ok cfg" "row_major cfg"
  defines "q \<equiv> \<lambda>a. unat a div row_span cfg"
  shows "decode_coords cfg a =
    Inr (q a div banksPerRank cfg mod ranksPerChannel cfg, q a mod banksPerRank cfg,
         q a div banksPerRank cfg div ranksPerChannel cfg mod rowsPerBank cfg)"
proof -
  have pos: "0 < burstSize cfg" "0 < channels cfg" "0 < banksPerRank cfg" "0 < ranksPerChannel cfg"
      "0 < rowsPerBank cfg" "0 < columnsPerStripe cfg" "0 < columnsPerRowBuffer cfg"
    and small: "banksPerRank cfg \<le> 256" "ranksPerChannel cfg \<le> 256"
    and dv: "columnsPerStripe cfg dvd columnsPerRowBuffer cfg"
    using assms(1) by (auto simp: config_ok_def)
  have m: "x mod B mod 256 = x mod B" if "0 < B" "B \<le> 256" for x B :: nat
    using that mod_less_divisor [of B x] by (intro mod_less) linarith
  have sc: "columnsPerRowBuffer cfg div columnsPerStripe cfg \<noteq> 0"
    using pos dv by (auto simp: dvd_div_eq_0_iff)
  have q1: "unat a div burstSize cfg div columnsPerRowBuffer cfg div channels cfg = q a"
    by (simp add: q_def row_span_def div_mult2_eq)
  have q2: "unat a div burstSize cfg div columnsPerStripe cfg div channels cfg div
      (columnsPerRowBuffer cfg div columnsPerStripe cfg) = q a"
  proof -
    have "columnsPerStripe cfg * channels cfg * (columnsPerRowBuffer cfg div columnsPerStripe cfg) =
        columnsPerRowBuffer cfg * channels cfg"
      using dv by (metis dvd_mult_div_cancel mult.assoc mult.commute)
    then show ?thesis
      by (metis (no_types, lifting) div_mult2_eq mult.assoc q_def row_span_def)
  qed
  show ?thesis
    using assms(2) pos small sc m q1 q2
    by (auto simp: decode_coords_def Let_def row_major_def)
qed

lemma mixed_radix_inj:
  fixes B R N :: nat
  assumes "x < B * R * N" "y < B * R * N" "x mod B = y mod B" "x div B mod R = y div B mod R"
    "x div B div R mod N = y div B div R mod N"
  shows "x = y"
proof -
  have "x div B div R < N" "y div B div R < N"
    using assms(1,2) by (auto simp: less_mult_imp_div_less mult.commute mult.left_commute simp flip: div_mult2_eq)
  then have "x div B div R = y div B div R" using assms(5) by simp
  then have "x div B = y div B" using assms(4) by (metis div_mult_mod_eq)
  then show ?thesis using assms(3) by (metis div_mult_mod_eq)
qed

subsection \<open>Properties\<close>

text \<open>Under the two row-major address mappings the decoder never fails, and two addresses
  within the capacity fall into the same rank, bank and row exactly when they lie in the same
  aligned block of a row buffer across all channels.\<close>

theorem decode_same_row_iff:
  assumes "config_ok cfg" "row_major cfg"
    and "unat a < row_span cfg * (banksPerRank cfg * ranksPerChannel cfg * rowsPerBank cfg)"
    and "unat b < row_span cfg * (banksPerRank cfg * ranksPerChannel cfg * rowsPerBank cfg)"
  shows "\<exists>ca cb. decode_coords cfg a = Inr ca \<and> decode_coords cfg b = Inr cb \<and>
    (ca = cb \<longleftrightarrow> unat a div row_span cfg = unat b div row_span cfg)"
proof -
  have "unat a div row_span cfg < banksPerRank cfg * ranksPerChannel cfg * rowsPerBank cfg"
    "unat b div row_span cfg < banksPerRank cfg * ranksPerChannel cfg * rowsPerBank cfg"
    using assms(3,4) by (auto intro: less_mult_imp_div_less simp: mult.commute)
  then show ?thesis
    using decode_coords_quotient [OF assms(1,2)] mixed_radix_inj [of "unat a div row_span cfg"
        "banksPerRank cfg" "ranksPerChannel cfg" "rowsPerBank cfg" "unat b div row_span cfg"]
    by auto
qed

definition demo_config :: DRAMConfig where
  "demo_config = \<lparr>tCK = 1250, tWTR = 7500, tRTW = 2500, tCS = 2500, tBURST = 5000, tCCD_L = 0,
     tRCD = 13750, tCL = 13750, tRP = 13750, tRAS = 35000, tWR = 15000, tRTP = 7500,
     tRFC = 260000, tREFI = 7800000, tRRD = 6000, tRRD_L = 0, tXAW = 30000, tWL = 32000,
     tWLOV = 4000, frontendLatency = 10000, backendLatency = 10000,
     burstSize = 64, rowBufferSize = 8192, columnsPerRowBuffer = 128, columnsPerStripe = 1,
     ranksPerChannel = 2, bankGroupsPerRank = 0, banksPerRank = 8, channels = 1,
     rowsPerBank = 16384, readBufferSize = 32, writeBufferSize = 64, writeHighThreshold = 54,
     writeLowThreshold = 32, minWritesPerSwitch = 16, activationLimit = 4,
     memSchedPolicy = frfcfs, addrMapping = RoRaBaChCo, pageMgmt = page_open_adaptive,
     maxAccessesPerRow = 16\<rparr>"

lemma demo_config_ok: "config_ok demo_config"
  by (auto simp: config_ok_def demo_config_def intro: exI [of _ 6])

theorem decode_same_row_iff_witness:
  "\<exists>ca cb. decode_coords demo_config 0x2000 = Inr ca \<and> decode_coords demo_config 0x3FFF = Inr cb \<and> ca = cb"
  using decode_same_row_iff [OF demo_config_ok, of "0x2000" "0x3FFF"]
  by (simp add: row_major_def row_span_def demo_config_def)

text \<open>C23: for every mapping the decoder produces a rank, bank and row in range and a flat bank
  number that determines rank and bank; its assertions never fire.\<close>

theorem decodeAddr_in_range:
  assumes "config_ok cfg"
  shows "\<exists>dp. decodeAddr cfg now pkt a sz rd = Inr dp \<and> dp_rank dp < ranksPerChannel cfg \<and>
    dp_bank dp < banksPerRank cfg \<and> unat (dp_row dp) < rowsPerBank cfg \<and> dp_row dp \<noteq> NO_ROW \<and>
    bankId dp < banksPerRank cfg * ranksPerChannel cfg \<and>
    bankId dp div banksPerRank cfg = dp_rank dp \<and> bankId dp mod banksPerRank cfg = dp_bank dp"
proof -
  obtain dp where dp: "decodeAddr cfg now pkt a sz rd = Inr dp" "dp_rank dp < ranksPerChannel cfg"
      "dp_bank dp < banksPerRank cfg" "unat (dp_row dp) < rowsPerBank cfg" "dp_row dp \<noteq> NO_ROW"
      "bankId dp = banksPerRank cfg * dp_rank dp + dp_bank dp"
    using decodeAddr_ok [OF assms] by blast
  have "banksPerRank cfg * dp_rank dp + dp_bank dp < banksPerRank cfg * Suc (dp_rank dp)" using dp(3) by simp
  also have "\<dots> \<le> banksPerRank cfg * ranksPerChannel cfg" using dp(2) by (intro mult_le_mono2) simp
  finally show ?thesis using dp by auto
qed

theorem decodeAddr_in_range_witness:
  "\<exists>dp. decodeAddr demo_config 100 demo_read 0x12345678 64 True = Inr dp \<and> bankId dp < 16"
  using decodeAddr_in_range [OF demo_config_ok, of 100 demo_read "0x12345678" 64 True]
  by (auto simp: demo_config_def)

end
