(* ===== verification/Dram_Bank.thy ===== *)
theory Dram_Bank
  imports Dram_Config
begin

text \<open>
  The bank commands of the DRAM controller: \<^verbatim>\<open>activateBank\<close>, \<^verbatim>\<open>prechargeBank\<close>, and the
  activate-precharge and activate-activate-precharge sequences the row operations are made of.
  Each takes the rank and the index of the bank in it and returns the rank.  The samples of the
  histogram of bytes per activation and the commands for the power library are logged in the
  rank.
\<close>

definition set_bank :: "nat \<Rightarrow> (Bank \<Rightarrow> Bank) \<Rightarrow> Rank \<Rightarrow> Rank" where
  "set_bank b f r = r\<lparr>banks := (banks r)[b := f (banks r ! b)]\<rparr>"

definition all_banks :: "(Bank \<Rightarrow> Bank) \<Rightarrow> Rank \<Rightarrow> Rank" where
  "all_banks f r = r\<lparr>banks := map f (banks r)\<rparr>"

definition doCommand ::
  "DRAMConfig \<Rightarrow> tick \<Rightarrow> MemCommand \<Rightarrow> nat \<Rightarrow> tick \<Rightarrow> Rank \<Rightarrow> Rank" where
  "doCommand cfg tso c b t r =
     r\<lparr>cmdList := cmdList r @ [(c, b, tick_sub (divCeil t (tCK cfg)) tso)]\<rparr>"

text \<open>The loop that enforces the activate-to-activate delay on every bank of the rank.\<close>

definition enforce_tRRD :: "DRAMConfig \<Rightarrow> nat \<Rightarrow> tick \<Rightarrow> Rank \<Rightarrow> Rank" where
  "enforce_tRRD cfg gr act_tick r =
     all_banks (\<lambda>k.
       if bankGroupArch cfg \<and> gr = bankgr k
       then k\<lparr>actAllowedAt := max (act_tick + tRRD_L cfg) (actAllowedAt k)\<rparr>
       else k\<lparr>actAllowedAt := max (act_tick + tRRD cfg) (actAllowedAt k)\<rparr>) r"

definition schedule_activate :: "tick \<Rightarrow> tick \<Rightarrow> Rank \<Rightarrow> Rank result" where
  "schedule_activate now act_tick r =
     (case activateEvent r of
        None \<Rightarrow> rbind (schedule_event now (activateEvent r) act_tick) (\<lambda>e.
                 Inr (r\<lparr>activateEvent := e\<rparr>))
      | Some w \<Rightarrow>
          if w > act_tick then rbind (reschedule_event now (activateEvent r) act_tick) (\<lambda>e.
            Inr (r\<lparr>activateEvent := e\<rparr>))
          else Inr r)"

text \<open>The book-keeping of the activation window: drop the oldest activate, record the new one, and
  hold back the next one.  The two callers compare in different ways.\<close>

definition hold_activates :: "DRAMConfig \<Rightarrow> tick \<Rightarrow> Rank \<Rightarrow> Rank" where
  "hold_activates cfg oldest r =
     all_banks (\<lambda>k. k\<lparr>actAllowedAt := max (oldest + tXAW cfg) (actAllowedAt k)\<rparr>) r"

definition record_activate :: "DRAMConfig \<Rightarrow> tick \<Rightarrow> Rank \<Rightarrow> Rank" where
  "record_activate cfg act_tick r =
     (let ticks = act_tick # butlast (actTicks r); r' = r\<lparr>actTicks := ticks\<rparr>
      in if last ticks \<noteq> 0 \<and> tick_sub act_tick (last ticks) < tXAW cfg
         then hold_activates cfg (last ticks) r' else r')"

definition record_activate_aap :: "DRAMConfig \<Rightarrow> tick \<Rightarrow> Rank \<Rightarrow> Rank" where
  "record_activate_aap cfg act_tick r =
     (let ticks = act_tick # butlast (actTicks r); r' = r\<lparr>actTicks := ticks\<rparr>;
          new_limit = last ticks + tXAW cfg
      in if last ticks \<noteq> 0 \<and> act_tick < new_limit
         then hold_activates cfg (last ticks) r' else r')"

definition activateBank ::
  "DRAMConfig \<Rightarrow> tick \<Rightarrow> tick \<Rightarrow> nat \<Rightarrow> tick \<Rightarrow> 32 word \<Rightarrow> Rank \<Rightarrow> Rank result" where
  "activateBank cfg tso now b act_tick row r =
     rbind (assertr (length (actTicks r) = activationLimit cfg) ''actTicks.size() == activationLimit'') (\<lambda>_.
     rbind (assertr (openRow (banks r ! b) = NO_ROW) ''openRow == Bank::NO_ROW'') (\<lambda>_.
     let r1 = set_bank b (\<lambda>k. k\<lparr>openRow := row, bytesAccessed := 0, rowAccesses := 0\<rparr>) r;
         r2 = r1\<lparr>numBanksActive := numBanksActive r1 + 1\<rparr> in
     rbind (assertr (numBanksActive r2 \<le> banksPerRank cfg) ''numBanksActive <= banksPerRank'') (\<lambda>_.
     let r3 = doCommand cfg tso CMD_ACT (bank_no (banks r2 ! b)) act_tick r2;
         r4 = set_bank b (\<lambda>k. k\<lparr>preAllowedAt := act_tick + tRAS cfg,
                colAllowedAt := max (act_tick + tRCD cfg) (colAllowedAt k)\<rparr>) r3;
         r5 = enforce_tRRD cfg (bankgr (banks r4 ! b)) act_tick r4 in
     rbind (if actTicks r5 \<noteq> [] then
              if last (actTicks r5) \<noteq> 0 \<and> tick_sub act_tick (last (actTicks r5)) < tXAW cfg
              then Inl (Panic ''Got too many activates in window'')
              else Inr (record_activate cfg act_tick r5)
            else Inr r5) (\<lambda>r7.
     schedule_activate now act_tick r7))))"

definition prechargeBank ::
  "DRAMConfig \<Rightarrow> tick \<Rightarrow> tick \<Rightarrow> nat \<Rightarrow> tick \<Rightarrow> bool \<Rightarrow> Rank \<Rightarrow> Rank result" where
  "prechargeBank cfg tso now b pre_at trace r =
     rbind (assertr (openRow (banks r ! b) \<noteq> NO_ROW) ''openRow != Bank::NO_ROW'') (\<lambda>_.
     let r1 = r\<lparr>bytesPerActivate := bytesPerActivate r @ [bytesAccessed (banks r ! b)]\<rparr>;
         pre_done_at = pre_at + tRP cfg;
         r2 = set_bank b (\<lambda>k. k\<lparr>openRow := NO_ROW, preAllowedAt := pre_at,
                actAllowedAt := max (actAllowedAt k) pre_done_at\<rparr>) r1 in
     rbind (assertr (numBanksActive r2 \<noteq> 0) ''numBanksActive != 0'') (\<lambda>_.
     let r3 = r2\<lparr>numBanksActive := numBanksActive r2 - 1\<rparr>;
         r4 = (if trace then doCommand cfg tso CMD_PRE (bank_no (banks r3 ! b)) pre_at r3 else r3)
     in case prechargeEvent r4 of
          None \<Rightarrow> rbind (schedule_event now (prechargeEvent r4) pre_done_at) (\<lambda>e.
                   Inr (r4\<lparr>prechargeEvent := e\<rparr>))
        | Some w \<Rightarrow>
            if w < pre_done_at then rbind (reschedule_event now (prechargeEvent r4) pre_done_at) (\<lambda>e.
              Inr (r4\<lparr>prechargeEvent := e\<rparr>))
            else Inr r4))"

definition apBank ::
  "DRAMConfig \<Rightarrow> tick \<Rightarrow> tick \<Rightarrow> nat \<Rightarrow> tick \<Rightarrow> 32 word \<Rightarrow> Rank \<Rightarrow> Rank result" where
  "apBank cfg tso now b act_tick row r =
     rbind (activateBank cfg tso now b act_tick row r) (\<lambda>r1.
     prechargeBank cfg tso now b (preAllowedAt (banks r1 ! b)) True r1)"

definition aapBank ::
  "DRAMConfig \<Rightarrow> tick \<Rightarrow> tick \<Rightarrow> nat \<Rightarrow> tick \<Rightarrow> 32 word \<Rightarrow> 32 word \<Rightarrow> bool \<Rightarrow> Rank \<Rightarrow> Rank result" where
  "aapBank cfg tso now b act_tick row1 row2 act_overlapped r =
     rbind (assertr (openRow (banks r ! b) = NO_ROW) ''openRow == Bank::NO_ROW'') (\<lambda>_.
     let r1 = set_bank b (\<lambda>k. k\<lparr>openRow := DOUBLE_ROW, bytesAccessed := 0, rowAccesses := 0\<rparr>) r;
         r2 = r1\<lparr>numBanksActive := numBanksActive r1 + 1\<rparr> in
     rbind (assertr (numBanksActive r2 \<le> banksPerRank cfg) ''numBanksActive <= banksPerRank'') (\<lambda>_.
     let r3 = set_bank b (\<lambda>k. k\<lparr>preAllowedAt :=
                act_tick + tRAS cfg + (if act_overlapped then tWLOV cfg else tWL cfg)\<rparr>) r2;
         r4 = enforce_tRRD cfg (bankgr (banks r3 ! b)) act_tick r3;
         r6 = (if actTicks r4 \<noteq> [] then record_activate_aap cfg act_tick r4 else r4) in
     rbind (schedule_activate now act_tick r6) (\<lambda>r7.
     prechargeBank cfg tso now b (preAllowedAt (banks r7 ! b)) True r7)))"

subsection \<open>The command sequences of the row operations\<close>

datatype row_cmd = AP "32 word" | AAP "32 word" "32 word"

text \<open>The switch of \<^verbatim>\<open>doDRAMAccess\<close>, as the list of the commands each case issues.\<close>

definition row_op_cmds :: "RowOp \<Rightarrow> 32 word \<Rightarrow> 32 word \<Rightarrow> 32 word \<Rightarrow> row_cmd list" where
  "row_op_cmds op row src1 src2 =
     (case op of
        ROWAND \<Rightarrow> [AAP src1 B_T0, AAP src2 B_T1, AAP C_0 B_T2, AAP B_T0_T1_T2 row]
      | ROWOR \<Rightarrow> [AAP src1 B_T0, AAP src2 B_T1, AAP C_1 B_T2, AAP B_T0_T1_T2 row]
      | ROWNOT \<Rightarrow> [AAP src1 B_DCC0N, AAP B_DCC0 row]
      | ROWXOR \<Rightarrow> [AAP src1 B_DCC0N_T0, AAP src2 B_DCC1N_T1, AAP C_0 B_T2_T3, AP B_DCC0_T1_T2,
                   AP B_DCC1_T0_T3, AAP C_1 B_T2, AAP B_T0_T1_T2 row]
      | ROWAP \<Rightarrow> [AP B_T0_T1_T2]
      | ROWAAP \<Rightarrow> [AAP 0 0]
      | ROWLS \<Rightarrow> [AAP src1 B_T0, AAP B_T0_SH row]
      | ROWRS \<Rightarrow> [AAP src1 B_T0_SH, AAP B_T0 row])"

text \<open>Each command is issued at \<open>cmd_at\<close>, which then becomes the bank's next activate time.\<close>

fun run_row_cmds ::
  "DRAMConfig \<Rightarrow> tick \<Rightarrow> tick \<Rightarrow> nat \<Rightarrow> row_cmd list \<Rightarrow> tick \<Rightarrow> Rank \<Rightarrow> (tick \<times> Rank) result" where
  "run_row_cmds cfg tso now b [] cmd_at r = Inr (cmd_at, r)"
| "run_row_cmds cfg tso now b (c # cs) cmd_at r =
     rbind (case c of AP row \<Rightarrow> apBank cfg tso now b cmd_at row r
            | AAP row1 row2 \<Rightarrow> aapBank cfg tso now b cmd_at row1 row2 True r) (\<lambda>r'.
     run_row_cmds cfg tso now b cs (actAllowedAt (banks r' ! b)) r')"

subsection \<open>The invariant of a rank\<close>

definition act_window :: "DRAMConfig \<Rightarrow> Rank \<Rightarrow> bool" where
  "act_window cfg r \<longleftrightarrow>
     (\<forall>k \<in> set (banks r). (\<forall>t \<in> set (actTicks r). t \<le> actAllowedAt k) \<and>
        (actTicks r \<noteq> [] \<and> last (actTicks r) \<noteq> 0 \<longrightarrow> last (actTicks r) + tXAW cfg \<le> actAllowedAt k))"

definition open_banks :: "Bank list \<Rightarrow> nat" where
  "open_banks ks = length (filter (\<lambda>k. openRow k \<noteq> NO_ROW) ks)"

definition rank_ok :: "DRAMConfig \<Rightarrow> Rank \<Rightarrow> bool" where
  "rank_ok cfg r \<longleftrightarrow> length (banks r) = banksPerRank cfg \<and> length (actTicks r) = activationLimit cfg \<and>
     numBanksActive r = open_banks (banks r) \<and> act_window cfg r"

text \<open>What the bank commands do not touch.\<close>

definition rank_frame :: "Rank \<Rightarrow> Rank \<Rightarrow> bool" where
  "rank_frame r r' \<longleftrightarrow> refreshState r' = refreshState r \<and> pwrState r' = pwrState r \<and>
     pwrStateTrans r' = pwrStateTrans r \<and> rank_no r' = rank_no r \<and>
     refreshDueAt r' = refreshDueAt r \<and> refreshEvent r' = refreshEvent r \<and> powerEvent r' = powerEvent r"

lemma rank_frame_refl [simp]: "rank_frame r r" by (simp add: rank_frame_def)

lemma rank_frame_trans: "rank_frame r s \<Longrightarrow> rank_frame s t \<Longrightarrow> rank_frame r t" by (simp add: rank_frame_def)

lemma open_banks_update:
  assumes "b < length ks"
  shows "open_banks (ks[b := k]) + (if openRow (ks ! b) \<noteq> NO_ROW then 1 else 0) =
         open_banks ks + (if openRow k \<noteq> NO_ROW then 1 else 0)"
  using assms
proof (induction ks arbitrary: b)
  case (Cons x xs)
  then show ?case by (cases b) (auto simp: open_banks_def)
qed simp

lemma open_banks_le: "open_banks ks \<le> length ks"
  by (simp add: open_banks_def)

lemma open_banks_closed: "b < length ks \<Longrightarrow> openRow (ks ! b) = NO_ROW \<Longrightarrow> open_banks ks < length ks"
  using open_banks_update [of b ks "(ks ! b)\<lparr>openRow := 0\<rparr>"] open_banks_le [of "ks[b := (ks ! b)\<lparr>openRow := 0\<rparr>]"]
  by (simp add: NO_ROW_def)

lemma open_banks_open: "b < length ks \<Longrightarrow> openRow (ks ! b) \<noteq> NO_ROW \<Longrightarrow> open_banks ks \<noteq> 0"
  using open_banks_update [of b ks "(ks ! b)\<lparr>openRow := NO_ROW\<rparr>"] by auto

lemma open_banks_map: "(\<And>k. openRow (f k) = openRow k) \<Longrightarrow> open_banks (map f ks) = open_banks ks"
  by (induction ks) (auto simp: open_banks_def)

lemma new_rank_ok: "rank_ok cfg (new_rank cfg i)"
  by (auto simp: rank_ok_def new_rank_def act_window_def open_banks_def new_bank_def filter_empty_conv)

lemmas bank_op_simps = set_bank_def all_banks_def doCommand_def

subsection \<open>Effects of the steps\<close>

lemma schedule_activate_eq:
  assumes "now \<le> t"
  shows "schedule_activate now t r = Inr (r\<lparr>activateEvent :=
      Some (case activateEvent r of None \<Rightarrow> t | Some w \<Rightarrow> min w t)\<rparr>)"
  using assms
  by (cases "activateEvent r") (auto simp: schedule_activate_def schedule_event_def reschedule_event_def min_def)

definition raised :: "(Bank \<Rightarrow> tick) \<Rightarrow> Bank \<Rightarrow> Bank" where
  "raised f k = k\<lparr>actAllowedAt := max (f k) (actAllowedAt k)\<rparr>"

lemma raised_simps [simp]:
  "openRow (raised f k) = openRow k" "preAllowedAt (raised f k) = preAllowedAt k"
  "colAllowedAt (raised f k) = colAllowedAt k" "bankgr (raised f k) = bankgr k" "bank_no (raised f k) = bank_no k"
  "rowAccesses (raised f k) = rowAccesses k" "bytesAccessed (raised f k) = bytesAccessed k"
  "actAllowedAt (raised f k) = max (f k) (actAllowedAt k)"
  by (simp_all add: raised_def)

lemma raised_0: "raised (\<lambda>k. 0) = (\<lambda>k. k)"
  by (simp add: raised_def fun_eq_iff)

definition trrd :: "DRAMConfig \<Rightarrow> nat \<Rightarrow> Bank \<Rightarrow> tick" where
  "trrd cfg gr k = (if bankGroupArch cfg \<and> gr = bankgr k then tRRD_L cfg else tRRD cfg)"

lemma enforce_tRRD_eq:
  "enforce_tRRD cfg gr t r = r\<lparr>banks := map (raised (\<lambda>k. t + trrd cfg gr k)) (banks r)\<rparr>"
  by (auto simp: enforce_tRRD_def all_banks_def raised_def trrd_def fun_eq_iff)

lemma hold_activates_eq:
  "hold_activates cfg t r = r\<lparr>banks := map (raised (\<lambda>_. t + tXAW cfg)) (banks r)\<rparr>"
  by (simp add: hold_activates_def all_banks_def raised_def fun_eq_iff)

text \<open>Recording an activate keeps the window, whichever of the two comparisons is used.\<close>

definition records :: "DRAMConfig \<Rightarrow> tick \<Rightarrow> Rank \<Rightarrow> Rank \<Rightarrow> bool" where
  "records cfg t r r' \<longleftrightarrow>
     (\<exists>f. r' = r\<lparr>actTicks := t # butlast (actTicks r), banks := map (raised f) (banks r)\<rparr>) \<and> act_window cfg r'"

lemma record_activate_records:
  assumes "actTicks r \<noteq> []" "\<forall>u \<in> set (actTicks r). u \<le> t" "\<forall>k \<in> set (banks r). t \<le> actAllowedAt k"
  shows "records cfg t r (record_activate cfg t r)" "records cfg t r (record_activate_aap cfg t r)"
proof -
  let ?ticks = "t # butlast (actTicks r)"
  have le: "\<forall>u \<in> set ?ticks. u \<le> t" using assms(2) by (auto dest: in_set_butlastD)
  then have lt: "last ?ticks \<le> t" using last_in_set [of ?ticks] by blast
  have id: "r\<lparr>actTicks := ?ticks\<rparr> = r\<lparr>actTicks := ?ticks, banks := map (raised (\<lambda>k. 0)) (banks r)\<rparr>"
    by (simp add: raised_0)
  have w: "act_window cfg (r\<lparr>actTicks := ?ticks, banks := map (raised f) (banks r)\<rparr>)"
    if "\<forall>k \<in> set (banks r). last ?ticks \<noteq> 0 \<longrightarrow> last ?ticks + tXAW cfg \<le> max (f k) (actAllowedAt k)" for f
    using that le assms(3) by (fastforce simp: act_window_def simp del: last.simps intro: order_trans)
  have "records cfg t r (if last ?ticks \<noteq> 0 \<and> t < last ?ticks + tXAW cfg
         then hold_activates cfg (last ?ticks) (r\<lparr>actTicks := ?ticks\<rparr>) else r\<lparr>actTicks := ?ticks\<rparr>)"
  proof (cases "last ?ticks \<noteq> 0 \<and> t < last ?ticks + tXAW cfg")
    case True
    then show ?thesis
      using w [of "\<lambda>_. last ?ticks + tXAW cfg"]
      by (auto simp: records_def hold_activates_eq simp del: last.simps)
  next
    case False
    then have "act_window cfg (r\<lparr>actTicks := ?ticks, banks := map (raised (\<lambda>k. 0)) (banks r)\<rparr>)"
      using assms(3) by (intro w) (auto simp del: last.simps intro: order_trans)
    then show ?thesis using False id by (auto simp: records_def simp del: last.simps)
  qed
  moreover have "tick_sub t (last ?ticks) < tXAW cfg \<longleftrightarrow> t < last ?ticks + tXAW cfg"
    using lt by (auto simp del: last.simps)
  ultimately show "records cfg t r (record_activate cfg t r)" "records cfg t r (record_activate_aap cfg t r)"
    by (simp_all add: record_activate_def record_activate_aap_def Let_def del: last.simps)
qed

subsection \<open>Effects of the commands\<close>

text \<open>Every bank keeps its place, and no activate time moves to the past.\<close>

definition banks_grow :: "DRAMConfig \<Rightarrow> nat \<Rightarrow> Rank \<Rightarrow> Rank \<Rightarrow> bool" where
  "banks_grow cfg b r r' \<longleftrightarrow> length (banks r') = length (banks r) \<and>
     (\<forall>i < length (banks r). bankgr (banks r' ! i) = bankgr (banks r ! i) \<and> bank_no (banks r' ! i) = bank_no (banks r ! i) \<and>
        actAllowedAt (banks r ! i) \<le> actAllowedAt (banks r' ! i) \<and>
        colAllowedAt (banks r ! i) \<le> colAllowedAt (banks r' ! i) \<and>
        (i \<noteq> b \<longrightarrow> openRow (banks r' ! i) = openRow (banks r ! i) \<and> preAllowedAt (banks r' ! i) = preAllowedAt (banks r ! i)))"

lemma banks_grow_trans:
  assumes "banks_grow cfg b r s" "banks_grow cfg b s t"
  shows "banks_grow cfg b r t"
proof -
  have l: "length (banks s) = length (banks r)" "length (banks t) = length (banks s)"
    using assms by (simp_all add: banks_grow_def)
  have "bankgr (banks t ! i) = bankgr (banks r ! i) \<and> bank_no (banks t ! i) = bank_no (banks r ! i) \<and>
      actAllowedAt (banks r ! i) \<le> actAllowedAt (banks t ! i) \<and> colAllowedAt (banks r ! i) \<le> colAllowedAt (banks t ! i) \<and>
      (i \<noteq> b \<longrightarrow> openRow (banks t ! i) = openRow (banks r ! i) \<and> preAllowedAt (banks t ! i) = preAllowedAt (banks r ! i))"
    if "i < length (banks r)" for i
    using assms(1) [unfolded banks_grow_def, THEN conjunct2, rule_format, OF that]
      assms(2) [unfolded banks_grow_def l, THEN conjunct2, rule_format, OF that] by simp
  then show ?thesis using l by (simp add: banks_grow_def)
qed

definition after_act :: "DRAMConfig \<Rightarrow> nat \<Rightarrow> tick \<Rightarrow> Rank \<Rightarrow> Rank \<Rightarrow> bool" where
  "after_act cfg b t r r' \<longleftrightarrow> rank_frame r r' \<and> banks_grow cfg b r r' \<and>
     (\<forall>i < length (banks r). t + trrd cfg (bankgr (banks r ! b)) (banks r ! i) \<le> actAllowedAt (banks r' ! i)) \<and>
     actTicks r' = (if actTicks r = [] then [] else t # butlast (actTicks r))"

lemma mark_open_ok:
  assumes ok: "rank_ok cfg r" and b: "b < banksPerRank cfg" and closed: "openRow (banks r ! b) = NO_ROW"
    and k: "openRow k \<noteq> NO_ROW" "bankgr k = bankgr (banks r ! b)" "bank_no k = bank_no (banks r ! b)"
      "actAllowedAt k = actAllowedAt (banks r ! b)" "colAllowedAt (banks r ! b) \<le> colAllowedAt k"
    and t: "actAllowedAt (banks r ! b) \<le> t"
    and r5: "r5 = r\<lparr>numBanksActive := numBanksActive r + 1, cmdList := cs,
               banks := map (raised (\<lambda>j. t + trrd cfg (bankgr k) j)) ((banks r)[b := k])\<rparr>"
    and r7: "actTicks r5 = [] \<Longrightarrow> r7 = r5" "actTicks r5 \<noteq> [] \<Longrightarrow> records cfg t r5 r7"
  shows "rank_ok cfg r7" "after_act cfg b t r r7" "prechargeEvent r7 = prechargeEvent r" "activateEvent r7 = activateEvent r"
    "openRow (banks r7 ! b) = openRow k" "preAllowedAt (banks r7 ! b) = preAllowedAt k" "colAllowedAt (banks r7 ! b) = colAllowedAt k"
    "cmdList r7 = cs" "numBanksActive r7 = numBanksActive r + 1" "numBanksActive r7 \<le> banksPerRank cfg"
proof -
  have len: "length (banks r) = banksPerRank cfg" using ok by (simp add: rank_ok_def)
  obtain f where f: "r7 = r5\<lparr>actTicks := (if actTicks r5 = [] then [] else t # butlast (actTicks r5)),
      banks := map (raised f) (banks r5)\<rparr>" "act_window cfg r7"
  proof (cases "actTicks r5 = []")
    case True
    then have "r7 = r5\<lparr>actTicks := [], banks := map (raised (\<lambda>k. 0)) (banks r5)\<rparr>"
      using r7(1) by (simp add: raised_0)
    then show ?thesis using True that by (simp add: act_window_def)
  next
    case False
    then show ?thesis using r7(2) that by (auto simp: records_def)
  qed
  have ob: "open_banks (banks r7) = open_banks (banks r) + 1"
    using open_banks_update [of b "banks r" k] b len closed k(1)
    by (simp add: f(1) r5 open_banks_map del: map_map)
  show "numBanksActive r7 = numBanksActive r + 1" "cmdList r7 = cs" "prechargeEvent r7 = prechargeEvent r"
      "activateEvent r7 = activateEvent r"
    by (simp_all add: f(1) r5)
  have "length (actTicks r7) = activationLimit cfg"
    using ok by (cases "actTicks r") (auto simp: rank_ok_def f(1) r5)
  then show "rank_ok cfg r7"
    using ok ob f(2) len by (simp add: rank_ok_def) (simp add: f(1) r5)
  then show "numBanksActive r7 \<le> banksPerRank cfg"
    using open_banks_le [of "banks r7"] by (simp add: rank_ok_def)
  show "openRow (banks r7 ! b) = openRow k" "preAllowedAt (banks r7 ! b) = preAllowedAt k"
      "colAllowedAt (banks r7 ! b) = colAllowedAt k"
    using b len by (simp_all add: f(1) r5)
  have "t + trrd cfg (bankgr (banks r ! b)) (banks r ! i) \<le> actAllowedAt (banks r7 ! i)"
    if "i < length (banks r)" for i
    using that k(2) b by (cases "i = b") (auto simp: f(1) r5 nth_list_update trrd_def len)
  moreover have "banks_grow cfg b r r7"
    using k b by (auto simp: banks_grow_def f(1) r5 nth_list_update len)
  moreover have "rank_frame r r7" "actTicks r7 = (if actTicks r = [] then [] else t # butlast (actTicks r))"
    by (simp_all add: rank_frame_def f(1) r5)
  ultimately show "after_act cfg b t r r7"
    unfolding after_act_def by blast
qed

lemma rank_ok_events [simp]:
  "rank_ok cfg (r\<lparr>activateEvent := e\<rparr>) = rank_ok cfg r" "rank_ok cfg (r\<lparr>prechargeEvent := e\<rparr>) = rank_ok cfg r"
  "after_act cfg b t r (r'\<lparr>activateEvent := e\<rparr>) = after_act cfg b t r r'"
  by (simp_all add: rank_ok_def act_window_def after_act_def rank_frame_def banks_grow_def)

lemma act_time_ok:
  assumes "rank_ok cfg r" "b < banksPerRank cfg" "actAllowedAt (banks r ! b) \<le> t"
  shows "\<forall>u \<in> set (actTicks r). u \<le> t"
    "actTicks r \<noteq> [] \<Longrightarrow> last (actTicks r) \<noteq> 0 \<Longrightarrow> last (actTicks r) + tXAW cfg \<le> t"
proof -
  have "banks r ! b \<in> set (banks r)" "act_window cfg r" using assms by (simp_all add: rank_ok_def)
  then show "\<forall>u \<in> set (actTicks r). u \<le> t"
    "actTicks r \<noteq> [] \<Longrightarrow> last (actTicks r) \<noteq> 0 \<Longrightarrow> last (actTicks r) + tXAW cfg \<le> t"
    using assms(3) unfolding act_window_def by (meson order_trans)+
qed

lemma activateBank_ok:
  assumes ok: "rank_ok cfg r" and b: "b < banksPerRank cfg" and closed: "openRow (banks r ! b) = NO_ROW"
    and row: "row \<noteq> NO_ROW" and t: "actAllowedAt (banks r ! b) \<le> t" "now \<le> t"
  shows "\<exists>r'. activateBank cfg tso now b t row r = Inr r' \<and> rank_ok cfg r' \<and> after_act cfg b t r r' \<and>
      openRow (banks r' ! b) = row \<and> preAllowedAt (banks r' ! b) = t + tRAS cfg \<and>
      colAllowedAt (banks r' ! b) = max (t + tRCD cfg) (colAllowedAt (banks r ! b)) \<and>
      prechargeEvent r' = prechargeEvent r \<and>
      activateEvent r' = Some (case activateEvent r of None \<Rightarrow> t | Some w \<Rightarrow> min w t) \<and>
      numBanksActive r' = numBanksActive r + 1"
proof -
  let ?k = "(banks r ! b)\<lparr>openRow := row, bytesAccessed := 0, rowAccesses := 0, preAllowedAt := t + tRAS cfg,
       colAllowedAt := max (t + tRCD cfg) (colAllowedAt (banks r ! b))\<rparr>"
  let ?cs = "cmdList r @ [(CMD_ACT, bank_no (banks r ! b), tick_sub (divCeil t (tCK cfg)) tso)]"
  define r5 where "r5 = r\<lparr>numBanksActive := numBanksActive r + 1, cmdList := ?cs,
               banks := map (raised (\<lambda>j. t + trrd cfg (bankgr ?k) j)) ((banks r)[b := ?k])\<rparr>"
  define r7 where "r7 = (if actTicks r5 \<noteq> [] then record_activate cfg t r5 else r5)"
  have len: "b < length (banks r)" using ok b by (simp add: rank_ok_def)
  have "actTicks r5 = actTicks r" by (simp add: r5_def)
  then have rec: "records cfg t r5 r7" if "actTicks r5 \<noteq> []"
    using that act_time_ok(1) [OF ok b t(1)] by (auto simp: r7_def r5_def intro!: record_activate_records)
  have k: "openRow ?k \<noteq> NO_ROW" "bankgr ?k = bankgr (banks r ! b)" "bank_no ?k = bank_no (banks r ! b)"
    "actAllowedAt ?k = actAllowedAt (banks r ! b)" "colAllowedAt (banks r ! b) \<le> colAllowedAt ?k"
    using row by simp_all
  have r7: "actTicks r5 = [] \<Longrightarrow> r7 = r5" by (simp add: r7_def)
  have "actTicks r \<noteq> [] \<Longrightarrow> \<not> (last (actTicks r) \<noteq> 0 \<and> tick_sub t (last (actTicks r)) < tXAW cfg)"
    using act_time_ok [OF ok b t(1)] by (auto simp: tick_sub_le)
  moreover have "length (actTicks r) = activationLimit cfg" "numBanksActive r + 1 \<le> banksPerRank cfg"
    using ok open_banks_closed [OF len closed] by (simp_all add: rank_ok_def)
  ultimately have "activateBank cfg tso now b t row r = schedule_activate now t r7"
    using closed len
    by (cases "actTicks r = []") (auto simp: activateBank_def bank_op_simps enforce_tRRD_eq r5_def r7_def Let_def)
  then show ?thesis
    using mark_open_ok [OF ok b closed k t(1) r5_def r7 rec] schedule_activate_eq [OF t(2), of r7] by simp
qed

definition after_pre :: "DRAMConfig \<Rightarrow> nat \<Rightarrow> tick \<Rightarrow> Rank \<Rightarrow> Rank \<Rightarrow> bool" where
  "after_pre cfg b pre_at r r' \<longleftrightarrow> rank_frame r r' \<and> banks_grow cfg b r r' \<and> openRow (banks r' ! b) = NO_ROW \<and>
     preAllowedAt (banks r' ! b) = pre_at \<and>
     actAllowedAt (banks r' ! b) = max (actAllowedAt (banks r ! b)) (pre_at + tRP cfg) \<and>
     actTicks r' = actTicks r \<and> activateEvent r' = activateEvent r \<and>
     prechargeEvent r' = Some (case prechargeEvent r of None \<Rightarrow> pre_at + tRP cfg | Some w \<Rightarrow> max w (pre_at + tRP cfg)) \<and>
     numBanksActive r = numBanksActive r' + 1"

lemma prechargeBank_ok:
  assumes ok: "rank_ok cfg r" and b: "b < banksPerRank cfg" and opened: "openRow (banks r ! b) \<noteq> NO_ROW"
    and now: "now \<le> pre_at + tRP cfg"
  shows "\<exists>r'. prechargeBank cfg tso now b pre_at trace r = Inr r' \<and> rank_ok cfg r' \<and> after_pre cfg b pre_at r r'"
proof -
  let ?done = "pre_at + tRP cfg"
  let ?k = "(banks r ! b)\<lparr>openRow := NO_ROW, preAllowedAt := pre_at, actAllowedAt := max (actAllowedAt (banks r ! b)) ?done\<rparr>"
  define r4 where "r4 = r\<lparr>bytesPerActivate := bytesPerActivate r @ [bytesAccessed (banks r ! b)],
      numBanksActive := numBanksActive r - 1, banks := (banks r)[b := ?k],
      cmdList := cmdList r @ (if trace then [(CMD_PRE, bank_no (banks r ! b), tick_sub (divCeil pre_at (tCK cfg)) tso)] else []),
      prechargeEvent := Some (case prechargeEvent r of None \<Rightarrow> ?done | Some w \<Rightarrow> max w ?done)\<rparr>"
  have len: "b < length (banks r)" using ok b by (simp add: rank_ok_def)
  have pos: "numBanksActive r \<noteq> 0" using ok open_banks_open [OF len opened] by (simp add: rank_ok_def)
  have res: "prechargeBank cfg tso now b pre_at trace r = Inr r4"
    using opened pos len now
    by (cases "prechargeEvent r") (auto simp: prechargeBank_def bank_op_simps r4_def Let_def
        schedule_event_def reschedule_event_def max_def)
  have "open_banks (banks r4) + 1 = open_banks (banks r)"
    using open_banks_update [OF len, of ?k] opened by (simp add: r4_def)
  moreover have "act_window cfg r4"
    unfolding act_window_def
  proof
    fix k assume "k \<in> set (banks r4)"
    then have "k = ?k \<or> k \<in> set (banks r)"
      using set_update_subset_insert [of "banks r" b ?k] by (auto simp: r4_def)
    then have "\<exists>k' \<in> set (banks r). actAllowedAt k' \<le> actAllowedAt k"
      using len by (auto intro: bexI [of _ "banks r ! b"])
    then obtain k' where "k' \<in> set (banks r)" "actAllowedAt k' \<le> actAllowedAt k" by blast
    moreover have "act_window cfg r" "actTicks r4 = actTicks r" using ok by (simp_all add: rank_ok_def r4_def)
    ultimately show "(\<forall>t \<in> set (actTicks r4). t \<le> actAllowedAt k) \<and>
        (actTicks r4 \<noteq> [] \<and> last (actTicks r4) \<noteq> 0 \<longrightarrow> last (actTicks r4) + tXAW cfg \<le> actAllowedAt k)"
      unfolding act_window_def by (metis order_trans)
  qed
  ultimately have "rank_ok cfg r4"
    using ok pos by (simp add: rank_ok_def) (simp add: r4_def)
  moreover have "after_pre cfg b pre_at r r4"
    using len pos by (auto simp: after_pre_def rank_frame_def banks_grow_def r4_def nth_list_update)
  ultimately show ?thesis using res by blast
qed

lemma aapBank_ok:
  assumes ok: "rank_ok cfg r" and b: "b < banksPerRank cfg" and closed: "openRow (banks r ! b) = NO_ROW"
    and t: "actAllowedAt (banks r ! b) \<le> t" "now \<le> t"
  shows "\<exists>r1 r'. aapBank cfg tso now b t row1 row2 ov r = Inr r' \<and> rank_ok cfg r1 \<and> rank_ok cfg r' \<and> after_act cfg b t r r1 \<and>
      after_pre cfg b (t + tRAS cfg + (if ov then tWLOV cfg else tWL cfg)) r1 r' \<and>
      activateEvent r1 = Some (case activateEvent r of None \<Rightarrow> t | Some w \<Rightarrow> min w t) \<and>
      prechargeEvent r1 = prechargeEvent r \<and> numBanksActive r1 = numBanksActive r + 1"
proof -
  let ?k = "(banks r ! b)\<lparr>openRow := DOUBLE_ROW, bytesAccessed := 0, rowAccesses := 0,
      preAllowedAt := t + tRAS cfg + (if ov then tWLOV cfg else tWL cfg)\<rparr>"
  define r5 where "r5 = r\<lparr>numBanksActive := numBanksActive r + 1, cmdList := cmdList r,
               banks := map (raised (\<lambda>j. t + trrd cfg (bankgr ?k) j)) ((banks r)[b := ?k])\<rparr>"
  define r7 where "r7 = (if actTicks r5 \<noteq> [] then record_activate_aap cfg t r5 else r5)"
  define r8 where "r8 = r7\<lparr>activateEvent := Some (case activateEvent r of None \<Rightarrow> t | Some w \<Rightarrow> min w t)\<rparr>"
  have len: "b < length (banks r)" using ok b by (simp add: rank_ok_def)
  have "actTicks r5 = actTicks r" by (simp add: r5_def)
  then have rec: "records cfg t r5 r7" if "actTicks r5 \<noteq> []"
    using that act_time_ok(1) [OF ok b t(1)] by (auto simp: r7_def r5_def intro!: record_activate_records)
  have k: "openRow ?k \<noteq> NO_ROW" "bankgr ?k = bankgr (banks r ! b)" "bank_no ?k = bank_no (banks r ! b)"
    "actAllowedAt ?k = actAllowedAt (banks r ! b)" "colAllowedAt (banks r ! b) \<le> colAllowedAt ?k"
    by (simp_all add: NO_ROW_def DOUBLE_ROW_def)
  have r7: "actTicks r5 = [] \<Longrightarrow> r7 = r5" by (simp add: r7_def)
  note m = mark_open_ok [OF ok b closed k t(1) r5_def r7 rec]
  have r8: "rank_ok cfg r8" "after_act cfg b t r r8" "openRow (banks r8 ! b) \<noteq> NO_ROW" "prechargeEvent r8 = prechargeEvent r"
      "preAllowedAt (banks r8 ! b) = t + tRAS cfg + (if ov then tWLOV cfg else tWL cfg)" "numBanksActive r8 = numBanksActive r + 1"
      "activateEvent r8 = Some (case activateEvent r of None \<Rightarrow> t | Some w \<Rightarrow> min w t)"
    using m k(1) by (simp_all add: r8_def)
  have "numBanksActive r + 1 \<le> banksPerRank cfg"
    using ok open_banks_closed [OF len closed] by (simp add: rank_ok_def)
  then have "aapBank cfg tso now b t row1 row2 ov r =
      rbind (schedule_activate now t r7) (\<lambda>r7. prechargeBank cfg tso now b (preAllowedAt (banks r7 ! b)) True r7)"
    using closed len by (simp add: aapBank_def bank_op_simps enforce_tRRD_eq r5_def r7_def Let_def)
  then have "aapBank cfg tso now b t row1 row2 ov r = prechargeBank cfg tso now b (preAllowedAt (banks r8 ! b)) True r8"
    using schedule_activate_eq [OF t(2), of r7] m(4) by (simp add: r8_def)
  then show ?thesis
    using prechargeBank_ok [OF r8(1) b r8(3), of now "preAllowedAt (banks r8 ! b)" tso True] r8 t(2)
    by (metis add.assoc trans_le_add1)
qed

text \<open>A command that opens a bank at \<open>t\<close> and closes it again, taking \<open>d\<close> before the next activate.\<close>

definition bank_cycle :: "DRAMConfig \<Rightarrow> nat \<Rightarrow> tick \<Rightarrow> tick \<Rightarrow> Rank \<Rightarrow> Rank \<Rightarrow> bool" where
  "bank_cycle cfg b t d r r' \<longleftrightarrow> rank_ok cfg r' \<and> rank_frame r r' \<and> banks_grow cfg b r r' \<and>
     openRow (banks r' ! b) = NO_ROW \<and> t + d \<le> actAllowedAt (banks r' ! b) \<and>
     actTicks r' = (if actTicks r = [] then [] else t # butlast (actTicks r)) \<and> numBanksActive r' = numBanksActive r"

lemma cycle_of_steps:
  assumes "rank_ok cfg r'" "after_act cfg b t r r1" "after_pre cfg b p r1 r'" "t + d \<le> p + tRP cfg"
    "numBanksActive r1 = numBanksActive r + 1"
  shows "bank_cycle cfg b t d r r'"
proof -
  have "rank_frame r r'" "banks_grow cfg b r r'"
    using assms(2,3) rank_frame_trans [of r r1 r'] banks_grow_trans [of cfg b r r1 r']
    by (auto simp: after_act_def after_pre_def)
  then show ?thesis using assms by (auto simp: bank_cycle_def after_act_def after_pre_def)
qed

fun row_cmd_time :: "DRAMConfig \<Rightarrow> row_cmd \<Rightarrow> tick" where
  "row_cmd_time cfg (AP row) = tRAS cfg + tRP cfg"
| "row_cmd_time cfg (AAP row1 row2) = tRAS cfg + tWLOV cfg + tRP cfg"

fun cmd_opens :: "row_cmd \<Rightarrow> bool" where
  "cmd_opens (AP row) = (row \<noteq> NO_ROW)"
| "cmd_opens (AAP row1 row2) = True"

lemma apBank_ok:
  assumes "rank_ok cfg r" "b < banksPerRank cfg" "openRow (banks r ! b) = NO_ROW" "row \<noteq> NO_ROW"
    "actAllowedAt (banks r ! b) \<le> t" "now \<le> t"
  shows "\<exists>r'. apBank cfg tso now b t row r = Inr r' \<and> bank_cycle cfg b t (tRAS cfg + tRP cfg) r r'"
proof -
  obtain r1 where r1: "activateBank cfg tso now b t row r = Inr r1" "rank_ok cfg r1" "after_act cfg b t r r1"
      "openRow (banks r1 ! b) = row" "preAllowedAt (banks r1 ! b) = t + tRAS cfg" "numBanksActive r1 = numBanksActive r + 1"
    using activateBank_ok [OF assms] by blast
  moreover obtain r' where "prechargeBank cfg tso now b (t + tRAS cfg) True r1 = Inr r'"
      "rank_ok cfg r'" "after_pre cfg b (t + tRAS cfg) r1 r'"
    using prechargeBank_ok [OF r1(2) assms(2), of now "t + tRAS cfg" tso True] r1(4) assms(4,6) by auto
  moreover have "bank_cycle cfg b t (tRAS cfg + tRP cfg) r r'"
    using calculation by (intro cycle_of_steps [of cfg r' b t r r1 "t + tRAS cfg"]) simp_all
  ultimately show ?thesis by (simp add: apBank_def)
qed

lemma row_cmd_ok:
  assumes "rank_ok cfg r" "b < banksPerRank cfg" "openRow (banks r ! b) = NO_ROW" "cmd_opens c"
    "actAllowedAt (banks r ! b) \<le> t" "now \<le> t"
  shows "\<exists>r'. (case c of AP row \<Rightarrow> apBank cfg tso now b t row r
            | AAP row1 row2 \<Rightarrow> aapBank cfg tso now b t row1 row2 True r) = Inr r' \<and> bank_cycle cfg b t (row_cmd_time cfg c) r r'"
proof (cases c)
  case (AP row)
  then show ?thesis using apBank_ok [OF assms(1-3) _ assms(5,6), of row tso] assms(4) by simp
next
  case (AAP row1 row2)
  obtain r1 r' where a: "aapBank cfg tso now b t row1 row2 True r = Inr r'" "rank_ok cfg r'" "after_act cfg b t r r1"
      "after_pre cfg b (t + tRAS cfg + tWLOV cfg) r1 r'" "numBanksActive r1 = numBanksActive r + 1"
    using aapBank_ok [OF assms(1-3,5,6), of tso row1 row2 True] by auto
  then have "bank_cycle cfg b t (row_cmd_time cfg c) r r'"
    using AAP by (intro cycle_of_steps [of cfg r' b t r r1 "t + tRAS cfg + tWLOV cfg"]) simp_all
  then show ?thesis using a(1) AAP by simp
qed

lemma run_row_cmds_ok:
  assumes "rank_ok cfg r" "b < banksPerRank cfg" "openRow (banks r ! b) = NO_ROW" "list_all cmd_opens cs"
    "actAllowedAt (banks r ! b) \<le> t" "now \<le> t"
  shows "\<exists>t' r'. run_row_cmds cfg tso now b cs t r = Inr (t', r') \<and> rank_ok cfg r' \<and> rank_frame r r' \<and> banks_grow cfg b r r' \<and>
     openRow (banks r' ! b) = NO_ROW \<and> numBanksActive r' = numBanksActive r \<and>
     t + sum_list (map (row_cmd_time cfg) cs) \<le> t' \<and> (cs \<noteq> [] \<longrightarrow> t' = actAllowedAt (banks r' ! b))"
  using assms
proof (induction cs arbitrary: r t)
  case Nil
  then show ?case by (simp add: banks_grow_def)
next
  case (Cons c cs)
  obtain r1 where r1: "(case c of AP row \<Rightarrow> apBank cfg tso now b t row r
            | AAP row1 row2 \<Rightarrow> aapBank cfg tso now b t row1 row2 True r) = Inr r1" and c: "bank_cycle cfg b t (row_cmd_time cfg c) r r1"
    using row_cmd_ok [of cfg r b c t now tso] Cons.prems by auto
  let ?t = "actAllowedAt (banks r1 ! b)"
  have t: "now \<le> ?t" "t + row_cmd_time cfg c \<le> ?t" using c Cons.prems(6) by (auto simp: bank_cycle_def)
  obtain t' r' where r': "run_row_cmds cfg tso now b cs ?t r1 = Inr (t', r')" "rank_ok cfg r'" "rank_frame r1 r'"
      "banks_grow cfg b r1 r'" "openRow (banks r' ! b) = NO_ROW" "numBanksActive r' = numBanksActive r1"
      "?t + sum_list (map (row_cmd_time cfg) cs) \<le> t'" "cs \<noteq> [] \<longrightarrow> t' = actAllowedAt (banks r' ! b)"
    using Cons.IH [of r1 ?t] Cons.prems c t(1) by (auto simp: bank_cycle_def)
  have "cs = [] \<Longrightarrow> r' = r1 \<and> t' = ?t" using r'(1) by auto
  then show ?case
    using r1 r' c t(2) rank_frame_trans [of r r1 r'] banks_grow_trans [of cfg b r r1 r']
    by (intro exI [of _ t'] exI [of _ r']) (auto simp: bank_cycle_def)
qed

lemma row_op_cmds_open: "list_all cmd_opens (row_op_cmds op row src1 src2)"
  by (cases op) (simp_all add: row_op_cmds_def NO_ROW_def B_T0_T1_T2_def B_DCC0_T1_T2_def B_DCC1_T0_T3_def)

subsection \<open>Sequences of commands to one rank\<close>

text \<open>The activates a rank has seen, newest first, with the rank after them: any interleaving of
  activates, precharges and row-operation commands at times the bank allows.\<close>

inductive rank_trace :: "DRAMConfig \<Rightarrow> tick list \<Rightarrow> Rank \<Rightarrow> bool" for cfg where
  start: "rank_trace cfg [] (new_rank cfg i)"
| activate: "rank_trace cfg h r \<Longrightarrow> b < banksPerRank cfg \<Longrightarrow> row \<noteq> NO_ROW \<Longrightarrow> openRow (banks r ! b) = NO_ROW \<Longrightarrow>
    actAllowedAt (banks r ! b) \<le> t \<Longrightarrow> now \<le> t \<Longrightarrow>
    activateBank cfg tso now b t row r = Inr r' \<Longrightarrow> rank_trace cfg (t # h) r'"
| precharge: "rank_trace cfg h r \<Longrightarrow> b < banksPerRank cfg \<Longrightarrow> openRow (banks r ! b) \<noteq> NO_ROW \<Longrightarrow> now \<le> pre_at + tRP cfg \<Longrightarrow>
    prechargeBank cfg tso now b pre_at trace r = Inr r' \<Longrightarrow> rank_trace cfg h r'"
| aap: "rank_trace cfg h r \<Longrightarrow> b < banksPerRank cfg \<Longrightarrow> openRow (banks r ! b) = NO_ROW \<Longrightarrow>
    actAllowedAt (banks r ! b) \<le> t \<Longrightarrow> now \<le> t \<Longrightarrow>
    aapBank cfg tso now b t row1 row2 ov r = Inr r' \<Longrightarrow> rank_trace cfg (t # h) r'"

definition spaced :: "DRAMConfig \<Rightarrow> tick list \<Rightarrow> bool" where
  "spaced cfg h \<longleftrightarrow> (\<forall>i. i + activationLimit cfg < length h \<longrightarrow> h ! (i + activationLimit cfg) \<noteq> 0 \<longrightarrow>
      h ! (i + activationLimit cfg) + tXAW cfg \<le> h ! i)"

lemma spaced_step:
  assumes "0 < activationLimit cfg" "spaced cfg h" "rank_ok cfg r"
    and ticks: "actTicks r = take (activationLimit cfg) (h @ replicate (activationLimit cfg) 0)"
    and t: "actTicks r \<noteq> [] \<Longrightarrow> last (actTicks r) \<noteq> 0 \<Longrightarrow> last (actTicks r) + tXAW cfg \<le> t"
  shows "spaced cfg (t # h)"
    "t # butlast (actTicks r) = take (activationLimit cfg) ((t # h) @ replicate (activationLimit cfg) 0)"
proof -
  let ?X = "activationLimit cfg"
  obtain n where n: "?X = Suc n" using assms(1) by (cases ?X) auto
  show "t # butlast (actTicks r) = take ?X ((t # h) @ replicate ?X 0)"
    by (simp add: ticks butlast_take n del: replicate_Suc take_append)
  have "h ! n + tXAW cfg \<le> t" if "n < length h" "h ! n \<noteq> 0"
  proof -
    have "actTicks r = take n h @ [h ! n]" using that n by (simp add: ticks take_Suc_conv_app_nth)
    then show ?thesis using t that by simp
  qed
  then show "spaced cfg (t # h)"
    using assms(2) unfolding spaced_def n by (auto simp: nth_Cons split: nat.split)
qed

lemma rank_trace_inv:
  assumes "rank_trace cfg h r" "0 < activationLimit cfg"
  shows "rank_ok cfg r \<and> actTicks r = take (activationLimit cfg) (h @ replicate (activationLimit cfg) 0) \<and> spaced cfg h"
  using assms
proof (induction rule: rank_trace.induct)
  case (start i)
  then show ?case by (simp add: new_rank_ok spaced_def) (simp add: new_rank_def)
next
  case (activate h r b row t now tso r')
  then have ok: "rank_ok cfg r" by simp
  obtain "rank_ok cfg r'" "after_act cfg b t r r'"
    using activateBank_ok [OF ok activate.hyps(2,4,3,5,6), of tso] activate.hyps(7) by auto
  then show ?case
    using spaced_step [of cfg h r t] activate act_time_ok(2) [OF ok activate.hyps(2,5)]
    by (auto simp: after_act_def)
next
  case (precharge h r b now pre_at tso trace r')
  then show ?case
    using prechargeBank_ok [of cfg r b now pre_at tso trace] by (auto simp: after_pre_def)
next
  case (aap h r b t now tso row1 row2 ov r')
  then have ok: "rank_ok cfg r" by simp
  obtain r1 p where "rank_ok cfg r'" "after_act cfg b t r r1" "after_pre cfg b p r1 r'"
    using aapBank_ok [OF ok aap.hyps(2-5), of tso row1 row2 ov] aap.hyps(6) by auto
  then show ?case
    using spaced_step [of cfg h r t] aap act_time_ok(2) [OF ok aap.hyps(2,4)]
    by (auto simp: after_act_def after_pre_def)
qed

subsection \<open>Properties of the bank commands\<close>

text \<open>C16: in any interleaving of activates, precharges and row-operation commands to a rank, two
  recorded activates that are \<open>activationLimit\<close> apart are at least \<open>tXAW\<close> apart in time: the
  four-activate window of the device is never exceeded.\<close>

theorem activation_window:
  assumes "rank_trace cfg h r" "0 < activationLimit cfg" "i + activationLimit cfg < length h"
    "h ! (i + activationLimit cfg) \<noteq> 0"
  shows "h ! (i + activationLimit cfg) + tXAW cfg \<le> h ! i"
  using rank_trace_inv [OF assms(1,2)] assms(3,4) by (simp add: spaced_def)

definition small_config :: DRAMConfig where
  "small_config = demo_config\<lparr>activationLimit := 1, banksPerRank := 2\<rparr>"

lemma small_trace: "\<exists>r. rank_trace small_config [31000, 1000] r"
proof -
  let ?cfg = small_config
  obtain r1 where r1: "activateBank ?cfg 0 0 0 1000 7 (new_rank ?cfg 0) = Inr r1"
      "openRow (banks r1 ! 1) = NO_ROW" "actAllowedAt (banks r1 ! 1) = 31000"
    by (simp add: activateBank_def bank_op_simps new_rank_def new_bank_def small_config_def demo_config_def
        upt_rec schedule_activate_def schedule_event_def record_activate_def hold_activates_def
        enforce_tRRD_def bankGroupArch_def tick_sub_def Let_def NO_ROW_def)
  have "rank_trace ?cfg [1000] r1"
    using r1(1) by (intro rank_trace.activate [OF rank_trace.start [of ?cfg 0], of 0 7])
      (auto simp: new_rank_def new_bank_def small_config_def demo_config_def NO_ROW_def upt_rec)
  moreover from this have "rank_ok ?cfg r1" using rank_trace_inv [of ?cfg "[1000]" r1]
    by (simp add: small_config_def)
  then obtain r2 where "activateBank ?cfg 0 5 1 31000 9 r1 = Inr r2"
    using activateBank_ok [of ?cfg r1 1 9 31000 5 0] r1(2,3) by (auto simp: small_config_def demo_config_def NO_ROW_def)
  ultimately have "rank_trace ?cfg [31000, 1000] r2"
    using r1(2,3) by (intro rank_trace.activate [of ?cfg "[1000]" r1 1 9 31000 5 0 r2])
      (auto simp: small_config_def demo_config_def NO_ROW_def)
  then show ?thesis by blast
qed

theorem activation_window_witness:
  "(\<exists>r. rank_trace small_config [31000, 1000] r) \<and> (1000::tick) + tXAW small_config \<le> 31000"
proof -
  obtain r where r: "rank_trace small_config [31000, 1000] r" using small_trace by blast
  show ?thesis using activation_window [OF r, of 0] r by (auto simp: small_config_def)
qed

text \<open>C19: the command sequence of every row operation runs to its end on a rank in a consistent
  state: it leaves the bank closed, the number of open banks and the other banks' rows as they were,
  keeps the rank consistent, and takes at least the sum of the times of its commands.\<close>

theorem row_op_timing:
  assumes "rank_ok cfg r" "b < banksPerRank cfg" "openRow (banks r ! b) = NO_ROW"
    "actAllowedAt (banks r ! b) \<le> t" "now \<le> t"
  shows "\<exists>t' r'. run_row_cmds cfg tso now b (row_op_cmds op row src1 src2) t r = Inr (t', r') \<and> rank_ok cfg r' \<and>
     openRow (banks r' ! b) = NO_ROW \<and> numBanksActive r' = numBanksActive r \<and>
     (\<forall>i < banksPerRank cfg. openRow (banks r' ! i) = openRow (banks r ! i)) \<and>
     t + sum_list (map (row_cmd_time cfg) (row_op_cmds op row src1 src2)) \<le> t' \<and> t' = actAllowedAt (banks r' ! b)"
proof -
  have "row_op_cmds op row src1 src2 \<noteq> []" by (cases op) (simp_all add: row_op_cmds_def)
  moreover have "length (banks r) = banksPerRank cfg" using assms(1) by (simp add: rank_ok_def)
  ultimately show ?thesis
    using run_row_cmds_ok [OF assms(1-3) row_op_cmds_open [of op row src1 src2] assms(4,5), of tso] assms(3)
    by (auto simp: banks_grow_def) metis
qed

theorem row_op_timing_witness:
  "\<exists>t' r'. run_row_cmds demo_config 0 0 3 (row_op_cmds ROWXOR 7 8 9) 1000 (new_rank demo_config 0) = Inr (t', r') \<and>
     openRow (banks r' ! 3) = NO_ROW \<and> 362250 \<le> t'"
  using row_op_timing [OF new_rank_ok [of demo_config 0], of 3 1000 0 0 ROWXOR 7 8 9]
  by (auto simp: demo_config_def new_rank_def new_bank_def row_op_cmds_def)

end
