(* ===== verification/Dram_Refresh.thy ===== *)
theory Dram_Refresh
  imports Dram_Bank
begin

text \<open>
  The refresh and power state machines of a rank (\<^verbatim>\<open>DRAMCtrl::Rank\<close> in
  \<^verbatim>\<open>gem5/src/mem/dram_ctrl.cc\<close>): the handlers of the activate, precharge, refresh and power
  events, start-up, suspension and the hand-over from the request loop.  An event handler runs at the
  tick its event was scheduled for, after the event has been taken off the queue.  What the handlers
  ask of the controller (the active rank and whether its request event is scheduled) are arguments;
  \<open>processPowerEvent\<close> returns whether the controller's request event has to be scheduled.  The energy
  statistics of the DRAMPower library are not part of the state; \<open>cmdList\<close> is the list of commands
  it has not consumed yet.
\<close>

subsection \<open>Operations\<close>

definition rank_startup :: "tick \<Rightarrow> tick \<Rightarrow> Rank \<Rightarrow> Rank result" where
  "rank_startup now ref_tick r =
     rbind (assertr (ref_tick > now) ''ref_tick > curTick()'') (\<lambda>_.
     let r1 = r\<lparr>pwrStateTick := now\<rparr> in
     rbind (schedule_event now (refreshEvent r1) ref_tick) (\<lambda>e. Inr (r1\<lparr>refreshEvent := e\<rparr>)))"

definition rank_suspend :: "Rank \<Rightarrow> Rank result" where
  "rank_suspend r = rbind (deschedule_event (refreshEvent r)) (\<lambda>e. Inr (r\<lparr>refreshEvent := e\<rparr>))"

definition checkDrainDone :: "tick \<Rightarrow> Rank \<Rightarrow> Rank result" where
  "checkDrainDone now r =
     (if refreshState r = REF_DRAIN then
        let r1 = r\<lparr>refreshState := REF_PRE\<rparr> in
        rbind (schedule_event now (refreshEvent r1) now) (\<lambda>e. Inr (r1\<lparr>refreshEvent := e\<rparr>))
      else Inr r)"

definition schedulePowerEvent :: "tick \<Rightarrow> PowerState \<Rightarrow> tick \<Rightarrow> Rank \<Rightarrow> Rank result" where
  "schedulePowerEvent now pwr_state t r =
     rbind (assertr (t \<ge> now) ''tick >= curTick()'') (\<lambda>_.
     if powerEvent r = None then
       let r1 = r\<lparr>pwrStateTrans := pwr_state\<rparr> in
       rbind (schedule_event now (powerEvent r1) t) (\<lambda>e. Inr (r1\<lparr>powerEvent := e\<rparr>))
     else Inl (Panic ''Scheduled power event''))"

definition processActivateEvent :: "tick \<Rightarrow> Rank \<Rightarrow> Rank result" where
  "processActivateEvent now r =
     (if pwrState r \<noteq> PWR_ACT then schedulePowerEvent now PWR_ACT now r else Inr r)"

definition processPrechargeEvent :: "tick \<Rightarrow> Rank \<Rightarrow> Rank result" where
  "processPrechargeEvent now r =
     (if numBanksActive r = 0 then schedulePowerEvent now PWR_IDLE now r else Inr r)"

text \<open>The precharge-all loop of the refresh, over the bank numbers.\<close>

definition latest_pre :: "tick \<Rightarrow> Bank list \<Rightarrow> tick" where
  "latest_pre now ks = foldl (\<lambda>pre_at b. max (preAllowedAt b) pre_at) now ks"

fun precharge_loop :: "DRAMConfig \<Rightarrow> tick \<Rightarrow> tick \<Rightarrow> tick \<Rightarrow> nat list \<Rightarrow> Rank \<Rightarrow> Rank result" where
  "precharge_loop cfg tso now pre_at [] r = Inr r"
| "precharge_loop cfg tso now pre_at (b # bs) r =
     rbind (if openRow (banks r ! b) \<noteq> NO_ROW then prechargeBank cfg tso now b pre_at False r
            else Inr (set_bank b (\<lambda>k. k\<lparr>actAllowedAt := max (actAllowedAt k) (pre_at + tRP cfg),
                                       preAllowedAt := max (preAllowedAt k) pre_at\<rparr>) r)) (\<lambda>r'.
     precharge_loop cfg tso now pre_at bs r')"

definition refresh_pre :: "DRAMConfig \<Rightarrow> tick \<Rightarrow> tick \<Rightarrow> Rank \<Rightarrow> Rank result" where
  "refresh_pre cfg tso now r =
     rbind (if pwrState r \<noteq> PWR_IDLE then
              let pre_at = latest_pre now (banks r) in
              rbind (precharge_loop cfg tso now pre_at [0..<length (banks r)] r) (\<lambda>r1.
              Inr (doCommand cfg tso CMD_PREA 0 pre_at r1))
            else schedulePowerEvent now PWR_REF now r) (\<lambda>r2.
     let r3 = r2\<lparr>refreshState := REF_RUN\<rparr> in
     rbind (assertr (numBanksActive r3 = 0) ''numBanksActive == 0'') (\<lambda>_. Inr r3))"

definition refresh_run :: "DRAMConfig \<Rightarrow> tick \<Rightarrow> tick \<Rightarrow> Rank \<Rightarrow> Rank result" where
  "refresh_run cfg tso now r =
     rbind (assertr (numBanksActive r = 0) ''numBanksActive == 0'') (\<lambda>_.
     rbind (assertr (pwrState r = PWR_REF) ''pwrState == PWR_REF'') (\<lambda>_.
     let ref_done_at = now + tRFC cfg;
         r1 = all_banks (\<lambda>k. k\<lparr>actAllowedAt := ref_done_at\<rparr>) r;
         r2 = (doCommand cfg tso CMD_REF 0 now r1)\<lparr>cmdList := []\<rparr> in
     if refreshDueAt r2 + tREFI cfg < ref_done_at
     then Inl (Fatal ''Refresh was delayed so long we cannot catch up'')
     else
     rbind (schedule_event now (refreshEvent r2) (tick_sub (refreshDueAt r2 + tREFI cfg) (tRP cfg))) (\<lambda>e.
     let r3 = r2\<lparr>refreshEvent := e\<rparr> in
     rbind (assertr (powerEvent r3 = None) ''!powerEvent.scheduled()'') (\<lambda>_.
     schedulePowerEvent now PWR_IDLE ref_done_at r3))))"

definition processRefreshEvent ::
  "DRAMConfig \<Rightarrow> tick \<Rightarrow> tick \<Rightarrow> nat \<Rightarrow> bool \<Rightarrow> Rank \<Rightarrow> Rank result" where
  "processRefreshEvent cfg tso now activeRank nextReqScheduled r =
     (let r1 = (if refreshState r = REF_IDLE then r\<lparr>refreshDueAt := now, refreshState := REF_DRAIN\<rparr> else r) in
      if refreshState r1 = REF_DRAIN \<and> rank_no r1 = activeRank \<and> nextReqScheduled then Inr r1
      else
        let r2 = (if refreshState r1 = REF_DRAIN then r1\<lparr>refreshState := REF_PRE\<rparr> else r1) in
        if refreshState r2 = REF_PRE then refresh_pre cfg tso now r2
        else refresh_run cfg tso now r2)"

definition processPowerEvent ::
  "DRAMConfig \<Rightarrow> tick \<Rightarrow> tick \<Rightarrow> nat \<Rightarrow> bool \<Rightarrow> Rank \<Rightarrow> (bool \<times> Rank) result" where
  "processPowerEvent cfg tso now activeRank nextReqScheduled r =
     (let duration = tick_sub now (pwrStateTick r); prev_state = pwrState r;
          r1 = r\<lparr>pwrStateTime := (pwrStateTime r)(prev_state := pwrStateTime r prev_state + duration),
                 pwrState := pwrStateTrans r, pwrStateTick := now\<rparr> in
      rbind (if pwrState r1 = PWR_IDLE then
               if prev_state = PWR_REF then
                 Inr (\<not> nextReqScheduled, r1\<lparr>refreshState := REF_IDLE\<rparr>)
               else
                 rbind (assertr (prev_state = PWR_ACT) ''prev_state == PWR_ACT'') (\<lambda>_.
                 if refreshState r1 = REF_RUN then
                   rbind (assertr (powerEvent r1 = None) ''!powerEvent.scheduled()'') (\<lambda>_.
                   Inr (False, r1\<lparr>pwrState := PWR_REF\<rparr>))
                 else Inr (False, r1))
             else Inr (False, r1)) (\<lambda>(kick, r2).
      if pwrState r2 = PWR_REF then
        rbind (assertr (refreshState r2 = REF_RUN) ''refreshState == REF_RUN'') (\<lambda>_.
        rbind (processRefreshEvent cfg tso now activeRank nextReqScheduled r2) (\<lambda>r3. Inr (kick, r3)))
      else Inr (kick, r2)))"

subsection \<open>Firing the pending events\<close>

definition fire_precharge :: "Rank \<Rightarrow> Rank result" where
  "fire_precharge r =
     (case prechargeEvent r of None \<Rightarrow> Inr r | Some t \<Rightarrow> processPrechargeEvent t (r\<lparr>prechargeEvent := None\<rparr>))"

definition fire_activate :: "Rank \<Rightarrow> Rank result" where
  "fire_activate r =
     (case activateEvent r of None \<Rightarrow> Inr r | Some t \<Rightarrow> processActivateEvent t (r\<lparr>activateEvent := None\<rparr>))"

definition fire_refresh :: "DRAMConfig \<Rightarrow> tick \<Rightarrow> nat \<Rightarrow> bool \<Rightarrow> Rank \<Rightarrow> Rank result" where
  "fire_refresh cfg tso ar nx r =
     (case refreshEvent r of None \<Rightarrow> Inr r | Some t \<Rightarrow> processRefreshEvent cfg tso t ar nx (r\<lparr>refreshEvent := None\<rparr>))"

definition fire_power :: "DRAMConfig \<Rightarrow> tick \<Rightarrow> nat \<Rightarrow> bool \<Rightarrow> Rank \<Rightarrow> (bool \<times> Rank) result" where
  "fire_power cfg tso ar nx r =
     (case powerEvent r of None \<Rightarrow> Inr (False, r)
      | Some t \<Rightarrow> processPowerEvent cfg tso t ar nx (r\<lparr>powerEvent := None\<rparr>))"

subsection \<open>Counting open banks\<close>

definition counted :: "Rank \<Rightarrow> bool" where
  "counted r \<longleftrightarrow> numBanksActive r = open_banks (banks r)"

lemma record_activate_frame [simp]:
  "refreshState (record_activate cfg t r) = refreshState r" "refreshState (record_activate_aap cfg t r) = refreshState r"
  "pwrState (record_activate cfg t r) = pwrState r" "pwrState (record_activate_aap cfg t r) = pwrState r"
  "pwrStateTrans (record_activate cfg t r) = pwrStateTrans r" "pwrStateTrans (record_activate_aap cfg t r) = pwrStateTrans r"
  "rank_no (record_activate cfg t r) = rank_no r" "rank_no (record_activate_aap cfg t r) = rank_no r"
  "refreshDueAt (record_activate cfg t r) = refreshDueAt r" "refreshDueAt (record_activate_aap cfg t r) = refreshDueAt r"
  "refreshEvent (record_activate cfg t r) = refreshEvent r" "refreshEvent (record_activate_aap cfg t r) = refreshEvent r"
  "powerEvent (record_activate cfg t r) = powerEvent r" "powerEvent (record_activate_aap cfg t r) = powerEvent r"
  "numBanksActive (record_activate cfg t r) = numBanksActive r" "numBanksActive (record_activate_aap cfg t r) = numBanksActive r"
  "open_banks (banks (record_activate cfg t r)) = open_banks (banks r)"
  "open_banks (banks (record_activate_aap cfg t r)) = open_banks (banks r)"
  "length (banks (record_activate cfg t r)) = length (banks r)" "length (banks (record_activate_aap cfg t r)) = length (banks r)"
  by (simp_all add: record_activate_def record_activate_aap_def hold_activates_eq Let_def rank_frame_def open_banks_map)

lemma schedule_activate_frame:
  "schedule_activate now t r = Inr r' \<Longrightarrow> \<exists>e. r' = r\<lparr>activateEvent := e\<rparr>"
  by (cases r) (auto simp: schedule_activate_def result_simps split: option.splits if_splits)

lemma activateBank_counts:
  assumes "activateBank cfg tso now b t row r = Inr r'" "b < length (banks r)" "row \<noteq> NO_ROW" "counted r"
  shows "counted r'" "rank_frame r r'" "length (banks r') = length (banks r)"
proof -
  have c: "openRow (banks r ! b) = NO_ROW" using assms(1) by (simp add: activateBank_def result_simps)
  have u: "open_banks ((banks r)[b := k]) = open_banks (banks r) + 1" if "openRow k = row" for k
    using open_banks_update [OF assms(2), of k] c assms(3) that by simp
  show "counted r'" "rank_frame r r'" "length (banks r') = length (banks r)"
    using assms u
    by (auto simp: activateBank_def result_simps bank_op_simps enforce_tRRD_eq Let_def counted_def open_banks_map
        rank_frame_def dest!: schedule_activate_frame split: if_splits)
qed


lemma prechargeBank_counts:
  assumes "prechargeBank cfg tso now b pre_at tr r = Inr r'" "b < length (banks r)" "counted r"
  shows "counted r'" "rank_frame r r'" "length (banks r') = length (banks r)"
    "openRow (banks r' ! b) = NO_ROW" "\<And>i. i < length (banks r) \<Longrightarrow> i \<noteq> b \<Longrightarrow> openRow (banks r' ! i) = openRow (banks r ! i)"
proof -
  have c: "openRow (banks r ! b) \<noteq> NO_ROW" using assms(1) by (simp add: prechargeBank_def result_simps)
  have u: "open_banks ((banks r)[b := k]) = open_banks (banks r) - 1" if "openRow k = NO_ROW" for k
    using open_banks_update [OF assms(2), of k] c that by simp
  show "counted r'" "rank_frame r r'" "length (banks r') = length (banks r)" "openRow (banks r' ! b) = NO_ROW"
    "\<And>i. i < length (banks r) \<Longrightarrow> i \<noteq> b \<Longrightarrow> openRow (banks r' ! i) = openRow (banks r ! i)"
    using assms u
    by (auto simp: prechargeBank_def result_simps bank_op_simps Let_def counted_def
        rank_frame_def split: if_splits option.splits)
qed

lemma aapBank_counts:
  assumes "aapBank cfg tso now b t row1 row2 ov r = Inr r'" "b < length (banks r)" "counted r"
  shows "counted r' \<and> rank_frame r r' \<and> length (banks r') = length (banks r)"
proof -
  have c: "openRow (banks r ! b) = NO_ROW" using assms(1) by (simp add: aapBank_def result_simps)
  have u: "open_banks ((banks r)[b := k]) = open_banks (banks r) + 1" if "openRow k = DOUBLE_ROW" for k
    using open_banks_update [OF assms(2), of k] c that by (simp add: NO_ROW_def DOUBLE_ROW_def)
  let ?k = "(banks r ! b)\<lparr>openRow := DOUBLE_ROW, bytesAccessed := 0, rowAccesses := 0,
      preAllowedAt := t + tRAS cfg + (if ov then tWLOV cfg else tWL cfg)\<rparr>"
  define r4 where "r4 = r\<lparr>numBanksActive := numBanksActive r + 1,
      banks := map (raised (\<lambda>j. t + trrd cfg (bankgr ?k) j)) ((banks r)[b := ?k])\<rparr>"
  define r6 where "r6 = (if actTicks r4 \<noteq> [] then record_activate_aap cfg t r4 else r4)"
  have r6: "counted r6" "rank_frame r r6" "length (banks r6) = length (banks r)"
    using assms(2,3) u by (auto simp: r6_def r4_def counted_def rank_frame_def open_banks_map)
  have "numBanksActive r + 1 \<le> banksPerRank cfg"
    using assms(1,2) by (simp add: aapBank_def result_simps bank_op_simps Let_def)
  then have "aapBank cfg tso now b t row1 row2 ov r =
      rbind (schedule_activate now t r6) (\<lambda>r1. prechargeBank cfg tso now b (preAllowedAt (banks r1 ! b)) True r1)"
    using c assms(2) by (simp add: aapBank_def bank_op_simps enforce_tRRD_eq r4_def r6_def Let_def)
  then have "rbind (schedule_activate now t r6) (\<lambda>r1. prechargeBank cfg tso now b (preAllowedAt (banks r1 ! b)) True r1) = Inr r'"
    using assms(1) by (simp only:)
  then obtain r1 where "schedule_activate now t r6 = Inr r1"
      and p: "prechargeBank cfg tso now b (preAllowedAt (banks r1 ! b)) True r1 = Inr r'"
    by (auto simp: result_simps)
  then have r1: "counted r1" "rank_frame r r1" "length (banks r1) = length (banks r)"
    using r6 by (auto dest!: schedule_activate_frame simp: counted_def rank_frame_def)
  then show ?thesis
    using prechargeBank_counts(1,2,3) [OF p] assms(2) r1 rank_frame_trans [of r r1 r'] by simp
qed


subsection \<open>The interleavings of a rank\<close>

text \<open>The bank commands of the request loop, which only uses available ranks, and the events of
  the rank, in any order in which each of them succeeds.\<close>

inductive rank_run :: "DRAMConfig \<Rightarrow> Rank \<Rightarrow> bool" for cfg where
  start: "rank_run cfg (new_rank cfg i)"
| startup: "rank_run cfg r \<Longrightarrow> rank_startup now ref_tick r = Inr r' \<Longrightarrow> rank_run cfg r'"
| suspend: "rank_run cfg r \<Longrightarrow> rank_suspend r = Inr r' \<Longrightarrow> rank_run cfg r'"
| drain: "rank_run cfg r \<Longrightarrow> checkDrainDone now r = Inr r' \<Longrightarrow> rank_run cfg r'"
| activate: "rank_run cfg r \<Longrightarrow> isAvailable r \<Longrightarrow> b < banksPerRank cfg \<Longrightarrow> row \<noteq> NO_ROW \<Longrightarrow>
    activateBank cfg tso now b t row r = Inr r' \<Longrightarrow> rank_run cfg r'"
| precharge: "rank_run cfg r \<Longrightarrow> isAvailable r \<Longrightarrow> b < banksPerRank cfg \<Longrightarrow>
    prechargeBank cfg tso now b pre_at True r = Inr r' \<Longrightarrow> rank_run cfg r'"
| aap: "rank_run cfg r \<Longrightarrow> isAvailable r \<Longrightarrow> b < banksPerRank cfg \<Longrightarrow>
    aapBank cfg tso now b t row1 row2 ov r = Inr r' \<Longrightarrow> rank_run cfg r'"
| activate_event: "rank_run cfg r \<Longrightarrow> fire_activate r = Inr r' \<Longrightarrow> rank_run cfg r'"
| precharge_event: "rank_run cfg r \<Longrightarrow> fire_precharge r = Inr r' \<Longrightarrow> rank_run cfg r'"
| refresh_event: "rank_run cfg r \<Longrightarrow> fire_refresh cfg tso ar nx r = Inr r' \<Longrightarrow> rank_run cfg r'"
| power_event: "rank_run cfg r \<Longrightarrow> fire_power cfg tso ar nx r = Inr (kick, r') \<Longrightarrow> rank_run cfg r'"

text \<open>The invariant: while the rank is in the refresh power state the refresh machine is running and
  the way back to idle is scheduled; a refresh is only ever scheduled by a running refresh machine;
  a running refresh machine has no bank open.\<close>

definition refresh_inv :: "DRAMConfig \<Rightarrow> Rank \<Rightarrow> bool" where
  "refresh_inv cfg r \<longleftrightarrow> counted r \<and> length (banks r) = banksPerRank cfg \<and>
     (pwrState r = PWR_REF \<longrightarrow> refreshState r = REF_RUN \<and> powerEvent r \<noteq> None \<and> pwrStateTrans r = PWR_IDLE) \<and>
     (powerEvent r \<noteq> None \<and> pwrStateTrans r = PWR_REF \<longrightarrow> refreshState r = REF_RUN) \<and>
     (refreshState r = REF_RUN \<longrightarrow> numBanksActive r = 0)"

lemma refresh_inv_events [simp]:
  "refresh_inv cfg (r\<lparr>activateEvent := e\<rparr>) = refresh_inv cfg r"
  "refresh_inv cfg (r\<lparr>prechargeEvent := e\<rparr>) = refresh_inv cfg r"
  "refresh_inv cfg (r\<lparr>refreshEvent := e\<rparr>) = refresh_inv cfg r"
  by (simp_all add: refresh_inv_def counted_def)

lemma refresh_inv_frame:
  assumes "refresh_inv cfg r" "isAvailable r" "counted r'" "rank_frame r r'" "length (banks r') = length (banks r)"
  shows "refresh_inv cfg r'"
  using assms by (auto simp: refresh_inv_def isAvailable_def rank_frame_def)

lemma schedulePowerEvent_inv:
  assumes "refresh_inv cfg r" "schedulePowerEvent now st t r = Inr r'" "st = PWR_REF \<Longrightarrow> refreshState r = REF_RUN"
  shows "refresh_inv cfg r'"
  using assms
  by (auto simp: refresh_inv_def schedulePowerEvent_def schedule_event_def counted_def result_simps Let_def split: if_splits)


lemma precharge_loop_counts:
  assumes "precharge_loop cfg tso now pre_at bs r = Inr r'" "counted r" "\<forall>b \<in> set bs. b < length (banks r)"
  shows "counted r' \<and> rank_frame r r' \<and> length (banks r') = length (banks r) \<and>
    (\<forall>i < length (banks r). openRow (banks r' ! i) = (if i \<in> set bs then NO_ROW else openRow (banks r ! i)))"
  using assms
proof (induction bs arbitrary: r)
  case (Cons b bs)
  show ?case
  proof (cases "openRow (banks r ! b) = NO_ROW")
    case True
    let ?k = "(banks r ! b)\<lparr>actAllowedAt := max (actAllowedAt (banks r ! b)) (pre_at + tRP cfg),
        preAllowedAt := max (preAllowedAt (banks r ! b)) pre_at\<rparr>"
    let ?r = "r\<lparr>banks := (banks r)[b := ?k]\<rparr>"
    have "precharge_loop cfg tso now pre_at bs ?r = Inr r'" using Cons.prems(1) True by (simp add: set_bank_def)
    moreover have "counted ?r"
      using Cons.prems(2,3) True open_banks_update [of b "banks r" ?k] by (simp add: counted_def)
    ultimately have "counted r' \<and> rank_frame ?r r' \<and> length (banks r') = length (banks r) \<and>
      (\<forall>i < length (banks r). openRow (banks r' ! i) = (if i \<in> set bs then NO_ROW else openRow (banks ?r ! i)))"
      using Cons.IH [of ?r] Cons.prems(3) by simp
    then show ?thesis using True Cons.prems(3) by (auto simp: rank_frame_def nth_list_update)
  next
    case False
    then obtain r1 where p: "prechargeBank cfg tso now b pre_at False r = Inr r1"
        and l: "precharge_loop cfg tso now pre_at bs r1 = Inr r'"
      using Cons.prems(1) by (auto simp: result_simps)
    have b: "b < length (banks r)" using Cons.prems(3) by simp
    note c = prechargeBank_counts [OF p b Cons.prems(2)]
    have "counted r' \<and> rank_frame r1 r' \<and> length (banks r') = length (banks r) \<and>
      (\<forall>i < length (banks r). openRow (banks r' ! i) = (if i \<in> set bs then NO_ROW else openRow (banks r1 ! i)))"
      using Cons.IH [OF l c(1)] Cons.prems(3) c(3) by simp
    then show ?thesis using c rank_frame_trans [of r r1 r'] by auto
  qed
qed simp

lemma open_banks_0: "(\<forall>i < length ks. openRow (ks ! i) = NO_ROW) \<longleftrightarrow> open_banks ks = 0"
  by (simp add: open_banks_def filter_empty_conv all_set_conv_all_nth)

lemma refresh_pre_inv:
  assumes "refresh_inv cfg r" "refreshState r = REF_PRE" "refresh_pre cfg tso now r = Inr r'"
  shows "refresh_inv cfg r' \<and> refreshState r' = REF_RUN"
proof (cases "pwrState r = PWR_IDLE")
  case True
  then show ?thesis
    using assms by (auto simp: refresh_pre_def refresh_inv_def schedulePowerEvent_def schedule_event_def counted_def
        result_simps Let_def split: if_splits)
next
  case False
  obtain r1 where l: "precharge_loop cfg tso now (latest_pre now (banks r)) [0..<length (banks r)] r = Inr r1"
      and r': "r' = (doCommand cfg tso CMD_PREA 0 (latest_pre now (banks r)) r1)\<lparr>refreshState := REF_RUN\<rparr>"
      and n: "numBanksActive r' = 0"
    using assms(3) False by (auto simp: refresh_pre_def result_simps Let_def)
  have "counted r1 \<and> rank_frame r r1 \<and> length (banks r1) = length (banks r)"
    using precharge_loop_counts [OF l] assms(1) by (simp add: refresh_inv_def)
  then show ?thesis
    using assms(1,2) n by (auto simp: r' doCommand_def refresh_inv_def counted_def rank_frame_def)
qed

lemma refresh_run_inv:
  assumes "counted r" "length (banks r) = banksPerRank cfg" "refreshState r = REF_RUN" "refresh_run cfg tso now r = Inr r'"
  shows "refresh_inv cfg r' \<and> refreshState r' = REF_RUN \<and> pwrState r' = PWR_REF"
  using assms
  by (auto simp: refresh_run_def refresh_inv_def schedulePowerEvent_def schedule_event_def counted_def all_banks_def
      doCommand_def open_banks_map result_simps Let_def split: if_splits)

lemma processRefreshEvent_inv:
  assumes "refresh_inv cfg r" "processRefreshEvent cfg tso now ar nx r = Inr r'"
  shows "refresh_inv cfg r'"
proof -
  define r1 where "r1 = (if refreshState r = REF_IDLE then r\<lparr>refreshDueAt := now, refreshState := REF_DRAIN\<rparr> else r)"
  define r2 where "r2 = (if refreshState r1 = REF_DRAIN then r1\<lparr>refreshState := REF_PRE\<rparr> else r1)"
  have inv: "refresh_inv cfg r1" "refresh_inv cfg r2"
    using assms(1) by (auto simp: r1_def r2_def refresh_inv_def counted_def)
  have eq: "processRefreshEvent cfg tso now ar nx r =
      (if refreshState r1 = REF_DRAIN \<and> rank_no r1 = ar \<and> nx then Inr r1
       else if refreshState r2 = REF_PRE then refresh_pre cfg tso now r2 else refresh_run cfg tso now r2)"
    unfolding processRefreshEvent_def r1_def r2_def Let_def ..
  consider "r' = r1" | "refreshState r2 = REF_PRE" "refresh_pre cfg tso now r2 = Inr r'"
    | "refreshState r2 \<noteq> REF_PRE" "refresh_run cfg tso now r2 = Inr r'"
    using assms(2) unfolding eq by (auto split: if_splits)
  then show ?thesis
  proof cases
    case 1
    then show ?thesis using inv(1) by simp
  next
    case 2
    then show ?thesis using refresh_pre_inv [OF inv(2)] by blast
  next
    case 3
    moreover have "refreshState r2 = REF_RUN" using 3(1) by (cases "refreshState r") (auto simp: r1_def r2_def)
    ultimately show ?thesis using refresh_run_inv [of r2 cfg tso now r'] inv(2) by (simp add: refresh_inv_def)
  qed
qed


lemma processPowerEvent_inv:
  assumes inv: "counted r" "length (banks r) = banksPerRank cfg" "refreshState r = REF_RUN \<longrightarrow> numBanksActive r = 0"
    and ref: "pwrStateTrans r = PWR_REF \<longrightarrow> refreshState r = REF_RUN" "pwrState r = PWR_REF \<longrightarrow> pwrStateTrans r = PWR_IDLE"
    and none: "powerEvent r = None"
    and step: "processPowerEvent cfg tso now ar nx r = Inr (kick, r')"
  shows "refresh_inv cfg r'"
proof -
  define r1 where "r1 = r\<lparr>pwrStateTime := (pwrStateTime r)(pwrState r := pwrStateTime r (pwrState r) + tick_sub now (pwrStateTick r)),
                 pwrState := pwrStateTrans r, pwrStateTick := now\<rparr>"
  have eq: "processPowerEvent cfg tso now ar nx r =
     rbind (if pwrState r1 = PWR_IDLE then
               if pwrState r = PWR_REF then Inr (\<not> nx, r1\<lparr>refreshState := REF_IDLE\<rparr>)
               else
                 rbind (assertr (pwrState r = PWR_ACT) ''prev_state == PWR_ACT'') (\<lambda>_.
                 if refreshState r1 = REF_RUN then
                   rbind (assertr (powerEvent r1 = None) ''!powerEvent.scheduled()'') (\<lambda>_.
                   Inr (False, r1\<lparr>pwrState := PWR_REF\<rparr>))
                 else Inr (False, r1))
             else Inr (False, r1)) (\<lambda>(kick, r2).
      if pwrState r2 = PWR_REF then
        rbind (assertr (refreshState r2 = REF_RUN) ''refreshState == REF_RUN'') (\<lambda>_.
        rbind (processRefreshEvent cfg tso now ar nx r2) (\<lambda>r3. Inr (kick, r3)))
      else Inr (kick, r2))"
    unfolding processPowerEvent_def r1_def Let_def ..
  consider "r' = r1\<lparr>refreshState := REF_IDLE\<rparr>" "pwrState r1 = PWR_IDLE"
    | "r' = r1" "pwrState r1 \<noteq> PWR_REF"
    | "refreshState r1 = REF_RUN" "processRefreshEvent cfg tso now ar nx r1 = Inr r'"
    | "refreshState r1 = REF_RUN" "processRefreshEvent cfg tso now ar nx (r1\<lparr>pwrState := PWR_REF\<rparr>) = Inr r'"
    using step unfolding eq by (auto simp: result_simps split: if_splits)
  then show ?thesis
  proof cases
    case 3
    then have "refresh_run cfg tso now r1 = Inr r'" by (simp add: processRefreshEvent_def)
    then show ?thesis using refresh_run_inv [of r1 cfg tso now r'] 3(1) inv(1,2) by (simp add: r1_def counted_def)
  next
    case 4
    let ?s = "r1\<lparr>pwrState := PWR_REF\<rparr>"
    have "refresh_run cfg tso now ?s = Inr r'" using 4 by (simp add: processRefreshEvent_def)
    then show ?thesis using refresh_run_inv [of ?s cfg tso now r'] 4(1) inv(1,2) by (simp add: r1_def counted_def)
  qed (use inv ref none in \<open>auto simp: refresh_inv_def r1_def counted_def\<close>)
qed

lemma rank_run_inv: "rank_run cfg r \<Longrightarrow> refresh_inv cfg r"
proof (induction rule: rank_run.induct)
  case (start i)
  then show ?case using new_rank_ok [of cfg i] by (simp add: refresh_inv_def rank_ok_def counted_def) (simp add: new_rank_def)
next
  case (startup r now ref_tick r')
  then show ?case
    by (auto simp: rank_startup_def schedule_event_def result_simps refresh_inv_def counted_def Let_def)
next
  case (suspend r r')
  then show ?case by (auto simp: rank_suspend_def deschedule_event_def result_simps refresh_inv_def counted_def)
next
  case (drain r now r')
  then show ?case
    by (auto simp: checkDrainDone_def schedule_event_def result_simps refresh_inv_def counted_def Let_def split: if_splits)
next
  case (activate r b row tso now t r')
  then show ?case
    using activateBank_counts [OF activate.hyps(5) _ activate.hyps(4)] refresh_inv_frame [of cfg r r'] by (simp add: refresh_inv_def)
next
  case (precharge r b tso now pre_at r')
  then show ?case
    using prechargeBank_counts [OF precharge.hyps(4)] refresh_inv_frame [of cfg r r'] by (simp add: refresh_inv_def)
next
  case (aap r b tso now t row1 row2 ov r')
  then show ?case
    using aapBank_counts [OF aap.hyps(4)] refresh_inv_frame [of cfg r r'] by (simp add: refresh_inv_def)
next
  case (activate_event r r')
  then show ?case
    by (auto simp: fire_activate_def processActivateEvent_def split: option.splits if_splits
        dest!: schedulePowerEvent_inv [rotated])
next
  case (precharge_event r r')
  then show ?case
    by (auto simp: fire_precharge_def processPrechargeEvent_def split: option.splits if_splits
        dest!: schedulePowerEvent_inv [rotated])
next
  case (refresh_event r tso ar nx r')
  then show ?case
    by (auto simp: fire_refresh_def split: option.splits dest!: processRefreshEvent_inv [rotated])
next
  case (power_event r tso ar nx kick r')
  then show ?case
  proof (cases "powerEvent r")
    case (Some t)
    then have "processPowerEvent cfg tso t ar nx (r\<lparr>powerEvent := None\<rparr>) = Inr (kick, r')"
      using power_event.hyps(2) by (simp add: fire_power_def)
    then show ?thesis
      by (rule processPowerEvent_inv [rotated -1]) (use power_event.IH Some in \<open>auto simp: refresh_inv_def counted_def\<close>)
  qed (auto simp: fire_power_def)
qed

subsection \<open>One refresh from beginning to end\<close>

text \<open>The rank after the refresh proper: every bank free at \<open>done\<close>, the next refresh scheduled.\<close>

definition refreshed :: "DRAMConfig \<Rightarrow> tick \<Rightarrow> tick \<Rightarrow> Rank \<Rightarrow> Rank \<Rightarrow> bool" where
  "refreshed cfg due t r r' \<longleftrightarrow> map openRow (banks r') = map openRow (banks r) \<and>
     (\<forall>k \<in> set (banks r'). actAllowedAt k = t + tRFC cfg) \<and> refreshEvent r' = Some (due + tREFI cfg - tRP cfg) \<and>
     refreshState r' = REF_RUN \<and> pwrState r' = PWR_REF"

lemma refresh_run_ok:
  assumes "numBanksActive r = 0" "pwrState r = PWR_REF" "refreshState r = REF_RUN" "refreshEvent r = None" "powerEvent r = None"
    "t + tRFC cfg \<le> refreshDueAt r + tREFI cfg" "tRP cfg \<le> tRFC cfg"
  shows "\<exists>r'. refresh_run cfg tso t r = Inr r' \<and> refreshed cfg (refreshDueAt r) t r r' \<and>
    powerEvent r' = Some (t + tRFC cfg) \<and> pwrStateTrans r' = PWR_IDLE"
proof -
  have "tRP cfg \<le> refreshDueAt r + tREFI cfg" "t \<le> refreshDueAt r + tREFI cfg - tRP cfg" using assms(6,7) by linarith+
  then show ?thesis
    using assms by (auto simp: refresh_run_def schedulePowerEvent_def schedule_event_def all_banks_def doCommand_def
        refreshed_def Let_def)
qed

lemma refresh_from_power:
  assumes "numBanksActive r = 0" "refreshState r = REF_RUN" "refreshEvent r = None" "powerEvent r = Some t"
    "pwrState r = PWR_IDLE \<and> pwrStateTrans r = PWR_REF \<or> pwrState r = PWR_ACT \<and> pwrStateTrans r = PWR_IDLE"
    "t + tRFC cfg \<le> refreshDueAt r + tREFI cfg" "tRP cfg \<le> tRFC cfg"
  shows "\<exists>r2 r3. fire_power cfg tso ar nx r = Inr (False, r2) \<and> refreshed cfg (refreshDueAt r) t r r2 \<and>
    fire_power cfg tso ar nx r2 = Inr (\<not> nx, r3) \<and> isAvailable r3 \<and> pwrState r3 = PWR_IDLE \<and> powerEvent r3 = None \<and>
    banks r3 = banks r2 \<and> refreshEvent r3 = refreshEvent r2"
proof -
  let ?r = "r\<lparr>powerEvent := None, pwrStateTime := (pwrStateTime r)(pwrState r := pwrStateTime r (pwrState r) + tick_sub t (pwrStateTick r)),
       pwrState := PWR_REF, pwrStateTick := t\<rparr>"
  obtain r2 where r2: "refresh_run cfg tso t ?r = Inr r2" "refreshed cfg (refreshDueAt r) t ?r r2"
      "powerEvent r2 = Some (t + tRFC cfg)" "pwrStateTrans r2 = PWR_IDLE"
    using refresh_run_ok [of ?r t cfg tso] assms by auto
  have swap: "x\<lparr>pwrState := a, pwrStateTick := b\<rparr> = x\<lparr>pwrStateTick := b, pwrState := a\<rparr>" for x :: Rank and a b
    by (cases x) simp
  have "fire_power cfg tso ar nx r = Inr (False, r2)"
    using assms(2,4,5) r2(1) by (elim disjE conjE)
      (simp_all add: swap fire_power_def processPowerEvent_def processRefreshEvent_def Let_def)
  moreover have "refreshed cfg (refreshDueAt r) t r r2" using r2(2) by (simp add: refreshed_def)
  moreover from this have "\<exists>r3. fire_power cfg tso ar nx r2 = Inr (\<not> nx, r3) \<and> isAvailable r3 \<and> pwrState r3 = PWR_IDLE \<and>
      powerEvent r3 = None \<and> banks r3 = banks r2 \<and> refreshEvent r3 = refreshEvent r2"
    using r2(3,4) by (simp add: refreshed_def fire_power_def processPowerEvent_def isAvailable_def Let_def)
  ultimately show ?thesis by blast
qed

definition quiet_at :: "DRAMConfig \<Rightarrow> tick \<Rightarrow> Rank \<Rightarrow> tick" where
  "quiet_at cfg now r =
     (let p = latest_pre now (banks r) + tRP cfg in
      case prechargeEvent r of None \<Rightarrow> p | Some w \<Rightarrow> if numBanksActive r = 0 then w else max w p)"

lemma latest_pre_ge: "now \<le> latest_pre now ks" "k \<in> set ks \<Longrightarrow> preAllowedAt k \<le> latest_pre now ks"
proof -
  have "now \<le> foldl (\<lambda>p b. max (preAllowedAt b) p) now ks \<and> (\<forall>k \<in> set ks. preAllowedAt k \<le> foldl (\<lambda>p b. max (preAllowedAt b) p) now ks)"
  proof (induction ks arbitrary: now)
    case (Cons a ks)
    show ?case using Cons.IH [of "max (preAllowedAt a) now"] by auto
  qed simp
  then show "now \<le> latest_pre now ks" "k \<in> set ks \<Longrightarrow> preAllowedAt k \<le> latest_pre now ks"
    by (auto simp: latest_pre_def)
qed

lemma rank_ok_raise:
  assumes ok: "rank_ok cfg r" and b: "b < length (banks r)" and k: "openRow k = openRow (banks r ! b)"
    "actAllowedAt (banks r ! b) \<le> actAllowedAt k"
  shows "rank_ok cfg (r\<lparr>banks := (banks r)[b := k]\<rparr>)"
proof -
  have "open_banks ((banks r)[b := k]) = open_banks (banks r)"
    using open_banks_update [OF b, of k] k(1) by (simp split: if_splits)
  moreover have "act_window cfg (r\<lparr>banks := (banks r)[b := k]\<rparr>)"
    unfolding act_window_def
  proof
    fix j assume "j \<in> set (banks (r\<lparr>banks := (banks r)[b := k]\<rparr>))"
    then have "j = k \<or> j \<in> set (banks r)" using set_update_subset_insert [of "banks r" b k] by auto
    then have "\<exists>j' \<in> set (banks r). actAllowedAt j' \<le> actAllowedAt j"
      using b k(2) by (auto intro: bexI [of _ "banks r ! b"])
    then obtain j' where "j' \<in> set (banks r)" "actAllowedAt j' \<le> actAllowedAt j" by blast
    then show "(\<forall>t \<in> set (actTicks (r\<lparr>banks := (banks r)[b := k]\<rparr>)). t \<le> actAllowedAt j) \<and>
        (actTicks (r\<lparr>banks := (banks r)[b := k]\<rparr>) \<noteq> [] \<and> last (actTicks (r\<lparr>banks := (banks r)[b := k]\<rparr>)) \<noteq> 0 \<longrightarrow>
         last (actTicks (r\<lparr>banks := (banks r)[b := k]\<rparr>)) + tXAW cfg \<le> actAllowedAt j)"
      using ok unfolding rank_ok_def act_window_def by (simp, metis order_trans)
  qed
  ultimately show ?thesis using ok by (simp add: rank_ok_def)
qed

lemma precharge_loop_ok:
  assumes "rank_ok cfg r" "\<forall>b \<in> set bs. b < banksPerRank cfg" "now \<le> pre_at + tRP cfg"
  shows "\<exists>r'. precharge_loop cfg tso now pre_at bs r = Inr r' \<and> rank_ok cfg r' \<and>
    prechargeEvent r' = (if \<forall>b \<in> set bs. openRow (banks r ! b) = NO_ROW then prechargeEvent r
      else Some (case prechargeEvent r of None \<Rightarrow> pre_at + tRP cfg | Some w \<Rightarrow> max w (pre_at + tRP cfg)))"
  using assms
proof (induction bs arbitrary: r)
  case (Cons b bs)
  have len: "b < length (banks r)" using Cons.prems(1,2) by (simp add: rank_ok_def)
  show ?case
  proof (cases "openRow (banks r ! b) = NO_ROW")
    case True
    let ?k = "(banks r ! b)\<lparr>actAllowedAt := max (actAllowedAt (banks r ! b)) (pre_at + tRP cfg),
        preAllowedAt := max (preAllowedAt (banks r ! b)) pre_at\<rparr>"
    let ?r = "r\<lparr>banks := (banks r)[b := ?k]\<rparr>"
    have "rank_ok cfg ?r"
      using rank_ok_raise [OF Cons.prems(1) len, of ?k] True by simp
    note ih = Cons.IH [OF this, OF _ Cons.prems(3)]
    have e: "(\<forall>c \<in> set bs. openRow (banks ?r ! c) = NO_ROW) = (\<forall>c \<in> set bs. openRow (banks r ! c) = NO_ROW)"
      using True len by (auto simp: nth_list_update)
    obtain r' where "precharge_loop cfg tso now pre_at bs ?r = Inr r'" "rank_ok cfg r'"
        "prechargeEvent r' = (if \<forall>b \<in> set bs. openRow (banks r ! b) = NO_ROW then prechargeEvent r
           else Some (case prechargeEvent r of None \<Rightarrow> pre_at + tRP cfg | Some w \<Rightarrow> max w (pre_at + tRP cfg)))"
      using ih [unfolded e] Cons.prems(2) by auto
    then show ?thesis using True by (simp add: set_bank_def)
  next
    case False
    obtain r1 where r1: "prechargeBank cfg tso now b pre_at False r = Inr r1" "rank_ok cfg r1" "after_pre cfg b pre_at r r1"
      using prechargeBank_ok [OF Cons.prems(1) _ False, of now pre_at tso False] Cons.prems by auto
    obtain r' where "precharge_loop cfg tso now pre_at bs r1 = Inr r'" "rank_ok cfg r'"
        "prechargeEvent r' = (if \<forall>b \<in> set bs. openRow (banks r1 ! b) = NO_ROW then prechargeEvent r1
           else Some (case prechargeEvent r1 of None \<Rightarrow> pre_at + tRP cfg | Some w \<Rightarrow> max w (pre_at + tRP cfg)))"
      using Cons.IH [OF r1(2)] Cons.prems(2,3) by auto
    then show ?thesis using r1 False by (auto simp: after_pre_def split: option.split)
  qed
qed simp


lemma refresh_pre_active:
  assumes "rank_ok cfg r" "pwrState r = PWR_ACT" "powerEvent r = None"
    "numBanksActive r = 0 \<longrightarrow> prechargeEvent r \<noteq> None"
  shows "\<exists>r1 r2. refresh_pre cfg tso now r = Inr r1 \<and> fire_precharge r1 = Inr r2 \<and> numBanksActive r2 = 0 \<and>
    powerEvent r2 = Some (quiet_at cfg now r) \<and> pwrStateTrans r2 = PWR_IDLE \<and> pwrState r2 = PWR_ACT \<and>
    refreshState r1 = REF_RUN \<and> refreshState r2 = REF_RUN \<and> refreshEvent r2 = refreshEvent r \<and>
    refreshDueAt r2 = refreshDueAt r \<and> rank_no r2 = rank_no r \<and> length (banks r2) = length (banks r) \<and>
    (\<forall>k \<in> set (banks r2). openRow k = NO_ROW)"
proof -
  let ?p = "latest_pre now (banks r)"
  have n: "length (banks r) = banksPerRank cfg" "counted r" using assms(1) by (simp_all add: rank_ok_def counted_def)
  obtain r' where l: "precharge_loop cfg tso now ?p [0..<length (banks r)] r = Inr r'" "rank_ok cfg r'"
      "prechargeEvent r' = (if \<forall>b \<in> set [0..<length (banks r)]. openRow (banks r ! b) = NO_ROW then prechargeEvent r
        else Some (case prechargeEvent r of None \<Rightarrow> ?p + tRP cfg | Some w \<Rightarrow> max w (?p + tRP cfg)))"
    using precharge_loop_ok [OF assms(1), of "[0..<length (banks r)]" now ?p tso] latest_pre_ge(1) [of now "banks r"] n(1)
    by (auto simp: trans_le_add1)
  have c: "rank_frame r r'" "length (banks r') = length (banks r)" "\<forall>i < length (banks r'). openRow (banks r' ! i) = NO_ROW"
    using precharge_loop_counts [OF l(1) n(2)] by auto
  have z: "numBanksActive r' = 0" using l(2) c(3) open_banks_0 [of "banks r'"] by (simp add: rank_ok_def)
  have q: "prechargeEvent r' = Some (quiet_at cfg now r)"
    using l(3) assms(4) n(2) open_banks_0 [of "banks r"]
    by (auto simp: quiet_at_def counted_def Let_def split: option.splits)
  let ?r1 = "(doCommand cfg tso CMD_PREA 0 ?p r')\<lparr>refreshState := REF_RUN\<rparr>"
  have "refresh_pre cfg tso now r = Inr ?r1"
    using assms(2) l(1) z by (simp add: refresh_pre_def Let_def doCommand_def)
  moreover have "powerEvent r' = None" "pwrState r' = PWR_ACT" using c(1) assms(2,3) by (simp_all add: rank_frame_def)
  then have "\<exists>r2. fire_precharge ?r1 = Inr r2 \<and> numBanksActive r2 = 0 \<and>
    powerEvent r2 = Some (quiet_at cfg now r) \<and> pwrStateTrans r2 = PWR_IDLE \<and> pwrState r2 = PWR_ACT \<and>
    refreshState r2 = REF_RUN \<and> refreshEvent r2 = refreshEvent r \<and> refreshDueAt r2 = refreshDueAt r \<and> rank_no r2 = rank_no r \<and>
    banks r2 = banks r'"
    using q z c(1) by (simp add: fire_precharge_def processPrechargeEvent_def schedulePowerEvent_def schedule_event_def
        doCommand_def rank_frame_def Let_def)
  ultimately show ?thesis using c(2,3) by (auto simp: all_set_conv_all_nth)
qed

lemma refresh_pre_scheduled:
  assumes "rank_ok cfg r" "powerEvent r = None" "refreshEvent r = None"
    and pwr: "pwrState r = PWR_IDLE \<and> numBanksActive r = 0 \<or>
              pwrState r = PWR_ACT \<and> (numBanksActive r = 0 \<longrightarrow> prechargeEvent r \<noteq> None)"
    and t: "t = (if pwrState r = PWR_IDLE then now else quiet_at cfg now r)"
  shows "\<exists>r1 r2. refresh_pre cfg tso now r = Inr r1 \<and> \<not> isAvailable r1 \<and>
    (if pwrState r = PWR_IDLE then r2 = r1 else fire_precharge r1 = Inr r2) \<and>
    numBanksActive r2 = 0 \<and> refreshState r2 = REF_RUN \<and> refreshEvent r2 = None \<and> powerEvent r2 = Some t \<and>
    (pwrState r2 = PWR_IDLE \<and> pwrStateTrans r2 = PWR_REF \<or> pwrState r2 = PWR_ACT \<and> pwrStateTrans r2 = PWR_IDLE) \<and>
    refreshDueAt r2 = refreshDueAt r \<and> (\<forall>k \<in> set (banks r2). openRow k = NO_ROW)"
proof (cases "pwrState r = PWR_IDLE")
  case True
  then have "numBanksActive r = 0" "\<forall>k \<in> set (banks r). openRow k = NO_ROW"
    using pwr assms(1) open_banks_0 [of "banks r"] by (auto simp: rank_ok_def all_set_conv_all_nth)
  then show ?thesis
    using True assms(2,3) t by (simp add: refresh_pre_def schedulePowerEvent_def schedule_event_def isAvailable_def Let_def)
next
  case False
  then show ?thesis
    using refresh_pre_active [OF assms(1), of tso now] pwr assms(2,3) t by (auto simp: isAvailable_def)
qed




text \<open>C33: in every interleaving of bank commands and events in which no assertion fires, a rank in the
  refresh power state has all its banks closed, does not accept commands, and has the transition
  back to idle scheduled.\<close>

theorem refresh_excludes_open_rows:
  assumes "rank_run cfg r" "pwrState r = PWR_REF"
  shows "\<not> isAvailable r \<and> powerEvent r \<noteq> None \<and> pwrStateTrans r = PWR_IDLE \<and>
    (\<forall>i < banksPerRank cfg. openRow (banks r ! i) = NO_ROW)"
  using rank_run_inv [OF assms(1)] assms(2) open_banks_0 [of "banks r"]
  by (auto simp: refresh_inv_def counted_def isAvailable_def)

definition refreshing_rank :: Rank where
  "refreshing_rank = (new_rank small_config 0)\<lparr>refreshDueAt := 100, refreshState := REF_RUN, pwrState := PWR_REF,
     pwrStateTick := 100, pwrStateTime := (\<lambda>s. if s = PWR_IDLE then 100 else 0),
     banks := map (\<lambda>k. k\<lparr>actAllowedAt := 260100\<rparr>) (banks (new_rank small_config 0)),
     refreshEvent := Some 7786350, powerEvent := Some 260100\<rparr>"

lemma refreshing_rank_run: "rank_run small_config refreshing_rank"
proof -
  let ?r0 = "new_rank small_config 0"
  let ?r1 = "?r0\<lparr>refreshEvent := Some 100\<rparr>"
  let ?r2 = "?r0\<lparr>refreshDueAt := 100, refreshState := REF_RUN, pwrStateTrans := PWR_REF, powerEvent := Some 100\<rparr>"
  have "rank_run small_config ?r1"
    by (rule rank_run.startup [OF rank_run.start [of small_config 0], of 0 100])
       (simp add: rank_startup_def schedule_event_def new_rank_def)
  then have "rank_run small_config ?r2"
    by (rule rank_run.refresh_event [of _ _ 0 1 False])
       (simp add: fire_refresh_def processRefreshEvent_def refresh_pre_def schedulePowerEvent_def schedule_event_def
         new_rank_def)
  then show ?thesis
    by (rule rank_run.power_event [of _ _ 0 1 False False])
       (simp add: fire_power_def processPowerEvent_def processRefreshEvent_def refresh_run_def schedulePowerEvent_def
         schedule_event_def new_rank_def refreshing_rank_def all_banks_def doCommand_def Let_def fun_eq_iff
         small_config_def demo_config_def)
qed

theorem refresh_excludes_open_rows_witness:
  "rank_run small_config refreshing_rank \<and> powerEvent refreshing_rank \<noteq> None \<and> openRow (banks refreshing_rank ! 1) = NO_ROW"
  using refresh_excludes_open_rows [OF refreshing_rank_run] refreshing_rank_run
  by (auto simp: refreshing_rank_def small_config_def)

text \<open>C39: the guard against a late refresh compares with the tick at which the next refresh is due, but
  the next refresh event is scheduled \<open>tRP\<close> earlier: a refresh that finishes in between passes the
  guard and then the next refresh event fires before the power event and stops the simulation.\<close>

theorem late_refresh_stops:
  assumes "refresh_run cfg tso now r = Inr r'" "refreshState r = REF_RUN" "tRP cfg \<le> refreshDueAt r + tREFI cfg"
    "refreshDueAt r + tREFI cfg < now + tRFC cfg + tRP cfg"
  shows "\<exists>t u e. refreshEvent r' = Some t \<and> powerEvent r' = Some u \<and> t < u \<and> fire_refresh cfg tso ar nx r' = Inl e"
  using assms
  by (auto simp: refresh_run_def schedulePowerEvent_def schedule_event_def result_simps all_banks_def doCommand_def
      fire_refresh_def processRefreshEvent_def Let_def split: if_splits)

definition late_rank :: Rank where
  "late_rank = (new_rank small_config 0)\<lparr>refreshState := REF_RUN, pwrState := PWR_REF, refreshDueAt := 100\<rparr>"

theorem late_refresh_stops_witness:
  "\<exists>r' t u e. refresh_run small_config 0 7530100 late_rank = Inr r' \<and> refreshEvent r' = Some t \<and> powerEvent r' = Some u \<and>
     t < u \<and> fire_refresh small_config 0 1 False r' = Inl e"
proof -
  obtain r' where r': "refresh_run small_config 0 7530100 late_rank = Inr r'"
    by (simp add: refresh_run_def late_rank_def schedulePowerEvent_def schedule_event_def all_banks_def doCommand_def
        new_rank_def small_config_def demo_config_def Let_def)
  show ?thesis
    using late_refresh_stops [OF r', of 1 False] r' by (auto simp: late_rank_def small_config_def demo_config_def)
qed

end
