(* ===== verification/Dram_Sched.thy ===== *)
theory Dram_Sched
  imports Dram_Refresh "HOL-Library.Multiset"
begin

text \<open>
  The arbitration of the DRAM controller (\<^verbatim>\<open>chooseNext\<close>, \<^verbatim>\<open>reorderQueue\<close> and \<^verbatim>\<open>minBankPrep\<close> in
  \<^verbatim>\<open>gem5/src/mem/dram_ctrl.cc\<close>).  The loops are recursions over the lists they walk, with the local
  variables of the source as arguments; erasing an element and pushing it to the front is
  \<open>move_to_front\<close>.
\<close>

subsection \<open>Operations\<close>

definition bank_of :: "Rank list \<Rightarrow> DRAMPacket \<Rightarrow> Bank" where
  "bank_of rs p = banks (rs ! dp_rank p) ! dp_bank p"

definition bank_act_at :: "DRAMConfig \<Rightarrow> tick \<Rightarrow> Bank \<Rightarrow> tick" where
  "bank_act_at cfg now k =
     (if openRow k = NO_ROW then max (actAllowedAt k) now else max (preAllowedAt k) now + tRP cfg)"

definition got_waiting :: "DRAMConfig \<Rightarrow> Rank list \<Rightarrow> DRAMPacket list \<Rightarrow> bool list" where
  "got_waiting cfg rs queue =
     foldl (\<lambda>got p. if isAvailable (rs ! dp_rank p) then got[bankId p := True] else got)
       (replicate (ranksPerChannel cfg * banksPerRank cfg) False) queue"

text \<open>The two nested loops over ranks and banks walk the flat bank numbers in ascending order.\<close>

fun prep_loop ::
  "DRAMConfig \<Rightarrow> tick \<Rightarrow> Rank list \<Rightarrow> bool list \<Rightarrow> tick \<Rightarrow> tick \<Rightarrow> nat list \<Rightarrow>
   64 word \<Rightarrow> tick \<Rightarrow> bool \<Rightarrow> bool \<Rightarrow> (64 word \<times> bool) result" where
  "prep_loop cfg now rs got min_col_at hidden_act_max [] bank_mask min_act_at found_seamless hidden =
     Inr (bank_mask, hidden)"
| "prep_loop cfg now rs got min_col_at hidden_act_max (bank_id # ids) bank_mask min_act_at found_seamless hidden =
     (let i = bank_id div banksPerRank cfg; j = bank_id mod banksPerRank cfg in
      if got ! bank_id then
        rbind (assertr (isAvailable (rs ! i)) ''ranks[i]->isAvailable()'') (\<lambda>_.
        let k = banks (rs ! i) ! j;
            act_at = bank_act_at cfg now k;
            col_at = max (colAllowedAt k) (act_at + tRCD cfg);
            new_seamless = (col_at \<le> min_col_at) in
        if new_seamless \<or> (\<not> found_seamless \<and> act_at \<le> min_act_at) then
          let mask0 = (if \<not> found_seamless \<and> (new_seamless \<or> act_at < min_act_at) then 0 else bank_mask) in
          prep_loop cfg now rs got min_col_at hidden_act_max ids
            (replaceBits mask0 bank_id bank_id 1) act_at (found_seamless \<or> new_seamless) (act_at \<le> hidden_act_max)
        else prep_loop cfg now rs got min_col_at hidden_act_max ids bank_mask min_act_at found_seamless hidden)
      else prep_loop cfg now rs got min_col_at hidden_act_max ids bank_mask min_act_at found_seamless hidden)"

definition minBankPrep ::
  "DRAMConfig \<Rightarrow> tick \<Rightarrow> Rank list \<Rightarrow> DRAMPacket list \<Rightarrow> tick \<Rightarrow> (64 word \<times> bool) result" where
  "minBankPrep cfg now rs queue min_col_at =
     (let hidden_act_max = max (tick_sub min_col_at (tRCD cfg)) now in
      if list_ex (\<lambda>p. isAvailable (rs ! dp_rank p) \<and> bankId p \<ge> ranksPerChannel cfg * banksPerRank cfg) queue
      then Inl HostFault
      else prep_loop cfg now rs (got_waiting cfg rs queue) min_col_at hidden_act_max
             [0..<ranksPerChannel cfg * banksPerRank cfg] 0 MaxTick False False)"

fun reorder_scan ::
  "DRAMConfig \<Rightarrow> tick \<Rightarrow> Rank list \<Rightarrow> DRAMPacket list \<Rightarrow> tick \<Rightarrow> DRAMPacket list \<Rightarrow> nat \<Rightarrow>
   64 word \<Rightarrow> bool \<Rightarrow> bool \<Rightarrow> bool \<Rightarrow> bool \<Rightarrow> nat option \<Rightarrow> nat option result" where
  "reorder_scan cfg now rs queue min_col_at [] i earliest hidden found_hidden found_prepped found_earliest selected =
     Inr selected"
| "reorder_scan cfg now rs queue min_col_at (p # ps) i earliest hidden found_hidden found_prepped found_earliest selected =
     (if isAvailable (rs ! dp_rank p) then
        if openRow (bank_of rs p) = dp_row p then
          if colAllowedAt (bank_of rs p) \<le> min_col_at then Inr (Some i)
          else if \<not> found_hidden \<and> \<not> found_prepped then
            reorder_scan cfg now rs queue min_col_at ps (i + 1) earliest hidden found_hidden True found_earliest (Some i)
          else reorder_scan cfg now rs queue min_col_at ps (i + 1) earliest hidden found_hidden found_prepped found_earliest selected
        else if \<not> found_earliest then
          rbind (if earliest = 0 then minBankPrep cfg now rs queue min_col_at else Inr (earliest, hidden)) (\<lambda>(earliest', hidden').
          if bits earliest' (bankId p) (bankId p) \<noteq> 0 then
            reorder_scan cfg now rs queue min_col_at ps (i + 1) earliest' hidden' hidden' found_prepped True
              (if hidden' \<or> \<not> found_prepped then Some i else selected)
          else reorder_scan cfg now rs queue min_col_at ps (i + 1) earliest' hidden' found_hidden found_prepped found_earliest selected)
        else reorder_scan cfg now rs queue min_col_at ps (i + 1) earliest hidden found_hidden found_prepped found_earliest selected
      else reorder_scan cfg now rs queue min_col_at ps (i + 1) earliest hidden found_hidden found_prepped found_earliest selected)"

definition move_to_front :: "nat \<Rightarrow> 'a list \<Rightarrow> 'a list" where
  "move_to_front i q = q ! i # take i q @ drop (i + 1) q"

text \<open>The tick arithmetic of the source is modulo the word size: early in a run \<open>busBusyUntil\<close> is
  smaller than \<open>tCL\<close>.\<close>

definition min_col :: "DRAMConfig \<Rightarrow> tick \<Rightarrow> tick \<Rightarrow> tick \<Rightarrow> tick" where
  "min_col cfg now busBusyUntil extra_col_delay =
     max ((tick_sub busBusyUntil (tCL cfg) + extra_col_delay) mod 2 ^ 64) now"

definition reorderQueue ::
  "DRAMConfig \<Rightarrow> tick \<Rightarrow> tick \<Rightarrow> Rank list \<Rightarrow> DRAMPacket list \<Rightarrow> tick \<Rightarrow> (bool \<times> DRAMPacket list) result" where
  "reorderQueue cfg now busBusyUntil rs queue extra_col_delay =
     rbind (reorder_scan cfg now rs queue (min_col cfg now busBusyUntil extra_col_delay) queue 0 0 False False False False None) (\<lambda>sel.
     case sel of Some i \<Rightarrow> Inr (True, move_to_front i queue) | None \<Rightarrow> Inr (False, queue))"

fun first_available :: "Rank list \<Rightarrow> DRAMPacket list \<Rightarrow> nat \<Rightarrow> nat option" where
  "first_available rs [] i = None"
| "first_available rs (p # ps) i =
     (if isAvailable (rs ! dp_rank p) then Some i else first_available rs ps (i + 1))"

definition chooseNext ::
  "DRAMConfig \<Rightarrow> tick \<Rightarrow> tick \<Rightarrow> Rank list \<Rightarrow> DRAMPacket list \<Rightarrow> tick \<Rightarrow> (bool \<times> DRAMPacket list) result" where
  "chooseNext cfg now busBusyUntil rs queue extra_col_delay =
     rbind (assertr (queue \<noteq> []) ''!queue.empty()'') (\<lambda>_.
     if length queue = 1 then Inr (isAvailable (rs ! dp_rank (hd queue)), queue)
     else case memSchedPolicy cfg of
       fcfs \<Rightarrow>
         (case first_available rs queue 0 of
            Some i \<Rightarrow> Inr (True, move_to_front i queue) | None \<Rightarrow> Inr (False, queue))
     | frfcfs \<Rightarrow> reorderQueue cfg now busBusyUntil rs queue extra_col_delay)"

subsection \<open>The earliest banks\<close>

definition dp_ok :: "DRAMConfig \<Rightarrow> DRAMPacket \<Rightarrow> bool" where
  "dp_ok cfg p \<longleftrightarrow> dp_rank p < ranksPerChannel cfg \<and> dp_bank p < banksPerRank cfg \<and>
     bankId p = banksPerRank cfg * dp_rank p + dp_bank p"

lemma dp_ok_id:
  assumes "dp_ok cfg p"
  shows "bankId p < ranksPerChannel cfg * banksPerRank cfg" "bankId p div banksPerRank cfg = dp_rank p"
    "bankId p mod banksPerRank cfg = dp_bank p"
proof -
  have "banksPerRank cfg * dp_rank p + dp_bank p < banksPerRank cfg * Suc (dp_rank p)"
    using assms by (simp add: dp_ok_def)
  also have "\<dots> \<le> banksPerRank cfg * ranksPerChannel cfg"
    using assms unfolding dp_ok_def by (intro mult_le_mono2) simp
  finally show "bankId p < ranksPerChannel cfg * banksPerRank cfg"
    using assms by (simp add: dp_ok_def mult.commute)
qed (use assms in \<open>auto simp: dp_ok_def\<close>)

definition bank_at :: "DRAMConfig \<Rightarrow> Rank list \<Rightarrow> nat \<Rightarrow> Bank" where
  "bank_at cfg rs n = banks (rs ! (n div banksPerRank cfg)) ! (n mod banksPerRank cfg)"

lemma bank_at_of: "dp_ok cfg p \<Longrightarrow> bank_at cfg rs (bankId p) = bank_of rs p"
  by (simp add: bank_at_def bank_of_def dp_ok_id)

definition seamless :: "DRAMConfig \<Rightarrow> tick \<Rightarrow> tick \<Rightarrow> Bank \<Rightarrow> bool" where
  "seamless cfg now min_col_at k \<longleftrightarrow> max (colAllowedAt k) (bank_act_at cfg now k + tRCD cfg) \<le> min_col_at"

text \<open>The banks an available request waits for, and the reference definition of the ones to prefer:
  the banks that can be prepared without delaying the bus if there are any, else the banks that can
  be activated first.\<close>

definition waiting :: "Rank list \<Rightarrow> DRAMPacket list \<Rightarrow> nat set" where
  "waiting rs queue = bankId ` {p \<in> set queue. isAvailable (rs ! dp_rank p)}"

definition preferred :: "DRAMConfig \<Rightarrow> tick \<Rightarrow> Rank list \<Rightarrow> tick \<Rightarrow> nat set \<Rightarrow> nat set" where
  "preferred cfg now rs min_col_at S =
     (let sl = {n \<in> S. seamless cfg now min_col_at (bank_at cfg rs n)} in
      if sl \<noteq> {} then sl
      else {n \<in> S. \<forall>w \<in> S. bank_act_at cfg now (bank_at cfg rs n) \<le> bank_act_at cfg now (bank_at cfg rs w)})"

lemma got_waiting_foldl:
  "length (foldl (\<lambda>got p. if isAvailable (rs ! dp_rank p) then got[bankId p := True] else got) got queue) = length got \<and>
   (n < length got \<longrightarrow>
     foldl (\<lambda>got p. if isAvailable (rs ! dp_rank p) then got[bankId p := True] else got) got queue ! n =
       (got ! n \<or> n \<in> waiting rs queue))"
proof (induction queue arbitrary: got)
  case (Cons p queue)
  have u: "n < length got \<Longrightarrow> got[b := True] ! n = (n = b \<or> got ! n)" for b
    by (cases "b < length got") (auto simp: nth_list_update)
  show ?case
    using Cons.IH [of "if isAvailable (rs ! dp_rank p) then got[bankId p := True] else got"]
    by (auto simp: waiting_def u)
qed (simp add: waiting_def)

lemma got_waiting_nth:
  "n < ranksPerChannel cfg * banksPerRank cfg \<Longrightarrow> got_waiting cfg rs queue ! n \<longleftrightarrow> n \<in> waiting rs queue"
  using got_waiting_foldl [where got = "replicate (ranksPerChannel cfg * banksPerRank cfg) False" and n = n and rs = rs and queue = queue]
  by (auto simp: got_waiting_def)

lemma waiting_rank:
  assumes "n \<in> waiting rs queue" "\<forall>p \<in> set queue. dp_ok cfg p"
  shows "isAvailable (rs ! (n div banksPerRank cfg))" "n < ranksPerChannel cfg * banksPerRank cfg"
  using assms by (auto simp: waiting_def dp_ok_id)

lemma bit_replaceBits_1: "i < 64 \<Longrightarrow> bit (replaceBits m i i 1) n \<longleftrightarrow> n = i \<or> bit m n"
  by (cases "n = i") (auto simp: replaceBits_def bit_insertBits_iff bit_1_iff dest: bit_imp_le_length)

text \<open>The loop invariant: \<open>S\<close> are the banks waited for that the loop has passed.\<close>

definition prep_inv ::
  "(nat \<Rightarrow> tick) \<Rightarrow> (nat \<Rightarrow> bool) \<Rightarrow> tick \<Rightarrow> nat set \<Rightarrow> 64 word \<Rightarrow> tick \<Rightarrow> bool \<Rightarrow> bool \<Rightarrow> bool" where
  "prep_inv act sl hmax S bm min_act seam hidden \<longleftrightarrow>
      seam = (\<exists>n \<in> S. sl n) \<and>
      (\<forall>n. bit bm n \<longleftrightarrow> n \<in> S \<and> (if seam then sl n else act n = min_act)) \<and>
      (\<not> seam \<longrightarrow> (\<forall>n \<in> S. min_act \<le> act n) \<and> (S = {} \<longrightarrow> min_act = MaxTick) \<and> (S \<noteq> {} \<longrightarrow> (\<exists>n \<in> S. act n = min_act))) \<and>
      (S \<noteq> {} \<longrightarrow> hidden = (seam \<or> min_act \<le> hmax))"

lemma prep_inv_skip:
  assumes "prep_inv act sl hmax S bm min_act seam hidden" "\<not> sl i" "seam \<or> min_act < act i" "act i \<le> MaxTick"
  shows "prep_inv act sl hmax (insert i S) bm min_act seam hidden"
proof (cases seam)
  case True
  then show ?thesis using assms by (auto simp: prep_inv_def)
next
  case False
  then have "S \<noteq> {}" "min_act < act i" using assms by (auto simp: prep_inv_def)
  then show ?thesis using False assms(1,2) unfolding prep_inv_def by auto
qed

lemma prep_inv_take:
  assumes inv: "prep_inv act sl hmax S bm min_act seam hidden" and i: "i < 64" "i \<notin> S"
    and "sl i \<or> \<not> seam \<and> act i \<le> min_act" and hmax: "sl i \<Longrightarrow> act i \<le> hmax"
  shows "prep_inv act sl hmax (insert i S)
     (replaceBits (if \<not> seam \<and> (sl i \<or> act i < min_act) then 0 else bm) i i 1) (act i) (seam \<or> sl i) (act i \<le> hmax)"
proof -
  let ?m = "replaceBits (if \<not> seam \<and> (sl i \<or> act i < min_act) then 0 else bm) i i 1"
  have bm: "bit bm n \<longleftrightarrow> n \<in> S \<and> (if seam then sl n else act n = min_act)" for n
    using inv by (simp add: prep_inv_def)
  have s: "seam = (\<exists>n \<in> S. sl n)" using inv by (simp add: prep_inv_def)
  have m: "\<not> seam \<Longrightarrow> n \<in> S \<Longrightarrow> min_act \<le> act n" for n using inv by (simp add: prep_inv_def)
  have "bit ?m n \<longleftrightarrow> n \<in> insert i S \<and> (if seam \<or> sl i then sl n else act n = act i)" for n
    using assms(4) s m [of n] i(2) by (cases "n = i") (auto simp: bit_replaceBits_1 i(1) bm)
  moreover have "\<forall>n \<in> insert i S. act i \<le> act n" if "\<not> (seam \<or> sl i)" using that assms(4) m by force
  ultimately show ?thesis
    using s hmax assms(4) unfolding prep_inv_def by (auto 0 3)
qed

lemma prep_loop_spec:
  assumes "prep_inv (\<lambda>n. bank_act_at cfg now (bank_at cfg rs n)) (\<lambda>n. seamless cfg now mc (bank_at cfg rs n)) hmax S bm min_act seam hidden" "distinct ids" "set ids \<inter> S = {}"
    and "\<forall>n \<in> set ids. n < 64 \<and> (got ! n \<longrightarrow> isAvailable (rs ! (n div banksPerRank cfg)) \<and>
           bank_act_at cfg now (bank_at cfg rs n) \<le> MaxTick)"
    and hmax: "hmax = max (tick_sub mc (tRCD cfg)) now"
  shows "\<exists>bm' hidden' min_act' seam'. prep_loop cfg now rs got mc hmax ids bm min_act seam hidden = Inr (bm', hidden') \<and>
    prep_inv (\<lambda>n. bank_act_at cfg now (bank_at cfg rs n)) (\<lambda>n. seamless cfg now mc (bank_at cfg rs n)) hmax (S \<union> {n \<in> set ids. got ! n}) bm' min_act' seam' hidden'"
  using assms(1-4)
proof (induction ids arbitrary: S bm min_act seam hidden)
  case (Cons i ids)
  let ?k = "bank_at cfg rs i"
  let ?a = "bank_act_at cfg now ?k"
  have h: "seamless cfg now mc ?k \<Longrightarrow> ?a \<le> hmax"
  proof -
    assume "seamless cfg now mc ?k"
    then have "?a + tRCD cfg \<le> mc" by (simp add: seamless_def)
    then have "?a \<le> tick_sub mc (tRCD cfg)" using tick_sub_le [of "tRCD cfg" mc] by linarith
    then show ?thesis by (simp add: hmax le_max_iff_disj)
  qed
  show ?case
  proof (cases "got ! i")
    case False
    then have "S \<union> {n \<in> set (i # ids). got ! n} = S \<union> {n \<in> set ids. got ! n}" by auto
    then show ?thesis using Cons.IH [OF Cons.prems(1)] Cons.prems(2-4) False by simp
  next
    case True
    have e: "S \<union> {n \<in> set (i # ids). got ! n} = insert i S \<union> {n \<in> set ids. got ! n}" using True by auto
    have k: "banks (rs ! (i div banksPerRank cfg)) ! (i mod banksPerRank cfg) = ?k" by (simp add: bank_at_def)
    have av: "isAvailable (rs ! (i div banksPerRank cfg))" "?a \<le> MaxTick" "i < 64" "i \<notin> S" "set ids \<inter> insert i S = {}"
      using Cons.prems(2-4) True by auto
    show ?thesis
    proof (cases "seamless cfg now mc ?k \<or> \<not> seam \<and> ?a \<le> min_act")
      case take: True
      note inv = prep_inv_take [OF Cons.prems(1) av(3,4) take h]
      have "prep_loop cfg now rs got mc hmax (i # ids) bm min_act seam hidden =
          prep_loop cfg now rs got mc hmax ids
            (replaceBits (if \<not> seam \<and> (seamless cfg now mc ?k \<or> ?a < min_act) then 0 else bm) i i 1)
            ?a (seam \<or> seamless cfg now mc ?k) (?a \<le> hmax)"
        using take True av(1) by (simp only: prep_loop.simps k Let_def seamless_def if_True assertr_True rbind_simps)
      then show ?thesis using Cons.IH [OF inv] Cons.prems(2,4) av(5) unfolding e by simp
    next
      case skip: False
      then have "prep_inv (\<lambda>n. bank_act_at cfg now (bank_at cfg rs n)) (\<lambda>n. seamless cfg now mc (bank_at cfg rs n)) hmax (insert i S) bm min_act seam hidden"
        using Cons.prems(1) av(2) by (intro prep_inv_skip) auto
      note inv = this
      have "prep_loop cfg now rs got mc hmax (i # ids) bm min_act seam hidden =
          prep_loop cfg now rs got mc hmax ids bm min_act seam hidden"
        using skip True av(1) by (simp only: prep_loop.simps k Let_def seamless_def if_True if_False assertr_True rbind_simps)
      then show ?thesis using Cons.IH [OF inv] Cons.prems(2,4) av(5) unfolding e by simp
    qed
  qed
qed auto

lemma prep_inv_preferred:
  assumes "prep_inv (\<lambda>n. bank_act_at cfg now (bank_at cfg rs n)) (\<lambda>n. seamless cfg now mc (bank_at cfg rs n)) hmax S bm min_act seam hidden"
  shows "bit bm n \<longleftrightarrow> n \<in> preferred cfg now rs mc S"
proof -
  let ?act = "\<lambda>n. bank_act_at cfg now (bank_at cfg rs n)" and ?sl = "\<lambda>n. seamless cfg now mc (bank_at cfg rs n)"
  have b: "bit bm n \<longleftrightarrow> n \<in> S \<and> (if seam then ?sl n else ?act n = min_act)" for n
    using assms by (simp add: prep_inv_def Let_def)
  have p: "preferred cfg now rs mc S = {n \<in> S. if seam then ?sl n else ?act n = min_act}"
  proof (cases seam)
    case True
    then show ?thesis using assms by (auto simp: preferred_def prep_inv_def Let_def)
  next
    case False
    then have "\<forall>n \<in> S. \<not> ?sl n" "\<forall>n \<in> S. min_act \<le> ?act n" "S \<noteq> {} \<Longrightarrow> \<exists>n \<in> S. ?act n = min_act"
      using assms by (auto simp: prep_inv_def Let_def split: if_splits)
    then show ?thesis using False by (fastforce simp: preferred_def Let_def)
  qed
  then show "bit bm n \<longleftrightarrow> n \<in> preferred cfg now rs mc S" using b by simp
qed


definition sched_ok :: "DRAMConfig \<Rightarrow> tick \<Rightarrow> Rank list \<Rightarrow> DRAMPacket list \<Rightarrow> bool" where
  "sched_ok cfg now rs queue \<longleftrightarrow> ranksPerChannel cfg * banksPerRank cfg \<le> 64 \<and> (\<forall>p \<in> set queue. dp_ok cfg p) \<and>
     (\<forall>n < ranksPerChannel cfg * banksPerRank cfg. bank_act_at cfg now (bank_at cfg rs n) \<le> MaxTick)"

lemma minBankPrep_ok:
  assumes "sched_ok cfg now rs queue"
  shows "\<exists>m h. minBankPrep cfg now rs queue mc = Inr (m, h) \<and>
    (\<forall>n. bit m n \<longleftrightarrow> n \<in> preferred cfg now rs mc (waiting rs queue))"
proof -
  let ?N = "ranksPerChannel cfg * banksPerRank cfg" and ?got = "got_waiting cfg rs queue"
    and ?hmax = "max (tick_sub mc (tRCD cfg)) now"
  have ok: "?N \<le> 64" "\<forall>p \<in> set queue. dp_ok cfg p" "\<forall>n < ?N. bank_act_at cfg now (bank_at cfg rs n) \<le> MaxTick"
    using assms by (simp_all add: sched_ok_def)
  have "\<not> list_ex (\<lambda>p. isAvailable (rs ! dp_rank p) \<and> ?N \<le> bankId p) queue"
    using ok(2) dp_ok_id(1) by (fastforce simp: list_ex_iff)
  then have e: "minBankPrep cfg now rs queue mc = prep_loop cfg now rs ?got mc ?hmax [0..<?N] 0 MaxTick False False"
    by (simp add: minBankPrep_def Let_def)
  have S: "{n \<in> set [0..<?N]. ?got ! n} = waiting rs queue"
    using waiting_rank(2) [OF _ ok(2)] by (auto simp: got_waiting_nth)
  have "\<forall>n \<in> set [0..<?N]. n < 64 \<and> (?got ! n \<longrightarrow> isAvailable (rs ! (n div banksPerRank cfg)) \<and>
           bank_act_at cfg now (bank_at cfg rs n) \<le> MaxTick)"
    using ok waiting_rank(1) [OF _ ok(2)] by (auto simp: got_waiting_nth)
  note bounds = this
  let ?inv = "prep_inv (\<lambda>n. bank_act_at cfg now (bank_at cfg rs n)) (\<lambda>n. seamless cfg now mc (bank_at cfg rs n)) ?hmax"
  have "?inv {} 0 MaxTick False False" by (simp add: prep_inv_def)
  from prep_loop_spec [OF this _ _ bounds refl, unfolded S]
  obtain m h a b where "prep_loop cfg now rs ?got mc ?hmax [0..<?N] 0 MaxTick False False = Inr (m, h)"
      "?inv (waiting rs queue) m a b h"
    by auto
  then show ?thesis using e prep_inv_preferred by auto
qed

lemma preferred_nonempty:
  assumes "finite S" "S \<noteq> {}"
  shows "preferred cfg now rs mc S \<noteq> {}"
proof -
  obtain n where "n \<in> S" "\<forall>w \<in> S. bank_act_at cfg now (bank_at cfg rs n) \<le> bank_act_at cfg now (bank_at cfg rs w)"
    using ex_min_if_finite [of "(\<lambda>n. bank_act_at cfg now (bank_at cfg rs n)) ` S"] assms by force
  then show ?thesis by (auto simp: preferred_def Let_def)
qed

subsection \<open>The scan of the queue\<close>

definition row_hit :: "Rank list \<Rightarrow> DRAMPacket \<Rightarrow> bool" where
  "row_hit rs p \<longleftrightarrow> isAvailable (rs ! dp_rank p) \<and> openRow (bank_of rs p) = dp_row p"

definition seamless_hit :: "Rank list \<Rightarrow> tick \<Rightarrow> DRAMPacket \<Rightarrow> bool" where
  "seamless_hit rs mc p \<longleftrightarrow> row_hit rs p \<and> colAllowedAt (bank_of rs p) \<le> mc"

fun first_index :: "('a \<Rightarrow> bool) \<Rightarrow> 'a list \<Rightarrow> nat option" where
  "first_index P [] = None"
| "first_index P (x # xs) = (if P x then Some 0 else map_option Suc (first_index P xs))"

lemma first_index_None: "first_index P xs = None \<longleftrightarrow> (\<forall>x \<in> set xs. \<not> P x)"
  by (induction xs) auto

lemma first_index_Some:
  "first_index P xs = Some i \<longleftrightarrow> i < length xs \<and> P (xs ! i) \<and> (\<forall>j < i. \<not> P (xs ! j))"
proof (induction xs arbitrary: i)
  case (Cons x xs)
  then show ?case by (cases i) (auto simp: less_Suc_eq_0_disj)
qed simp

lemma first_available_eq: "first_available rs q i = map_option (\<lambda>j. i + j) (first_index (\<lambda>p. isAvailable (rs ! dp_rank p)) q)"
  by (induction q arbitrary: i) (auto simp: option.map_comp comp_def intro!: option.map_cong)

text \<open>What the scan returns, with \<open>m\<close> the mask of the preferred banks: the first seamless row hit if
  there is one, else an available packet, and nothing only if no available packet is a row hit or
  goes to a preferred bank.\<close>

definition scan_result ::
  "Rank list \<Rightarrow> 64 word \<Rightarrow> tick \<Rightarrow> DRAMPacket list \<Rightarrow> nat \<Rightarrow> nat option \<Rightarrow> nat option \<Rightarrow> bool" where
  "scan_result rs m mc ps i selected sel \<longleftrightarrow>
     (case first_index (seamless_hit rs mc) ps of
        Some j \<Rightarrow> sel = Some (i + j)
      | None \<Rightarrow>
          (case sel of
             Some j \<Rightarrow> selected = Some j \<or> (i \<le> j \<and> j < i + length ps \<and> isAvailable (rs ! dp_rank (ps ! (j - i))))
           | None \<Rightarrow> selected = None \<and>
               (\<forall>p \<in> set ps. isAvailable (rs ! dp_rank p) \<longrightarrow> \<not> row_hit rs p \<and> bits m (bankId p) (bankId p) = 0)))"

lemma scan_result_step:
  assumes "scan_result rs m mc ps (i + 1) selected' sel" "\<not> seamless_hit rs mc p"
    and "selected' = selected \<or> selected' = Some i \<and> isAvailable (rs ! dp_rank p)"
    and "isAvailable (rs ! dp_rank p) \<Longrightarrow> selected' = None \<Longrightarrow> \<not> row_hit rs p \<and> bits m (bankId p) (bankId p) = 0"
  shows "scan_result rs m mc (p # ps) i selected sel"
proof (cases "first_index (seamless_hit rs mc) ps")
  case None
  then show ?thesis
    using assms by (cases sel) (auto simp: scan_result_def nth_Cons' Suc_diff_le)
next
  case (Some j)
  then show ?thesis using assms(1,2) by (simp add: scan_result_def)
qed

lemma reorder_scan_ok:
  assumes prep: "minBankPrep cfg now rs queue mc = Inr (m, h)"
    and "earliest = 0 \<or> earliest = m \<and> hidden = h"
    and "found_hidden \<or> found_prepped \<or> found_earliest \<longrightarrow> selected \<noteq> None"
  shows "\<exists>sel. reorder_scan cfg now rs queue mc ps i earliest hidden found_hidden found_prepped found_earliest selected = Inr sel \<and>
    scan_result rs m mc ps i selected sel"
  using assms(2,3)
proof (induction ps arbitrary: i earliest hidden found_hidden found_prepped found_earliest selected)
  case Nil
  then show ?case by (simp add: scan_result_def split: option.split)
next
  case (Cons p ps)
  let ?scan = "\<lambda>ps. reorder_scan cfg now rs queue mc ps"
  have next_step: "\<exists>sel. ?scan ps (i + 1) e hd fh fp fe s = Inr sel \<and> scan_result rs m mc (p # ps) i selected sel"
    if "e = 0 \<or> e = m \<and> hd = h" "fh \<or> fp \<or> fe \<longrightarrow> s \<noteq> None" "\<not> seamless_hit rs mc p"
      "s = selected \<or> s = Some i \<and> isAvailable (rs ! dp_rank p)"
      "isAvailable (rs ! dp_rank p) \<Longrightarrow> s = None \<Longrightarrow> \<not> row_hit rs p \<and> bits m (bankId p) (bankId p) = 0"
    for e hd fh fp fe s
    using Cons.IH [OF that(1,2), of "i + 1"] scan_result_step [OF _ that(3-5)] by blast
  consider "\<not> isAvailable (rs ! dp_rank p)" | "seamless_hit rs mc p"
    | "isAvailable (rs ! dp_rank p)" "openRow (bank_of rs p) = dp_row p" "\<not> seamless_hit rs mc p"
    | "isAvailable (rs ! dp_rank p)" "openRow (bank_of rs p) \<noteq> dp_row p" "\<not> seamless_hit rs mc p"
    by (auto simp: seamless_hit_def row_hit_def)
  then show ?case
  proof cases
    case 1
    then show ?thesis
      using next_step [of earliest hidden found_hidden found_prepped found_earliest selected] Cons.prems
      by (simp add: seamless_hit_def row_hit_def)
  next
    case 2
    then show ?thesis by (simp add: scan_result_def) (simp add: seamless_hit_def row_hit_def)
  next
    case 3
    then show ?thesis
      using next_step [of earliest hidden found_hidden True found_earliest "Some i"]
        next_step [of earliest hidden found_hidden found_prepped found_earliest selected] Cons.prems
      by (auto simp: seamless_hit_def row_hit_def)
  next
    case 4
    have hit: "\<not> row_hit rs p" using 4 by (simp add: row_hit_def)
    have e: "(if earliest = 0 then minBankPrep cfg now rs queue mc else Inr (earliest, hidden)) = Inr (m, h)"
      using prep Cons.prems(1) by auto
    show ?thesis
    proof (cases "found_earliest \<or> bits m (bankId p) (bankId p) = 0")
      case True
      then show ?thesis
        using 4 hit e next_step [of earliest hidden found_hidden found_prepped found_earliest selected]
          next_step [of m h found_hidden found_prepped found_earliest selected] Cons.prems
        by (cases found_earliest) auto
    next
      case False
      then show ?thesis
        using 4 hit e next_step [of m h h found_prepped True "if h \<or> \<not> found_prepped then Some i else selected"] Cons.prems
        by (auto split: if_splits)
    qed
  qed
qed

subsection \<open>The contract of the arbiter\<close>

lemma mset_move_to_front: "i < length q \<Longrightarrow> mset (move_to_front i q) = mset q"
proof -
  assume "i < length q"
  then have "mset q = mset (take i q @ q ! i # drop (Suc i) q)" by (simp add: id_take_nth_drop [symmetric])
  then show ?thesis by (simp add: move_to_front_def)
qed

lemma reorderQueue_ok:
  assumes "sched_ok cfg now rs queue"
  shows "\<exists>sel. reorderQueue cfg now bus rs queue extra =
      (case sel of Some i \<Rightarrow> Inr (True, move_to_front i queue) | None \<Rightarrow> Inr (False, queue)) \<and>
    (case sel of Some i \<Rightarrow> i < length queue \<and> isAvailable (rs ! dp_rank (queue ! i))
     | None \<Rightarrow> \<forall>p \<in> set queue. \<not> isAvailable (rs ! dp_rank p)) \<and>
    (\<forall>j. first_index (seamless_hit rs (min_col cfg now bus extra)) queue = Some j \<longrightarrow> sel = Some j)"
proof -
  let ?mc = "min_col cfg now bus extra"
  obtain m h where m: "minBankPrep cfg now rs queue ?mc = Inr (m, h)"
      "\<And>n. bit m n \<longleftrightarrow> n \<in> preferred cfg now rs ?mc (waiting rs queue)"
    using minBankPrep_ok [OF assms] by blast
  obtain sel where sel: "reorder_scan cfg now rs queue ?mc queue 0 0 False False False False None = Inr sel"
      "scan_result rs m ?mc queue 0 None sel"
    using reorder_scan_ok [OF m(1), of 0 False False False False None queue 0] by auto
  have hit: "sel = Some j" if "first_index (seamless_hit rs ?mc) queue = Some j" for j
    using that sel(2) by (simp add: scan_result_def)
  have "i < length queue \<and> isAvailable (rs ! dp_rank (queue ! i))" if "sel = Some i" for i
    using that sel(2) by (auto simp: scan_result_def first_index_Some seamless_hit_def row_hit_def split: option.splits)
  moreover have "\<not> isAvailable (rs ! dp_rank p)" if "sel = None" "p \<in> set queue" for p
  proof
    assume "isAvailable (rs ! dp_rank p)"
    then have "waiting rs queue \<noteq> {}" "finite (waiting rs queue)" using that by (auto simp: waiting_def)
    then obtain n where n: "n \<in> preferred cfg now rs ?mc (waiting rs queue)" using preferred_nonempty by blast
    then obtain p' where p': "p' \<in> set queue" "isAvailable (rs ! dp_rank p')" "bankId p' = n"
      by (auto simp: preferred_def waiting_def Let_def split: if_splits)
    then have "n < 64" using assms dp_ok_id(1) [of cfg p'] by (auto simp: sched_ok_def)
    then have "bits m (bankId p') (bankId p') \<noteq> 0" using n m(2) p'(3) by simp
    moreover have "bits m (bankId p') (bankId p') = 0"
      using sel(2) that(1) p'(1,2) by (auto simp: scan_result_def split: option.splits)
    ultimately show False by blast
  qed
  ultimately show ?thesis
    using hit sel(1) by (intro exI [of _ sel]) (auto simp: reorderQueue_def split: option.split)
qed

lemma chooseNext_ok:
  assumes "sched_ok cfg now rs queue" "queue \<noteq> []"
  shows "\<exists>found q. chooseNext cfg now bus rs queue extra = Inr (found, q) \<and> mset q = mset queue \<and>
    found = (\<exists>p \<in> set queue. isAvailable (rs ! dp_rank p)) \<and> (found \<longrightarrow> isAvailable (rs ! dp_rank (hd q))) \<and>
    (\<not> found \<longrightarrow> q = queue)"
proof (cases "length queue = 1")
  case True
  then obtain p where "queue = [p]" by (auto simp: length_Suc_conv)
  then show ?thesis by (simp add: chooseNext_def)
next
  case False
  have sel: ?thesis if "chooseNext cfg now bus rs queue extra =
      (case sel of Some i \<Rightarrow> Inr (True, move_to_front i queue) | None \<Rightarrow> Inr (False, queue))"
    "case sel of Some i \<Rightarrow> i < length queue \<and> isAvailable (rs ! dp_rank (queue ! i))
     | None \<Rightarrow> \<forall>p \<in> set queue. \<not> isAvailable (rs ! dp_rank p)" for sel
    using that nth_mem mset_move_to_front by (cases sel) (fastforce simp: move_to_front_def)+
  show ?thesis
  proof (cases "memSchedPolicy cfg")
    case fcfs
    show ?thesis
      using False assms(2) fcfs
      by (intro sel [of "first_available rs queue 0"])
         (auto simp: chooseNext_def first_available_eq first_index_None first_index_Some split: option.split)
  next
    case frfcfs
    then show ?thesis
      using reorderQueue_ok [OF assms(1), of bus extra] False assms(2) sel by (auto simp: chooseNext_def)
  qed
qed

text \<open>What the request loop relies on: a choice that never fails, loses or repeats a packet, and what it gives
  the loop that takes the chosen packet off the queue.\<close>

locale arbiter =
  fixes pick :: "'p list \<Rightarrow> (bool \<times> 'p list) result" and avail :: "'p \<Rightarrow> bool" and ok :: "'p \<Rightarrow> bool"
  assumes choose_total: "\<forall>p \<in> set q. ok p \<Longrightarrow> q \<noteq> [] \<Longrightarrow> \<exists>found q'. pick q = Inr (found, q')"
    and choose_mset: "\<forall>p \<in> set q. ok p \<Longrightarrow> pick q = Inr (found, q') \<Longrightarrow> mset q' = mset q"
    and choose_found: "\<forall>p \<in> set q. ok p \<Longrightarrow> pick q = Inr (found, q') \<Longrightarrow> found = (\<exists>p \<in> set q. avail p)"
    and choose_head: "\<forall>p \<in> set q. ok p \<Longrightarrow> pick q = Inr (True, q') \<Longrightarrow> avail (hd q')"
begin

lemma pick_takes:
  assumes "\<forall>p \<in> set q. ok p" "q \<noteq> []"
  shows "\<exists>found q'. pick q = Inr (found, q') \<and> mset q' = mset q \<and> found = (\<exists>p \<in> set q. avail p) \<and>
    (found \<longrightarrow> avail (hd q') \<and> hd q' \<in> set q \<and> add_mset (hd q') (mset (tl q')) = mset q)"
proof -
  obtain found q' where c: "pick q = Inr (found, q')" using choose_total [OF assms] by blast
  have m: "mset q' = mset q" using choose_mset [OF assms(1) c] .
  then have "q' \<noteq> []" using assms(2) by auto
  then have "add_mset (hd q') (mset (tl q')) = mset q" using m by (cases q') auto
  moreover from this have "hd q' \<in> set q" by (metis set_mset_mset union_single_eq_member)
  ultimately show ?thesis using c m choose_found [OF assms(1) c] choose_head [OF assms(1)] by auto
qed

end


definition schedulable :: "DRAMConfig \<Rightarrow> tick \<Rightarrow> Rank list \<Rightarrow> DRAMPacket \<Rightarrow> bool" where
  "schedulable cfg now rs p \<longleftrightarrow> dp_ok cfg p \<and> sched_ok cfg now rs []"

lemma schedulable_queue: "q \<noteq> [] \<Longrightarrow> \<forall>p \<in> set q. schedulable cfg now rs p \<Longrightarrow> sched_ok cfg now rs q"
  by (cases q) (auto simp: schedulable_def sched_ok_def)

interpretation arb: arbiter "\<lambda>q. chooseNext cfg now bus rs q extra" "\<lambda>p. isAvailable (rs ! dp_rank p)" "schedulable cfg now rs"
  for cfg now bus rs extra
proof unfold_locales
  fix q :: "DRAMPacket list" assume ok: "\<forall>p \<in> set q. schedulable cfg now rs p"
  show "\<exists>found q'. chooseNext cfg now bus rs q extra = Inr (found, q')" if "q \<noteq> []"
    using chooseNext_ok [OF schedulable_queue [OF that ok] that] by blast
  fix found q' assume c: "chooseNext cfg now bus rs q extra = Inr (found, q')"
  then have "q \<noteq> []" by (auto simp: chooseNext_def)
  from chooseNext_ok [OF schedulable_queue [OF this ok] this, of bus extra] c
  show "mset q' = mset q" "found = (\<exists>p \<in> set q. isAvailable (rs ! dp_rank p))" by auto
next
  fix q q' :: "DRAMPacket list" assume ok: "\<forall>p \<in> set q. schedulable cfg now rs p"
    and c: "chooseNext cfg now bus rs q extra = Inr (True, q')"
  then have "q \<noteq> []" by (auto simp: chooseNext_def)
  from chooseNext_ok [OF schedulable_queue [OF this ok] this, of bus extra] c
  show "isAvailable (rs ! dp_rank (hd q'))" by auto
qed

subsection \<open>Properties\<close>

text \<open>C29: the scheduling decision never fails: it finds a packet exactly when some queued packet goes
  to an available rank, puts such a packet at the head, and otherwise only permutes the queue.\<close>

theorem chooseNext_correct:
  assumes "sched_ok cfg now rs queue" "queue \<noteq> []"
  shows "\<exists>found q. chooseNext cfg now bus rs queue extra = Inr (found, q) \<and> mset q = mset queue \<and>
    (found \<longleftrightarrow> (\<exists>p \<in> set queue. isAvailable (rs ! dp_rank p))) \<and> (found \<longrightarrow> isAvailable (rs ! dp_rank (hd q)))"
  using chooseNext_ok [OF assms] by blast

definition demo_dp :: "nat \<Rightarrow> nat \<Rightarrow> 32 word \<Rightarrow> DRAMPacket" where
  "demo_dp r b row = \<lparr>entryTime = 0, readyTime = 0, dp_pkt = demo_read, dp_isRead = True, dp_rank = r, dp_bank = b,
     dp_row = row, src1_row = 0, src2_row = 0, is_row_op = False, dp_row_op = None, bankId = 8 * r + b,
     dp_addr = 0, dp_size = 64, burstHelper = None\<rparr>"

definition demo_ranks :: "Rank list" where
  "demo_ranks = [(new_rank demo_config 0)\<lparr>refreshState := REF_RUN\<rparr>,
     (new_rank demo_config 1)\<lparr>banks := (banks (new_rank demo_config 1))[2 := new_bank\<lparr>openRow := 7, bank_no := 2, bankgr := 2\<rparr>],
        numBanksActive := 1\<rparr>]"

definition demo_queue :: "DRAMPacket list" where
  "demo_queue = [demo_dp 0 1 5, demo_dp 1 4 9, demo_dp 1 2 7]"

lemma demo_sched_ok: "sched_ok demo_config 0 demo_ranks demo_queue"
proof -
  have "bank_act_at demo_config 0 (bank_at demo_config demo_ranks n) \<le> MaxTick" if "n < 16" for n
  proof -
    have "n div 8 = 0 \<or> n div 8 = 1" "n mod 8 < 8" using that by linarith+
    then show ?thesis
      by (auto simp: bank_at_def demo_ranks_def new_rank_def new_bank_def bank_act_at_def MaxTick_def demo_config_def
          nth_list_update)
  qed
  then show ?thesis
    by (auto simp: sched_ok_def demo_queue_def demo_dp_def dp_ok_def demo_config_def)
qed

theorem chooseNext_correct_witness:
  "\<exists>q. chooseNext demo_config 0 0 demo_ranks demo_queue 0 = Inr (True, q) \<and> mset q = mset demo_queue \<and>
     isAvailable (demo_ranks ! dp_rank (hd q))"
  using chooseNext_correct [OF demo_sched_ok, of 0 0]
  by (auto simp: demo_queue_def demo_dp_def demo_ranks_def new_rank_def isAvailable_def)

text \<open>C31: first-ready first-come first-served: if a queued packet hits an open row of an available
  rank and can use the bus without a gap, the oldest such packet is chosen and the others keep
  their order.\<close>

theorem frfcfs_oldest_seamless_hit:
  assumes "sched_ok cfg now rs queue" "memSchedPolicy cfg = frfcfs"
    and "j < length queue" "seamless_hit rs (min_col cfg now bus extra) (queue ! j)"
      "\<forall>i < j. \<not> seamless_hit rs (min_col cfg now bus extra) (queue ! i)"
  shows "chooseNext cfg now bus rs queue extra = Inr (True, queue ! j # take j queue @ drop (j + 1) queue)"
proof -
  have j: "first_index (seamless_hit rs (min_col cfg now bus extra)) queue = Some j"
    using assms(3-5) by (simp add: first_index_Some)
  then have "reorderQueue cfg now bus rs queue extra = Inr (True, move_to_front j queue)"
    using reorderQueue_ok [OF assms(1), of bus extra] by auto
  moreover have "chooseNext cfg now bus rs queue extra = Inr (True, move_to_front j queue)" if one: "length queue = 1"
  proof -
    obtain p where "queue = [p]" using one by (cases queue) auto
    then show ?thesis
      using assms(3,4) by (simp add: chooseNext_def move_to_front_def seamless_hit_def row_hit_def)
  qed
  moreover have "queue \<noteq> []" using assms(3) by auto
  ultimately show ?thesis
    using assms(2) by (cases "length queue = 1") (simp_all add: chooseNext_def move_to_front_def)
qed

theorem frfcfs_oldest_seamless_hit_witness:
  "chooseNext demo_config 0 0 demo_ranks demo_queue 0 = Inr (True, [demo_dp 1 2 7, demo_dp 0 1 5, demo_dp 1 4 9])"
proof -
  let ?hit = "seamless_hit demo_ranks (min_col demo_config 0 0 0)"
  have "\<not> ?hit (demo_dp 0 1 5)" "\<not> ?hit (demo_dp 1 4 9)" "?hit (demo_dp 1 2 7)"
    by (simp_all add: demo_dp_def demo_ranks_def new_rank_def new_bank_def isAvailable_def seamless_hit_def
        row_hit_def bank_of_def demo_config_def NO_ROW_def)
  then have "?hit (demo_queue ! 2)" "\<forall>i < 2. \<not> ?hit (demo_queue ! i)" "2 < length demo_queue"
    by (auto simp: demo_queue_def less_2_cases_iff)
  moreover have "memSchedPolicy demo_config = frfcfs" by (simp add: demo_config_def)
  ultimately show ?thesis
    using frfcfs_oldest_seamless_hit [OF demo_sched_ok, of 2 0 0] by (simp add: demo_queue_def)
qed

text \<open>C30: the bank mask of the scheduler is exactly the set of the banks to prefer among those with a
  waiting request to an available rank: the ones that can be prepared without delaying the data
  bus if there are any, else the ones with the earliest activate.\<close>

theorem minBankPrep_correct:
  assumes "sched_ok cfg now rs queue"
  shows "\<exists>m h. minBankPrep cfg now rs queue mc = Inr (m, h) \<and>
    {n. bit m n} = preferred cfg now rs mc (bankId ` {p \<in> set queue. isAvailable (rs ! dp_rank p)})"
proof -
  obtain m h where m: "minBankPrep cfg now rs queue mc = Inr (m, h)"
      "\<forall>n. bit m n \<longleftrightarrow> n \<in> preferred cfg now rs mc (waiting rs queue)"
    using minBankPrep_ok [OF assms] by blast
  then have "{n. bit m n} = preferred cfg now rs mc (waiting rs queue)" by blast
  then show ?thesis using m(1) by (simp add: waiting_def)
qed

theorem minBankPrep_correct_witness:
  "\<exists>m h. minBankPrep demo_config 0 demo_ranks demo_queue 13750 = Inr (m, h) \<and> {n. bit m n} = {12}"
proof -
  have av: "\<not> isAvailable (demo_ranks ! 0)" "isAvailable (demo_ranks ! Suc 0)"
    by (simp_all add: demo_ranks_def new_rank_def isAvailable_def)
  have "bankId ` {p \<in> set demo_queue. isAvailable (demo_ranks ! dp_rank p)} = {12, 10}"
    unfolding set_filter [symmetric] demo_queue_def by (simp add: demo_dp_def av)
  moreover have "seamless demo_config 0 13750 (bank_at demo_config demo_ranks 12)"
      "\<not> seamless demo_config 0 13750 (bank_at demo_config demo_ranks 10)"
    by (simp_all add: seamless_def bank_at_def bank_act_at_def demo_ranks_def new_rank_def new_bank_def
        demo_config_def NO_ROW_def)
  then have "preferred demo_config 0 demo_ranks 13750 {12, 10} = {12}" by (auto simp: preferred_def Let_def)
  ultimately show ?thesis using minBankPrep_correct [OF demo_sched_ok, of 13750] by simp
qed

end
