(* ===== verification/Dram_Ctrl.thy ===== *)
theory Dram_Ctrl
  imports Dram_Sched
begin

text \<open>
  The request path of the DRAM controller (\<^verbatim>\<open>gem5/src/mem/dram_ctrl.cc\<close>): queueing of requests,
  the access to the banks, the request loop with its bus turnarounds, the responses, draining and
  the slave port.  \<open>now\<close> is the current tick.  A burst helper is named by its position in
  \<open>helpers\<close>, a deleted one is \<open>None\<close> there.  What leaves the controller is recorded: the responses
  handed to the port with their tick in \<open>portResps\<close>, the retries sent and the drain signals in
  counters.  The statistics are left out, except the two counters of the write queue.
\<close>

subsection \<open>State\<close>

datatype BusState = READ | READ_TO_WRITE | WRITE | WRITE_TO_READ
datatype DrainState = Running | Draining | Drained

record BurstHelper =
  burstCount :: nat
  burstsServiced :: nat

record DRAMCtrl =
  dmem :: AbstractMemory
  isTimingMode :: bool
  retryRdReq :: bool
  retryWrReq :: bool
  busState :: BusState
  pendingRowOps :: int
  nextReqEvent :: event
  respondEvent :: event
  readQueue :: "DRAMPacket list"
  writeQueue :: "DRAMPacket list"
  respQueue :: "DRAMPacket list"
  isInWriteQueue :: "addr set"
  ranks :: "Rank list"
  helpers :: "BurstHelper option list"
  writesThisTime :: nat
  readsThisTime :: nat
  busBusyUntil :: tick
  prevArrival :: tick
  nextReqTime :: tick
  activeRank :: nat
  timeStampOffset :: tick
  pendingDelete :: "Packet list"
  drainState :: DrainState
  portResps :: "(tick \<times> Packet) list"
  retriesSent :: nat
  drainSignals :: nat
  servicedByWrQ :: nat
  mergedWrBursts :: nat

definition new_ctrl :: "DRAMConfig \<Rightarrow> AbstractMemory \<Rightarrow> DRAMCtrl" where
  "new_ctrl cfg m =
     \<lparr>dmem = m, isTimingMode = False, retryRdReq = False, retryWrReq = False, busState = READ,
      pendingRowOps = 0, nextReqEvent = None, respondEvent = None, readQueue = [], writeQueue = [],
      respQueue = [], isInWriteQueue = {}, ranks = map (new_rank cfg) [0..<ranksPerChannel cfg],
      helpers = [], writesThisTime = 0, readsThisTime = 0, busBusyUntil = 0, prevArrival = 0,
      nextReqTime = 0, activeRank = 0, timeStampOffset = 0, pendingDelete = [], drainState = Running,
      portResps = [], retriesSent = 0, drainSignals = 0, servicedByWrQ = 0, mergedWrBursts = 0\<rparr>"

fun startup_ranks :: "tick \<Rightarrow> tick \<Rightarrow> Rank list \<Rightarrow> Rank list result" where
  "startup_ranks now ref_tick [] = Inr []"
| "startup_ranks now ref_tick (r # rs) =
     rbind (rank_startup now ref_tick r) (\<lambda>r'.
     rbind (startup_ranks now ref_tick rs) (\<lambda>rs'. Inr (r' # rs')))"

text \<open>\<open>timing\<close> is the memory mode of the system.\<close>

definition startup :: "DRAMConfig \<Rightarrow> tick \<Rightarrow> bool \<Rightarrow> DRAMCtrl \<Rightarrow> DRAMCtrl result" where
  "startup cfg now timing s =
     (let s1 = s\<lparr>isTimingMode := timing\<rparr> in
      if timing then
        let s2 = s1\<lparr>timeStampOffset := divCeil now (tCK cfg)\<rparr> in
        rbind (startup_ranks now (tick_sub (now + tREFI cfg) (tRP cfg)) (ranks s2)) (\<lambda>rs.
        Inr (s2\<lparr>ranks := rs, busBusyUntil := now + tRP cfg + tRCD cfg + tCL cfg\<rparr>))
      else Inr s1)"

subsection \<open>Responses\<close>

definition accessAndRespond :: "tick \<Rightarrow> Packet \<Rightarrow> tick \<Rightarrow> DRAMCtrl \<Rightarrow> DRAMCtrl result" where
  "accessAndRespond now pkt static_latency s =
     (let needs = needsResponse pkt in
      rbind (access (dmem s) pkt) (\<lambda>(m, pkt').
      let s1 = s\<lparr>dmem := m\<rparr> in
      if needs then
        rbind (assertr (isResponse pkt') ''pkt->isResponse()'') (\<lambda>_.
        let response_time = now + static_latency + headerDelay pkt' + payloadDelay pkt';
            pkt'' = pkt'\<lparr>headerDelay := 0, payloadDelay := 0\<rparr>
        in Inr (s1\<lparr>portResps := portResps s1 @ [(response_time, pkt'')]\<rparr>))
      else Inr (s1\<lparr>pendingDelete := pendingDelete s1 @ [pkt']\<rparr>)))"

definition recvAtomic :: "DRAMConfig \<Rightarrow> Packet \<Rightarrow> DRAMCtrl \<Rightarrow> (tick \<times> DRAMCtrl \<times> Packet) result" where
  "recvAtomic cfg pkt s =
     rbind (access (dmem s) pkt) (\<lambda>(m, pkt').
     Inr (if \<not> memInhibitAsserted pkt' \<and> hasData pkt' then tRP cfg + tRCD cfg + tCL cfg else 0,
          s\<lparr>dmem := m\<rparr>, pkt'))"

definition recvFunctional :: "Packet \<Rightarrow> DRAMCtrl \<Rightarrow> (DRAMCtrl \<times> Packet) result" where
  "recvFunctional pkt s = rbind (functionalAccess (dmem s) pkt) (\<lambda>(m, pkt'). Inr (s\<lparr>dmem := m\<rparr>, pkt'))"

definition signalDrainDone :: "DRAMCtrl \<Rightarrow> DRAMCtrl" where
  "signalDrainDone s =
     (if drainState s = Draining then s\<lparr>drainState := Drained, drainSignals := drainSignals s + 1\<rparr> else s)"

definition sendRetryReq :: "DRAMCtrl \<Rightarrow> DRAMCtrl" where
  "sendRetryReq s = s\<lparr>retriesSent := retriesSent s + 1\<rparr>"

definition kick_nextReq :: "tick \<Rightarrow> tick \<Rightarrow> DRAMCtrl \<Rightarrow> DRAMCtrl result" where
  "kick_nextReq now t s =
     (if nextReqEvent s = None
      then rbind (schedule_event now (nextReqEvent s) t) (\<lambda>e. Inr (s\<lparr>nextReqEvent := e\<rparr>))
      else Inr s)"

subsection \<open>Queueing\<close>

definition readQueueFull :: "DRAMConfig \<Rightarrow> nat \<Rightarrow> DRAMCtrl \<Rightarrow> bool" where
  "readQueueFull cfg needed s \<longleftrightarrow> length (readQueue s) + length (respQueue s) + needed > readBufferSize cfg"

definition writeQueueFull :: "DRAMConfig \<Rightarrow> nat \<Rightarrow> DRAMCtrl \<Rightarrow> bool" where
  "writeQueueFull cfg needed s \<longleftrightarrow> length (writeQueue s) + needed > writeBufferSize cfg"

text \<open>The burst that starts at \<open>a\<close>: the address after it, and how much of a packet that ends at
  \<open>pkt_end\<close> falls into it.\<close>

definition next_burst :: "DRAMConfig \<Rightarrow> addr \<Rightarrow> addr" where
  "next_burst cfg a = (a OR (of_nat (burstSize cfg) - 1)) + 1"

definition burst_part :: "DRAMConfig \<Rightarrow> addr \<Rightarrow> addr \<Rightarrow> nat" where
  "burst_part cfg a pkt_end = unat (ucast (min (next_burst cfg a) pkt_end - a) :: 32 word)"

definition in_write_queue :: "DRAMConfig \<Rightarrow> addr \<Rightarrow> nat \<Rightarrow> DRAMCtrl \<Rightarrow> bool" where
  "in_write_queue cfg a sz s \<longleftrightarrow> burstAlign cfg a \<in> isInWriteQueue s \<and>
     list_ex (\<lambda>p. dp_addr p \<le> a \<and> a + of_nat sz \<le> dp_addr p + of_nat (dp_size p)) (writeQueue s)"

fun read_bursts ::
  "DRAMConfig \<Rightarrow> tick \<Rightarrow> Packet \<Rightarrow> addr \<Rightarrow> nat \<Rightarrow> nat \<Rightarrow> addr \<Rightarrow> nat \<Rightarrow> nat option \<Rightarrow> DRAMCtrl \<Rightarrow>
   (nat \<times> nat option \<times> DRAMCtrl) result" where
  "read_bursts cfg now pkt pkt_end pktCount 0 a serviced helper s = Inr (serviced, helper, s)"
| "read_bursts cfg now pkt pkt_end pktCount (Suc n) a serviced helper s =
     (let sz = burst_part cfg a pkt_end in
      rbind (ceilLog2 (of_nat sz)) (\<lambda>_.
      if in_write_queue cfg a sz s then
        read_bursts cfg now pkt pkt_end pktCount n (next_burst cfg a) (serviced + 1) helper
          (s\<lparr>servicedByWrQ := servicedByWrQ s + 1\<rparr>)
      else
        let (helper', s1) =
              (if pktCount > 1 \<and> helper = None
               then (Some (length (helpers s)), s\<lparr>helpers := helpers s @ [Some \<lparr>burstCount = pktCount, burstsServiced = 0\<rparr>]\<rparr>)
               else (helper, s)) in
        rbind (decodeAddr cfg now pkt a sz True) (\<lambda>dp.
        rbind (assertr (\<not> readQueueFull cfg 1 s1) ''!readQueueFull(1)'') (\<lambda>_.
        read_bursts cfg now pkt pkt_end pktCount n (next_burst cfg a) serviced helper'
          (s1\<lparr>readQueue := readQueue s1 @ [dp\<lparr>burstHelper := helper'\<rparr>]\<rparr>)))))"

definition set_serviced :: "nat option \<Rightarrow> nat \<Rightarrow> DRAMCtrl \<Rightarrow> DRAMCtrl result" where
  "set_serviced helper n s =
     (case helper of
        None \<Rightarrow> Inr s
      | Some h \<Rightarrow>
          (case helpers s ! h of
             None \<Rightarrow> Inl HostFault
           | Some bh \<Rightarrow> Inr (s\<lparr>helpers := (helpers s)[h := Some (bh\<lparr>burstsServiced := n\<rparr>)]\<rparr>)))"

definition addToReadQueue :: "DRAMConfig \<Rightarrow> tick \<Rightarrow> Packet \<Rightarrow> nat \<Rightarrow> DRAMCtrl \<Rightarrow> DRAMCtrl result" where
  "addToReadQueue cfg now pkt pktCount s =
     rbind (assertr (\<not> isWrite pkt) ''!pkt->isWrite()'') (\<lambda>_.
     rbind (assertr (pktCount \<noteq> 0) ''pktCount != 0'') (\<lambda>_.
     rbind (getAddr pkt) (\<lambda>a.
     rbind (getSize pkt) (\<lambda>sz.
     rbind (read_bursts cfg now pkt (a + of_nat sz) pktCount pktCount a 0 None s) (\<lambda>(serviced, helper, s1).
     if serviced = pktCount then accessAndRespond now pkt (frontendLatency cfg) s1
     else rbind (set_serviced helper serviced s1) (\<lambda>s2. kick_nextReq now now s2))))))"

definition enqueue_rowop :: "DRAMConfig \<Rightarrow> tick \<Rightarrow> Packet \<Rightarrow> DRAMCtrl \<Rightarrow> DRAMCtrl result" where
  "enqueue_rowop cfg now pkt s =
     rbind (getPtr pkt) (\<lambda>d.
     rbind (decode_payload d) (\<lambda>(op, dest, src1, src2).
     rbind (decodeAddr cfg now pkt dest 0 False) (\<lambda>dp.
     rbind (decodeAddr cfg now pkt src1 0 False) (\<lambda>dp1.
     rbind (decodeAddr cfg now pkt src2 0 False) (\<lambda>dp2.
     Inr (s\<lparr>writeQueue := writeQueue s @
              [dp\<lparr>is_row_op := True, dp_row_op := op, src1_row := dp_row dp1, src2_row := dp_row dp2\<rparr>],
            pendingRowOps := pendingRowOps s + 1\<rparr>))))))"

fun write_bursts ::
  "DRAMConfig \<Rightarrow> tick \<Rightarrow> Packet \<Rightarrow> addr \<Rightarrow> nat \<Rightarrow> addr \<Rightarrow> DRAMCtrl \<Rightarrow> DRAMCtrl result" where
  "write_bursts cfg now pkt pkt_end 0 a s = Inr s"
| "write_bursts cfg now pkt pkt_end (Suc n) a s =
     (let sz = burst_part cfg a pkt_end in
      rbind (ceilLog2 (of_nat sz)) (\<lambda>_.
      rbind (if burstAlign cfg a \<notin> isInWriteQueue s then
               rbind (decodeAddr cfg now pkt a sz False) (\<lambda>dp.
               rbind (assertr (length (writeQueue s) < writeBufferSize cfg) ''writeQueue.size() < writeBufferSize'') (\<lambda>_.
               Inr (s\<lparr>writeQueue := writeQueue s @ [dp], isInWriteQueue := insert (burstAlign cfg a) (isInWriteQueue s)\<rparr>)))
             else Inr (s\<lparr>mergedWrBursts := mergedWrBursts s + 1\<rparr>)) (\<lambda>s'.
      write_bursts cfg now pkt pkt_end n (next_burst cfg a) s')))"

definition addToWriteQueue :: "DRAMConfig \<Rightarrow> tick \<Rightarrow> Packet \<Rightarrow> nat \<Rightarrow> DRAMCtrl \<Rightarrow> DRAMCtrl result" where
  "addToWriteQueue cfg now pkt pktCount s =
     rbind (assertr (isWrite pkt) ''pkt->isWrite()'') (\<lambda>_.
     rbind (if isRowOp pkt then enqueue_rowop cfg now pkt s
            else rbind (getAddr pkt) (\<lambda>a. rbind (getSize pkt) (\<lambda>sz.
                 write_bursts cfg now pkt (a + of_nat sz) pktCount a s))) (\<lambda>s1.
     rbind (accessAndRespond now pkt (frontendLatency cfg) s1) (\<lambda>s2.
     kick_nextReq now now s2)))"

definition recvTimingReq :: "DRAMConfig \<Rightarrow> tick \<Rightarrow> Packet \<Rightarrow> DRAMCtrl \<Rightarrow> (bool \<times> DRAMCtrl) result" where
  "recvTimingReq cfg now pkt s0 =
     (let s = s0\<lparr>pendingDelete := []\<rparr> in
      if memInhibitAsserted pkt \<or> pkt_cmd pkt = CleanEvict
      then Inr (True, s\<lparr>pendingDelete := [pkt]\<rparr>)
      else
        let s1 = s\<lparr>prevArrival := now\<rparr> in
        rbind (getSize pkt) (\<lambda>sz. rbind (getAddr pkt) (\<lambda>a.
        let offset = unat (a AND (of_nat (burstSize cfg) - 1));
            count = divCeil (offset + sz) (burstSize cfg) in
        if isRead pkt then
          rbind (assertr (sz \<noteq> 0) ''size != 0'') (\<lambda>_.
          if readQueueFull cfg count s1 then Inr (False, s1\<lparr>retryRdReq := True\<rparr>)
          else rbind (addToReadQueue cfg now pkt count s1) (\<lambda>s2. Inr (True, s2)))
        else if isWrite pkt then
          rbind (assertr (sz \<noteq> 0) ''size != 0'') (\<lambda>_.
          if writeQueueFull cfg count s1 then Inr (False, s1\<lparr>retryWrReq := True\<rparr>)
          else rbind (addToWriteQueue cfg now pkt count s1) (\<lambda>s2. Inr (True, s2)))
        else rbind (accessAndRespond now pkt 1 s1) (\<lambda>s2. Inr (True, s2)))))"

subsection \<open>Access to the banks\<close>

definition get_bank :: "DRAMPacket \<Rightarrow> DRAMCtrl \<Rightarrow> Bank" where
  "get_bank dp s = banks (ranks s ! dp_rank dp) ! dp_bank dp"

definition put_rank :: "nat \<Rightarrow> Rank \<Rightarrow> DRAMCtrl \<Rightarrow> DRAMCtrl" where
  "put_rank i r s = s\<lparr>ranks := (ranks s)[i := r]\<rparr>"

text \<open>If there is a page open, precharge it.\<close>

definition close_page :: "DRAMConfig \<Rightarrow> tick \<Rightarrow> DRAMPacket \<Rightarrow> DRAMCtrl \<Rightarrow> DRAMCtrl result" where
  "close_page cfg now dp s =
     (if openRow (get_bank dp s) \<noteq> NO_ROW then
        rbind (prechargeBank cfg (timeStampOffset s) now (dp_bank dp) (max (preAllowedAt (get_bank dp s)) now) True
                 (ranks s ! dp_rank dp)) (\<lambda>r.
        Inr (put_rank (dp_rank dp) r s))
      else Inr s)"

definition row_op_access :: "DRAMConfig \<Rightarrow> tick \<Rightarrow> DRAMPacket \<Rightarrow> DRAMCtrl \<Rightarrow> (DRAMPacket \<times> DRAMCtrl) result" where
  "row_op_access cfg now dp s =
     (let cmd_at0 = max (colAllowedAt (get_bank dp s)) now in
      rbind (close_page cfg now dp s) (\<lambda>s1.
      let cmd_at1 = max cmd_at0 (actAllowedAt (get_bank dp s1)) in
      rbind (case dp_row_op dp of
               None \<Rightarrow> Inl (Assertion ''false'')
             | Some op \<Rightarrow>
                 run_row_cmds cfg (timeStampOffset s1) now (dp_bank dp)
                   (row_op_cmds op (dp_row dp) (src1_row dp) (src2_row dp)) cmd_at1 (ranks s1 ! dp_rank dp)) (\<lambda>(cmd_at, r).
      let s2 = put_rank (dp_rank dp) r s1; ready = cmd_at + tCL cfg in
      Inr (dp\<lparr>readyTime := ready\<rparr>,
           s2\<lparr>activeRank := dp_rank dp, busBusyUntil := ready,
              nextReqTime := tick_sub ready (tRP cfg + tRCD cfg + tCL cfg),
              pendingRowOps := pendingRowOps s2 - 1\<rparr>))))"

text \<open>Open the row, if it is not open yet: the tick the column command can issue at.\<close>

definition open_page :: "DRAMConfig \<Rightarrow> tick \<Rightarrow> DRAMPacket \<Rightarrow> DRAMCtrl \<Rightarrow> (tick \<times> DRAMCtrl) result" where
  "open_page cfg now dp s =
     (if openRow (get_bank dp s) = dp_row dp then Inr (max (colAllowedAt (get_bank dp s)) now, s)
      else
        rbind (close_page cfg now dp s) (\<lambda>s1.
        rbind (activateBank cfg (timeStampOffset s1) now (dp_bank dp) (max (actAllowedAt (get_bank dp s1)) now) (dp_row dp)
                 (ranks s1 ! dp_rank dp)) (\<lambda>r.
        let s2 = put_rank (dp_rank dp) r s1 in
        Inr (colAllowedAt (get_bank dp s2), s2))))"

text \<open>The loops over all ranks and banks that hold back the next column command.\<close>

definition cmd_dly :: "DRAMConfig \<Rightarrow> nat \<Rightarrow> nat \<Rightarrow> nat \<Rightarrow> Bank \<Rightarrow> tick" where
  "cmd_dly cfg rank gr j k =
     (if rank = j then if bankGroupArch cfg \<and> gr = bankgr k then tCCD_L cfg else tBURST cfg
      else tBURST cfg + tCS cfg)"

definition hold_columns :: "DRAMConfig \<Rightarrow> nat \<Rightarrow> nat \<Rightarrow> tick \<Rightarrow> Rank list \<Rightarrow> Rank list" where
  "hold_columns cfg rank gr cmd_at rs =
     map (\<lambda>j. all_banks (\<lambda>k. k\<lparr>colAllowedAt := max (cmd_at + cmd_dly cfg rank gr j k) (colAllowedAt k)\<rparr>) (rs ! j))
       [0..<length rs]"

text \<open>The search of the adaptive page policies through the rest of the queue.\<close>

fun more_hits :: "DRAMPacket \<Rightarrow> DRAMPacket list \<Rightarrow> bool \<Rightarrow> bool \<times> bool" where
  "more_hits dp [] conflict = (False, conflict)"
| "more_hits dp (p # ps) conflict =
     (let same_rank_bank = (dp_rank dp = dp_rank p \<and> dp_bank dp = dp_bank p); same_row = (dp_row dp = dp_row p) in
      if same_rank_bank \<and> same_row then (True, conflict)
      else more_hits dp ps (conflict \<or> (same_rank_bank \<and> \<not> same_row)))"

definition auto_precharge :: "DRAMConfig \<Rightarrow> DRAMPacket \<Rightarrow> DRAMPacket list \<Rightarrow> Bank \<Rightarrow> bool" where
  "auto_precharge cfg dp queue k =
     (let always = (pageMgmt cfg = page_close \<or> rowAccesses k = maxAccessesPerRow cfg) in
      if \<not> always \<and> (pageMgmt cfg = page_open_adaptive \<or> pageMgmt cfg = page_close_adaptive) then
        let (hits, conflict) = more_hits dp (tl queue) False
        in \<not> hits \<and> (conflict \<or> pageMgmt cfg = page_close_adaptive)
      else always)"

definition column_access ::
  "DRAMConfig \<Rightarrow> tick \<Rightarrow> DRAMPacket \<Rightarrow> tick \<Rightarrow> DRAMCtrl \<Rightarrow> (DRAMPacket \<times> DRAMCtrl) result" where
  "column_access cfg now dp cmd_at0 s =
     (let cmd_at = max cmd_at0 (tick_sub (busBusyUntil s) (tCL cfg));
          ready = cmd_at + tCL cfg + tBURST cfg;
          i = dp_rank dp; b = dp_bank dp in
      rbind (assertr (tick_sub ready (busBusyUntil s) \<ge> tBURST cfg) ''readyTime - busBusyUntil >= tBURST'') (\<lambda>_.
      let s1 = s\<lparr>ranks := hold_columns cfg i (bankgr (get_bank dp s)) cmd_at (ranks s), activeRank := i\<rparr>;
          s2 = put_rank i (set_bank b (\<lambda>k. k\<lparr>
                 preAllowedAt := max (preAllowedAt k) (if dp_isRead dp then cmd_at + tRTP cfg else ready + tWR cfg),
                 bytesAccessed := bytesAccessed k + burstSize cfg,
                 rowAccesses := rowAccesses k + 1\<rparr>) (ranks s1 ! i)) s1;
          queue = (if dp_isRead dp then readQueue s2 else writeQueue s2) in
      rbind (if auto_precharge cfg dp queue (get_bank dp s2) then
               rbind (prechargeBank cfg (timeStampOffset s2) now b (max now (preAllowedAt (get_bank dp s2))) True
                        (ranks s2 ! i)) (\<lambda>r. Inr (put_rank i r s2))
             else Inr s2) (\<lambda>s3.
      let s4 = put_rank i (doCommand cfg (timeStampOffset s3) (if dp_isRead dp then CMD_RD else CMD_WR) b cmd_at
                             (ranks s3 ! i)) s3 in
      Inr (dp\<lparr>readyTime := ready\<rparr>,
           s4\<lparr>busBusyUntil := ready, nextReqTime := tick_sub ready (tRP cfg + tRCD cfg + tCL cfg),
              readsThisTime := readsThisTime s4 + (if dp_isRead dp then 1 else 0),
              writesThisTime := writesThisTime s4 + (if dp_isRead dp then 0 else 1)\<rparr>))))"

definition doDRAMAccess :: "DRAMConfig \<Rightarrow> tick \<Rightarrow> DRAMPacket \<Rightarrow> DRAMCtrl \<Rightarrow> (DRAMPacket \<times> DRAMCtrl) result" where
  "doDRAMAccess cfg now dp s =
     (if is_row_op dp then row_op_access cfg now dp s
      else rbind (open_page cfg now dp s) (\<lambda>(cmd_at, s1). column_access cfg now dp cmd_at s1))"

subsection \<open>The request loop\<close>

text \<open>The first loop: ranks that are busy refreshing are told that the request loop has run.\<close>

fun notify_ranks :: "tick \<Rightarrow> Rank list \<Rightarrow> (nat \<times> Rank list) result" where
  "notify_ranks now [] = Inr (0, [])"
| "notify_ranks now (r # rs) =
     rbind (if isAvailable r then Inr (0, r) else rbind (checkDrainDone now r) (\<lambda>r'. Inr (1, r'))) (\<lambda>(n, r').
     rbind (notify_ranks now rs) (\<lambda>(m, rs'). Inr (n + m, r' # rs')))"

definition turn_bus :: "DRAMCtrl \<Rightarrow> bool \<times> DRAMCtrl" where
  "turn_bus s =
     (case busState s of
        READ_TO_WRITE \<Rightarrow> (True, s\<lparr>readsThisTime := 0, busState := WRITE\<rparr>)
      | WRITE_TO_READ \<Rightarrow> (True, s\<lparr>writesThisTime := 0, busState := READ\<rparr>)
      | _ \<Rightarrow> (False, s))"

definition push_response :: "tick \<Rightarrow> DRAMPacket \<Rightarrow> DRAMCtrl \<Rightarrow> DRAMCtrl result" where
  "push_response now dp s =
     rbind (if respQueue s = [] then
              rbind (assertr (respondEvent s = None) ''!respondEvent.scheduled()'') (\<lambda>_.
              schedule_event now (respondEvent s) (readyTime dp))
            else
              rbind (assertr (readyTime (last (respQueue s)) \<le> readyTime dp) ''back()->readyTime <= readyTime'') (\<lambda>_.
              rbind (assertr (respondEvent s \<noteq> None) ''respondEvent.scheduled()'') (\<lambda>_. Inr (respondEvent s)))) (\<lambda>e.
     Inr (s\<lparr>respondEvent := e, respQueue := respQueue s @ [dp]\<rparr>))"

text \<open>The two branches return whether the loop goes on to schedule the next request.\<close>

definition read_branch :: "DRAMConfig \<Rightarrow> tick \<Rightarrow> bool \<Rightarrow> DRAMCtrl \<Rightarrow> (bool \<times> DRAMCtrl) result" where
  "read_branch cfg now switched s =
     (if readQueue s = [] then
        if writeQueue s \<noteq> [] \<and> (drainState s = Draining \<or> length (writeQueue s) > writeLowThreshold cfg \<or> pendingRowOps s > 0)
        then Inr (True, s\<lparr>busState := READ_TO_WRITE\<rparr>)
        else Inr (False, if drainState s = Draining \<and> respQueue s = [] then signalDrainDone s else s)
      else
        rbind (chooseNext cfg now (busBusyUntil s) (ranks s) (readQueue s) (if switched then tCS cfg else 0)) (\<lambda>(found, q).
        let s1 = s\<lparr>readQueue := q\<rparr> in
        if \<not> found then Inr (False, s1)
        else
          let dp = hd q in
          rbind (assertr (isAvailable (ranks s1 ! dp_rank dp)) ''rankRef.isAvailable()'') (\<lambda>_.
          let s2 = (if switched \<and> dp_rank dp = activeRank s1
                    then s1\<lparr>busBusyUntil := busBusyUntil s1 + tWTR cfg + tCL cfg\<rparr> else s1) in
          rbind (doDRAMAccess cfg now dp s2) (\<lambda>(dp', s3).
          let s4 = s3\<lparr>readQueue := tl (readQueue s3)\<rparr> in
          rbind (assertr (dp_size dp' \<le> burstSize cfg) ''size <= burstSize'') (\<lambda>_.
          rbind (assertr (readyTime dp' \<ge> now) ''readyTime >= curTick()'') (\<lambda>_.
          rbind (push_response now dp' s4) (\<lambda>s5.
          Inr (True, if length (writeQueue s5) > writeHighThreshold cfg \<or> pendingRowOps s5 > 0
                     then s5\<lparr>busState := READ_TO_WRITE\<rparr> else s5))))))))"

definition write_branch :: "DRAMConfig \<Rightarrow> tick \<Rightarrow> bool \<Rightarrow> DRAMCtrl \<Rightarrow> (bool \<times> DRAMCtrl) result" where
  "write_branch cfg now switched s =
     rbind (chooseNext cfg now (busBusyUntil s) (ranks s) (writeQueue s) (if switched then min (tRTW cfg) (tCS cfg) else 0)) (\<lambda>(found, q).
     let s1 = s\<lparr>writeQueue := q\<rparr> in
     if \<not> found then Inr (False, s1)
     else
       let dp = hd q in
       rbind (assertr (isAvailable (ranks s1 ! dp_rank dp)) ''rankRef.isAvailable()'') (\<lambda>_.
       rbind (assertr (dp_size dp \<le> burstSize cfg) ''size <= burstSize'') (\<lambda>_.
       let s2 = (if switched \<and> dp_rank dp = activeRank s1
                 then s1\<lparr>busBusyUntil := busBusyUntil s1 + tRTW cfg\<rparr> else s1) in
       rbind (doDRAMAccess cfg now dp s2) (\<lambda>(dp', s3).
       let s4 = s3\<lparr>writeQueue := tl (writeQueue s3),
                   isInWriteQueue := isInWriteQueue s3 - {burstAlign cfg (dp_addr dp')}\<rparr> in
       Inr (True,
         if pendingRowOps s4 = 0 \<and>
            (writeQueue s4 = [] \<or>
             (length (writeQueue s4) + minWritesPerSwitch cfg < writeLowThreshold cfg \<and> drainState s4 \<noteq> Draining) \<or>
             (readQueue s4 \<noteq> [] \<and> writesThisTime s4 \<ge> minWritesPerSwitch cfg))
         then s4\<lparr>busState := WRITE_TO_READ\<rparr> else s4)))))"

definition finish_request :: "DRAMConfig \<Rightarrow> tick \<Rightarrow> DRAMCtrl \<Rightarrow> DRAMCtrl result" where
  "finish_request cfg now s =
     rbind (kick_nextReq now (max (nextReqTime s) now) s) (\<lambda>s1.
     Inr (if retryWrReq s1 \<and> length (writeQueue s1) < writeBufferSize cfg
          then sendRetryReq (s1\<lparr>retryWrReq := False\<rparr>) else s1))"

definition processNextReqEvent :: "DRAMConfig \<Rightarrow> tick \<Rightarrow> DRAMCtrl \<Rightarrow> DRAMCtrl result" where
  "processNextReqEvent cfg now s =
     rbind (notify_ranks now (ranks s)) (\<lambda>(busyRanks, rs).
     let s1 = s\<lparr>ranks := rs\<rparr> in
     if busyRanks = ranksPerChannel cfg then Inr s1
     else
       let (switched, s2) = turn_bus s1 in
       rbind (if busState s2 = READ then read_branch cfg now switched s2 else write_branch cfg now switched s2) (\<lambda>(go_on, s3).
       if go_on then finish_request cfg now s3 else Inr s3))"

text \<open>The response event counts the burst that became ready against its helper and answers the request
  with its last burst; then it turns to the next burst.\<close>

definition answer_burst :: "DRAMConfig \<Rightarrow> tick \<Rightarrow> DRAMPacket \<Rightarrow> DRAMCtrl \<Rightarrow> DRAMCtrl result" where
  "answer_burst cfg now dp s =
     (case burstHelper dp of
        None \<Rightarrow> accessAndRespond now (dp_pkt dp) (frontendLatency cfg + backendLatency cfg) s
      | Some h \<Rightarrow>
          (case helpers s ! h of
             None \<Rightarrow> Inl HostFault
           | Some bh \<Rightarrow>
               let bh' = bh\<lparr>burstsServiced := burstsServiced bh + 1\<rparr> in
               if burstsServiced bh' = burstCount bh' then
                 rbind (accessAndRespond now (dp_pkt dp) (frontendLatency cfg + backendLatency cfg) s) (\<lambda>s1.
                 Inr (s1\<lparr>helpers := (helpers s1)[h := None]\<rparr>))
               else Inr (s\<lparr>helpers := (helpers s)[h := Some bh']\<rparr>)))"

definition next_response :: "tick \<Rightarrow> DRAMPacket list \<Rightarrow> DRAMCtrl \<Rightarrow> DRAMCtrl result" where
  "next_response now rest s1 =
     (let s2 = s1\<lparr>respQueue := rest\<rparr> in
      rbind (if rest \<noteq> [] then
               rbind (assertr (readyTime (hd rest) \<ge> now) ''front()->readyTime >= curTick()'') (\<lambda>_.
               rbind (assertr (respondEvent s2 = None) ''!respondEvent.scheduled()'') (\<lambda>_.
               rbind (schedule_event now (respondEvent s2) (readyTime (hd rest))) (\<lambda>e.
               Inr (s2\<lparr>respondEvent := e\<rparr>))))
             else Inr (if drainState s2 = Draining \<and> writeQueue s2 = [] \<and> readQueue s2 = []
                       then signalDrainDone s2 else s2)) (\<lambda>s3.
      Inr (if retryRdReq s3 then sendRetryReq (s3\<lparr>retryRdReq := False\<rparr>) else s3)))"

definition processRespondEvent :: "DRAMConfig \<Rightarrow> tick \<Rightarrow> DRAMCtrl \<Rightarrow> DRAMCtrl result" where
  "processRespondEvent cfg now s =
     (case respQueue s of
        [] \<Rightarrow> Inl HostFault
      | dp # rest \<Rightarrow> rbind (answer_burst cfg now dp s) (\<lambda>s1. next_response now rest s1))"

subsection \<open>Draining\<close>

definition drain :: "tick \<Rightarrow> DRAMCtrl \<Rightarrow> (DrainState \<times> DRAMCtrl) result" where
  "drain now s =
     (if \<not> (writeQueue s = [] \<and> readQueue s = [] \<and> respQueue s = []) then
        rbind (if writeQueue s \<noteq> [] then kick_nextReq now now s else Inr s) (\<lambda>s1. Inr (Draining, s1))
      else Inr (Drained, s))"

fun suspend_ranks :: "Rank list \<Rightarrow> Rank list result" where
  "suspend_ranks [] = Inr []"
| "suspend_ranks (r # rs) =
     rbind (rank_suspend r) (\<lambda>r'. rbind (suspend_ranks rs) (\<lambda>rs'. Inr (r' # rs')))"

definition drainResume :: "DRAMConfig \<Rightarrow> tick \<Rightarrow> bool \<Rightarrow> DRAMCtrl \<Rightarrow> DRAMCtrl result" where
  "drainResume cfg now timing s =
     rbind (if \<not> isTimingMode s \<and> timing then startup cfg now timing s
            else if isTimingMode s \<and> \<not> timing then
              rbind (suspend_ranks (ranks s)) (\<lambda>rs. Inr (s\<lparr>ranks := rs\<rparr>))
            else Inr s) (\<lambda>s1.
     Inr (s1\<lparr>isTimingMode := timing\<rparr>))"

definition dmDrain :: "tick \<Rightarrow> DRAMCtrl \<Rightarrow> (DrainState \<times> DRAMCtrl) result" where
  "dmDrain now s =
     rbind (drain now (s\<lparr>drainState := Draining\<rparr>)) (\<lambda>(st, s1). Inr (st, s1\<lparr>drainState := st\<rparr>))"

definition dmDrainResume :: "DRAMConfig \<Rightarrow> tick \<Rightarrow> bool \<Rightarrow> DRAMCtrl \<Rightarrow> DRAMCtrl result" where
  "dmDrainResume cfg now timing s =
     (if drainState s \<noteq> Drained then Inl (Panic ''Trying to resume an object that has not been drained'')
      else drainResume cfg now timing (s\<lparr>drainState := Running\<rparr>))"

end
