(* ===== verification/Dram_Loop.thy ===== *)
theory Dram_Loop
  imports Dram_Ctrl
begin

text \<open>
  Correctness of the DRAM controller: the effect of an access on the banks and the bus, the
  invariant of the controller, that the request loop, the response event and the acceptance of
  requests keep it without any assertion of the source firing, and the routing of responses.
\<close>


subsection \<open>Effects of an access\<close>

definition rank_step :: "DRAMConfig \<Rightarrow> nat \<Rightarrow> Rank \<Rightarrow> Rank \<Rightarrow> bool" where
  "rank_step cfg b r r' \<longleftrightarrow> rank_ok cfg r' \<and> rank_frame r r' \<and> banks_grow cfg b r r'"

lemma rank_step_refl: "rank_ok cfg r \<Longrightarrow> rank_step cfg b r r"
  by (simp add: rank_step_def banks_grow_def)

lemma rank_step_trans: "rank_step cfg b r s \<Longrightarrow> rank_step cfg b s t \<Longrightarrow> rank_step cfg b r t"
  unfolding rank_step_def by (blast intro: rank_frame_trans banks_grow_trans)

definition ranks_ok :: "DRAMConfig \<Rightarrow> Rank list \<Rightarrow> bool" where
  "ranks_ok cfg rs \<longleftrightarrow> length rs = ranksPerChannel cfg \<and> (\<forall>r \<in> set rs. rank_ok cfg r)"

lemma ranks_ok_nth: "ranks_ok cfg rs \<Longrightarrow> i < ranksPerChannel cfg \<Longrightarrow> rank_ok cfg (rs ! i)"
  by (simp add: ranks_ok_def)

lemma ranks_ok_put: "ranks_ok cfg rs \<Longrightarrow> rank_ok cfg r \<Longrightarrow> ranks_ok cfg (rs[i := r])"
  by (auto simp: ranks_ok_def dest: set_update_subset_insert [THEN subsetD])

lemma put_rank_simps [simp]:
  "ranks (put_rank i r s) = (ranks s)[i := r]" "timeStampOffset (put_rank i r s) = timeStampOffset s"
  "busBusyUntil (put_rank i r s) = busBusyUntil s" "readQueue (put_rank i r s) = readQueue s"
  "writeQueue (put_rank i r s) = writeQueue s" "pendingRowOps (put_rank i r s) = pendingRowOps s"
  "put_rank i r' (put_rank i r s) = put_rank i r' s" "put_rank i (ranks s ! i) s = s"
  by (simp_all add: put_rank_def)

lemma get_bank_put: "dp_rank dp < length (ranks s) \<Longrightarrow> get_bank dp (put_rank (dp_rank dp) r s) = banks r ! dp_bank dp"
  by (simp add: get_bank_def)

text \<open>What the access leaves alone.\<close>

definition same_queues :: "DRAMCtrl \<Rightarrow> DRAMCtrl \<Rightarrow> bool" where
  "same_queues s s' \<longleftrightarrow>
     readQueue s' = readQueue s \<and> writeQueue s' = writeQueue s \<and> respQueue s' = respQueue s \<and>
     respondEvent s' = respondEvent s \<and> nextReqEvent s' = nextReqEvent s \<and> busState s' = busState s \<and>
     isInWriteQueue s' = isInWriteQueue s \<and> helpers s' = helpers s \<and> retryRdReq s' = retryRdReq s \<and>
     retryWrReq s' = retryWrReq s \<and> drainState s' = drainState s \<and> dmem s' = dmem s \<and>
     portResps s' = portResps s \<and> timeStampOffset s' = timeStampOffset s \<and> isTimingMode s' = isTimingMode s \<and>
     pendingDelete s' = pendingDelete s \<and> retriesSent s' = retriesSent s \<and> drainSignals s' = drainSignals s"

lemma close_page_ok:
  assumes "ranks_ok cfg (ranks s)" "dp_ok cfg dp"
  shows "\<exists>r. close_page cfg now dp s = Inr (put_rank (dp_rank dp) r s) \<and> rank_step cfg (dp_bank dp) (ranks s ! dp_rank dp) r \<and>
    openRow (banks r ! dp_bank dp) = NO_ROW"
proof (cases "openRow (get_bank dp s) = NO_ROW")
  case True
  then have "close_page cfg now dp s = Inr (put_rank (dp_rank dp) (ranks s ! dp_rank dp) s)" by (simp add: close_page_def)
  then show ?thesis
    using True assms by (intro exI [of _ "ranks s ! dp_rank dp"])
      (auto simp: get_bank_def dp_ok_def intro: rank_step_refl ranks_ok_nth)
next
  case False
  have ok: "rank_ok cfg (ranks s ! dp_rank dp)" "dp_bank dp < banksPerRank cfg"
    using assms by (auto simp: dp_ok_def intro: ranks_ok_nth)
  let ?p = "max (preAllowedAt (get_bank dp s)) now"
  have "now \<le> ?p" by simp
  then have n: "now \<le> ?p + tRP cfg" by linarith
  obtain r where r: "prechargeBank cfg (timeStampOffset s) now (dp_bank dp) ?p True (ranks s ! dp_rank dp) = Inr r"
      "rank_ok cfg r" "after_pre cfg (dp_bank dp) ?p (ranks s ! dp_rank dp) r"
    using prechargeBank_ok [OF ok(1,2) _ n, of "timeStampOffset s" True] False unfolding get_bank_def by blast
  then show ?thesis using False by (auto simp: close_page_def rank_step_def after_pre_def)
qed

lemma open_page_ok:
  assumes "ranks_ok cfg (ranks s)" "dp_ok cfg dp" "dp_row dp \<noteq> NO_ROW"
  shows "\<exists>t r. open_page cfg now dp s = Inr (t, put_rank (dp_rank dp) r s) \<and> rank_step cfg (dp_bank dp) (ranks s ! dp_rank dp) r \<and>
    openRow (banks r ! dp_bank dp) = dp_row dp \<and> now \<le> t \<and> colAllowedAt (banks (ranks s ! dp_rank dp) ! dp_bank dp) \<le> t"
proof (cases "openRow (get_bank dp s) = dp_row dp")
  case True
  then have "open_page cfg now dp s =
      Inr (max (colAllowedAt (get_bank dp s)) now, put_rank (dp_rank dp) (ranks s ! dp_rank dp) s)"
    by (simp add: open_page_def)
  then show ?thesis
    using True assms by (intro exI [of _ "max (colAllowedAt (get_bank dp s)) now"] exI [of _ "ranks s ! dp_rank dp"])
      (auto simp: get_bank_def dp_ok_def intro: rank_step_refl ranks_ok_nth)
next
  case False
  let ?i = "dp_rank dp" and ?b = "dp_bank dp" and ?r0 = "ranks s ! dp_rank dp"
  have i: "?i < length (ranks s)" and b: "?b < banksPerRank cfg" and len: "length (banks ?r0) = banksPerRank cfg"
    using assms(1,2) ranks_ok_nth [OF assms(1), of ?i] by (auto simp: dp_ok_def ranks_ok_def rank_ok_def)
  obtain r1 where r1: "close_page cfg now dp s = Inr (put_rank ?i r1 s)" "rank_step cfg ?b ?r0 r1"
      "openRow (banks r1 ! ?b) = NO_ROW"
    using close_page_ok [OF assms(1,2)] by blast
  let ?t = "max (actAllowedAt (banks r1 ! ?b)) now"
  have ok1: "rank_ok cfg r1" using r1(2) by (simp add: rank_step_def)
  obtain r where r: "activateBank cfg (timeStampOffset s) now ?b ?t (dp_row dp) r1 = Inr r" "rank_ok cfg r"
      "after_act cfg ?b ?t r1 r" "openRow (banks r ! ?b) = dp_row dp"
      "colAllowedAt (banks r ! ?b) = max (?t + tRCD cfg) (colAllowedAt (banks r1 ! ?b))"
    using activateBank_ok [OF ok1 b r1(3) assms(3), of ?t now "timeStampOffset s"] by auto
  have st: "rank_step cfg ?b ?r0 r"
    using r(2,3) by (intro rank_step_trans [OF r1(2)]) (simp add: rank_step_def after_act_def)
  moreover have "open_page cfg now dp s = Inr (colAllowedAt (banks r ! ?b), put_rank ?i r s)"
    using False r1(1) r(1) i by (simp add: open_page_def get_bank_put get_bank_def)
  moreover have "colAllowedAt (banks ?r0 ! ?b) \<le> colAllowedAt (banks r ! ?b)"
    using st b len by (auto simp: rank_step_def banks_grow_def)
  ultimately show ?thesis using r(4,5) by auto
qed


text \<open>The effect of a whole access on the controller.\<close>

definition bank_time :: "DRAMCtrl \<Rightarrow> nat \<Rightarrow> nat \<Rightarrow> tick" where
  "bank_time s i j = colAllowedAt (banks (ranks s ! i) ! j)"

definition accessed :: "DRAMConfig \<Rightarrow> tick \<Rightarrow> DRAMPacket \<Rightarrow> DRAMCtrl \<Rightarrow> DRAMPacket \<Rightarrow> DRAMCtrl \<Rightarrow> bool" where
  "accessed cfg now dp s dp' s' \<longleftrightarrow>
     ranks_ok cfg (ranks s') \<and> same_queues s s' \<and> dp' = dp\<lparr>readyTime := busBusyUntil s'\<rparr> \<and> now \<le> busBusyUntil s' \<and>
     tRP cfg + tRCD cfg + tCL cfg \<le> busBusyUntil s' \<and>
     bank_time s (dp_rank dp) (dp_bank dp) + tCL cfg \<le> busBusyUntil s' \<and>
     (\<forall>i < ranksPerChannel cfg. rank_frame (ranks s ! i) (ranks s' ! i)) \<and>
     (\<forall>i < ranksPerChannel cfg. \<forall>j < banksPerRank cfg. bank_time s i j \<le> bank_time s' i j) \<and>
     pendingRowOps s' = pendingRowOps s - (if is_row_op dp then 1 else 0) \<and>
     (\<not> is_row_op dp \<longrightarrow> busBusyUntil s + tBURST cfg \<le> busBusyUntil s' \<and>
        (\<forall>i < ranksPerChannel cfg. \<forall>j < banksPerRank cfg. busBusyUntil s' \<le> bank_time s' i j + tCL cfg))"

lemma bank_time_put:
  assumes "ranks_ok cfg (ranks s)" "rank_step cfg b (ranks s ! i) r" "i < ranksPerChannel cfg" "i' < ranksPerChannel cfg"
    "j < banksPerRank cfg"
  shows "bank_time s i' j \<le> bank_time (put_rank i r s) i' j" "rank_frame (ranks s ! i') ((ranks s)[i := r] ! i')"
proof -
  have "length (banks (ranks s ! i)) = banksPerRank cfg" "length (ranks s) = ranksPerChannel cfg"
    using assms(1,3) ranks_ok_nth [OF assms(1,3)] by (auto simp: ranks_ok_def rank_ok_def)
  then show "bank_time s i' j \<le> bank_time (put_rank i r s) i' j" "rank_frame (ranks s ! i') ((ranks s)[i := r] ! i')"
    using assms(2-5) by (cases "i' = i"; auto simp: bank_time_def rank_step_def banks_grow_def)+
qed

lemma row_op_access_ok:
  assumes "ranks_ok cfg (ranks s)" "dp_ok cfg dp" "is_row_op dp" "dp_row_op dp \<noteq> None" "tRCD cfg \<le> tRAS cfg"
  shows "\<exists>dp' s'. row_op_access cfg now dp s = Inr (dp', s') \<and> accessed cfg now dp s dp' s'"
proof -
  let ?i = "dp_rank dp" and ?b = "dp_bank dp" and ?r0 = "ranks s ! dp_rank dp"
  have i: "?i < length (ranks s)" "?i < ranksPerChannel cfg" and b: "?b < banksPerRank cfg"
    using assms(1,2) by (auto simp: dp_ok_def ranks_ok_def)
  obtain op where op: "dp_row_op dp = Some op" using assms(4) by blast
  obtain r1 where r1: "close_page cfg now dp s = Inr (put_rank ?i r1 s)" "rank_step cfg ?b ?r0 r1" "openRow (banks r1 ! ?b) = NO_ROW"
    using close_page_ok [OF assms(1,2)] by blast
  let ?cmds = "row_op_cmds op (dp_row dp) (src1_row dp) (src2_row dp)"
  let ?t = "max (max (colAllowedAt (get_bank dp s)) now) (actAllowedAt (banks r1 ! ?b))"
  have ok1: "rank_ok cfg r1" using r1(2) by (simp add: rank_step_def)
  have t0: "actAllowedAt (banks r1 ! ?b) \<le> ?t" "now \<le> ?t" by simp_all
  obtain t r where r: "run_row_cmds cfg (timeStampOffset s) now ?b ?cmds ?t r1 = Inr (t, r)" "rank_ok cfg r" "rank_frame r1 r"
      "banks_grow cfg ?b r1 r" "?t + sum_list (map (row_cmd_time cfg) ?cmds) \<le> t"
    using run_row_cmds_ok [OF ok1 b r1(3) row_op_cmds_open t0, of "timeStampOffset s" op "dp_row dp" "src1_row dp" "src2_row dp"] by blast
  have st: "rank_step cfg ?b ?r0 r"
    using r by (intro rank_step_trans [OF r1(2)]) (simp add: rank_step_def)
  have "tRAS cfg + tRP cfg \<le> sum_list (map (row_cmd_time cfg) ?cmds)"
    by (cases op) (simp_all add: row_op_cmds_def)
  then have t: "tRAS cfg + tRP cfg \<le> t" "?t \<le> t" using r(5) by linarith+
  let ?s = "(put_rank ?i r s)\<lparr>activeRank := ?i, busBusyUntil := t + tCL cfg,
              nextReqTime := tick_sub (t + tCL cfg) (tRP cfg + tRCD cfg + tCL cfg), pendingRowOps := pendingRowOps s - 1\<rparr>"
  have "row_op_access cfg now dp s = Inr (dp\<lparr>readyTime := t + tCL cfg\<rparr>, ?s)"
    using r1(1) r(1) op i(1) by (simp add: row_op_access_def get_bank_put Let_def)
  moreover have "accessed cfg now dp s (dp\<lparr>readyTime := t + tCL cfg\<rparr>) ?s"
    unfolding accessed_def
  proof (intro conjI)
    show "ranks_ok cfg (ranks ?s)" using assms(1) r(2) by (simp add: ranks_ok_put)
    show "same_queues s ?s" by (simp add: same_queues_def put_rank_def)
    show "tRP cfg + tRCD cfg + tCL cfg \<le> busBusyUntil ?s" using t(1) assms(5) by simp
    show "bank_time s ?i ?b + tCL cfg \<le> busBusyUntil ?s" using t(2) by (simp add: bank_time_def get_bank_def)
    show "\<forall>i < ranksPerChannel cfg. rank_frame (ranks s ! i) (ranks ?s ! i)"
      using bank_time_put(2) [OF assms(1) st i(2) _ b] by simp
    show "\<forall>i < ranksPerChannel cfg. \<forall>j < banksPerRank cfg. bank_time s i j \<le> bank_time ?s i j"
      using bank_time_put(1) [OF assms(1) st i(2)] by (simp add: bank_time_def)
  qed (use t assms(3) in \<open>simp_all\<close>)
  ultimately show ?thesis by blast
qed


text \<open>The column access: the ranks after it, before a possible auto-precharge.\<close>

lemma hold_columns_nth:
  assumes "i < length rs"
  shows "hold_columns cfg rank gr t rs ! i =
    (rs ! i)\<lparr>banks := map (\<lambda>k. k\<lparr>colAllowedAt := max (t + cmd_dly cfg rank gr i k) (colAllowedAt k)\<rparr>) (banks (rs ! i))\<rparr>"
  using assms by (simp add: hold_columns_def all_banks_def)

lemma rank_ok_columns:
  assumes "rank_ok cfg r"
  shows "rank_ok cfg (r\<lparr>banks := map (\<lambda>k. k\<lparr>colAllowedAt := f k\<rparr>) (banks r)\<rparr>)"
  using assms by (simp add: rank_ok_def open_banks_map act_window_def)

lemma rank_ok_update:
  assumes "rank_ok cfg r" "b < length (banks r)" "openRow k = openRow (banks r ! b)" "actAllowedAt k = actAllowedAt (banks r ! b)"
  shows "rank_ok cfg (r\<lparr>banks := (banks r)[b := k]\<rparr>)"
  using assms by (intro rank_ok_raise) simp_all

lemma cmd_dly_ge: "(bankGroupArch cfg \<Longrightarrow> tBURST cfg \<le> tCCD_L cfg) \<Longrightarrow> tBURST cfg \<le> cmd_dly cfg rank gr j k"
  by (simp add: cmd_dly_def)


text \<open>The ranks with the column delays and the updated bank.\<close>

definition held_ranks :: "DRAMConfig \<Rightarrow> DRAMPacket \<Rightarrow> tick \<Rightarrow> (Bank \<Rightarrow> Bank) \<Rightarrow> Rank list \<Rightarrow> Rank list" where
  "held_ranks cfg dp t f rs =
     (let rs1 = hold_columns cfg (dp_rank dp) (bankgr (banks (rs ! dp_rank dp) ! dp_bank dp)) t rs
      in rs1[dp_rank dp := set_bank (dp_bank dp) f (rs1 ! dp_rank dp)])"

lemma held_ranks_ok:
  assumes "ranks_ok cfg rs" "dp_ok cfg dp" "\<And>k. openRow (f k) = openRow k" "\<And>k. actAllowedAt (f k) = actAllowedAt k"
    "\<And>k. colAllowedAt (f k) = colAllowedAt k" and grp: "bankGroupArch cfg \<Longrightarrow> tBURST cfg \<le> tCCD_L cfg"
  shows "ranks_ok cfg (held_ranks cfg dp t f rs)"
    "\<And>i. i < ranksPerChannel cfg \<Longrightarrow> rank_frame (rs ! i) (held_ranks cfg dp t f rs ! i)"
    "\<And>i j. i < ranksPerChannel cfg \<Longrightarrow> j < banksPerRank cfg \<Longrightarrow>
       max (t + tBURST cfg) (colAllowedAt (banks (rs ! i) ! j)) \<le> colAllowedAt (banks (held_ranks cfg dp t f rs ! i) ! j)"
    "openRow (banks (held_ranks cfg dp t f rs ! dp_rank dp) ! dp_bank dp) = openRow (banks (rs ! dp_rank dp) ! dp_bank dp)"
proof -
  let ?gr = "bankgr (banks (rs ! dp_rank dp) ! dp_bank dp)" and ?i = "dp_rank dp" and ?b = "dp_bank dp"
  let ?h = "hold_columns cfg ?i ?gr t rs"
  have len: "length rs = ranksPerChannel cfg" "length ?h = ranksPerChannel cfg"
    using assms(1) by (simp_all add: ranks_ok_def hold_columns_def)
  have i: "?i < ranksPerChannel cfg" "?b < banksPerRank cfg" using assms(2) by (simp_all add: dp_ok_def)
  have lb: "length (banks (rs ! i)) = banksPerRank cfg" if "i < ranksPerChannel cfg" for i
    using ranks_ok_nth [OF assms(1) that] by (simp add: rank_ok_def)
  have hn: "?h ! i = (rs ! i)\<lparr>banks := map (\<lambda>k. k\<lparr>colAllowedAt := max (t + cmd_dly cfg ?i ?gr i k) (colAllowedAt k)\<rparr>) (banks (rs ! i))\<rparr>"
    if "i < ranksPerChannel cfg" for i using that len by (simp add: hold_columns_nth)
  have hok: "rank_ok cfg (?h ! i)" if "i < ranksPerChannel cfg" for i
    using rank_ok_columns [OF ranks_ok_nth [OF assms(1) that]] hn [OF that] by simp
  have bok: "rank_ok cfg (set_bank ?b f (?h ! ?i))"
    unfolding set_bank_def using hok [OF i(1)] assms(3,4) i lb by (intro rank_ok_update) (simp_all add: hn)
  have "ranks_ok cfg ?h" using hok len(2) by (simp add: ranks_ok_def all_set_conv_all_nth)
  then show "ranks_ok cfg (held_ranks cfg dp t f rs)"
    using bok by (simp add: held_ranks_def Let_def ranks_ok_put)
  show "rank_frame (rs ! i) (held_ranks cfg dp t f rs ! i)" if "i < ranksPerChannel cfg" for i
    using that len by (cases "i = ?i") (simp_all add: held_ranks_def Let_def hn rank_frame_def set_bank_def)
  show "max (t + tBURST cfg) (colAllowedAt (banks (rs ! i) ! j)) \<le> colAllowedAt (banks (held_ranks cfg dp t f rs ! i) ! j)"
    if "i < ranksPerChannel cfg" "j < banksPerRank cfg" for i j
  proof -
    have "colAllowedAt (banks (held_ranks cfg dp t f rs ! i) ! j) = colAllowedAt (banks (?h ! i) ! j)"
      using that len lb assms(5) i by (cases "i = ?i"; cases "j = ?b") (simp_all add: held_ranks_def Let_def set_bank_def hn)
    moreover have "tBURST cfg \<le> cmd_dly cfg ?i ?gr i k" for k using cmd_dly_ge [OF grp] by blast
    ultimately show ?thesis using that lb by (simp add: hn max.coboundedI1)
  qed
  show "openRow (banks (held_ranks cfg dp t f rs ! ?i) ! ?b) = openRow (banks (rs ! ?i) ! ?b)"
    using len lb assms(3) i by (simp add: held_ranks_def Let_def set_bank_def hn)
qed


lemma doCommand_simps [simp]:
  "banks (doCommand cfg tso c b t r) = banks r" "rank_ok cfg' (doCommand cfg tso c b t r) = rank_ok cfg' r"
  "rank_frame r0 (doCommand cfg tso c b t r) = rank_frame r0 r"
  by (simp_all add: doCommand_def rank_ok_def act_window_def rank_frame_def)

lemma column_access_ok:
  assumes rs: "ranks_ok cfg (ranks s)" and dp: "dp_ok cfg dp" and opened: "openRow (get_bank dp s) \<noteq> NO_ROW"
    and bus: "tCL cfg \<le> busBusyUntil s" and grp: "bankGroupArch cfg \<Longrightarrow> tBURST cfg \<le> tCCD_L cfg"
  shows "\<exists>s'. column_access cfg now dp t0 s = Inr (dp\<lparr>readyTime := busBusyUntil s'\<rparr>, s') \<and> ranks_ok cfg (ranks s') \<and>
    same_queues s s' \<and> pendingRowOps s' = pendingRowOps s \<and>
    busBusyUntil s' = max t0 (busBusyUntil s - tCL cfg) + tCL cfg + tBURST cfg \<and>
    (\<forall>i < ranksPerChannel cfg. rank_frame (ranks s ! i) (ranks s' ! i)) \<and>
    (\<forall>i < ranksPerChannel cfg. \<forall>j < banksPerRank cfg.
       max (busBusyUntil s' - tCL cfg) (bank_time s i j) \<le> bank_time s' i j)"
proof -
  let ?i = "dp_rank dp" and ?b = "dp_bank dp"
  let ?cmd = "max t0 (busBusyUntil s - tCL cfg)"
  let ?ready = "?cmd + tCL cfg + tBURST cfg"
  let ?f = "\<lambda>k. k\<lparr>preAllowedAt := max (preAllowedAt k) (if dp_isRead dp then ?cmd + tRTP cfg else ?ready + tWR cfg),
                 bytesAccessed := bytesAccessed k + burstSize cfg, rowAccesses := rowAccesses k + 1\<rparr>"
  define R where "R = held_ranks cfg dp ?cmd ?f (ranks s)"
  let ?s2 = "s\<lparr>ranks := R, activeRank := ?i\<rparr>"
  let ?q = "if dp_isRead dp then readQueue s else writeQueue s"
  have i: "?i < ranksPerChannel cfg" "?b < banksPerRank cfg" "length (ranks s) = ranksPerChannel cfg"
    using dp rs by (simp_all add: dp_ok_def ranks_ok_def)
  have h1: "ranks_ok cfg R" unfolding R_def by (rule held_ranks_ok(1) [OF rs dp _ _ _ grp]) simp_all
  have "openRow (banks (R ! ?i) ! ?b) = openRow (banks (ranks s ! ?i) ! ?b)"
    unfolding R_def by (rule held_ranks_ok(4) [OF rs dp _ _ _ grp]) simp_all
  then have h2: "openRow (banks (R ! ?i) ! ?b) \<noteq> NO_ROW" using opened by (simp add: get_bank_def)
  have h3: "length R = ranksPerChannel cfg" using h1 by (simp add: ranks_ok_def)
  have h4: "rank_frame (ranks s ! i) (R ! i)" if "i < ranksPerChannel cfg" for i
    unfolding R_def by (rule held_ranks_ok(2) [OF rs dp _ _ _ grp]) (use that in simp_all)
  have h5: "max (?cmd + tBURST cfg) (bank_time s i j) \<le> colAllowedAt (banks (R ! i) ! j)"
    if "i < ranksPerChannel cfg" "j < banksPerRank cfg" for i j
    unfolding bank_time_def R_def by (rule held_ranks_ok(3) [OF rs dp _ _ _ grp]) (use that in simp_all)
  let ?pre = "max now (preAllowedAt (banks (R ! ?i) ! ?b))"
  have "now \<le> ?pre + tRP cfg" by linarith
  then obtain r where r: "prechargeBank cfg (timeStampOffset s) now ?b ?pre True (R ! ?i) = Inr r" "rank_step cfg ?b (R ! ?i) r"
    using prechargeBank_ok [OF ranks_ok_nth [OF h1 i(1)] i(2) h2, of now ?pre "timeStampOffset s" True]
    unfolding rank_step_def after_pre_def by blast
  define r' where "r' = (if auto_precharge cfg dp ?q (banks (R ! ?i) ! ?b) then r else R ! ?i)"
  have r': "rank_step cfg ?b (R ! ?i) r'"
    using r(2) rank_step_refl [OF ranks_ok_nth [OF h1 i(1)]] by (simp add: r'_def)
  let ?d = "doCommand cfg (timeStampOffset s) (if dp_isRead dp then CMD_RD else CMD_WR) ?b ?cmd r'"
  define s' where "s' = (put_rank ?i ?d ?s2)\<lparr>busBusyUntil := ?ready, nextReqTime := tick_sub ?ready (tRP cfg + tRCD cfg + tCL cfg),
       readsThisTime := readsThisTime s + (if dp_isRead dp then 1 else 0),
       writesThisTime := writesThisTime s + (if dp_isRead dp then 0 else 1)\<rparr>"
  have s': "ranks s' = R[?i := ?d]" "busBusyUntil s' = ?ready" "pendingRowOps s' = pendingRowOps s" "same_queues s s'"
    by (simp_all add: s'_def same_queues_def put_rank_def)
  have ranks_in: "ranks (s\<lparr>ranks := x, activeRank := y\<rparr>) = x" for x y by simp
  have c: "max t0 (tick_sub (busBusyUntil s) (tCL cfg)) = ?cmd" "tBURST cfg \<le> tick_sub ?ready (busBusyUntil s)"
    using bus by simp_all
  have s2: "put_rank ?i (set_bank ?b ?f (hold_columns cfg ?i (bankgr (get_bank dp s)) ?cmd (ranks s) ! ?i))
      (s\<lparr>ranks := hold_columns cfg ?i (bankgr (get_bank dp s)) ?cmd (ranks s), activeRank := ?i\<rparr>) = ?s2"
    by (simp add: put_rank_def R_def held_ranks_def Let_def get_bank_def)
  have "get_bank dp ?s2 = banks (R ! ?i) ! ?b" by (simp add: get_bank_def)
  then have step: "(if auto_precharge cfg dp (if dp_isRead dp then readQueue ?s2 else writeQueue ?s2) (get_bank dp ?s2) then
        rbind (prechargeBank cfg (timeStampOffset ?s2) now ?b (max now (preAllowedAt (get_bank dp ?s2))) True (ranks ?s2 ! ?i))
          (\<lambda>r. Inr (put_rank ?i r ?s2)) else Inr ?s2) = Inr (put_rank ?i r' ?s2)"
    using r(1) by (simp add: r'_def) (simp add: put_rank_def)
  have eq: "column_access cfg now dp t0 s = Inr (dp\<lparr>readyTime := ?ready\<rparr>, s')"
    unfolding column_access_def Let_def c(1) ranks_in s2 step [unfolded ranks_in] using c(2) h3 i(1) by (simp add: s'_def put_rank_def)
  have ok: "ranks_ok cfg (ranks s')" unfolding s' using h1 r' by (simp add: rank_step_def ranks_ok_put)
  have frame: "rank_frame (ranks s ! j) (ranks s' ! j)" if "j < ranksPerChannel cfg" for j
    unfolding s' using h3 h4 [OF that] r' rank_frame_trans [of "ranks s ! j" "R ! j" r'] that
    by (cases "j = ?i") (auto simp: rank_step_def)
  have time: "max (?cmd + tBURST cfg) (bank_time s k j) \<le> bank_time s' k j"
    if "k < ranksPerChannel cfg" "j < banksPerRank cfg" for k j
  proof -
    have "length (banks (R ! k)) = banksPerRank cfg" using ranks_ok_nth [OF h1 that(1)] by (simp add: rank_ok_def)
    then have "colAllowedAt (banks (R ! k) ! j) \<le> bank_time s' k j"
      unfolding bank_time_def s' using r' h3 that by (cases "k = ?i") (auto simp: rank_step_def banks_grow_def)
    then show ?thesis using h5 [OF that] by (rule order_trans [rotated])
  qed
  have "?ready - tCL cfg = ?cmd + tBURST cfg" by simp
  then show ?thesis using eq ok frame time s' by (intro exI [of _ s']) metis
qed


lemma doDRAMAccess_ok:
  assumes "ranks_ok cfg (ranks s)" "dp_ok cfg dp" "dp_row dp \<noteq> NO_ROW" "is_row_op dp \<longrightarrow> dp_row_op dp \<noteq> None"
    "tRP cfg + tRCD cfg + tCL cfg \<le> busBusyUntil s"
    "tRCD cfg \<le> tRAS cfg" "bankGroupArch cfg \<longrightarrow> tBURST cfg \<le> tCCD_L cfg"
  shows "\<exists>dp' s'. doDRAMAccess cfg now dp s = Inr (dp', s') \<and> accessed cfg now dp s dp' s'"
proof (cases "is_row_op dp")
  case True
  then show ?thesis using row_op_access_ok [OF assms(1,2)] assms(4,6) by (simp add: doDRAMAccess_def)
next
  case False
  let ?i = "dp_rank dp" and ?b = "dp_bank dp"
  have i: "?i < ranksPerChannel cfg" "?b < banksPerRank cfg" "?i < length (ranks s)"
    using assms(1,2) by (auto simp: dp_ok_def ranks_ok_def)
  obtain t r where o: "open_page cfg now dp s = Inr (t, put_rank ?i r s)" "rank_step cfg ?b (ranks s ! ?i) r"
      "openRow (banks r ! ?b) = dp_row dp" "now \<le> t" "bank_time s ?i ?b \<le> t"
    using open_page_ok [OF assms(1-3)] unfolding bank_time_def by blast
  let ?s1 = "put_rank ?i r s"
  have rs1: "ranks_ok cfg (ranks ?s1)" using assms(1) o(2) by (simp add: rank_step_def ranks_ok_put)
  obtain s' where c: "column_access cfg now dp t ?s1 = Inr (dp\<lparr>readyTime := busBusyUntil s'\<rparr>, s')" "ranks_ok cfg (ranks s')"
      "same_queues ?s1 s'" "pendingRowOps s' = pendingRowOps s"
      "busBusyUntil s' = max t (busBusyUntil s - tCL cfg) + tCL cfg + tBURST cfg"
      "\<forall>i < ranksPerChannel cfg. rank_frame (ranks ?s1 ! i) (ranks s' ! i)"
      "\<forall>i < ranksPerChannel cfg. \<forall>j < banksPerRank cfg. max (busBusyUntil s' - tCL cfg) (bank_time ?s1 i j) \<le> bank_time s' i j"
    using column_access_ok [OF rs1 assms(2), of now t] assms(3,5,7) o(3) i(3) by (auto simp: get_bank_put)
  have "accessed cfg now dp s (dp\<lparr>readyTime := busBusyUntil s'\<rparr>) s'"
    unfolding accessed_def
  proof (intro conjI impI)
    show "same_queues s s'" using c(3) by (simp add: same_queues_def put_rank_def)
    show "\<forall>i < ranksPerChannel cfg. rank_frame (ranks s ! i) (ranks s' ! i)"
      using c(6) bank_time_put(2) [OF assms(1) o(2) i(1) _ i(2)] rank_frame_trans by (metis put_rank_simps(1))
    show "\<forall>i < ranksPerChannel cfg. \<forall>j < banksPerRank cfg. bank_time s i j \<le> bank_time s' i j"
      using c(7) bank_time_put(1) [OF assms(1) o(2) i(1)] by (meson max.boundedE order_trans)
    show "\<forall>i < ranksPerChannel cfg. \<forall>j < banksPerRank cfg. busBusyUntil s' \<le> bank_time s' i j + tCL cfg"
      using c(7) le_diff_conv by auto
  qed (use c(2,4,5) o(4,5) assms(5) False in auto)
  then show ?thesis using False o(1) c(1) by (auto simp: doDRAMAccess_def)
qed

subsection \<open>The invariant of the controller\<close>

definition pkt_fits :: "DRAMConfig \<Rightarrow> DRAMPacket \<Rightarrow> bool" where
  "pkt_fits cfg p \<longleftrightarrow> dp_ok cfg p \<and> dp_row p \<noteq> NO_ROW \<and> dp_size p \<le> burstSize cfg \<and> (is_row_op p \<longrightarrow> dp_row_op p \<noteq> None)"

definition row_ops_in :: "DRAMPacket list \<Rightarrow> int" where
  "row_ops_in q = int (length (filter is_row_op q))"

definition draining_ok :: "Rank list \<Rightarrow> bool" where
  "draining_ok rs \<longleftrightarrow> (\<forall>r \<in> set rs. refreshState r = REF_DRAIN \<longrightarrow> refreshEvent r = None)"

definition resp_ok :: "DRAMConfig \<Rightarrow> DRAMCtrl \<Rightarrow> bool" where
  "resp_ok cfg s \<longleftrightarrow> sorted_wrt (\<lambda>p q. readyTime p + tBURST cfg \<le> readyTime q) (respQueue s) \<and>
     respondEvent s = (if respQueue s = [] then None else Some (readyTime (hd (respQueue s)))) \<and>
     (\<forall>p \<in> set (respQueue s). readyTime p \<le> busBusyUntil s \<and>
        (\<forall>i < ranksPerChannel cfg. \<forall>j < banksPerRank cfg. readyTime p \<le> bank_time s i j + tCL cfg))"

definition core_ok :: "DRAMConfig \<Rightarrow> DRAMCtrl \<Rightarrow> bool" where
  "core_ok cfg s \<longleftrightarrow> ranks_ok cfg (ranks s) \<and> draining_ok (ranks s) \<and> resp_ok cfg s \<and>
     tRP cfg + tRCD cfg + tCL cfg \<le> busBusyUntil s"

definition write_index :: "DRAMConfig \<Rightarrow> DRAMPacket list \<Rightarrow> addr set" where
  "write_index cfg q = (\<lambda>p. burstAlign cfg (dp_addr p)) ` {p \<in> set q. \<not> is_row_op p}"

definition queues_ok :: "DRAMConfig \<Rightarrow> DRAMCtrl \<Rightarrow> bool" where
  "queues_ok cfg s \<longleftrightarrow>
     (\<forall>p \<in> set (readQueue s). pkt_fits cfg p \<and> \<not> is_row_op p) \<and> (\<forall>p \<in> set (writeQueue s). pkt_fits cfg p) \<and>
     pendingRowOps s = row_ops_in (writeQueue s) \<and>
     (busState s = READ_TO_WRITE \<or> busState s = WRITE \<longrightarrow> writeQueue s \<noteq> []) \<and>
     length (readQueue s) + length (respQueue s) \<le> readBufferSize cfg \<and> length (writeQueue s) \<le> writeBufferSize cfg \<and>
     isInWriteQueue s \<subseteq> write_index cfg (writeQueue s)"

definition ctrl_ok :: "DRAMConfig \<Rightarrow> DRAMCtrl \<Rightarrow> bool" where
  "ctrl_ok cfg s \<longleftrightarrow> core_ok cfg s \<and> queues_ok cfg s"

definition timing_ok :: "DRAMConfig \<Rightarrow> bool" where
  "timing_ok cfg \<longleftrightarrow> tRCD cfg \<le> tRAS cfg \<and> (bankGroupArch cfg \<longrightarrow> tBURST cfg \<le> tCCD_L cfg)"

lemma notify_ranks_ok:
  assumes "draining_ok rs"
  shows "\<exists>rs'. notify_ranks now rs = Inr (length (filter (\<lambda>r. \<not> isAvailable r) rs), rs') \<and> map banks rs' = map banks rs \<and>
    map isAvailable rs' = map isAvailable rs \<and> (\<forall>cfg. list_all (rank_ok cfg) rs' = list_all (rank_ok cfg) rs) \<and> draining_ok rs'"
  using assms
proof (induction rs)
  case Nil
  then show ?case by (simp add: draining_ok_def)
next
  case (Cons r rs)
  obtain rs' where rs': "notify_ranks now rs = Inr (length (filter (\<lambda>r. \<not> isAvailable r) rs), rs')" "map banks rs' = map banks rs"
      "map isAvailable rs' = map isAvailable rs" "\<And>cfg. list_all (rank_ok cfg) rs' = list_all (rank_ok cfg) rs" "draining_ok rs'"
    using Cons by (auto simp: draining_ok_def)
  define r' where "r' = (if refreshState r = REF_DRAIN then r\<lparr>refreshState := REF_PRE, refreshEvent := Some now\<rparr> else r)"
  have "checkDrainDone now r = Inr r'"
    using Cons.prems by (auto simp: checkDrainDone_def schedule_event_def r'_def draining_ok_def Let_def)
  moreover have "isAvailable r \<Longrightarrow> r' = r" "banks r' = banks r" "isAvailable r' = isAvailable r" "\<And>cfg. rank_ok cfg r' = rank_ok cfg r"
      "refreshState r' \<noteq> REF_DRAIN"
    by (auto simp: r'_def isAvailable_def rank_ok_def act_window_def)
  ultimately show ?case using rs' by (auto simp: draining_ok_def)
qed

lemma sched_ok_banks:
  assumes "sched_ok cfg now rs []" "map banks rs' = map banks rs" "length rs = ranksPerChannel cfg" "\<forall>p \<in> set q. dp_ok cfg p"
  shows "sched_ok cfg now rs' q"
proof -
  have "bank_at cfg rs' n = bank_at cfg rs n" if "n < ranksPerChannel cfg * banksPerRank cfg" for n
  proof -
    have "n div banksPerRank cfg < length rs" using that assms(3) by (simp add: less_mult_imp_div_less)
    moreover have "length rs' = length rs" using assms(2) by (metis length_map)
    ultimately have "banks (rs' ! (n div banksPerRank cfg)) = banks (rs ! (n div banksPerRank cfg))"
      using assms(2) by (metis nth_map)
    then show ?thesis by (simp add: bank_at_def)
  qed
  then show ?thesis using assms(1,4) by (auto simp: sched_ok_def)
qed

lemma accessed_core:
  assumes "accessed cfg now dp s dp' s'" "dp_ok cfg dp" "core_ok cfg s"
  shows "core_ok cfg s'"
proof -
  have q: "respQueue s' = respQueue s" "respondEvent s' = respondEvent s" and rs: "ranks_ok cfg (ranks s')" "ranks_ok cfg (ranks s)"
    using assms(1,3) by (simp_all add: accessed_def same_queues_def core_ok_def)
  have b: "readyTime p \<le> bank_time s' i j + tCL cfg" if "p \<in> set (respQueue s)" "i < ranksPerChannel cfg" "j < banksPerRank cfg" for p i j
  proof -
    have "readyTime p \<le> bank_time s i j + tCL cfg" using assms(3) that by (simp add: core_ok_def resp_ok_def)
    moreover have "bank_time s i j \<le> bank_time s' i j" using assms(1) that by (simp add: accessed_def)
    ultimately show ?thesis by linarith
  qed
  have "readyTime p \<le> busBusyUntil s'" if "p \<in> set (respQueue s)" for p
  proof -
    have "readyTime p \<le> bank_time s (dp_rank dp) (dp_bank dp) + tCL cfg"
      using assms(2,3) that by (simp add: core_ok_def resp_ok_def dp_ok_def)
    then show ?thesis using assms(1) by (simp add: accessed_def)
  qed
  then have "resp_ok cfg s'" using assms(3) q b by (simp add: core_ok_def resp_ok_def)
  moreover have "draining_ok (ranks s')"
  proof -
    have "rank_frame (ranks s ! i) (ranks s' ! i)" "draining_ok (ranks s)" if "i < ranksPerChannel cfg" for i
      using assms(1,3) that by (simp_all add: accessed_def core_ok_def)
    then show ?thesis using rs by (auto simp: draining_ok_def all_set_conv_all_nth ranks_ok_def rank_frame_def)
  qed
  ultimately show ?thesis using assms(1) by (simp add: core_ok_def accessed_def)
qed

text \<open>What one round of the loop does to the queues: nothing, a read moved to the response queue after a
  burst on the data bus, or a write or row operation issued.\<close>

definition loop_step :: "DRAMConfig \<Rightarrow> DRAMCtrl \<Rightarrow> DRAMCtrl \<Rightarrow> bool" where
  "loop_step cfg s s' \<longleftrightarrow> helpers s' = helpers s \<and> dmem s' = dmem s \<and> portResps s' = portResps s \<and>
    ((mset (readQueue s') = mset (readQueue s) \<and> mset (writeQueue s') = mset (writeQueue s) \<and> respQueue s' = respQueue s) \<or>
     (\<exists>p \<in> set (readQueue s). isAvailable (ranks s ! dp_rank p) \<and> add_mset p (mset (readQueue s')) = mset (readQueue s) \<and>
        mset (writeQueue s') = mset (writeQueue s) \<and> respQueue s' = respQueue s @ [p\<lparr>readyTime := busBusyUntil s'\<rparr>] \<and>
        busBusyUntil s + tBURST cfg \<le> busBusyUntil s') \<or>
     (\<exists>p \<in> set (writeQueue s). isAvailable (ranks s ! dp_rank p) \<and> add_mset p (mset (writeQueue s')) = mset (writeQueue s) \<and>
        readQueue s' = readQueue s \<and> respQueue s' = respQueue s))"

lemma row_ops_in_mset: "mset q = mset q' \<Longrightarrow> row_ops_in q = row_ops_in q'"
  by (metis row_ops_in_def mset_filter size_mset)

lemma core_ok_upd [simp]:
  "core_ok cfg (s\<lparr>readQueue := q\<rparr>) = core_ok cfg s" "core_ok cfg (s\<lparr>writeQueue := q\<rparr>) = core_ok cfg s"
  "core_ok cfg (s\<lparr>busState := b\<rparr>) = core_ok cfg s" "core_ok cfg (s\<lparr>isInWriteQueue := w\<rparr>) = core_ok cfg s"
  "core_ok cfg (s\<lparr>readsThisTime := n\<rparr>) = core_ok cfg s" "core_ok cfg (s\<lparr>writesThisTime := n\<rparr>) = core_ok cfg s"
  "core_ok cfg (s\<lparr>nextReqEvent := e\<rparr>) = core_ok cfg s" "core_ok cfg (s\<lparr>retryWrReq := f\<rparr>) = core_ok cfg s"
  "core_ok cfg (s\<lparr>pendingRowOps := k\<rparr>) = core_ok cfg s"
  by (simp_all add: core_ok_def resp_ok_def bank_time_def get_bank_def)

lemma core_ok_bus: "core_ok cfg s \<Longrightarrow> busBusyUntil s \<le> t \<Longrightarrow> core_ok cfg (s\<lparr>busBusyUntil := t\<rparr>)"
  by (auto simp add: core_ok_def resp_ok_def bank_time_def get_bank_def)

lemma core_ok_push:
  assumes "core_ok cfg s" "readyTime p \<le> busBusyUntil s" "\<forall>q \<in> set (respQueue s). readyTime q + tBURST cfg \<le> readyTime p"
    "\<forall>i < ranksPerChannel cfg. \<forall>j < banksPerRank cfg. readyTime p \<le> bank_time s i j + tCL cfg"
    "e = (if respQueue s = [] then Some (readyTime p) else respondEvent s)"
  shows "core_ok cfg (s\<lparr>respondEvent := e, respQueue := respQueue s @ [p]\<rparr>)"
  using assms by (auto simp: core_ok_def resp_ok_def bank_time_def get_bank_def sorted_wrt_append)

definition picked :: "Rank list \<Rightarrow> DRAMPacket list \<Rightarrow> bool \<Rightarrow> DRAMPacket list \<Rightarrow> bool" where
  "picked rs q found q' \<longleftrightarrow> mset q' = mset q \<and> found = (\<exists>p \<in> set q. isAvailable (rs ! dp_rank p)) \<and>
     (found \<longrightarrow> isAvailable (rs ! dp_rank (hd q')) \<and> hd q' \<in> set q \<and> add_mset (hd q') (mset (tl q')) = mset q)"

lemma pick_ok:
  assumes "sched_ok cfg now rs q" "q \<noteq> []"
  shows "\<exists>found q'. chooseNext cfg now bus rs q extra = Inr (found, q') \<and> picked rs q found q'"
proof -
  have "\<forall>p \<in> set q. schedulable cfg now rs p" using assms(1) by (simp add: schedulable_def sched_ok_def)
  from arb.pick_takes [OF this assms(2), of bus extra] show ?thesis by (auto simp: picked_def)
qed

text \<open>The work left to the loop, counting the turn of the bus it takes before a write when no read waits.\<close>

definition work :: "DRAMCtrl \<Rightarrow> nat" where
  "work s = 2 * (length (readQueue s) + length (writeQueue s)) +
     (if (busState s = READ \<or> busState s = WRITE_TO_READ) \<and> readQueue s = [] \<and> writeQueue s \<noteq> [] then 1 else 0)"

definition all_available :: "DRAMCtrl \<Rightarrow> bool" where
  "all_available s \<longleftrightarrow> (\<forall>r \<in> set (ranks s). isAvailable r)"

definition queued :: "DRAMCtrl \<Rightarrow> bool" where
  "queued s \<longleftrightarrow> readQueue s \<noteq> [] \<or> writeQueue s \<noteq> []"

definition advances :: "DRAMCtrl \<Rightarrow> DRAMCtrl \<Rightarrow> bool" where
  "advances s s' \<longleftrightarrow> (all_available s \<and> drainState s = Draining \<and> queued s \<longrightarrow>
     work s' < work s \<and> drainState s' = Draining \<and> all_available s')"

lemma accessed_available:
  assumes "accessed cfg now dp s dp' s'" "ranks_ok cfg (ranks s)" "all_available s"
  shows "all_available s'"
proof -
  have "\<forall>i < ranksPerChannel cfg. isAvailable (ranks s' ! i) = isAvailable (ranks s ! i)" "length (ranks s') = ranksPerChannel cfg"
      "length (ranks s) = ranksPerChannel cfg"
    using assms(1,2) by (simp_all add: accessed_def rank_frame_def isAvailable_def ranks_ok_def)
  then show ?thesis using assms(3) by (simp add: all_available_def all_set_conv_all_nth)
qed

lemma available_rank: "all_available s \<Longrightarrow> ranks_ok cfg (ranks s) \<Longrightarrow> dp_ok cfg p \<Longrightarrow> isAvailable (ranks s ! dp_rank p)"
  by (simp add: all_available_def ranks_ok_def dp_ok_def)

lemma access_round:
  assumes core: "core_ok cfg s" and fits: "pkt_fits cfg dp" and t: "timing_ok cfg"
    and s2: "s2 = (if c then s1\<lparr>busBusyUntil := busBusyUntil s1 + d\<rparr> else s1)" and s1: "core_ok cfg s1" "busBusyUntil s1 = busBusyUntil s"
  shows "\<exists>dp' s3. doDRAMAccess cfg now dp s2 = Inr (dp', s3) \<and> accessed cfg now dp s2 dp' s3 \<and> core_ok cfg s3 \<and> (all_available s1 \<longrightarrow> all_available s3) \<and>
    same_queues s1 s3 \<and> pendingRowOps s3 = pendingRowOps s1 - (if is_row_op dp then 1 else 0) \<and> dp' = dp\<lparr>readyTime := busBusyUntil s3\<rparr> \<and>
    (\<not> is_row_op dp \<longrightarrow> busBusyUntil s + tBURST cfg \<le> busBusyUntil s3 \<and> (\<forall>q \<in> set (respQueue s1). readyTime q + tBURST cfg \<le> busBusyUntil s3))"
proof -
  have core2: "core_ok cfg s2" using s1 s2 core_ok_bus [OF s1(1), of "busBusyUntil s1 + d"] by simp
  then obtain dp' s3 where d: "doDRAMAccess cfg now dp s2 = Inr (dp', s3)" and a: "accessed cfg now dp s2 dp' s3"
    using doDRAMAccess_ok [of cfg s2 dp now] fits t by (auto simp: core_ok_def pkt_fits_def timing_ok_def)
  have "core_ok cfg s3" using accessed_core [OF a _ core2] fits by (simp add: pkt_fits_def)
  moreover have "same_queues s1 s3" using a s2 by (simp add: accessed_def same_queues_def split: if_splits)
  moreover have "pendingRowOps s3 = pendingRowOps s1 - (if is_row_op dp then 1 else 0)"
    using a s2 by (simp add: accessed_def split: if_splits)
  moreover have "busBusyUntil s1 \<le> busBusyUntil s2" using s2 by simp
  moreover have "all_available s1 \<longrightarrow> all_available s3"
    using accessed_available [OF a] core2 s2 by (simp add: core_ok_def all_available_def split: if_splits)
  moreover have "\<forall>q \<in> set (respQueue s1). readyTime q \<le> busBusyUntil s1" using s1(1) by (simp add: core_ok_def resp_ok_def)
  ultimately show ?thesis using d a s1(2) by (fastforce simp: accessed_def)
qed

lemma push_response_ok:
  assumes "now \<le> readyTime dp" "respondEvent s = None \<longleftrightarrow> respQueue s = []" "\<forall>q \<in> set (respQueue s). readyTime q \<le> readyTime dp"
    "e = (if respQueue s = [] then Some (readyTime dp) else respondEvent s)"
  shows "push_response now dp s = Inr (s\<lparr>respondEvent := e, respQueue := respQueue s @ [dp]\<rparr>)"
  using assms by (simp add: push_response_def schedule_event_def)

definition branch_ok :: "DRAMConfig \<Rightarrow> DRAMCtrl \<Rightarrow> DRAMCtrl \<Rightarrow> bool" where
  "branch_ok cfg s s' \<longleftrightarrow> ctrl_ok cfg s' \<and> loop_step cfg s s' \<and> nextReqEvent s' = nextReqEvent s \<and> advances s s'"

lemma write_index_tl: "add_mset p (mset q) = mset q' \<Longrightarrow> write_index cfg q' - {burstAlign cfg (dp_addr p)} \<subseteq> write_index cfg q"
proof -
  assume "add_mset p (mset q) = mset q'"
  then have "set q' = insert p (set q)" by (metis set_mset_add_mset_insert set_mset_mset)
  then show ?thesis by (auto simp: write_index_def)
qed

lemma write_branch_ok:
  assumes ok: "ctrl_ok cfg s" and t: "timing_ok cfg" and sch: "sched_ok cfg now (ranks s) (writeQueue s)" and ne: "writeQueue s \<noteq> []"
    and bus: "busState s = WRITE"
  shows "\<exists>go s'. write_branch cfg now switched s = Inr (go, s') \<and> branch_ok cfg s s'"
proof -
  define extra where "extra = (if switched then min (tRTW cfg) (tCS cfg) else 0)"
  obtain found q where c: "chooseNext cfg now (busBusyUntil s) (ranks s) (writeQueue s) extra = Inr (found, q)"
      and p: "picked (ranks s) (writeQueue s) found q"
    using pick_ok [OF sch ne] by blast
  have q: "mset q = mset (writeQueue s)"
    and hd: "found \<Longrightarrow> isAvailable (ranks s ! dp_rank (hd q)) \<and> hd q \<in> set (writeQueue s) \<and> add_mset (hd q) (mset (tl q)) = mset (writeQueue s)"
    using p by (simp_all add: picked_def)
  define s1 where "s1 = s\<lparr>writeQueue := q\<rparr>"
  have len: "length q = length (writeQueue s)" "set q = set (writeQueue s)" "row_ops_in q = row_ops_in (writeQueue s)"
    using mset_eq_length [OF q] mset_eq_setD [OF q] row_ops_in_mset [OF q] .
  have s1: "ctrl_ok cfg s1" using ok len ne by (auto simp: s1_def ctrl_ok_def queues_ok_def write_index_def)
  show ?thesis
  proof (cases found)
    case False
    have nf: "write_branch cfg now switched s = Inr (False, s1)"
      using False by (simp add: write_branch_def c [unfolded extra_def] s1_def)
    have "\<not> all_available s"
      using False p ok ne available_rank [of s cfg "hd (writeQueue s)"] by (auto simp: picked_def ctrl_ok_def queues_ok_def pkt_fits_def core_ok_def)
    then have "branch_ok cfg s s1" using s1 q by (simp add: branch_ok_def loop_step_def s1_def advances_def)
    then show ?thesis using nf by blast
  next
    case True
    define dp where "dp = hd q"
    define s2 where "s2 = (if switched \<and> dp_rank dp = activeRank s1 then s1\<lparr>busBusyUntil := busBusyUntil s1 + tRTW cfg\<rparr> else s1)"
    have fits: "pkt_fits cfg dp" using hd [OF True] ok by (simp add: dp_def ctrl_ok_def queues_ok_def)
    obtain dp' s3 where d: "doDRAMAccess cfg now dp s2 = Inr (dp', s3)" and core: "core_ok cfg s3" and avl: "all_available s1 \<longrightarrow> all_available s3" and same: "same_queues s1 s3"
        and dp': "dp' = dp\<lparr>readyTime := busBusyUntil s3\<rparr>" and pend: "pendingRowOps s3 = pendingRowOps s1 - (if is_row_op dp then 1 else 0)"
      using access_round [OF _ fits t s2_def, of s now] ok s1 unfolding ctrl_ok_def s1_def by auto
    define s4 where "s4 = s3\<lparr>writeQueue := tl (writeQueue s3), isInWriteQueue := isInWriteQueue s3 - {burstAlign cfg (dp_addr dp')}\<rparr>"
    define sw where "sw \<longleftrightarrow> pendingRowOps s4 = 0 \<and> (writeQueue s4 = [] \<or>
             (length (writeQueue s4) + minWritesPerSwitch cfg < writeLowThreshold cfg \<and> drainState s4 \<noteq> Draining) \<or>
             (readQueue s4 \<noteq> [] \<and> writesThisTime s4 \<ge> minWritesPerSwitch cfg))"
    have av: "isAvailable (ranks s1 ! dp_rank dp)" "dp_size dp \<le> burstSize cfg"
      using hd [OF True] fits by (simp_all add: dp_def s1_def pkt_fits_def)
    have e: "write_branch cfg now switched s = Inr (True, if sw then s4\<lparr>busState := WRITE_TO_READ\<rparr> else s4)"
      by (simp only: write_branch_def c [unfolded extra_def] rbind_simps prod.case Let_def True not_True_eq_False if_False if_True
            s1_def [symmetric] dp_def [symmetric] av assertr_True s2_def [symmetric] d s4_def [symmetric] sw_def [symmetric])
    have fr: "helpers s4 = helpers s" "dmem s4 = dmem s" "portResps s4 = portResps s" "isInWriteQueue s4 = isInWriteQueue s - {burstAlign cfg (dp_addr dp)}"
      using same dp' by (simp_all add: s4_def same_queues_def s1_def)
    have qt: "writeQueue s4 = tl q" "readQueue s4 = readQueue s" "respQueue s4 = respQueue s" "nextReqEvent s4 = nextReqEvent s" "busState s4 = busState s"
      using same by (simp_all add: s4_def same_queues_def s1_def)
    have tl: "add_mset dp (mset (tl q)) = mset (writeQueue s)" using hd [OF True] dp_def by simp
    have "row_ops_in (writeQueue s) = row_ops_in (dp # tl q)" using tl by (intro row_ops_in_mset) simp
    then have pend4: "pendingRowOps s4 = row_ops_in (tl q)"
      using ok pend by (simp add: s4_def s1_def row_ops_in_def ctrl_ok_def queues_ok_def)
    have sub: "set (tl q) \<subseteq> set (writeQueue s)" using len(2) by (metis list.set_sel(2) subsetI tl_Nil)
    have len4: "length (tl q) \<le> writeBufferSize cfg" using ok len(1) by (auto simp: ctrl_ok_def queues_ok_def)
    have "core_ok cfg s4" using core by (simp add: s4_def)
    moreover have "isInWriteQueue s4 \<subseteq> write_index cfg (tl q)"
    proof -
      have "isInWriteQueue s \<subseteq> write_index cfg (writeQueue s)" using ok by (simp add: ctrl_ok_def queues_ok_def)
      then show ?thesis using fr(4) write_index_tl [OF tl, of cfg] by blast
    qed
    ultimately have "queues_ok cfg (if sw then s4\<lparr>busState := WRITE_TO_READ\<rparr> else s4)" "core_ok cfg s4"
      using ok sub len4 pend4 qt sw_def by (auto simp: ctrl_ok_def queues_ok_def row_ops_in_def)
    then have "ctrl_ok cfg (if sw then s4\<lparr>busState := WRITE_TO_READ\<rparr> else s4)" by (simp add: ctrl_ok_def)
    moreover have "loop_step cfg s (if sw then s4\<lparr>busState := WRITE_TO_READ\<rparr> else s4)"
      using hd [OF True] qt fr by (auto simp: loop_step_def)
    moreover have "advances s (if sw then s4\<lparr>busState := WRITE_TO_READ\<rparr> else s4)"
    proof -
      have "drainState s4 = drainState s" "all_available s \<longrightarrow> all_available s4" "length (writeQueue s) = Suc (length (tl q))"
        using same avl len(1) ne by (auto simp: s4_def same_queues_def s1_def all_available_def)
      then show ?thesis using qt bus sw_def by (auto simp: advances_def work_def all_available_def)
    qed
    ultimately show ?thesis using e qt(4) by (auto simp: branch_ok_def)
  qed
qed

lemma read_branch_idle:
  assumes ok: "ctrl_ok cfg s" and "readQueue s = []" and bus: "busState s = READ"
  shows "\<exists>go s'. read_branch cfg now switched s = Inr (go, s') \<and> branch_ok cfg s s'"
proof -
  have "branch_ok cfg s (s\<lparr>busState := READ_TO_WRITE\<rparr>)" if "writeQueue s \<noteq> []"
    using ok that bus assms(2)
    by (simp add: branch_ok_def ctrl_ok_def queues_ok_def loop_step_def advances_def work_def all_available_def)
  moreover have "branch_ok cfg s s" "branch_ok cfg s (signalDrainDone s)" if "writeQueue s = [] \<or> drainState s \<noteq> Draining"
    using ok that assms(2) by (auto simp add: branch_ok_def loop_step_def signalDrainDone_def ctrl_ok_def core_ok_def resp_ok_def bank_time_def queues_ok_def
      advances_def queued_def)
  ultimately show ?thesis using assms(2) by (auto simp: read_branch_def)
qed

lemma read_branch_ok:
  assumes ok: "ctrl_ok cfg s" and t: "timing_ok cfg" and sch: "sched_ok cfg now (ranks s) (readQueue s)" and ne: "readQueue s \<noteq> []"
    and bus: "busState s = READ"
  shows "\<exists>go s'. read_branch cfg now switched s = Inr (go, s') \<and> branch_ok cfg s s'"
proof -
  define extra where "extra = (if switched then tCS cfg else 0)"
  obtain found q where c: "chooseNext cfg now (busBusyUntil s) (ranks s) (readQueue s) extra = Inr (found, q)"
      and p: "picked (ranks s) (readQueue s) found q"
    using pick_ok [OF sch ne] by blast
  have q: "mset q = mset (readQueue s)"
    and hd: "found \<Longrightarrow> isAvailable (ranks s ! dp_rank (hd q)) \<and> hd q \<in> set (readQueue s) \<and> add_mset (hd q) (mset (tl q)) = mset (readQueue s)"
    using p by (simp_all add: picked_def)
  define s1 where "s1 = s\<lparr>readQueue := q\<rparr>"
  have len: "length q = length (readQueue s)" "set q = set (readQueue s)"
    using mset_eq_length [OF q] mset_eq_setD [OF q] .
  have s1: "ctrl_ok cfg s1" using ok len by (auto simp: s1_def ctrl_ok_def queues_ok_def)
  show ?thesis
  proof (cases found)
    case False
    have nf: "read_branch cfg now switched s = Inr (False, s1)"
      using False ne by (simp add: read_branch_def c [unfolded extra_def] s1_def)
    have "\<not> all_available s"
      using False p ok ne available_rank [of s cfg "hd (readQueue s)"] by (auto simp: picked_def ctrl_ok_def queues_ok_def pkt_fits_def core_ok_def)
    then have "branch_ok cfg s s1" using s1 q by (simp add: branch_ok_def loop_step_def s1_def advances_def)
    then show ?thesis using nf by blast
  next
    case True
    define dp where "dp = hd q"
    define s2 where "s2 = (if switched \<and> dp_rank dp = activeRank s1 then s1\<lparr>busBusyUntil := busBusyUntil s1 + tWTR cfg + tCL cfg\<rparr> else s1)"
    have fits: "pkt_fits cfg dp" "\<not> is_row_op dp" using hd [OF True] ok by (simp_all add: dp_def ctrl_ok_def queues_ok_def)
    have s2': "s2 = (if switched \<and> dp_rank dp = activeRank s1 then s1\<lparr>busBusyUntil := busBusyUntil s1 + (tWTR cfg + tCL cfg)\<rparr> else s1)"
      by (simp add: s2_def)
    obtain dp' s3 where d: "doDRAMAccess cfg now dp s2 = Inr (dp', s3)" and core: "core_ok cfg s3" and avl: "all_available s1 \<longrightarrow> all_available s3" and same: "same_queues s1 s3"
        and acc: "accessed cfg now dp s2 dp' s3"
        and pend: "pendingRowOps s3 = pendingRowOps s1" and dp': "dp' = dp\<lparr>readyTime := busBusyUntil s3\<rparr>"
        and b: "busBusyUntil s + tBURST cfg \<le> busBusyUntil s3" "\<forall>q \<in> set (respQueue s1). readyTime q + tBURST cfg \<le> busBusyUntil s3"
      using access_round [OF _ fits(1) t s2', of s now] ok s1 fits(2) unfolding ctrl_ok_def s1_def by auto
    define e where "e = (if respQueue s = [] then Some (readyTime dp') else respondEvent s)"
    define s5 where "s5 = (s3\<lparr>readQueue := tl (readQueue s3)\<rparr>)\<lparr>respondEvent := e, respQueue := respQueue (s3\<lparr>readQueue := tl (readQueue s3)\<rparr>) @ [dp']\<rparr>"
    define sw where "sw \<longleftrightarrow> length (writeQueue s5) > writeHighThreshold cfg \<or> pendingRowOps s5 > 0"
    have r: "respQueue s3 = respQueue s" "respondEvent s3 = respondEvent s" "respQueue s1 = respQueue s" "readQueue s3 = q" "writeQueue s3 = writeQueue s"
        "nextReqEvent s3 = nextReqEvent s" "busState s3 = READ"
      using same bus by (simp_all add: same_queues_def s1_def)
    have fr: "helpers s5 = helpers s" "dmem s5 = dmem s" "portResps s5 = portResps s" "isInWriteQueue s5 = isInWriteQueue s"
      using same by (simp_all add: s5_def same_queues_def s1_def)
    have qt: "readQueue s5 = tl q" "writeQueue s5 = writeQueue s" "respQueue s5 = respQueue s @ [dp']" "nextReqEvent s5 = nextReqEvent s"
        "busState s5 = READ" "pendingRowOps s5 = pendingRowOps s" "busBusyUntil s5 = busBusyUntil s3"
      using r pend by (simp_all add: s5_def s1_def)
    have av: "isAvailable (ranks s1 ! dp_rank dp)" "dp_size dp' \<le> burstSize cfg" "now \<le> readyTime dp'"
      using hd [OF True] fits acc by (simp_all add: dp_def s1_def pkt_fits_def dp' accessed_def)
    have ev: "push_response now dp' (s3\<lparr>readQueue := tl (readQueue s3)\<rparr>) = Inr s5"
      unfolding s5_def by (rule push_response_ok) (use ok b r av(3) in \<open>auto simp: e_def dp' ctrl_ok_def core_ok_def resp_ok_def\<close>)
    have e: "read_branch cfg now switched s = Inr (True, if sw then s5\<lparr>busState := READ_TO_WRITE\<rparr> else s5)"
      by (simp only: read_branch_def c [unfolded extra_def] rbind_simps prod.case Let_def True not_True_eq_False if_False if_True ne
            s1_def [symmetric] dp_def [symmetric] av assertr_True s2_def [symmetric] d ev s5_def [symmetric] sw_def [symmetric])
    have sub: "set (tl q) \<subseteq> set (readQueue s)" using len(2) by (metis list.set_sel(2) subsetI tl_Nil)
    have "core_ok cfg s5"
      unfolding s5_def by (rule core_ok_push) (use core acc b r fits(2) in \<open>auto simp: e_def dp' accessed_def bank_time_def\<close>)
    moreover have "writeQueue s \<noteq> []" if sw
      using that ok qt by (auto simp: sw_def ctrl_ok_def queues_ok_def row_ops_in_def)
    moreover have "length (tl q) + length (respQueue s @ [dp']) \<le> readBufferSize cfg"
      using ok len(1) ne by (cases "readQueue s") (auto simp: ctrl_ok_def queues_ok_def)
    ultimately have "queues_ok cfg (if sw then s5\<lparr>busState := READ_TO_WRITE\<rparr> else s5)" "core_ok cfg s5"
      using ok sub qt fr(4) unfolding ctrl_ok_def queues_ok_def by (simp_all add: subset_eq)
    then have "ctrl_ok cfg (if sw then s5\<lparr>busState := READ_TO_WRITE\<rparr> else s5)" by (simp add: ctrl_ok_def)
    moreover have "loop_step cfg s (if sw then s5\<lparr>busState := READ_TO_WRITE\<rparr> else s5)"
      using hd [OF True] qt b(1) fr by (auto simp: loop_step_def dp' dp_def)
    moreover have "advances s (if sw then s5\<lparr>busState := READ_TO_WRITE\<rparr> else s5)"
    proof -
      have "drainState s5 = drainState s" "all_available s \<longrightarrow> all_available s5" "length (readQueue s) = Suc (length (tl q))"
        using same avl len(1) ne by (auto simp: s5_def same_queues_def s1_def all_available_def)
      then show ?thesis using qt ne by (auto simp: advances_def work_def all_available_def)
    qed
    ultimately show ?thesis using e qt(4) by (auto simp: branch_ok_def)
  qed
qed

lemma ctrl_ok_ranks:
  assumes "ctrl_ok cfg s" "map banks rs = map banks (ranks s)" "map isAvailable rs = map isAvailable (ranks s)"
    "list_all (rank_ok cfg) rs = list_all (rank_ok cfg) (ranks s)" "draining_ok rs"
  shows "ctrl_ok cfg (s\<lparr>ranks := rs\<rparr>)" "\<And>i. i < ranksPerChannel cfg \<Longrightarrow> isAvailable (rs ! i) = isAvailable (ranks s ! i)"
proof -
  have len: "length rs = length (ranks s)" using assms(2) by (metis length_map)
  have l: "length (ranks s) = ranksPerChannel cfg" using assms(1) by (simp add: ctrl_ok_def core_ok_def ranks_ok_def)
  have b: "banks (rs ! i) = banks (ranks s ! i)" "isAvailable (rs ! i) = isAvailable (ranks s ! i)" if "i < ranksPerChannel cfg" for i
    using that len l assms(2,3) by (metis nth_map)+
  then show "\<And>i. i < ranksPerChannel cfg \<Longrightarrow> isAvailable (rs ! i) = isAvailable (ranks s ! i)" by simp
  have "ranks_ok cfg rs" using assms(1,4) len l by (simp add: ctrl_ok_def core_ok_def ranks_ok_def list_all_iff)
  then show "ctrl_ok cfg (s\<lparr>ranks := rs\<rparr>)"
    using assms(1,5) b by (simp add: ctrl_ok_def core_ok_def queues_ok_def resp_ok_def bank_time_def)
qed

lemma turn_bus_ok:
  assumes "ctrl_ok cfg s"
  shows "\<exists>b s'. turn_bus s = (b, s') \<and> ctrl_ok cfg s' \<and> (busState s' = READ \<or> busState s' = WRITE \<and> writeQueue s' \<noteq> []) \<and>
    ranks s' = ranks s \<and> readQueue s' = readQueue s \<and> writeQueue s' = writeQueue s \<and> respQueue s' = respQueue s \<and>
    helpers s' = helpers s \<and> dmem s' = dmem s \<and> portResps s' = portResps s \<and> busBusyUntil s' = busBusyUntil s \<and> drainState s' = drainState s \<and> work s' = work s"
  using assms by (cases "busState s") (auto simp: turn_bus_def ctrl_ok_def queues_ok_def work_def)

lemma finish_request_ok:
  assumes "ctrl_ok cfg s"
  shows "\<exists>s'. finish_request cfg now s = Inr s' \<and> ctrl_ok cfg s' \<and>
    ranks s' = ranks s \<and> readQueue s' = readQueue s \<and> writeQueue s' = writeQueue s \<and> respQueue s' = respQueue s \<and>
    helpers s' = helpers s \<and> dmem s' = dmem s \<and> portResps s' = portResps s \<and> busBusyUntil s' = busBusyUntil s \<and> drainState s' = drainState s \<and> work s' = work s"
  using assms
  by (auto simp: finish_request_def kick_nextReq_def schedule_event_def sendRetryReq_def ctrl_ok_def queues_ok_def work_def
        core_ok_def resp_ok_def bank_time_def)

lemma branch_done:
  assumes "branch_ok cfg s s1" "all_available s0 = all_available s"
      "\<forall>p \<in> set (readQueue s) \<union> set (writeQueue s). isAvailable (ranks s0 ! dp_rank p) = isAvailable (ranks s ! dp_rank p)" "readQueue s0 = readQueue s" "writeQueue s0 = writeQueue s" "respQueue s0 = respQueue s"
      "helpers s0 = helpers s" "dmem s0 = dmem s" "portResps s0 = portResps s" "busBusyUntil s0 = busBusyUntil s" "drainState s0 = drainState s" "work s0 = work s"
    "readQueue s2 = readQueue s1" "writeQueue s2 = writeQueue s1" "respQueue s2 = respQueue s1" "ranks s2 = ranks s1"
      "helpers s2 = helpers s1" "dmem s2 = dmem s1" "portResps s2 = portResps s1" "busBusyUntil s2 = busBusyUntil s1" "drainState s2 = drainState s1" "work s2 = work s1"
  shows "loop_step cfg s0 s2" "advances s0 s2"
proof -
  have "loop_step cfg s s1" using assms(1) by (simp add: branch_ok_def)
  then show "loop_step cfg s0 s2"
    using assms(3) by (simp add: loop_step_def assms(4-10,13-20) ball_Un cong: bex_cong)
  have "advances s s1" using assms(1) by (simp add: branch_ok_def)
  then show "advances s0 s2" using assms by (simp add: advances_def queued_def all_available_def)
qed

lemma processNextReqEvent_ok:
  assumes ok: "ctrl_ok cfg s" and t: "timing_ok cfg" and sch: "sched_ok cfg now (ranks s) []"
  shows "\<exists>s'. processNextReqEvent cfg now s = Inr s' \<and> ctrl_ok cfg s' \<and> loop_step cfg s s' \<and> advances s s'"
proof -
  obtain rs where n: "notify_ranks now (ranks s) = Inr (length (filter (\<lambda>r. \<not> isAvailable r) (ranks s)), rs)"
      and rs: "map banks rs = map banks (ranks s)" "map isAvailable rs = map isAvailable (ranks s)"
        "\<forall>cfg. list_all (rank_ok cfg) rs = list_all (rank_ok cfg) (ranks s)" "draining_ok rs"
    using notify_ranks_ok [of "ranks s" now] ok by (auto simp: ctrl_ok_def core_ok_def)
  define s1 where "s1 = s\<lparr>ranks := rs\<rparr>"
  have s1: "ctrl_ok cfg s1" and av: "\<And>i. i < ranksPerChannel cfg \<Longrightarrow> isAvailable (rs ! i) = isAvailable (ranks s ! i)"
    using ctrl_ok_ranks [OF ok rs(1,2) _ rs(4)] rs(3) by (simp_all add: s1_def)
  have lr: "length (ranks s) = ranksPerChannel cfg" "length rs = ranksPerChannel cfg"
    using ok s1 by (simp_all add: ctrl_ok_def core_ok_def ranks_ok_def s1_def)
  have sch1: "sched_ok cfg now rs q" if "q = readQueue s \<or> q = writeQueue s" for q
    using sched_ok_banks [OF sch rs(1) lr(1)] that ok by (auto simp: ctrl_ok_def queues_ok_def pkt_fits_def)
  show ?thesis
  proof (cases "length (filter (\<lambda>r. \<not> isAvailable r) (ranks s)) = ranksPerChannel cfg")
    case True
    have "processNextReqEvent cfg now s = Inr s1" using n True by (simp add: processNextReqEvent_def s1_def)
    moreover have "\<not> (all_available s \<and> queued s)"
    proof
      assume a: "all_available s \<and> queued s"
      then have "filter (\<lambda>r. \<not> isAvailable r) (ranks s) = []" by (simp add: all_available_def)
      then have "ranksPerChannel cfg = 0" using True by simp
      then show False using a ok by (auto simp: queued_def neq_Nil_conv ctrl_ok_def queues_ok_def pkt_fits_def dp_ok_def)
    qed
    moreover have "loop_step cfg s s1" by (simp add: loop_step_def s1_def)
    ultimately show ?thesis using s1 by (auto simp: advances_def)
  next
    case False
    obtain sw s2 where tb: "turn_bus s1 = (sw, s2)" and s2: "ctrl_ok cfg s2" "busState s2 = READ \<or> busState s2 = WRITE \<and> writeQueue s2 \<noteq> []"
        "ranks s2 = ranks s1" "readQueue s2 = readQueue s1" "writeQueue s2 = writeQueue s1" "respQueue s2 = respQueue s1"
        "helpers s2 = helpers s1" "dmem s2 = dmem s1" "portResps s2 = portResps s1" "busBusyUntil s2 = busBusyUntil s1" "drainState s2 = drainState s1" "work s2 = work s1"
      using turn_bus_ok [OF s1] by blast
    define br where "br = (if busState s2 = READ then read_branch cfg now sw s2 else write_branch cfg now sw s2)"
    have r2: "ranks s2 = rs" "readQueue s2 = readQueue s" "writeQueue s2 = writeQueue s" using s2 by (simp_all add: s1_def)
    have "\<exists>go s3. br = Inr (go, s3) \<and> branch_ok cfg s2 s3"
    proof (cases "busState s2 = READ")
      case True
      have "sched_ok cfg now (ranks s2) (readQueue s2)" using sch1 r2 by simp
      then show ?thesis
        using read_branch_ok [OF s2(1) t _ _ True, of now sw] read_branch_idle [OF s2(1) _ True, of now sw] True unfolding br_def
        by (cases "readQueue s2 = []") simp_all
    next
      case False
      have "sched_ok cfg now (ranks s2) (writeQueue s2)" using sch1 r2 by simp
      then show ?thesis using write_branch_ok [OF s2(1) t, of now sw] s2(2) False by (simp add: br_def)
    qed
    then obtain go s3 where b: "br = Inr (go, s3)" "branch_ok cfg s2 s3" by blast
    then have ok3: "ctrl_ok cfg s3" by (simp add: branch_ok_def)
    obtain s4 where f: "finish_request cfg now s3 = Inr s4" "ctrl_ok cfg s4" "ranks s4 = ranks s3" "readQueue s4 = readQueue s3"
        "writeQueue s4 = writeQueue s3" "respQueue s4 = respQueue s3" "helpers s4 = helpers s3" "dmem s4 = dmem s3" "portResps s4 = portResps s3" "busBusyUntil s4 = busBusyUntil s3" "drainState s4 = drainState s3"
        "work s4 = work s3"
      using finish_request_ok [OF ok3] by blast
    have "processNextReqEvent cfg now s = Inr (if go then s4 else s3)"
      using n False tb b(1) f(1) by (simp add: processNextReqEvent_def s1_def [symmetric] br_def [symmetric])
    moreover have "all_available s = all_available s2"
      using av lr r2 by (simp add: all_available_def all_set_conv_all_nth)
    moreover have "\<forall>p \<in> set (readQueue s2) \<union> set (writeQueue s2). isAvailable (ranks s ! dp_rank p) = isAvailable (ranks s2 ! dp_rank p)"
      using av r2 s2(1) by (auto simp: ctrl_ok_def queues_ok_def pkt_fits_def dp_ok_def)
    moreover have "readQueue s = readQueue s2" "writeQueue s = writeQueue s2" "respQueue s = respQueue s2"
        "helpers s = helpers s2" "dmem s = dmem s2" "portResps s = portResps s2" "busBusyUntil s = busBusyUntil s2"
        "drainState s = drainState s2" "work s = work s2"
      using s2 by (simp_all add: s1_def work_def)
    ultimately show ?thesis
      using branch_done [OF b(2), of s s4] branch_done [OF b(2), of s s3] f ok3 by auto
  qed
qed

subsection \<open>Start-up and runs of the loop\<close>

lemma startup_ranks_ok:
  assumes "now < t" "\<forall>r \<in> set rs. refreshEvent r = None"
  shows "startup_ranks now t rs = Inr (map (\<lambda>r. r\<lparr>pwrStateTick := now, refreshEvent := Some t\<rparr>) rs)"
  using assms by (induction rs) (simp_all add: rank_startup_def schedule_event_def)

lemma rank_ok_upd [simp]:
  "rank_ok cfg (r\<lparr>pwrStateTick := t\<rparr>) = rank_ok cfg r" "rank_ok cfg (r\<lparr>refreshEvent := e\<rparr>) = rank_ok cfg r"
  by (simp_all add: rank_ok_def act_window_def)

text \<open>Rounds of the loop while packets are queued. The rounds come at any tick, whether the event was scheduled for it
  or not: these runs include those of the event queue.\<close>

inductive loop_run :: "DRAMConfig \<Rightarrow> DRAMCtrl \<Rightarrow> nat \<Rightarrow> DRAMCtrl \<Rightarrow> bool" for cfg s where
  none: "loop_run cfg s 0 s"
| more: "loop_run cfg s n s1 \<Longrightarrow> queued s1 \<Longrightarrow> sched_ok cfg now (ranks s1) [] \<Longrightarrow>
    processNextReqEvent cfg now (s1\<lparr>nextReqEvent := None\<rparr>) = Inr s2 \<Longrightarrow> loop_run cfg s (Suc n) s2"

lemma ctrl_ok_event [simp]: "ctrl_ok cfg (s\<lparr>nextReqEvent := e\<rparr>) = ctrl_ok cfg s"
  by (simp add: ctrl_ok_def queues_ok_def)

lemma loop_run_ok:
  assumes "loop_run cfg s n s'" "ctrl_ok cfg s" "timing_ok cfg" "all_available s" "drainState s = Draining"
  shows "ctrl_ok cfg s' \<and> n + work s' \<le> work s \<and> all_available s' \<and> drainState s' = Draining"
  using assms
proof (induction rule: loop_run.induct)
  case none
  then show ?case by simp
next
  case (more n s1 now s2)
  then have s1: "ctrl_ok cfg s1" "n + work s1 \<le> work s" "all_available s1" "drainState s1 = Draining" by blast+
  have "ctrl_ok cfg (s1\<lparr>nextReqEvent := None\<rparr>)" "sched_ok cfg now (ranks (s1\<lparr>nextReqEvent := None\<rparr>)) []"
    using s1(1) more.hyps(3) by simp_all
  then have "ctrl_ok cfg s2" "advances (s1\<lparr>nextReqEvent := None\<rparr>) s2"
    using processNextReqEvent_ok [of cfg "s1\<lparr>nextReqEvent := None\<rparr>" now] more.prems(2) more.hyps(4) by auto
  then show ?case using s1 more.hyps(2) by (simp add: advances_def all_available_def queued_def work_def)
qed

lemma startup_ok:
  assumes "tRP cfg < tREFI cfg"
  shows "\<exists>s. startup cfg now True (new_ctrl cfg m) = Inr s \<and> ctrl_ok cfg s \<and> isTimingMode s \<and>
    (\<forall>r \<in> set (ranks s). refreshEvent r = Some (now + tREFI cfg - tRP cfg)) \<and>
    readQueue s = [] \<and> respQueue s = [] \<and> writeQueue s = [] \<and> helpers s = [] \<and> portResps s = [] \<and> dmem s = m"
proof -
  have "now < tick_sub (now + tREFI cfg) (tRP cfg)" using assms by simp
  moreover have "\<forall>r \<in> set (ranks (new_ctrl cfg m)). refreshEvent r = None" by (auto simp: new_ctrl_def new_rank_def)
  ultimately have "startup cfg now True (new_ctrl cfg m) = Inr ((new_ctrl cfg m)\<lparr>isTimingMode := True,
      timeStampOffset := divCeil now (tCK cfg), ranks := map (\<lambda>r. r\<lparr>pwrStateTick := now, refreshEvent := Some (now + tREFI cfg - tRP cfg)\<rparr>) (ranks (new_ctrl cfg m)),
      busBusyUntil := now + tRP cfg + tRCD cfg + tCL cfg\<rparr>)"
    using assms by (simp add: startup_def startup_ranks_ok Let_def)
  then show ?thesis
    by (auto simp: ctrl_ok_def core_ok_def queues_ok_def new_ctrl_def ranks_ok_def draining_ok_def resp_ok_def row_ops_in_def
        new_rank_ok) (simp_all add: new_rank_def)
qed

subsection \<open>Properties\<close>

text \<open>Starting a new controller in timing mode succeeds when the refresh interval exceeds the precharge
  time, and establishes the invariant.\<close>

theorem startup_establishes:
  assumes "tRP cfg < tREFI cfg"
  shows "\<exists>s. startup cfg now True (new_ctrl cfg m) = Inr s \<and> ctrl_ok cfg s \<and> isTimingMode s \<and>
    (\<forall>r \<in> set (ranks s). refreshEvent r = Some (now + tREFI cfg - tRP cfg))"
  using startup_ok [OF assms] by blast

theorem startup_establishes_witness:
  "\<exists>s. startup demo_config 0 True (new_ctrl demo_config demo_mem) = Inr s \<and> ctrl_ok demo_config s"
  using startup_establishes [of demo_config 0 demo_mem] by (auto simp: demo_config_def)

text \<open>C27: no assertion of the request loop fires: from a state satisfying the controller's invariant, with the
  bank times within the tick range, each round ends in a state satisfying it, having moved one read to the
  response queue after its own burst on the data bus, issued one write or row operation, or moved nothing.\<close>

theorem request_loop_safe:
  assumes "ctrl_ok cfg s" "timing_ok cfg" "sched_ok cfg now (ranks s) []"
  shows "\<exists>s'. processNextReqEvent cfg now s = Inr s' \<and> ctrl_ok cfg s' \<and> loop_step cfg s s'"
  using processNextReqEvent_ok [OF assms] by blast

definition demo_ctrl :: DRAMCtrl where
  "demo_ctrl = (new_ctrl demo_config demo_mem)\<lparr>readQueue := [demo_dp 0 1 5, demo_dp 1 4 9], writeQueue := [demo_dp 1 2 7],
     busBusyUntil := 41250, drainState := Draining\<rparr>"

lemma demo_ctrl_ok:
  "ctrl_ok demo_config demo_ctrl" "timing_ok demo_config" "sched_ok demo_config 0 (ranks demo_ctrl) []" "all_available demo_ctrl"
proof -
  show "timing_ok demo_config" by (simp add: timing_ok_def demo_config_def bankGroupArch_def)
  show "all_available demo_ctrl" by (auto simp: all_available_def demo_ctrl_def new_ctrl_def new_rank_def isAvailable_def)
  have r: "ranks_ok demo_config (ranks demo_ctrl)" by (auto simp: ranks_ok_def demo_ctrl_def new_ctrl_def new_rank_ok)
  have "pkt_fits demo_config (demo_dp 0 1 5)" "pkt_fits demo_config (demo_dp 1 4 9)" "pkt_fits demo_config (demo_dp 1 2 7)"
    by (simp_all add: pkt_fits_def demo_dp_def dp_ok_def demo_config_def NO_ROW_def)
  moreover have "draining_ok (ranks demo_ctrl)" by (auto simp: draining_ok_def demo_ctrl_def new_ctrl_def new_rank_def)
  ultimately show "ctrl_ok demo_config demo_ctrl"
    using r by (simp add: ctrl_ok_def core_ok_def queues_ok_def resp_ok_def demo_ctrl_def new_ctrl_def row_ops_in_def)
      (simp add: demo_config_def demo_dp_def)
  have "bank_act_at demo_config 0 (bank_at demo_config (ranks demo_ctrl) n) \<le> MaxTick" if "n < 16" for n
  proof -
    have "n div 8 < 2" "n mod 8 < 8" using that by linarith+
    then show ?thesis
      by (simp add: bank_at_def demo_ctrl_def new_ctrl_def new_rank_def new_bank_def bank_act_at_def MaxTick_def demo_config_def)
  qed
  then show "sched_ok demo_config 0 (ranks demo_ctrl) []" by (simp add: sched_ok_def demo_config_def)
qed

theorem request_loop_safe_witness:
  "\<exists>s'. processNextReqEvent demo_config 0 demo_ctrl = Inr s' \<and> ctrl_ok demo_config s' \<and> loop_step demo_config demo_ctrl s'"
  using request_loop_safe [OF demo_ctrl_ok(1-3)] by blast

text \<open>C28: a draining controller whose ranks are available empties its queues: every round with packets queued
  does part of the remaining work, so that at most \<open>work s\<close> rounds pass before both queues are empty, and a
  round never fails.\<close>

theorem drain_progress:
  assumes "ctrl_ok cfg s" "timing_ok cfg" "all_available s" "drainState s = Draining" "loop_run cfg s n s'"
  shows "n + work s' \<le> work s \<and> n \<le> 2 * (length (readQueue s) + length (writeQueue s)) + 1 \<and> (work s' = 0 \<longleftrightarrow> \<not> queued s') \<and>
    (\<forall>now. sched_ok cfg now (ranks s') [] \<longrightarrow> (\<exists>s2. processNextReqEvent cfg now (s'\<lparr>nextReqEvent := None\<rparr>) = Inr s2))"
proof -
  have s': "ctrl_ok cfg s'" "n + work s' \<le> work s" using loop_run_ok [OF assms(5,1-4)] by simp_all
  moreover have "work s \<le> 2 * (length (readQueue s) + length (writeQueue s)) + 1" "work s' = 0 \<longleftrightarrow> \<not> queued s'"
    by (auto simp: work_def queued_def)
  moreover have "\<exists>s2. processNextReqEvent cfg now (s'\<lparr>nextReqEvent := None\<rparr>) = Inr s2" if "sched_ok cfg now (ranks s') []" for now
    using processNextReqEvent_ok [of cfg "s'\<lparr>nextReqEvent := None\<rparr>" now] s'(1) assms(2) that by auto
  ultimately show ?thesis by (metis le_trans le_add1)
qed

theorem drain_progress_witness:
  "\<exists>s'. loop_run demo_config demo_ctrl 1 s' \<and> 1 + work s' \<le> 6"
proof -
  have "ctrl_ok demo_config (demo_ctrl\<lparr>nextReqEvent := None\<rparr>)" "sched_ok demo_config 0 (ranks (demo_ctrl\<lparr>nextReqEvent := None\<rparr>)) []"
    using demo_ctrl_ok by simp_all
  then obtain s' where "processNextReqEvent demo_config 0 (demo_ctrl\<lparr>nextReqEvent := None\<rparr>) = Inr s'"
    using processNextReqEvent_ok demo_ctrl_ok(2) by blast
  then have "loop_run demo_config demo_ctrl (Suc 0) s'"
    using loop_run.more [OF loop_run.none _ demo_ctrl_ok(3)] by (simp add: queued_def demo_ctrl_def)
  moreover have "drainState demo_ctrl = Draining" by (simp add: demo_ctrl_def)
  ultimately have "loop_run demo_config demo_ctrl 1 s'" "1 + work s' \<le> work demo_ctrl"
    using drain_progress [OF demo_ctrl_ok(1,2,4), of "Suc 0" s'] by simp_all
  moreover have "work demo_ctrl = 6" by (simp add: work_def demo_ctrl_def)
  ultimately show ?thesis by auto
qed

end
