(* ===== verification/Dram_Port.thy ===== *)
theory Dram_Port
  imports Dram_Loop
begin

unbundle bit_operations_syntax

text \<open>
  The memory port of the DRAM controller: the split of a request into bursts, the acceptance of
  reads, writes and row operations into the queues, the response to a request once the last of its
  bursts is ready, and the flow control between the queues and the port.
\<close>
subsection \<open>Splitting a packet into bursts\<close>

lemma or_mask_next:
  fixes a :: "64 word"
  assumes "k < 64"
  shows "(a OR mask k) + 1 = of_nat ((unat a div 2 ^ k + 1) * 2 ^ k)"
proof -
  have "a OR mask k = (a AND NOT (mask k)) + mask k"
    by (rule bit_word_eqI) (subst disjunctive_add, auto simp: bit_simps)
  moreover have "a AND NOT (mask k) = push_bit k (drop_bit k a)"
    by (rule bit_word_eqI) (auto simp: bit_simps)
  moreover have "push_bit k (drop_bit k a) = of_nat (unat a div 2 ^ k * 2 ^ k)"
  proof -
    have "drop_bit k a = of_nat (unat (drop_bit k a))" by simp
    also have "\<dots> = of_nat (drop_bit k (unat a))" by (simp only: unat_drop_bit_eq)
    also have "\<dots> = of_nat (unat a div 2 ^ k)" by (simp only: drop_bit_eq_div)
    finally show ?thesis by (simp add: push_bit_eq_mult)
  qed
  ultimately show ?thesis by (simp add: mask_eq_exp_minus_1 algebra_simps)
qed

lemma next_burst_eq:
  assumes "config_ok cfg"
  shows "next_burst cfg a = of_nat ((unat a div burstSize cfg + 1) * burstSize cfg)"
proof -
  obtain k where k: "k < 32" "burstSize cfg = 2 ^ k" using assms by (auto simp: config_ok_def)
  then show ?thesis using or_mask_next [of k a] by (simp add: next_burst_def mask_eq_exp_minus_1)
qed

lemma burst_part_eq:
  assumes "config_ok cfg" "unat a < e" "e + burstSize cfg \<le> 2 ^ 64"
  defines "n \<equiv> (unat a div burstSize cfg + 1) * burstSize cfg"
  shows "unat (next_burst cfg a) = n" "burst_part cfg a (of_nat e) = min n e - unat a"
    "0 < min n e - unat a" "min n e - unat a \<le> burstSize cfg"
proof -
  obtain k where k: "k < 32" "burstSize cfg = 2 ^ k" using assms(1) by (auto simp: config_ok_def)
  have "unat a mod burstSize cfg < burstSize cfg" using k by simp
  then have n: "unat a < n" "n \<le> unat a + burstSize cfg"
    using div_mult_mod_eq [of "unat a" "burstSize cfg"] unfolding n_def distrib_right by linarith+
  then have lt: "n < 2 ^ 64" using assms(2,3) by linarith
  then show nb: "unat (next_burst cfg a) = n"
    using next_burst_eq [OF assms(1), of a, folded n_def] by (simp add: unat_of_nat)
  have "0 < burstSize cfg" using k by simp
  then have "e < 2 ^ 64" using assms(3) by linarith
  then have e: "unat (of_nat e :: 64 word) = e" by (simp add: unat_of_nat)
  have "unat (min (next_burst cfg a) (of_nat e)) = min n e"
    using nb e by (simp add: min_def word_le_nat_alt)
  then have "unat (min (next_burst cfg a) (of_nat e) - a) = min n e - unat a"
    using n(1) assms(2) by (subst unat_sub) (simp_all add: word_le_nat_alt)
  moreover show b: "min n e - unat a \<le> burstSize cfg" "0 < min n e - unat a" using n assms(2) by auto
  moreover have "burstSize cfg < 2 ^ 32" unfolding k(2) by (rule power_strict_increasing) (use k(1) in simp_all)
  ultimately show "burst_part cfg a (of_nat e) = min n e - unat a"
    by (simp add: burst_part_def unsigned_ucast_eq take_bit_nat_eq_self)
qed

text \<open>The bursts of the addresses from \<open>a\<close> to \<open>e\<close>, by the number of the burst.\<close>

definition burst_spec :: "nat \<Rightarrow> nat \<Rightarrow> nat \<Rightarrow> (nat \<times> nat) list" where
  "burst_spec B a e = map (\<lambda>q. (max a (q * B), min ((q + 1) * B) e - max a (q * B))) [a div B ..< (e + B - 1) div B]"

lemma burst_spec_Nil: "0 < B \<Longrightarrow> e \<le> a \<Longrightarrow> B dvd a \<Longrightarrow> burst_spec B a e = []"
proof -
  assume "0 < B" "e \<le> a" "B dvd a"
  then obtain q where a: "a = B * q" by blast
  have "(e + B - 1) div B \<le> (B * q + (B - 1)) div B" using \<open>e \<le> a\<close> \<open>0 < B\<close> a by (intro div_le_mono) simp
  also have "\<dots> = q" using \<open>0 < B\<close> by (intro div_nat_eqI) simp_all
  finally show ?thesis using a \<open>0 < B\<close> by (simp add: burst_spec_def)
qed

lemma burst_spec_Cons:
  assumes "0 < B" "a < e"
  shows "burst_spec B a e = (a, min ((a div B + 1) * B) e - a) # burst_spec B ((a div B + 1) * B) e"
proof -
  define q where "q = a div B"
  have q: "q * B \<le> a" "a < (q + 1) * B" using assms(1) by (simp_all add: q_def dividend_less_div_times)
  have "q * B + B \<le> e + B - 1" using q assms by simp
  then have "q < (e + B - 1) div B" using assms(1) by (simp add: less_eq_div_iff_mult_less_eq Suc_le_eq [symmetric])
  then have u: "[q..<(e + B - 1) div B] = q # [q + 1..<(e + B - 1) div B]" by (simp add: upt_conv_Cons)
  have "max a (i * B) = max ((q + 1) * B) (i * B)" if "q + 1 \<le> i" for i
  proof -
    have "(q + 1) * B \<le> i * B" using that by (intro mult_le_mono1)
    then show ?thesis using q(2) by simp
  qed
  moreover have "((q + 1) * B) div B = q + 1" using assms(1) by simp
  ultimately show ?thesis
    using u q(1) by (simp add: burst_spec_def q_def [symmetric] del: mult_Suc)
qed

lemma burst_spec_length: "0 < B \<Longrightarrow> a \<le> e \<Longrightarrow> length (burst_spec B a e) = divCeil (a mod B + (e - a)) B"
proof -
  assume B: "0 < B" and "a \<le> e"
  then have e: "e + B - 1 = (a mod B + (e - a) + B - 1) + a div B * B" using div_mult_mod_eq [of a B] by linarith
  have "(e + B - 1) div B = a div B + (a mod B + (e - a) + B - 1) div B"
    unfolding e using B by (intro div_mult_self1) simp
  then show ?thesis by (simp add: burst_spec_def divCeil_def)
qed

lemma burst_spec_sum: "0 < B \<Longrightarrow> a \<le> e \<Longrightarrow> sum_list (map snd (burst_spec B a e)) = e - a"
proof (induction "e - a" arbitrary: a rule: less_induct)
  case less
  show ?case
  proof (cases "a < e")
    case True
    define n where "n = (a div B + 1) * B"
    have n: "a < n" "B dvd n" using less.prems by (simp_all add: n_def dividend_less_div_times)
    show ?thesis
    proof (cases "n \<le> e")
      case True
      then have "sum_list (map snd (burst_spec B n e)) = e - n" using less.hyps [of n] n less.prems \<open>a < e\<close> by simp
      then show ?thesis using burst_spec_Cons [OF less.prems(1) \<open>a < e\<close>] True n(1) by (simp add: n_def)
    next
      case False
      then have "burst_spec B n e = []" using burst_spec_Nil [OF less.prems(1) _ n(2), of e] by simp
      then show ?thesis using burst_spec_Cons [OF less.prems(1) \<open>a < e\<close>] False n(1) by (simp add: n_def)
    qed
  next
    case False
    then show ?thesis using less.prems by (simp add: burst_spec_def)
  qed
qed

subsection \<open>Queueing the bursts of a request\<close>

text \<open>The end of a request, away from the end of the address space by at least one burst.\<close>

definition ends_at :: "DRAMConfig \<Rightarrow> Packet \<Rightarrow> nat \<Rightarrow> bool" where
  "ends_at cfg pkt e \<longleftrightarrow> e = unat (pkt_addr pkt) + pkt_size pkt \<and> e + burstSize cfg \<le> 2 ^ 64"

definition burst_of :: "DRAMPacket \<Rightarrow> nat \<times> nat" where
  "burst_of p = (unat (dp_addr p), dp_size p)"

definition unserved :: "DRAMConfig \<Rightarrow> DRAMCtrl \<Rightarrow> (nat \<times> nat) list \<Rightarrow> (nat \<times> nat) list" where
  "unserved cfg s bs = filter (\<lambda>(a, n). \<not> in_write_queue cfg (of_nat a) n s) bs"

definition new_reads :: "DRAMConfig \<Rightarrow> Packet \<Rightarrow> nat option \<Rightarrow> (nat \<times> nat) list \<Rightarrow> DRAMPacket list \<Rightarrow> bool" where
  "new_reads cfg pkt h bs new \<longleftrightarrow> map burst_of new = bs \<and>
     (\<forall>p \<in> set new. pkt_fits cfg p \<and> \<not> is_row_op p \<and> dp_isRead p \<and> dp_pkt p = pkt \<and> burstHelper p = h)"

text \<open>The helper of a request once some of its bursts are queued.\<close>

definition with_helper :: "nat \<Rightarrow> nat option \<Rightarrow> bool \<Rightarrow> BurstHelper option list \<Rightarrow> nat option \<times> BurstHelper option list" where
  "with_helper pc h missed hs =
     (if missed \<and> pc > 1 \<and> h = None then (Some (length hs), hs @ [Some \<lparr>burstCount = pc, burstsServiced = 0\<rparr>]) else (h, hs))"

lemma burst_step:
  assumes "config_ok cfg" "unat a < e" "e + burstSize cfg \<le> 2 ^ 64"
  shows "burst_spec (burstSize cfg) (unat a) e = (unat a, burst_part cfg a (of_nat e)) # burst_spec (burstSize cfg) (unat (next_burst cfg a)) e"
    "0 < burst_part cfg a (of_nat e)" "burst_part cfg a (of_nat e) \<le> burstSize cfg"
    "burst_spec (burstSize cfg) (unat (next_burst cfg a)) e = [] \<or> unat (next_burst cfg a) < e"
    "\<exists>l. ceilLog2 (of_nat (burst_part cfg a (of_nat e))) = Inr l"
proof -
  have B: "0 < burstSize cfg" "burstSize cfg < 2 ^ 64"
    using assms(1) power_strict_increasing [of _ 64 "2 :: nat"] by (auto simp: config_ok_def)
  show b: "burst_spec (burstSize cfg) (unat a) e = (unat a, burst_part cfg a (of_nat e)) # burst_spec (burstSize cfg) (unat (next_burst cfg a)) e"
    using burst_spec_Cons [OF B(1) assms(2)] burst_part_eq [OF assms] by simp
  show p: "0 < burst_part cfg a (of_nat e)" "burst_part cfg a (of_nat e) \<le> burstSize cfg"
    using burst_part_eq [OF assms] by simp_all
  show "burst_spec (burstSize cfg) (unat (next_burst cfg a)) e = [] \<or> unat (next_burst cfg a) < e"
    using burst_spec_Nil [OF B(1)] burst_part_eq(1) [OF assms] by (metis dvd_triv_right not_le)
  have "burst_part cfg a (of_nat e) < 2 ^ 64" using p(2) B(2) by simp
  then have "(of_nat (burst_part cfg a (of_nat e)) :: 64 word) \<noteq> 0"
    using p(1) unat_of_nat [of "burst_part cfg a (of_nat e)", where 'a = 64] by auto
  then show "\<exists>l. ceilLog2 (of_nat (burst_part cfg a (of_nat e))) = Inr l" using ceilLog2_spec by blast
qed

lemma decodeAddr_fits:
  assumes "config_ok cfg" "sz \<le> burstSize cfg"
  shows "\<exists>dp. decodeAddr cfg now pkt a sz rd = Inr dp \<and> pkt_fits cfg dp \<and> \<not> is_row_op dp \<and> dp_isRead dp = rd \<and> dp_pkt dp = pkt \<and>
    dp_addr dp = a \<and> dp_size dp = sz"
  using decodeAddr_ok [OF assms(1), of now pkt a sz rd] assms(2) by (auto simp: pkt_fits_def dp_ok_def)

lemma read_bursts_ok:
  assumes "config_ok cfg" "e + burstSize cfg \<le> 2 ^ 64" "bs = burst_spec (burstSize cfg) (unat a) e" "bs = [] \<or> unat a < e"
    "length (readQueue s) + length (respQueue s) + length bs \<le> readBufferSize cfg" "pc \<le> 1 \<longrightarrow> h = None"
    "miss = unserved cfg s bs" "(h', hs') = with_helper pc h (miss \<noteq> []) (helpers s)"
  shows "\<exists>new k. read_bursts cfg now pkt (of_nat e) pc (length bs) a serviced h s =
      Inr (serviced + (length bs - length miss), h', s\<lparr>servicedByWrQ := k, helpers := hs', readQueue := readQueue s @ new\<rparr>) \<and>
    new_reads cfg pkt h' miss new"
  using assms(3-)
proof (induction bs arbitrary: a serviced h s miss h' hs')
  case Nil
  then have "miss = []" "h' = h" "hs' = helpers s" by (auto simp: unserved_def with_helper_def)
  then show ?case by (intro exI [of _ "[]"] exI [of _ "servicedByWrQ s"]) (simp add: new_reads_def)
next
  case (Cons b bs)
  have a: "unat a < e" using Cons.prems(2) by simp
  note st = burst_step [OF assms(1) a assms(2)]
  define sz where "sz = burst_part cfg a (of_nat e)"
  have b: "b = (unat a, sz)" and bs: "bs = burst_spec (burstSize cfg) (unat (next_burst cfg a)) e"
    using Cons.prems(1) st(1) by (simp_all add: sz_def)
  have nx: "bs = [] \<or> unat (next_burst cfg a) < e" using st(4) bs by simp
  obtain l where l: "ceilLog2 (of_nat sz) = Inr l" using st(5) by (auto simp: sz_def)
  show ?case
  proof (cases "in_write_queue cfg a sz s")
    case True
    define s1 where "s1 = s\<lparr>servicedByWrQ := servicedByWrQ s + 1\<rparr>"
    have miss: "miss = unserved cfg s1 bs" using True Cons.prems(5) b by (simp add: unserved_def s1_def in_write_queue_def)
    have "read_bursts cfg now pkt (of_nat e) pc (length (b # bs)) a serviced h s =
        read_bursts cfg now pkt (of_nat e) pc (length bs) (next_burst cfg a) (serviced + 1) h s1"
      using True l by (simp add: sz_def [symmetric] s1_def)
    moreover have "length miss \<le> length bs" using miss by (simp add: unserved_def)
    moreover obtain new k where "read_bursts cfg now pkt (of_nat e) pc (length bs) (next_burst cfg a) (serviced + 1) h s1 =
        Inr (serviced + 1 + (length bs - length miss), h', s1\<lparr>servicedByWrQ := k, helpers := hs', readQueue := readQueue s1 @ new\<rparr>)"
        "new_reads cfg pkt h' miss new"
      using Cons.IH [OF bs nx _ Cons.prems(4) miss, of h' hs' "serviced + 1"] Cons.prems(3,6) by (auto simp: s1_def)
    ultimately show ?thesis by (intro exI [of _ new] exI [of _ k]) (simp add: s1_def)
  next
    case False
    obtain h1 hs1 where w: "with_helper pc h True (helpers s) = (h1, hs1)" by fastforce
    have "sz \<le> burstSize cfg" using st(3) by (simp add: sz_def)
    then obtain dp where dp: "decodeAddr cfg now pkt a sz True = Inr dp" "pkt_fits cfg dp" "\<not> is_row_op dp" "dp_isRead dp" "dp_pkt dp = pkt"
        "dp_addr dp = a" "dp_size dp = sz"
      using decodeAddr_fits [OF assms(1), of sz now pkt a True] by blast
    then have bd: "burst_of dp = b" using b by (simp add: burst_of_def)
    define q where "q = dp\<lparr>burstHelper := h1\<rparr>"
    define s2 where "s2 = s\<lparr>helpers := hs1, readQueue := readQueue s @ [q]\<rparr>"
    have miss: "miss = b # unserved cfg s2 bs" using False Cons.prems(5) b by (simp add: unserved_def s2_def in_write_queue_def)
    have h': "(h', hs') = with_helper pc h1 (unserved cfg s2 bs \<noteq> []) (helpers s2)" "h' = h1" "hs' = hs1" "pc \<le> 1 \<longrightarrow> h1 = None"
      using Cons.prems(4,6) miss w by (auto simp: with_helper_def s2_def split: if_splits)
    have "read_bursts cfg now pkt (of_nat e) pc (length (b # bs)) a serviced h s =
        read_bursts cfg now pkt (of_nat e) pc (length bs) (next_burst cfg a) serviced h1 s2"
      using False l dp(1) w Cons.prems(3)
      by (auto simp: sz_def [symmetric] s2_def q_def with_helper_def readQueueFull_def Let_def split: if_splits)
    moreover have "length (unserved cfg s2 bs) \<le> length bs" by (simp add: unserved_def)
    moreover obtain new k where "read_bursts cfg now pkt (of_nat e) pc (length bs) (next_burst cfg a) serviced h1 s2 =
        Inr (serviced + (length bs - length (unserved cfg s2 bs)), h', s2\<lparr>servicedByWrQ := k, helpers := hs', readQueue := readQueue s2 @ new\<rparr>)"
        "new_reads cfg pkt h' (unserved cfg s2 bs) new"
      using Cons.IH [OF bs nx _ h'(4) refl h'(1), of serviced] Cons.prems(3) by (auto simp: s2_def)
    ultimately show ?thesis
      using miss h' dp bd by (intro exI [of _ "q # new"] exI [of _ k]) (auto simp: s2_def q_def new_reads_def burst_of_def pkt_fits_def dp_ok_def)
  qed
qed

lemma write_bursts_ok:
  assumes "config_ok cfg" "e + burstSize cfg \<le> 2 ^ 64" "bs = burst_spec (burstSize cfg) (unat a) e" "bs = [] \<or> unat a < e"
    "length (writeQueue s) + length bs \<le> writeBufferSize cfg"
  shows "\<exists>new k. write_bursts cfg now pkt (of_nat e) (length bs) a s =
      Inr (s\<lparr>writeQueue := writeQueue s @ new, isInWriteQueue := isInWriteQueue s \<union> (\<lambda>p. burstAlign cfg (dp_addr p)) ` set new, mergedWrBursts := k\<rparr>) \<and>
    length new \<le> length bs \<and> (\<forall>p \<in> set new. pkt_fits cfg p \<and> \<not> is_row_op p \<and> \<not> dp_isRead p \<and> dp_pkt p = pkt \<and> burst_of p \<in> set bs) \<and>
    (\<forall>b \<in> set bs. burstAlign cfg (of_nat (fst b)) \<in> isInWriteQueue s \<union> (\<lambda>p. burstAlign cfg (dp_addr p)) ` set new)"
  using assms(3-)
proof (induction bs arbitrary: a s)
  case Nil
  then show ?case by (intro exI [of _ "[]"] exI [of _ "mergedWrBursts s"]) simp
next
  case (Cons b bs)
  have a: "unat a < e" using Cons.prems(2) by simp
  note st = burst_step [OF assms(1) a assms(2)]
  define sz where "sz = burst_part cfg a (of_nat e)"
  have b: "b = (unat a, sz)" and bs: "bs = burst_spec (burstSize cfg) (unat (next_burst cfg a)) e"
    using Cons.prems(1) st(1) by (simp_all add: sz_def)
  have nx: "bs = [] \<or> unat (next_burst cfg a) < e" using st(4) bs by simp
  obtain l where l: "ceilLog2 (of_nat sz) = Inr l" using st(5) by (auto simp: sz_def)
  show ?case
  proof (cases "burstAlign cfg a \<in> isInWriteQueue s")
    case True
    define s1 where "s1 = s\<lparr>mergedWrBursts := mergedWrBursts s + 1\<rparr>"
    have e1: "write_bursts cfg now pkt (of_nat e) (length (b # bs)) a s = write_bursts cfg now pkt (of_nat e) (length bs) (next_burst cfg a) s1"
      using True l by (simp add: sz_def [symmetric] s1_def)
    have cap: "length (writeQueue s1) + length bs \<le> writeBufferSize cfg" using Cons.prems(3) by (simp add: s1_def)
    from Cons.IH [OF bs nx cap] obtain new k where
        r: "write_bursts cfg now pkt (of_nat e) (length bs) (next_burst cfg a) s1 =
      Inr (s1\<lparr>writeQueue := writeQueue s1 @ new, isInWriteQueue := isInWriteQueue s1 \<union> (\<lambda>p. burstAlign cfg (dp_addr p)) ` set new, mergedWrBursts := k\<rparr>)"
        and n: "length new \<le> length bs" "\<forall>p \<in> set new. pkt_fits cfg p \<and> \<not> is_row_op p \<and> \<not> dp_isRead p \<and> dp_pkt p = pkt \<and> burst_of p \<in> set bs"
        "\<forall>b \<in> set bs. burstAlign cfg (of_nat (fst b)) \<in> isInWriteQueue s1 \<union> (\<lambda>p. burstAlign cfg (dp_addr p)) ` set new"
      by blast
    show ?thesis using e1 r n True b by (intro exI [of _ new] exI [of _ k]) (simp add: s1_def)
  next
    case False
    have "sz \<le> burstSize cfg" using st(3) by (simp add: sz_def)
    then obtain dp where dp: "decodeAddr cfg now pkt a sz False = Inr dp" "pkt_fits cfg dp" "\<not> is_row_op dp" "dp_isRead dp = False" "dp_pkt dp = pkt"
        "dp_addr dp = a" "dp_size dp = sz"
      using decodeAddr_fits [OF assms(1), of sz now pkt a False] by blast
    then have bd: "burst_of dp = b" using b by (simp add: burst_of_def)
    define s1 where "s1 = s\<lparr>writeQueue := writeQueue s @ [dp], isInWriteQueue := insert (burstAlign cfg a) (isInWriteQueue s)\<rparr>"
    have e1: "write_bursts cfg now pkt (of_nat e) (length (b # bs)) a s = write_bursts cfg now pkt (of_nat e) (length bs) (next_burst cfg a) s1"
      using False l dp(1) Cons.prems(3) by (simp add: sz_def [symmetric] s1_def)
    have cap: "length (writeQueue s1) + length bs \<le> writeBufferSize cfg" using Cons.prems(3) by (simp add: s1_def)
    from Cons.IH [OF bs nx cap] obtain new k where
        r: "write_bursts cfg now pkt (of_nat e) (length bs) (next_burst cfg a) s1 =
      Inr (s1\<lparr>writeQueue := writeQueue s1 @ new, isInWriteQueue := isInWriteQueue s1 \<union> (\<lambda>p. burstAlign cfg (dp_addr p)) ` set new, mergedWrBursts := k\<rparr>)"
        and n: "length new \<le> length bs" "\<forall>p \<in> set new. pkt_fits cfg p \<and> \<not> is_row_op p \<and> \<not> dp_isRead p \<and> dp_pkt p = pkt \<and> burst_of p \<in> set bs"
        "\<forall>b \<in> set bs. burstAlign cfg (of_nat (fst b)) \<in> isInWriteQueue s1 \<union> (\<lambda>p. burstAlign cfg (dp_addr p)) ` set new"
      by blast
    show ?thesis using e1 r n dp bd b by (intro exI [of _ "dp # new"] exI [of _ k]) (auto simp: s1_def)
  qed
qed

subsection \<open>Responses\<close>

lemma accessAndRespond_port:
  assumes "mem_valid (dmem s)" "port_pkt (dmem s) p" "needsResponse p"
  shows "\<exists>t q. accessAndRespond now p lat s = Inr (s\<lparr>dmem := mem_step (dmem s) p, portResps := portResps s @ [(t, q)]\<rparr>) \<and>
    now + lat \<le> t \<and> isResponse q \<and> pkt_addr q = pkt_addr p \<and> pkt_size q = pkt_size p"
proof -
  obtain q where q: "access (dmem s) p = Inr (mem_step (dmem s) p, q)" "isResponse q" "pkt_addr q = pkt_addr p" "pkt_size q = pkt_size p"
    using access_port [OF assms(1,2)] assms(3) by blast
  then show ?thesis
    using assms(3) by (intro exI [of _ "now + lat + headerDelay q + payloadDelay q"] exI [of _ "q\<lparr>headerDelay := 0, payloadDelay := 0\<rparr>"])
      (simp add: accessAndRespond_def isResponse_def)
qed

lemma accessAndRespond_silent:
  assumes "mem_valid (dmem s)" "port_pkt (dmem s) p" "\<not> needsResponse p"
  shows "\<exists>d. accessAndRespond now p lat s = Inr (s\<lparr>dmem := mem_step (dmem s) p, pendingDelete := d\<rparr>)"
  using access_port [OF assms(1,2)] assms(3) by (auto simp: accessAndRespond_def)

text \<open>The number of queued bursts that share a helper, and the invariant of the helpers: a helper waits
  for exactly the bursts that are still queued.\<close>

definition helper_load :: "DRAMPacket list \<Rightarrow> nat \<Rightarrow> nat" where
  "helper_load q h = length (filter (\<lambda>p. burstHelper p = Some h) q)"

definition helper_ok :: "DRAMPacket list \<Rightarrow> nat \<Rightarrow> BurstHelper option \<Rightarrow> bool" where
  "helper_ok q h bh = (case bh of None \<Rightarrow> helper_load q h = 0
     | Some b \<Rightarrow> 0 < helper_load q h \<and> burstsServiced b + helper_load q h = burstCount b)"

definition helpers_ok :: "DRAMPacket list \<Rightarrow> BurstHelper option list \<Rightarrow> bool" where
  "helpers_ok q hs \<longleftrightarrow> (\<forall>h < length hs. helper_ok q h (hs ! h)) \<and>
     (\<forall>p \<in> set q. \<forall>h. burstHelper p = Some h \<longrightarrow> h < length hs)"

definition reads_of :: "DRAMCtrl \<Rightarrow> DRAMPacket list" where
  "reads_of s = respQueue s @ readQueue s"

definition port_ok :: "DRAMConfig \<Rightarrow> DRAMCtrl \<Rightarrow> bool" where
  "port_ok cfg s \<longleftrightarrow> ctrl_ok cfg s \<and> helpers_ok (reads_of s) (helpers s) \<and> mem_valid (dmem s) \<and>
     (\<forall>p \<in> set (reads_of s). port_pkt (dmem s) (dp_pkt p) \<and> isRead (dp_pkt p))"

text \<open>The requests that wait for their response: those of one burst, and the helpers in use.\<close>

definition pending :: "DRAMCtrl \<Rightarrow> nat" where
  "pending s = length (filter (\<lambda>p. burstHelper p = None) (reads_of s)) + length (filter (\<lambda>bh. bh \<noteq> None) (helpers s))"

lemma helper_load_mset:
  assumes "image_mset burstHelper (mset q) = image_mset burstHelper (mset q')"
  shows "helper_load q h = helper_load q' h" "length (filter (\<lambda>p. burstHelper p = None) q) = length (filter (\<lambda>p. burstHelper p = None) q')"
proof -
  have e: "length (filter (\<lambda>p. burstHelper p = x) q) = count (image_mset burstHelper (mset q)) x" for q x
    by (induction q) auto
  show "helper_load q h = helper_load q' h" "length (filter (\<lambda>p. burstHelper p = None) q) = length (filter (\<lambda>p. burstHelper p = None) q')"
    unfolding helper_load_def e assms by simp_all
qed

lemma loop_reads:
  assumes "loop_step cfg s s'"
  shows "image_mset (\<lambda>p. (burstHelper p, dp_pkt p)) (mset (reads_of s')) = image_mset (\<lambda>p. (burstHelper p, dp_pkt p)) (mset (reads_of s))"
proof -
  consider "mset (readQueue s') = mset (readQueue s)" "respQueue s' = respQueue s"
    | p where "add_mset p (mset (readQueue s')) = mset (readQueue s)" "respQueue s' = respQueue s @ [p\<lparr>readyTime := busBusyUntil s'\<rparr>]"
    using assms unfolding loop_step_def by auto
  then show ?thesis
  proof cases
    case 1
    then show ?thesis by (simp add: reads_of_def)
  next
    case 2
    then show ?thesis by (simp add: reads_of_def flip: 2(1))
  qed
qed

lemma same_reads:
  assumes "image_mset (\<lambda>p. (burstHelper p, dp_pkt p)) (mset q) = image_mset (\<lambda>p. (burstHelper p, dp_pkt p)) (mset q')"
  shows "image_mset burstHelper (mset q) = image_mset burstHelper (mset q')" "dp_pkt ` set q = dp_pkt ` set q'"
    "burstHelper ` set q = burstHelper ` set q'"
proof -
  have "image_mset fst (image_mset (\<lambda>p. (burstHelper p, dp_pkt p)) (mset q)) = image_mset fst (image_mset (\<lambda>p. (burstHelper p, dp_pkt p)) (mset q'))"
    "image_mset snd (image_mset (\<lambda>p. (burstHelper p, dp_pkt p)) (mset q)) = image_mset snd (image_mset (\<lambda>p. (burstHelper p, dp_pkt p)) (mset q'))"
    using assms by simp_all
  then have m: "image_mset burstHelper (mset q) = image_mset burstHelper (mset q')" "image_mset dp_pkt (mset q) = image_mset dp_pkt (mset q')"
    by (simp_all add: multiset.map_comp comp_def)
  then show "image_mset burstHelper (mset q) = image_mset burstHelper (mset q')" by simp
  show "dp_pkt ` set q = dp_pkt ` set q'" "burstHelper ` set q = burstHelper ` set q'"
    using arg_cong [OF m(2), of set_mset] arg_cong [OF m(1), of set_mset] by simp_all
qed

lemma helpers_ok_same:
  assumes "image_mset burstHelper (mset q) = image_mset burstHelper (mset q')" "burstHelper ` set q = burstHelper ` set q'"
  shows "helpers_ok q hs = helpers_ok q' hs"
proof -
  have img: "(\<forall>p \<in> set q. \<forall>h. burstHelper p = Some h \<longrightarrow> h < length hs) = (\<forall>x \<in> burstHelper ` set q. \<forall>h. x = Some h \<longrightarrow> h < length hs)" for q
    by auto
  show ?thesis unfolding helpers_ok_def helper_ok_def img assms(2) helper_load_mset(1) [OF assms(1)] ..
qed

lemma loop_keeps_port:
  assumes "port_ok cfg s" "timing_ok cfg" "sched_ok cfg now (ranks s) []"
  shows "\<exists>s'. processNextReqEvent cfg now s = Inr s' \<and> port_ok cfg s' \<and> pending s' = pending s \<and> portResps s' = portResps s"
proof -
  obtain s' where s': "processNextReqEvent cfg now s = Inr s'" "ctrl_ok cfg s'" "loop_step cfg s s'"
    using processNextReqEvent_ok [of cfg s now] assms by (auto simp: port_ok_def)
  have f: "helpers s' = helpers s" "dmem s' = dmem s" "portResps s' = portResps s" using s'(3) by (simp_all add: loop_step_def)
  note same = same_reads [OF loop_reads [OF s'(3)]]
  have "helpers_ok (reads_of s') (helpers s')" using helpers_ok_same [OF same(1,3)] assms(1) f by (simp add: port_ok_def)
  moreover have "\<forall>x \<in> dp_pkt ` set (reads_of s'). port_pkt (dmem s') x \<and> isRead x"
    unfolding same(2) using assms(1) f by (simp add: port_ok_def)
  moreover have "pending s' = pending s"
    by (simp add: pending_def f helper_load_mset(2) [OF same(1)])
  ultimately show ?thesis using s' f assms(1) by (simp add: port_ok_def)
qed

text \<open>Taking the first burst of the queue: the helper of the burst counts it, and is freed with the last.\<close>

lemma helper_load_Cons: "helper_load (p # q) h = (if burstHelper p = Some h then 1 else 0) + helper_load q h"
  by (simp add: helper_load_def)

lemma helper_ok_skip: "burstHelper p \<noteq> Some h \<Longrightarrow> helper_ok (p # q) h bh = helper_ok q h bh"
  by (simp add: helper_ok_def helper_load_Cons split: option.split)

lemma helpers_ok_take:
  assumes "helpers_ok (p # q) hs"
  shows "case burstHelper p of
      None \<Rightarrow> helpers_ok q hs
    | Some h \<Rightarrow> h < length hs \<and> (\<exists>b. hs ! h = Some b \<and> burstsServiced b < burstCount b \<and>
        (burstsServiced b + 1 = burstCount b \<longleftrightarrow> helper_load q h = 0) \<and>
        helpers_ok q (hs[h := if burstsServiced b + 1 = burstCount b then None else Some (b\<lparr>burstsServiced := burstsServiced b + 1\<rparr>)]))"
proof (cases "burstHelper p")
  case None
  then show ?thesis using assms by (simp add: helpers_ok_def helper_ok_skip)
next
  case (Some h)
  have h: "h < length hs" "helper_ok (p # q) h (hs ! h)" using assms Some by (simp_all add: helpers_ok_def)
  then obtain b where b: "hs ! h = Some b" "burstsServiced b + 1 + helper_load q h = burstCount b"
    using Some by (auto simp: helper_ok_def helper_load_Cons split: option.splits)
  have "helper_ok q h (if burstsServiced b + 1 = burstCount b then None else Some (b\<lparr>burstsServiced := burstsServiced b + 1\<rparr>))"
    using b(2) by (auto simp: helper_ok_def)
  moreover have "helper_ok q i (hs ! i)" if "i < length hs" "i \<noteq> h" for i
  proof -
    have "helper_ok (p # q) i (hs ! i)" using assms that(1) by (simp add: helpers_ok_def)
    then show ?thesis using that(2) Some by (simp add: helper_ok_skip)
  qed
  ultimately show ?thesis
    using assms h(1) b Some by (auto simp: helpers_ok_def nth_list_update)
qed

lemma filter_Some_update:
  assumes "h < length hs" "hs ! h = Some b"
  shows "length (filter (\<lambda>x. x \<noteq> None) (hs[h := None])) + 1 = length (filter (\<lambda>x. x \<noteq> None) hs)"
    "length (filter (\<lambda>x. x \<noteq> None) (hs[h := Some c])) = length (filter (\<lambda>x. x \<noteq> None) hs)"
  using assms by (induction hs arbitrary: h) (auto simp: nth_Cons split: nat.splits)

lemma next_response_ok:
  assumes "ctrl_ok cfg s" "respQueue s = dp # rest" "readyTime dp = now" "respondEvent s1 = None"
    "ranks s1 = ranks s" "readQueue s1 = readQueue s" "writeQueue s1 = writeQueue s" "busState s1 = busState s" "pendingRowOps s1 = pendingRowOps s"
    "busBusyUntil s1 = busBusyUntil s" "isInWriteQueue s1 = isInWriteQueue s"
  shows "\<exists>s'. next_response now rest s1 = Inr s' \<and> ctrl_ok cfg s' \<and> respQueue s' = rest \<and> readQueue s' = readQueue s \<and>
    helpers s' = helpers s1 \<and> dmem s' = dmem s1 \<and> portResps s' = portResps s1"
proof -
  have r: "readyTime dp + tBURST cfg \<le> readyTime (hd rest)" if "rest \<noteq> []"
    using assms(1,2) that by (cases rest) (auto simp: ctrl_ok_def core_ok_def resp_ok_def)
  have "\<exists>s'. next_response now rest s1 = Inr s' \<and> respQueue s' = rest \<and> readQueue s' = readQueue s \<and>
    helpers s' = helpers s1 \<and> dmem s' = dmem s1 \<and> portResps s' = portResps s1 \<and> ranks s' = ranks s \<and> writeQueue s' = writeQueue s \<and>
    busState s' = busState s \<and> pendingRowOps s' = pendingRowOps s \<and> busBusyUntil s' = busBusyUntil s \<and> isInWriteQueue s' = isInWriteQueue s \<and>
    respondEvent s' = (if rest = [] then None else Some (readyTime (hd rest)))"
    using assms(3-) r
    by (auto simp: next_response_def schedule_event_def signalDrainDone_def sendRetryReq_def Let_def)
  then obtain s' where s': "next_response now rest s1 = Inr s'" "respQueue s' = rest" "readQueue s' = readQueue s"
    "helpers s' = helpers s1" "dmem s' = dmem s1" "portResps s' = portResps s1" "ranks s' = ranks s" "writeQueue s' = writeQueue s"
    "busState s' = busState s" "pendingRowOps s' = pendingRowOps s" "busBusyUntil s' = busBusyUntil s" "isInWriteQueue s' = isInWriteQueue s"
    "respondEvent s' = (if rest = [] then None else Some (readyTime (hd rest)))" by blast
  have "ctrl_ok cfg s'" using assms(1,2) s' by (simp add: ctrl_ok_def core_ok_def queues_ok_def resp_ok_def bank_time_def)
  then show ?thesis using s' by blast
qed

text \<open>The request of a burst is answered now exactly when no other burst of it is queued.\<close>

definition last_burst :: "DRAMPacket \<Rightarrow> DRAMPacket list \<Rightarrow> bool" where
  "last_burst p q \<longleftrightarrow> burstHelper p = None \<or> (\<forall>r \<in> set q. burstHelper r \<noteq> burstHelper p)"

lemma port_pkt_step:
  assumes "mem_valid m" "port_pkt m p"
  shows "mem_valid (mem_step m p) \<and> (port_pkt m p' \<longrightarrow> port_pkt (mem_step m p) p')"
proof -
  have "mem_valid (mem_step m p)" "am_range (mem_step m p) = am_range m" using access_port [OF assms] by blast+
  then show ?thesis using port_pkt_shape by simp
qed

lemma answer_burst_ok:
  assumes ok: "helpers_ok (dp # q) (helpers s)" and m: "mem_valid (dmem s)" "port_pkt (dmem s) (dp_pkt dp)" and rd: "isRead (dp_pkt dp)"
  shows "\<exists>hs m' ps. answer_burst cfg now dp s = Inr (s\<lparr>dmem := m', portResps := portResps s @ ps, helpers := hs\<rparr>) \<and>
    helpers_ok q hs \<and> mem_valid m' \<and> (\<forall>p. port_pkt (dmem s) p \<longrightarrow> port_pkt m' p) \<and>
    (if last_burst dp q then m' = mem_step (dmem s) (dp_pkt dp) \<and> (\<exists>t r. ps = [(t, r)] \<and> isResponse r \<and> pkt_addr r = pkt_addr (dp_pkt dp) \<and> pkt_size r = pkt_size (dp_pkt dp) \<and> now \<le> t)
       else m' = dmem s \<and> ps = []) \<and>
    length ps + length (filter (\<lambda>x. x \<noteq> None) hs) = (if burstHelper dp = None then 1 else 0) + length (filter (\<lambda>x. x \<noteq> None) (helpers s))"
proof -
  have needs: "needsResponse (dp_pkt dp)" using m(2) rd by (simp add: port_pkt_def)
  obtain t r where a: "accessAndRespond now (dp_pkt dp) (frontendLatency cfg + backendLatency cfg) s =
      Inr (s\<lparr>dmem := mem_step (dmem s) (dp_pkt dp), portResps := portResps s @ [(t, r)]\<rparr>)" "now \<le> t" "isResponse r"
      "pkt_addr r = pkt_addr (dp_pkt dp)" "pkt_size r = pkt_size (dp_pkt dp)"
    using accessAndRespond_port [OF m needs, of now "frontendLatency cfg + backendLatency cfg"] by auto
  have m': "mem_valid (mem_step (dmem s) (dp_pkt dp))" "\<And>p. port_pkt (dmem s) p \<longrightarrow> port_pkt (mem_step (dmem s) (dp_pkt dp)) p"
    using port_pkt_step [OF m] by blast+
  show ?thesis
  proof (cases "burstHelper dp")
    case None
    then have "helpers_ok q (helpers s)" using helpers_ok_take [OF ok] by simp
    then show ?thesis
      using a m' None
      by (intro exI [of _ "helpers s"] exI [of _ "mem_step (dmem s) (dp_pkt dp)"] exI [of _ "[(t, r)]"])
        (simp add: answer_burst_def last_burst_def)
  next
    case (Some h)
    then obtain b where b: "h < length (helpers s)" "helpers s ! h = Some b" "burstsServiced b + 1 = burstCount b \<longleftrightarrow> helper_load q h = 0"
        "helpers_ok q ((helpers s)[h := if burstsServiced b + 1 = burstCount b then None else Some (b\<lparr>burstsServiced := burstsServiced b + 1\<rparr>)])"
      using helpers_ok_take [OF ok] by auto
    have l: "last_burst dp q \<longleftrightarrow> burstsServiced b + 1 = burstCount b"
      using b(3) Some by (auto simp: last_burst_def helper_load_def filter_empty_conv)
    show ?thesis
    proof (cases "last_burst dp q")
      case True
      then have "answer_burst cfg now dp s = Inr (s\<lparr>dmem := mem_step (dmem s) (dp_pkt dp), portResps := portResps s @ [(t, r)],
          helpers := (helpers s)[h := None]\<rparr>)"
        using a(1) b(2) Some l by (simp add: answer_burst_def Let_def)
      then show ?thesis
        using a m' Some True b(4) l filter_Some_update(1) [OF b(1,2)]
        by (intro exI [of _ "(helpers s)[h := None]"] exI [of _ "mem_step (dmem s) (dp_pkt dp)"] exI [of _ "[(t, r)]"]) simp
    next
      case False
      define hs where "hs = (helpers s)[h := Some (b\<lparr>burstsServiced := burstsServiced b + 1\<rparr>)]"
      have "answer_burst cfg now dp s = Inr (s\<lparr>dmem := dmem s, portResps := portResps s @ [], helpers := hs\<rparr>)"
        using b(2) Some l False by (simp add: answer_burst_def Let_def hs_def)
      then show ?thesis
        using m Some False b(4) l filter_Some_update(2) [OF b(1,2)]
        by (intro exI [of _ hs] exI [of _ "dmem s"] exI [of _ "[]"]) (simp add: hs_def)
    qed
  qed
qed

lemma respond_keeps_port:
  assumes ok: "port_ok cfg s" and ev: "respondEvent s = Some now"
  shows "\<exists>dp rest s' ps. respQueue s = dp # rest \<and> processRespondEvent cfg now (s\<lparr>respondEvent := None\<rparr>) = Inr s' \<and> port_ok cfg s' \<and>
    respQueue s' = rest \<and> readQueue s' = readQueue s \<and> portResps s' = portResps s @ ps \<and>
    length ps + pending s' = pending s \<and>
    (if last_burst dp (rest @ readQueue s) then \<exists>t r. ps = [(t, r)] \<and> isResponse r \<and> pkt_addr r = pkt_addr (dp_pkt dp) \<and> pkt_size r = pkt_size (dp_pkt dp) \<and> now \<le> t
     else ps = [])"
proof -
  have c: "ctrl_ok cfg s" using ok by (simp add: port_ok_def)
  then have "respQueue s \<noteq> []" "readyTime (hd (respQueue s)) = now"
    using ev by (auto simp: ctrl_ok_def core_ok_def resp_ok_def split: if_splits)
  then obtain dp rest where r: "respQueue s = dp # rest" "readyTime dp = now" by (cases "respQueue s") auto
  define s0 where "s0 = s\<lparr>respondEvent := None\<rparr>"
  have h: "helpers_ok (dp # (rest @ readQueue s)) (helpers s0)" "mem_valid (dmem s0)" "port_pkt (dmem s0) (dp_pkt dp)" "isRead (dp_pkt dp)"
    using ok r by (simp_all add: port_ok_def reads_of_def s0_def)
  obtain hs m' ps where an: "answer_burst cfg now dp s0 = Inr (s0\<lparr>dmem := m', portResps := portResps s0 @ ps, helpers := hs\<rparr>)"
    and a: "helpers_ok (rest @ readQueue s) hs" "mem_valid m'" "\<And>p. port_pkt (dmem s0) p \<longrightarrow> port_pkt m' p"
    "if last_burst dp (rest @ readQueue s) then m' = mem_step (dmem s0) (dp_pkt dp) \<and> (\<exists>t r. ps = [(t, r)] \<and> isResponse r \<and> pkt_addr r = pkt_addr (dp_pkt dp) \<and> pkt_size r = pkt_size (dp_pkt dp) \<and> now \<le> t)
       else m' = dmem s0 \<and> ps = []"
    "length ps + length (filter (\<lambda>x. x \<noteq> None) hs) = (if burstHelper dp = None then 1 else 0) + length (filter (\<lambda>x. x \<noteq> None) (helpers s0))"
    using answer_burst_ok [OF h] by metis
  define s1 where "s1 = s0\<lparr>dmem := m', portResps := portResps s0 @ ps, helpers := hs\<rparr>"
  obtain s' where s': "next_response now rest s1 = Inr s'" "ctrl_ok cfg s'" "respQueue s' = rest" "readQueue s' = readQueue s"
      "helpers s' = helpers s1" "dmem s' = dmem s1" "portResps s' = portResps s1"
    using next_response_ok [OF c r, of s1] by (auto simp: s1_def s0_def)
  have "processRespondEvent cfg now s0 = Inr s'"
    using r(1) an s'(1) by (simp add: processRespondEvent_def s0_def s1_def)
  moreover have "port_ok cfg s'"
    using s' a(1-3) ok r(1) by (auto simp: port_ok_def reads_of_def s1_def s0_def)
  moreover have "length ps + pending s' = pending s"
    using a(5) s' r(1) by (simp add: pending_def reads_of_def s1_def s0_def)
  ultimately show ?thesis using r(1) s' a(4) by (auto simp: s1_def s0_def split: if_splits)
qed

subsection \<open>Accepting a request\<close>

lemma helpers_ok_single: "helpers_ok q hs \<Longrightarrow> \<forall>p \<in> set new. burstHelper p = None \<Longrightarrow> helpers_ok (q @ new) hs"
proof -
  assume a: "helpers_ok q hs" "\<forall>p \<in> set new. burstHelper p = None"
  then have "helper_load (q @ new) h = helper_load q h" for h by (simp add: helper_load_def filter_empty_conv)
  then show ?thesis using a by (auto simp: helpers_ok_def helper_ok_def split: option.splits)
qed

lemma helpers_ok_split:
  assumes "helpers_ok q hs" "\<forall>p \<in> set new. burstHelper p = Some (length hs)" "new \<noteq> []" "n + length new = c"
  shows "helpers_ok (q @ new) (hs @ [Some \<lparr>burstCount = c, burstsServiced = n\<rparr>])"
proof -
  have "filter (\<lambda>p. burstHelper p = Some (length hs)) q = []" using assms(1) by (auto simp: helpers_ok_def filter_empty_conv)
  moreover have "filter (\<lambda>p. burstHelper p = Some (length hs)) new = new" using assms(2) by simp
  ultimately have n: "helper_load (q @ new) (length hs) = length new" by (simp add: helper_load_def)
  have o: "helper_load (q @ new) h = helper_load q h" if "h < length hs" for h
  proof -
    have "filter (\<lambda>p. burstHelper p = Some h) new = []" using assms(2) that by (auto simp: filter_empty_conv)
    then show ?thesis by (simp add: helper_load_def)
  qed
  have "helper_ok (q @ new) h ((hs @ [Some \<lparr>burstCount = c, burstsServiced = n\<rparr>]) ! h)" if "h < Suc (length hs)" for h
  proof (cases "h = length hs")
    case True
    then show ?thesis using n assms(3,4) by (simp add: helper_ok_def)
  next
    case False
    then have h: "h < length hs" using that by simp
    then have "helper_ok q h (hs ! h)" using assms(1) by (simp add: helpers_ok_def)
    then show ?thesis using h by (simp add: helper_ok_def o nth_append split: option.splits)
  qed
  then show ?thesis using assms(1,2) by (auto simp: helpers_ok_def)
qed

lemma ctrl_ok_frame:
  "ctrl_ok cfg (s\<lparr>dmem := m\<rparr>) = ctrl_ok cfg s" "ctrl_ok cfg (s\<lparr>portResps := p\<rparr>) = ctrl_ok cfg s"
  "ctrl_ok cfg (s\<lparr>helpers := h\<rparr>) = ctrl_ok cfg s" "ctrl_ok cfg (s\<lparr>servicedByWrQ := n\<rparr>) = ctrl_ok cfg s"
  "ctrl_ok cfg (s\<lparr>mergedWrBursts := n\<rparr>) = ctrl_ok cfg s" "ctrl_ok cfg (s\<lparr>pendingDelete := d\<rparr>) = ctrl_ok cfg s"
  "ctrl_ok cfg (s\<lparr>prevArrival := t\<rparr>) = ctrl_ok cfg s" "ctrl_ok cfg (s\<lparr>retryRdReq := b\<rparr>) = ctrl_ok cfg s"
  "ctrl_ok cfg (s\<lparr>retryWrReq := b\<rparr>) = ctrl_ok cfg s"
  by (simp_all add: ctrl_ok_def core_ok_def queues_ok_def resp_ok_def bank_time_def)

lemma ctrl_ok_reads:
  assumes "ctrl_ok cfg s" "\<forall>p \<in> set new. pkt_fits cfg p \<and> \<not> is_row_op p" "\<not> readQueueFull cfg (length new) s"
  shows "ctrl_ok cfg (s\<lparr>readQueue := readQueue s @ new\<rparr>)"
  using assms by (auto simp: ctrl_ok_def queues_ok_def readQueueFull_def)

lemma ctrl_ok_writes:
  assumes "ctrl_ok cfg s" "\<forall>p \<in> set new. pkt_fits cfg p \<and> \<not> is_row_op p" "\<not> writeQueueFull cfg (length new) s"
  shows "ctrl_ok cfg (s\<lparr>writeQueue := writeQueue s @ new, isInWriteQueue := isInWriteQueue s \<union> (\<lambda>p. burstAlign cfg (dp_addr p)) ` set new\<rparr>)"
proof -
  have "filter is_row_op new = []" using assms(2) by (simp add: filter_empty_conv)
  then have "row_ops_in (writeQueue s @ new) = row_ops_in (writeQueue s)" by (simp add: row_ops_in_def)
  moreover have "(\<lambda>p. burstAlign cfg (dp_addr p)) ` set new \<subseteq> write_index cfg (writeQueue s @ new)"
      "write_index cfg (writeQueue s) \<subseteq> write_index cfg (writeQueue s @ new)"
    using assms(2) by (auto simp: write_index_def)
  ultimately show ?thesis
    using assms by (auto simp: ctrl_ok_def queues_ok_def writeQueueFull_def)
qed

lemma kick_nextReq_ok: "\<exists>e. kick_nextReq now now s = Inr (s\<lparr>nextReqEvent := Some e\<rparr>)"
proof (cases "nextReqEvent s")
  case (Some a)
  then have "s\<lparr>nextReqEvent := Some a\<rparr> = s" by (cases s) simp
  then show ?thesis using Some by (intro exI [of _ a]) (simp add: kick_nextReq_def)
qed (auto simp: kick_nextReq_def schedule_event_def)

lemma addToReadQueue_ok:
  assumes ok: "port_ok cfg s" and cfg: "config_ok cfg" and pkt: "port_pkt (dmem s) pkt" "isRead pkt" and e: "ends_at cfg pkt e"
    and bs: "bs = burst_spec (burstSize cfg) (unat (pkt_addr pkt)) e" and room: "\<not> readQueueFull cfg (length bs) s"
  shows "\<exists>s' new ps. addToReadQueue cfg now pkt (length bs) s = Inr s' \<and> port_ok cfg s' \<and>
    readQueue s' = readQueue s @ new \<and> map burst_of new = unserved cfg s bs \<and> respQueue s' = respQueue s \<and> writeQueue s' = writeQueue s \<and>
    portResps s' = portResps s @ ps \<and> (ps = [] \<longleftrightarrow> new \<noteq> []) \<and> length ps + pending s' = pending s + 1 \<and> (new \<noteq> [] \<longrightarrow> nextReqEvent s' \<noteq> None)"
proof -
  define miss where "miss = unserved cfg s bs"
  obtain h hs where wh: "(h, hs) = with_helper (length bs) None (miss \<noteq> []) (helpers s)" by (metis surj_pair)
  have c: "needsResponse pkt" "pkt_ok pkt" "mem_valid (dmem s)" using pkt ok by (simp_all add: port_pkt_def plain_pkt_def port_ok_def)
  have lt: "unat (pkt_addr pkt) < e" "e + burstSize cfg \<le> 2 ^ 64" using e c(2) by (simp_all add: ends_at_def pkt_ok_def)
  have a: "getAddr pkt = Inr (pkt_addr pkt)" "getSize pkt = Inr (pkt_size pkt)" "pkt_addr pkt + of_nat (pkt_size pkt) = of_nat e"
    using c(2) e by (simp_all add: getAddr_def getSize_def pkt_ok_def ends_at_def)
  have nw: "\<not> isWrite pkt" using pkt by (simp add: port_pkt_def)
  have ne: "bs \<noteq> []" using bs burst_step(1) [OF cfg lt] by simp
  obtain new k where r: "read_bursts cfg now pkt (of_nat e) (length bs) (length bs) (pkt_addr pkt) 0 None s =
      Inr (length bs - length miss, h, s\<lparr>servicedByWrQ := k, helpers := hs, readQueue := readQueue s @ new\<rparr>)" and new: "new_reads cfg pkt h miss new"
    using read_bursts_ok [OF cfg lt(2) bs, of s "length bs" None miss h hs now pkt 0] lt(1) room wh by (auto simp: miss_def readQueueFull_def)
  define s1 where "s1 = s\<lparr>servicedByWrQ := k, helpers := hs, readQueue := readQueue s @ new\<rparr>"
  have ln: "length new = length miss" "length miss \<le> length bs" using new by (auto simp: new_reads_def miss_def unserved_def dest: arg_cong [of _ _ length])
  have all: "length bs - length miss = length bs \<longleftrightarrow> new = []" using ln ne by (cases new) auto
  have cr: "ctrl_ok cfg (s\<lparr>servicedByWrQ := k, readQueue := readQueue s @ new\<rparr>)"
    using ctrl_ok_reads [of cfg "s\<lparr>servicedByWrQ := k\<rparr>" new] ok new room ln by (auto simp: port_ok_def new_reads_def readQueueFull_def ctrl_ok_frame)
  have qs: "\<forall>p \<in> set new. port_pkt (dmem s) (dp_pkt p) \<and> isRead (dp_pkt p)" using new pkt by (simp add: new_reads_def)
  show ?thesis
  proof (cases "new = []")
    case True
    then have "hs = helpers s" using wh ln by (auto simp: with_helper_def)
    then have s1: "s1 = s\<lparr>servicedByWrQ := k\<rparr>" using True by (simp add: s1_def)
    obtain t q where "accessAndRespond now pkt (frontendLatency cfg) s1 =
        Inr (s1\<lparr>dmem := mem_step (dmem s1) pkt, portResps := portResps s1 @ [(t, q)]\<rparr>)"
      using accessAndRespond_port [of s1 pkt now "frontendLatency cfg"] c(1,3) pkt s1 by auto
    then have "addToReadQueue cfg now pkt (length bs) s = Inr (s1\<lparr>dmem := mem_step (dmem s1) pkt, portResps := portResps s1 @ [(t, q)]\<rparr>)"
      using r all True a nw ne by (simp add: addToReadQueue_def s1_def)
    moreover have "port_ok cfg (s1\<lparr>dmem := mem_step (dmem s1) pkt, portResps := portResps s1 @ [(t, q)]\<rparr>)"
      using ok port_pkt_step [OF c(3) pkt(1)] s1 by (simp add: port_ok_def reads_of_def ctrl_ok_frame)
    ultimately show ?thesis
      using True new s1 by (intro exI [of _ "s1\<lparr>dmem := mem_step (dmem s1) pkt, portResps := portResps s1 @ [(t, q)]\<rparr>"] exI [of _ new] exI [of _ "[(t, q)]"])
        (simp add: new_reads_def miss_def pending_def reads_of_def)
  next
    case False
    have m0: "miss \<noteq> []" using ln False by auto
    define hs' where "hs' = (if length bs = 1 then helpers s
        else helpers s @ [Some \<lparr>burstCount = length bs, burstsServiced = length bs - length miss\<rparr>])"
    define s2 where "s2 = s1\<lparr>helpers := hs'\<rparr>"
    have nh: "\<forall>p \<in> set new. burstHelper p = h" using new by (simp add: new_reads_def)
    have "set_serviced h (length bs - length miss) s1 = Inr s2 \<and> helpers_ok (reads_of s @ new) hs' \<and>
      length (filter (\<lambda>p. burstHelper p = None) new) + length (filter (\<lambda>x. x \<noteq> None) hs') = length (filter (\<lambda>x. x \<noteq> None) (helpers s)) + 1"
    proof (cases "length bs = 1")
      case True
      then have w: "h = None" "hs = helpers s" using wh by (simp_all add: with_helper_def)
      moreover have "length new = 1" using True ln m0 by (cases miss) auto
      moreover have "filter (\<lambda>p. burstHelper p = None) new = new" using nh w(1) by simp
      moreover have "helpers_ok (reads_of s @ new) (helpers s)" using helpers_ok_single ok nh w(1) by (simp add: port_ok_def)
      ultimately show ?thesis using True by (simp add: set_serviced_def s2_def hs'_def s1_def)
    next
      case False
      then have "1 < length bs" using ne by (cases bs) auto
      then have w: "h = Some (length (helpers s))" "hs = helpers s @ [Some \<lparr>burstCount = length bs, burstsServiced = 0\<rparr>]"
        using wh m0 by (simp_all add: with_helper_def)
      moreover have "filter (\<lambda>p. burstHelper p = None) new = []" using nh w(1) by (simp add: filter_empty_conv)
      moreover have "helpers_ok (reads_of s @ new) hs'"
        using helpers_ok_split [of "reads_of s" "helpers s" new "length bs - length miss" "length bs"] ok nh w(1) ln \<open>new \<noteq> []\<close> False
        by (simp add: port_ok_def hs'_def)
      ultimately show ?thesis using False by (simp add: set_serviced_def s2_def hs'_def s1_def)
    qed
    then have ss: "set_serviced h (length bs - length miss) s1 = Inr s2" and hok: "helpers_ok (reads_of s @ new) hs'"
      and pn: "length (filter (\<lambda>p. burstHelper p = None) new) + length (filter (\<lambda>x. x \<noteq> None) hs') = length (filter (\<lambda>x. x \<noteq> None) (helpers s)) + 1"
      by blast+
    obtain ev where k: "kick_nextReq now now s2 = Inr (s2\<lparr>nextReqEvent := Some ev\<rparr>)" using kick_nextReq_ok by blast
    have "addToReadQueue cfg now pkt (length bs) s = Inr (s2\<lparr>nextReqEvent := Some ev\<rparr>)"
      using r all False a nw ne ss k by (simp add: addToReadQueue_def s1_def)
    moreover have "port_ok cfg (s2\<lparr>nextReqEvent := Some ev\<rparr>)"
      using cr ok hok qs by (auto simp: port_ok_def reads_of_def s2_def s1_def ctrl_ok_frame)
    ultimately show ?thesis
      using False new pn by (intro exI [of _ "s2\<lparr>nextReqEvent := Some ev\<rparr>"] exI [of _ new] exI [of _ "[]"])
        (simp add: new_reads_def miss_def pending_def reads_of_def s2_def s1_def)
  qed
qed

lemma addToWriteQueue_ok:
  assumes ok: "port_ok cfg s" and cfg: "config_ok cfg" and pkt: "port_pkt (dmem s) pkt" "isWrite pkt" and e: "ends_at cfg pkt e"
    and bs: "bs = burst_spec (burstSize cfg) (unat (pkt_addr pkt)) e" and room: "\<not> writeQueueFull cfg (length bs) s"
  shows "\<exists>s' new ps. addToWriteQueue cfg now pkt (length bs) s = Inr s' \<and> port_ok cfg s' \<and> dmem s' = mem_step (dmem s) pkt \<and>
    writeQueue s' = writeQueue s @ new \<and> (\<forall>b \<in> set bs. burstAlign cfg (of_nat (fst b)) \<in> isInWriteQueue s') \<and>
    readQueue s' = readQueue s \<and> respQueue s' = respQueue s \<and>
    portResps s' = portResps s @ ps \<and> length ps = (if needsResponse pkt then 1 else 0) \<and> pending s' = pending s \<and> nextReqEvent s' \<noteq> None"
proof -
  have c: "isWrite pkt" "pkt_ok pkt" "mem_valid (dmem s)" "\<not> isRowOp pkt" using pkt ok by (simp_all add: port_pkt_def plain_pkt_def port_ok_def)
  have lt: "unat (pkt_addr pkt) < e" "e + burstSize cfg \<le> 2 ^ 64" using e c(2) by (simp_all add: ends_at_def pkt_ok_def)
  have a: "getAddr pkt = Inr (pkt_addr pkt)" "getSize pkt = Inr (pkt_size pkt)" "pkt_addr pkt + of_nat (pkt_size pkt) = of_nat e"
    using c(2) e by (simp_all add: getAddr_def getSize_def pkt_ok_def ends_at_def)
  define idx where "idx new = isInWriteQueue s \<union> (\<lambda>p. burstAlign cfg (dp_addr p)) ` set new" for new :: "DRAMPacket list"
  obtain new k where w: "write_bursts cfg now pkt (of_nat e) (length bs) (pkt_addr pkt) s =
      Inr (s\<lparr>writeQueue := writeQueue s @ new, isInWriteQueue := idx new, mergedWrBursts := k\<rparr>)"
    and new: "length new \<le> length bs" "\<forall>p \<in> set new. pkt_fits cfg p \<and> \<not> is_row_op p"
      "\<forall>b \<in> set bs. burstAlign cfg (of_nat (fst b)) \<in> idx new"
    using write_bursts_ok [OF cfg lt(2) bs, of s now pkt] lt(1) room unfolding writeQueueFull_def idx_def by auto
  define s1 where "s1 = s\<lparr>writeQueue := writeQueue s @ new, isInWriteQueue := idx new, mergedWrBursts := k\<rparr>"
  have cw: "ctrl_ok cfg s1"
    using ctrl_ok_writes [of cfg s new] ok new room by (auto simp: port_ok_def writeQueueFull_def ctrl_ok_frame s1_def idx_def)
  obtain d ps where r: "accessAndRespond now pkt (frontendLatency cfg) s1 =
        Inr (s1\<lparr>dmem := mem_step (dmem s) pkt, pendingDelete := d, portResps := portResps s @ ps\<rparr>)"
      and ps: "length ps = (if needsResponse pkt then 1 else 0)"
  proof (cases "needsResponse pkt")
    case True
    obtain t q where "accessAndRespond now pkt (frontendLatency cfg) s1 = Inr (s1\<lparr>dmem := mem_step (dmem s1) pkt, portResps := portResps s1 @ [(t, q)]\<rparr>)"
      using accessAndRespond_port [of s1 pkt now "frontendLatency cfg"] c(3) pkt(1) True by (auto simp: s1_def)
    then show thesis using that [of "[(t, q)]" "pendingDelete s1"] True by (simp add: s1_def)
  next
    case False
    obtain d where "accessAndRespond now pkt (frontendLatency cfg) s1 = Inr (s1\<lparr>dmem := mem_step (dmem s1) pkt, pendingDelete := d\<rparr>)"
      using accessAndRespond_silent [of s1 pkt now "frontendLatency cfg"] c(3) pkt(1) False by (auto simp: s1_def)
    then show thesis using that [of "[]" d] False by (simp add: s1_def)
  qed
  define s2 where "s2 = s1\<lparr>dmem := mem_step (dmem s) pkt, pendingDelete := d, portResps := portResps s @ ps\<rparr>"
  obtain ev where k: "kick_nextReq now now s2 = Inr (s2\<lparr>nextReqEvent := Some ev\<rparr>)" using kick_nextReq_ok by blast
  have "addToWriteQueue cfg now pkt (length bs) s = Inr (s2\<lparr>nextReqEvent := Some ev\<rparr>)"
    using w a c(4) pkt(2) r k by (simp add: addToWriteQueue_def s1_def s2_def)
  moreover have "port_ok cfg (s2\<lparr>nextReqEvent := Some ev\<rparr>)"
    using ok cw port_pkt_step [OF c(3) pkt(1)] by (auto simp: port_ok_def reads_of_def s2_def ctrl_ok_frame s1_def)
  ultimately show ?thesis
    using new(3) ps by (intro exI [of _ "s2\<lparr>nextReqEvent := Some ev\<rparr>"] exI [of _ new] exI [of _ ps])
      (simp add: pending_def reads_of_def s2_def s1_def)
qed

text \<open>A row-operation request the memory can carry out.\<close>

definition rowop_pkt :: "AbstractMemory \<Rightarrow> Packet \<Rightarrow> bool" where
  "rowop_pkt m p \<longleftrightarrow> pkt_ok p \<and> isRowOp p \<and> isWrite p \<and> \<not> isRead p \<and> needsResponse p \<and> \<not> memInhibitAsserted p \<and>
     (\<exists>d op dest src1 src2. getPtr p = Inr d \<and> decode_payload d = Inr (Some op, dest, src1, src2)) \<and>
     (\<exists>m' q. access m p = Inr (m', q) \<and> mem_valid m')"

definition request_ok :: "DRAMConfig \<Rightarrow> AbstractMemory \<Rightarrow> Packet \<Rightarrow> bool" where
  "request_ok cfg m p \<longleftrightarrow> (port_pkt m p \<or> rowop_pkt m p) \<and> unat (pkt_addr p) + pkt_size p + burstSize cfg \<le> 2 ^ 64"

lemma enqueue_rowop_ok:
  assumes cfg: "config_ok cfg" and ok: "ctrl_ok cfg s" and p: "getPtr pkt = Inr d" "decode_payload d = Inr (Some op, dest, src1, src2)"
    and room: "\<not> writeQueueFull cfg n s" "0 < n"
  shows "\<exists>dp k. enqueue_rowop cfg now pkt s = Inr (s\<lparr>writeQueue := writeQueue s @ [dp], pendingRowOps := k\<rparr>) \<and>
    is_row_op dp \<and> dp_row_op dp = Some op \<and> dp_addr dp = dest \<and> ctrl_ok cfg (s\<lparr>writeQueue := writeQueue s @ [dp], pendingRowOps := k\<rparr>)"
proof -
  obtain dp dp1 dp2 where d: "decodeAddr cfg now pkt dest 0 False = Inr dp" "decodeAddr cfg now pkt src1 0 False = Inr dp1"
      "decodeAddr cfg now pkt src2 0 False = Inr dp2" and dp: "pkt_fits cfg dp" "dp_addr dp = dest"
    using decodeAddr_fits [OF cfg, of 0] by (meson le0)
  define q where "q = dp\<lparr>is_row_op := True, dp_row_op := Some op, src1_row := dp_row dp1, src2_row := dp_row dp2\<rparr>"
  have "enqueue_rowop cfg now pkt s = Inr (s\<lparr>writeQueue := writeQueue s @ [q], pendingRowOps := pendingRowOps s + 1\<rparr>)"
    using d p by (simp add: enqueue_rowop_def q_def)
  moreover have "pkt_fits cfg q" "is_row_op q" "dp_row_op q = Some op" "dp_addr q = dest" using dp by (simp_all add: q_def pkt_fits_def dp_ok_def)
  moreover have "write_index cfg (writeQueue s) \<subseteq> write_index cfg (writeQueue s @ [q])" by (auto simp: write_index_def)
  ultimately show ?thesis
    using ok room by (intro exI [of _ q] exI [of _ "pendingRowOps s + 1"]) (auto simp: ctrl_ok_def queues_ok_def row_ops_in_def writeQueueFull_def)
qed

lemma addToWriteQueue_rowop:
  assumes ok: "port_ok cfg s" and cfg: "config_ok cfg" and pkt: "rowop_pkt (dmem s) pkt" and room: "\<not> writeQueueFull cfg n s" "0 < n"
  shows "\<exists>s' dp ps. addToWriteQueue cfg now pkt n s = Inr s' \<and> port_ok cfg s' \<and> (\<exists>q. access (dmem s) pkt = Inr (dmem s', q)) \<and>
    writeQueue s' = writeQueue s @ [dp] \<and> is_row_op dp \<and> readQueue s' = readQueue s \<and> respQueue s' = respQueue s \<and>
    portResps s' = portResps s @ ps \<and> length ps = 1 \<and> pending s' = pending s \<and> nextReqEvent s' \<noteq> None"
proof -
  obtain d op dest src1 src2 where p: "getPtr pkt = Inr d" "decode_payload d = Inr (Some op, dest, src1, src2)"
    using pkt by (auto simp: rowop_pkt_def)
  obtain m' r where m: "access (dmem s) pkt = Inr (m', r)" "mem_valid m'" using pkt by (auto simp: rowop_pkt_def)
  have at: "isRowOp pkt" "isWrite pkt" "needsResponse pkt" "\<not> memInhibitAsserted pkt" "pkt_cmd pkt \<noteq> CleanEvict"
    using pkt by (auto simp: rowop_pkt_def needsResponse_def cmd_defs)
  obtain x where x: "same_shape (dmem s) m'" "same_pkt pkt x" "respond_if_needed x = Inr r"
    using access_split [OF m(1) at(4,5)] by blast
  have res: "isResponse r" using respond_cases [OF x(3)] x(2) at(3) by (auto simp: same_pkt_def needsResponse_def)
  have cpu: "port_pkt m' y" if "port_pkt (dmem s) y" for y
    using that x(1) by (simp add: port_pkt_def plain_pkt_def in_mem_def same_shape_def)
  have "ctrl_ok cfg s" using ok by (simp add: port_ok_def)
  then obtain dp k where q: "enqueue_rowop cfg now pkt s = Inr (s\<lparr>writeQueue := writeQueue s @ [dp], pendingRowOps := k\<rparr>)" "is_row_op dp"
      "ctrl_ok cfg (s\<lparr>writeQueue := writeQueue s @ [dp], pendingRowOps := k\<rparr>)"
    using enqueue_rowop_ok [OF cfg _ p room, of now] by blast
  define s1 where "s1 = s\<lparr>writeQueue := writeQueue s @ [dp], pendingRowOps := k\<rparr>"
  define rp where "rp = (now + frontendLatency cfg + headerDelay r + payloadDelay r, r\<lparr>headerDelay := 0, payloadDelay := 0\<rparr>)"
  define s2 where "s2 = s1\<lparr>dmem := m', portResps := portResps s @ [rp]\<rparr>"
  have "accessAndRespond now pkt (frontendLatency cfg) s1 = Inr s2"
    using m(1) at(3) res by (simp add: accessAndRespond_def s1_def s2_def rp_def)
  moreover obtain ev where "kick_nextReq now now s2 = Inr (s2\<lparr>nextReqEvent := Some ev\<rparr>)" using kick_nextReq_ok by blast
  ultimately have "addToWriteQueue cfg now pkt n s = Inr (s2\<lparr>nextReqEvent := Some ev\<rparr>)"
    using q(1) at(1,2) by (simp add: addToWriteQueue_def s1_def)
  moreover have "port_ok cfg (s2\<lparr>nextReqEvent := Some ev\<rparr>)"
    using ok q(3) m(2) cpu by (auto simp: port_ok_def reads_of_def s2_def s1_def ctrl_ok_frame)
  ultimately show ?thesis
    using q(2) m(1) by (intro exI [of _ "s2\<lparr>nextReqEvent := Some ev\<rparr>"] exI [of _ dp] exI [of _ "[rp]"])
      (simp add: pending_def reads_of_def s2_def s1_def)
qed

lemma burst_count:
  assumes "config_ok cfg"
  shows "divCeil (unat (a AND (of_nat (burstSize cfg) - 1)) + n) (burstSize cfg) = length (burst_spec (burstSize cfg) (unat a) (unat a + n))"
proof -
  obtain k where k: "burstSize cfg = 2 ^ k" using assms by (auto simp: config_ok_def)
  have "a AND (of_nat (burstSize cfg) - 1) = take_bit k a" by (simp add: k take_bit_eq_mask mask_eq_exp_minus_1)
  then have "unat (a AND (of_nat (burstSize cfg) - 1)) = take_bit k (unat a)" by (simp only: unsigned_take_bit_eq)
  then have "unat (a AND (of_nat (burstSize cfg) - 1)) = unat a mod burstSize cfg" by (simp only: take_bit_eq_mod k)
  then show ?thesis using burst_spec_length [of "burstSize cfg" "unat a" "unat a + n"] k by simp
qed

lemma port_ok_frame:
  "port_ok cfg (s\<lparr>pendingDelete := d\<rparr>) = port_ok cfg s" "port_ok cfg (s\<lparr>prevArrival := t\<rparr>) = port_ok cfg s"
  "port_ok cfg (s\<lparr>retryRdReq := b\<rparr>) = port_ok cfg s" "port_ok cfg (s\<lparr>retryWrReq := b\<rparr>) = port_ok cfg s"
  "port_ok cfg (s\<lparr>nextReqEvent := e\<rparr>) = port_ok cfg s"
  by (simp_all add: port_ok_def reads_of_def ctrl_ok_frame)

lemma pending_frame [simp]:
  "pending (s\<lparr>pendingDelete := d\<rparr>) = pending s" "pending (s\<lparr>prevArrival := t\<rparr>) = pending s"
  "pending (s\<lparr>retryRdReq := b\<rparr>) = pending s" "pending (s\<lparr>retryWrReq := b\<rparr>) = pending s"
  "pending (s\<lparr>nextReqEvent := e\<rparr>) = pending s"
  by (simp_all add: pending_def reads_of_def)

definition bursts_of :: "DRAMConfig \<Rightarrow> Packet \<Rightarrow> (nat \<times> nat) list" where
  "bursts_of cfg p = burst_spec (burstSize cfg) (unat (pkt_addr p)) (unat (pkt_addr p) + pkt_size p)"

definition has_room :: "DRAMConfig \<Rightarrow> Packet \<Rightarrow> DRAMCtrl \<Rightarrow> bool" where
  "has_room cfg p s \<longleftrightarrow> (if isRead p then \<not> readQueueFull cfg (length (bursts_of cfg p)) s
                                    else \<not> writeQueueFull cfg (length (bursts_of cfg p)) s)"

text \<open>What the port shows of an accepted or refused request.\<close>

definition accepted :: "DRAMConfig \<Rightarrow> Packet \<Rightarrow> DRAMCtrl \<Rightarrow> bool \<Rightarrow> DRAMCtrl \<Rightarrow> bool" where
  "accepted cfg p s acc s' \<longleftrightarrow> acc = has_room cfg p s \<and> respQueue s' = respQueue s \<and>
     (\<exists>ps. portResps s' = portResps s @ ps \<and> length ps + pending s' = pending s + (if acc \<and> needsResponse p then 1 else 0)) \<and>
     (\<not> acc \<longrightarrow> readQueue s' = readQueue s \<and> writeQueue s' = writeQueue s \<and> dmem s' = dmem s \<and>
        (if isRead p then retryRdReq s' else retryWrReq s')) \<and>
     (acc \<and> isRead p \<longrightarrow> (\<exists>new. readQueue s' = readQueue s @ new \<and> map burst_of new = unserved cfg s (bursts_of cfg p))) \<and>
     (acc \<and> \<not> isRead p \<longrightarrow> readQueue s' = readQueue s \<and> (\<exists>q. access (dmem s) p = Inr (dmem s', q)))"

lemma recv_start:
  assumes "config_ok cfg" "request_ok cfg m p" "s1 = s\<lparr>pendingDelete := [], prevArrival := now\<rparr>"
  shows "recvTimingReq cfg now p s =
    (if isRead p then
       if readQueueFull cfg (length (bursts_of cfg p)) s1 then Inr (False, s1\<lparr>retryRdReq := True\<rparr>)
       else rbind (addToReadQueue cfg now p (length (bursts_of cfg p)) s1) (\<lambda>s2. Inr (True, s2))
     else
       if writeQueueFull cfg (length (bursts_of cfg p)) s1 then Inr (False, s1\<lparr>retryWrReq := True\<rparr>)
       else rbind (addToWriteQueue cfg now p (length (bursts_of cfg p)) s1) (\<lambda>s2. Inr (True, s2)))"
    "0 < length (bursts_of cfg p)" "\<not> isRead p \<longrightarrow> isWrite p"
proof -
  have p: "pkt_ok p" "\<not> memInhibitAsserted p"
    using assms(2) by (auto simp: request_ok_def port_pkt_def plain_pkt_def rowop_pkt_def)
  have nc: "pkt_cmd p \<noteq> CleanEvict" using assms(2) by (auto simp: request_ok_def port_pkt_def rowop_pkt_def needsResponse_def cmd_defs)
  show w: "\<not> isRead p \<longrightarrow> isWrite p" using assms(2) by (auto simp: request_ok_def port_pkt_def rowop_pkt_def)
  have a: "getAddr p = Inr (pkt_addr p)" "getSize p = Inr (pkt_size p)" "pkt_size p \<noteq> 0"
    using p(1) by (simp_all add: getAddr_def getSize_def pkt_ok_def)
  show "recvTimingReq cfg now p s =
    (if isRead p then
       if readQueueFull cfg (length (bursts_of cfg p)) s1 then Inr (False, s1\<lparr>retryRdReq := True\<rparr>)
       else rbind (addToReadQueue cfg now p (length (bursts_of cfg p)) s1) (\<lambda>s2. Inr (True, s2))
     else
       if writeQueueFull cfg (length (bursts_of cfg p)) s1 then Inr (False, s1\<lparr>retryWrReq := True\<rparr>)
       else rbind (addToWriteQueue cfg now p (length (bursts_of cfg p)) s1) (\<lambda>s2. Inr (True, s2)))"
    using p nc w a assms(3) by (simp add: recvTimingReq_def burst_count [OF assms(1)] bursts_of_def Let_def)
  have "unat (pkt_addr p) + pkt_size p + burstSize cfg \<le> 2 ^ 64" "unat (pkt_addr p) < unat (pkt_addr p) + pkt_size p"
    using assms(2) a(3) by (simp_all add: request_ok_def)
  then show "0 < length (bursts_of cfg p)" using burst_step(1) [OF assms(1)] by (simp add: bursts_of_def)
qed

lemma recv_keeps_port:
  assumes ok: "port_ok cfg s" and cfg: "config_ok cfg" and req: "request_ok cfg (dmem s) p"
  shows "\<exists>acc s'. recvTimingReq cfg now p s = Inr (acc, s') \<and> port_ok cfg s' \<and> accepted cfg p s acc s'"
proof -
  define s1 where "s1 = s\<lparr>pendingDelete := [], prevArrival := now\<rparr>"
  note st = recv_start [OF cfg req s1_def]
  have ok1: "port_ok cfg s1" using ok by (simp add: s1_def port_ok_frame)
  have d: "dmem s1 = dmem s" "readQueue s1 = readQueue s" "writeQueue s1 = writeQueue s" "respQueue s1 = respQueue s"
      "portResps s1 = portResps s" "pending s1 = pending s" "unserved cfg s1 bs = unserved cfg s bs" for bs
    by (simp_all add: s1_def unserved_def in_write_queue_def)
  have full: "readQueueFull cfg n s1 = readQueueFull cfg n s" "writeQueueFull cfg n s1 = writeQueueFull cfg n s" for n
    by (simp_all add: readQueueFull_def writeQueueFull_def d)
  have e: "ends_at cfg p (unat (pkt_addr p) + pkt_size p)" using req by (simp add: ends_at_def request_ok_def)
  show ?thesis
  proof (cases "has_room cfg p s")
    case False
    define s2 where "s2 = (if isRead p then s1\<lparr>retryRdReq := True\<rparr> else s1\<lparr>retryWrReq := True\<rparr>)"
    have "recvTimingReq cfg now p s = Inr (False, s2)"
      using st(1) False by (simp add: has_room_def full s2_def split: if_splits)
    moreover have "port_ok cfg s2" using ok1 by (simp add: s2_def port_ok_frame)
    moreover have "accepted cfg p s False s2" using False by (simp add: accepted_def s2_def d)
    ultimately show ?thesis by blast
  next
    case room: True
    show ?thesis
    proof (cases "isRead p")
      case True
      have c: "port_pkt (dmem s1) p" using req True by (auto simp: request_ok_def rowop_pkt_def d)
      have r: "\<not> readQueueFull cfg (length (bursts_of cfg p)) s1" using room True by (simp add: has_room_def full)
      obtain s2 new ps where s2: "addToReadQueue cfg now p (length (bursts_of cfg p)) s1 = Inr s2" "port_ok cfg s2"
          "readQueue s2 = readQueue s1 @ new" "map burst_of new = unserved cfg s1 (bursts_of cfg p)" "respQueue s2 = respQueue s1"
          "portResps s2 = portResps s1 @ ps" "length ps + pending s2 = pending s1 + 1"
        using addToReadQueue_ok [OF ok1 cfg c True e bursts_of_def r, of now] by blast
      have "recvTimingReq cfg now p s = Inr (True, s2)" using st(1) True r s2(1) by simp
      moreover have "accepted cfg p s True s2" using s2(3-) True room c by (simp add: accepted_def d port_pkt_def)
      ultimately show ?thesis using s2(2) by blast
    next
      case False
      then have r: "\<not> writeQueueFull cfg (length (bursts_of cfg p)) s1" using room by (simp add: has_room_def full)
      have w: "isWrite p" using st(3) False by simp
      have "\<exists>s2 ps q. addToWriteQueue cfg now p (length (bursts_of cfg p)) s1 = Inr s2 \<and> port_ok cfg s2 \<and> access (dmem s) p = Inr (dmem s2, q) \<and>
          readQueue s2 = readQueue s1 \<and> respQueue s2 = respQueue s1 \<and> portResps s2 = portResps s1 @ ps \<and> length ps = (if needsResponse p then 1 else 0) \<and> pending s2 = pending s1"
      proof (cases "port_pkt (dmem s1) p")
        case True
        obtain q where "access (dmem s) p = Inr (mem_step (dmem s1) p, q)"
          using access_port [of "dmem s" p] True ok unfolding port_ok_def d by blast
        then show ?thesis using addToWriteQueue_ok [OF ok1 cfg True w e bursts_of_def r, of now] by metis
      next
        case False
        then have ro: "rowop_pkt (dmem s1) p" using req by (simp add: request_ok_def d)
        then have "needsResponse p" by (simp add: rowop_pkt_def)
        then show ?thesis using addToWriteQueue_rowop [OF ok1 cfg ro r st(2), of now] unfolding d by auto
      qed
      then obtain s2 ps q where s2: "addToWriteQueue cfg now p (length (bursts_of cfg p)) s1 = Inr s2" "port_ok cfg s2" "access (dmem s) p = Inr (dmem s2, q)"
          "readQueue s2 = readQueue s1" "respQueue s2 = respQueue s1" "portResps s2 = portResps s1 @ ps" "length ps = (if needsResponse p then 1 else 0)" "pending s2 = pending s1"
        by blast
      have "recvTimingReq cfg now p s = Inr (True, s2)" using st(1) False r s2(1) by simp
      moreover have "accepted cfg p s True s2" using s2(3-) False room by (simp add: accepted_def d)
      ultimately show ?thesis using s2(2) by blast
    qed
  qed
qed

text \<open>A list of bursts that covers the \<open>n\<close> bytes from \<open>a\<close> without gap or overlap, each within one aligned
  burst of the device.\<close>

definition tiles :: "nat \<Rightarrow> nat \<Rightarrow> nat \<Rightarrow> (nat \<times> nat) list \<Rightarrow> bool" where
  "tiles B a n bs \<longleftrightarrow> bs \<noteq> [] \<and> fst (hd bs) = a \<and> sum_list (map snd bs) = n \<and>
     (\<forall>i. Suc i < length bs \<longrightarrow> fst (bs ! Suc i) = fst (bs ! i) + snd (bs ! i)) \<and>
     (\<forall>b \<in> set bs. 0 < snd b \<and> fst b div B = (fst b + snd b - 1) div B)"

lemma burst_spec_tiles:
  assumes "0 < B" "0 < n"
  shows "tiles B a n (burst_spec B a (a + n))"
proof -
  define e where "e = a + n"
  have ae: "a < e" using assms(2) by (simp add: e_def)
  have hd: "burst_spec B a e = (a, min ((a div B + 1) * B) e - a) # burst_spec B ((a div B + 1) * B) e"
    using burst_spec_Cons [OF assms(1) ae] .
  have sum: "sum_list (map snd (burst_spec B a e)) = n" using burst_spec_sum [OF assms(1), of a e] by (simp add: e_def)
  define h where "h = (e + B - 1) div B"
  have nth: "burst_spec B a e ! i = (max a ((a div B + i) * B), min ((a div B + i + 1) * B) e - max a ((a div B + i) * B))"
      if "i < length (burst_spec B a e)" for i
    using that by (simp add: burst_spec_def)
  have len: "length (burst_spec B a e) = h - a div B" by (simp add: burst_spec_def h_def)
  have in_: "(a div B + i) * B < e" "a < (a div B + i + 1) * B" if "i < h - a div B" for i
  proof -
    have "a div B + i + 1 \<le> (e + B - 1) div B" using that by (simp add: h_def)
    then have "(a div B + i + 1) * B \<le> e + B - 1" using assms(1) by (simp add: less_eq_div_iff_mult_less_eq)
    then show "(a div B + i) * B < e" using assms(1) by (simp add: algebra_simps)
    have "a < (a div B + 1) * B" using assms(1) by (simp add: dividend_less_div_times)
    also have "\<dots> \<le> (a div B + i + 1) * B" by (intro mult_le_mono1) simp
    finally show "a < (a div B + i + 1) * B" .
  qed
  have cont: "fst (burst_spec B a e ! Suc i) = fst (burst_spec B a e ! i) + snd (burst_spec B a e ! i)"
    if "Suc i < length (burst_spec B a e)" for i
    using that nth [of i] nth [of "Suc i"] in_ [of i] in_ [of "Suc i"] len by (simp add: max_def min_def del: mult_Suc)
  have one: "0 < snd b \<and> fst b div B = (fst b + snd b - 1) div B" if b_in: "b \<in> set (burst_spec B a e)" for b
  proof -
    obtain i where i': "i < length (burst_spec B a e)" "burst_spec B a e ! i = b" using b_in unfolding in_set_conv_nth by blast
    then have i: "i < h - a div B" "b = burst_spec B a e ! i" using len by simp_all
    define q where "q = a div B + i"
    have b: "fst b = max a (q * B)" "fst b + snd b = min ((q + 1) * B) e" "0 < snd b"
      using nth [OF i'(1)] i in_ [OF i(1)] ae assms(1) by (auto simp: q_def max_def min_def simp del: mult_Suc)
    have "q * B \<le> fst b" "fst b < (q + 1) * B" "q * B \<le> fst b + snd b - 1" "fst b + snd b - 1 < (q + 1) * B"
      using b assms(1) by auto
    then have "fst b div B = q" "(fst b + snd b - 1) div B = q" by (auto intro!: div_nat_eqI simp: mult.commute)
    then show ?thesis using b(3) by simp
  qed
  show ?thesis unfolding tiles_def e_def [symmetric] using hd sum cont one by auto
qed

lemma bursts_of_tile: "config_ok cfg \<Longrightarrow> 0 < pkt_size p \<Longrightarrow> tiles (burstSize cfg) (unat (pkt_addr p)) (pkt_size p) (bursts_of cfg p)"
  unfolding bursts_of_def by (rule burst_spec_tiles) (auto simp: config_ok_def)

subsection \<open>The events of the ranks\<close>

text \<open>The events of a rank run the handlers of \<open>Dram_Refresh\<close> on it; the end of a refresh schedules the request
  event of the controller when none is scheduled.\<close>

datatype rank_event = ActivateEvent | PrechargeEvent | RefreshEvent | PowerEvent

definition fire_rank_event :: "DRAMConfig \<Rightarrow> rank_event \<Rightarrow> nat \<Rightarrow> DRAMCtrl \<Rightarrow> DRAMCtrl result" where
  "fire_rank_event cfg ev i s =
     (let r = ranks s ! i; nx = (nextReqEvent s \<noteq> None); tso = timeStampOffset s in
      case ev of
        ActivateEvent \<Rightarrow> rbind (fire_activate r) (\<lambda>r'. Inr (put_rank i r' s))
      | PrechargeEvent \<Rightarrow> rbind (fire_precharge r) (\<lambda>r'. Inr (put_rank i r' s))
      | RefreshEvent \<Rightarrow> rbind (fire_refresh cfg tso (activeRank s) nx r) (\<lambda>r'. Inr (put_rank i r' s))
      | PowerEvent \<Rightarrow> rbind (fire_power cfg tso (activeRank s) nx r) (\<lambda>(kick, r').
          Inr ((put_rank i r' s)\<lparr>nextReqEvent := if kick then powerEvent r else nextReqEvent s\<rparr>)))"

text \<open>What the controller relies on: the book-keeping of the banks, no refresh scheduled on a rank that drains, and
  column times that do not move back.\<close>

definition rank_moved :: "DRAMConfig \<Rightarrow> Rank \<Rightarrow> Rank \<Rightarrow> bool" where
  "rank_moved cfg r r' \<longleftrightarrow> rank_ok cfg r' \<and> (refreshState r' = REF_DRAIN \<longrightarrow> refreshEvent r' = None) \<and>
     (\<forall>j < banksPerRank cfg. colAllowedAt (banks r ! j) \<le> colAllowedAt (banks r' ! j))"

text \<open>A refresh sets the earliest activate of every bank to its own end, also where it was later before. The
  activates the rank remembers are out of the way when they are not after that end, and the oldest of them is
  the activation window before it.\<close>

definition refresh_room :: "DRAMConfig \<Rightarrow> Rank \<Rightarrow> bool" where
  "refresh_room cfg r \<longleftrightarrow> (case powerEvent r of None \<Rightarrow> True | Some ref_done \<Rightarrow>
     (\<forall>t \<in> set (actTicks r). t \<le> ref_done) \<and> (actTicks r \<noteq> [] \<and> last (actTicks r) \<noteq> 0 \<longrightarrow> last (actTicks r) + tXAW cfg \<le> ref_done))"

lemma rank_ok_cong:
  "banks r' = banks r \<Longrightarrow> actTicks r' = actTicks r \<Longrightarrow> numBanksActive r' = numBanksActive r \<Longrightarrow> rank_ok cfg r' = rank_ok cfg r"
  by (simp add: rank_ok_def act_window_def)

lemma rank_moved_same:
  assumes "rank_ok cfg r" "banks r' = banks r" "actTicks r' = actTicks r" "numBanksActive r' = numBanksActive r"
    "refreshState r' = REF_DRAIN \<longrightarrow> refreshEvent r' = None"
  shows "rank_moved cfg r r'"
  using assms rank_ok_cong [of r' r cfg] by (simp add: rank_moved_def)

lemma schedulePowerEvent_Inr:
  "schedulePowerEvent now st t r = Inr r' \<Longrightarrow> r' = r\<lparr>pwrStateTrans := st, powerEvent := Some t\<rparr>"
  by (auto simp: schedulePowerEvent_def schedule_event_def result_simps Let_def split: if_splits)

lemma cols_update: "colAllowedAt k = colAllowedAt (ks ! b) \<Longrightarrow> map colAllowedAt (ks[b := k]) = map colAllowedAt ks"
  by (cases "b < length ks") (simp_all add: map_update list_update_same_conv list_update_beyond)

lemma prechargeBank_cols:
  "prechargeBank cfg tso now b pre_at tr r = Inr r' \<Longrightarrow> map colAllowedAt (banks r') = map colAllowedAt (banks r)"
  by (auto simp: prechargeBank_def result_simps bank_op_simps Let_def cols_update split: if_splits option.splits)

lemma precharge_loop_cols:
  "precharge_loop cfg tso now pre_at bs r = Inr r' \<Longrightarrow> map colAllowedAt (banks r') = map colAllowedAt (banks r)"
proof (induction bs arbitrary: r)
  case (Cons b bs)
  let ?k = "\<lambda>k. k\<lparr>actAllowedAt := max (actAllowedAt k) (pre_at + tRP cfg), preAllowedAt := max (preAllowedAt k) pre_at\<rparr>"
  obtain r1 where r1: "(if openRow (banks r ! b) \<noteq> NO_ROW then prechargeBank cfg tso now b pre_at False r else Inr (set_bank b ?k r)) = Inr r1"
      "precharge_loop cfg tso now pre_at bs r1 = Inr r'"
    using Cons.prems by (auto simp: rbind_Inr_iff)
  have "map colAllowedAt (banks r1) = map colAllowedAt (banks r)"
    using r1(1) prechargeBank_cols [of cfg tso now b pre_at False r r1] cols_update [of "?k (banks r ! b)" "banks r" b]
    by (auto simp: set_bank_def split: if_splits)
  then show ?case using Cons.IH [OF r1(2)] by simp
qed simp

lemma refresh_pre_moved:
  assumes "rank_ok cfg r" "refresh_pre cfg tso now r = Inr r'"
  shows "rank_moved cfg r r'"
proof (cases "pwrState r = PWR_IDLE")
  case True
  then have "r' = r\<lparr>pwrStateTrans := PWR_REF, powerEvent := Some now, refreshState := REF_RUN\<rparr>"
    using assms(2) by (auto simp: refresh_pre_def result_simps Let_def dest!: schedulePowerEvent_Inr)
  then show ?thesis using assms(1) by (intro rank_moved_same) simp_all
next
  case False
  have len: "length (banks r) = banksPerRank cfg" using assms(1) by (simp add: rank_ok_def)
  obtain r1 where r1: "precharge_loop cfg tso now (latest_pre now (banks r)) [0..<length (banks r)] r = Inr r1"
      and r': "r' = (doCommand cfg tso CMD_PREA 0 (latest_pre now (banks r)) r1)\<lparr>refreshState := REF_RUN\<rparr>"
    using assms(2) False by (auto simp: refresh_pre_def result_simps Let_def)
  have "rank_ok cfg r1"
    using precharge_loop_ok [OF assms(1), of "[0..<length (banks r)]" now "latest_pre now (banks r)" tso] latest_pre_ge(1) [of now "banks r"] len r1
    by (auto simp: trans_le_add1)
  then have ok: "rank_ok cfg r'" using rank_ok_cong [of r' r1 cfg] by (simp add: r' doCommand_def)
  have "map colAllowedAt (banks r') = map colAllowedAt (banks r)" using precharge_loop_cols [OF r1] by (simp add: r' doCommand_def)
  then have "colAllowedAt (banks r' ! j) = colAllowedAt (banks r ! j)" if "j < banksPerRank cfg" for j
    using that len by (metis length_map nth_map)
  then show ?thesis using ok by (simp add: rank_moved_def r')
qed

lemma refresh_run_moved:
  assumes "rank_ok cfg r" "refreshState r = REF_RUN" "refresh_run cfg tso now r = Inr r'" "pwrState r' = PWR_REF \<longrightarrow> refresh_room cfg r'"
  shows "rank_moved cfg r r'"
proof -
  obtain e where r': "r' = (doCommand cfg tso CMD_REF 0 now (all_banks (\<lambda>k. k\<lparr>actAllowedAt := now + tRFC cfg\<rparr>) r))
      \<lparr>cmdList := [], refreshEvent := e, pwrStateTrans := PWR_IDLE, powerEvent := Some (now + tRFC cfg)\<rparr>" and p: "pwrState r = PWR_REF"
    using assms(3) by (auto simp: refresh_run_def result_simps Let_def dest!: schedulePowerEvent_Inr split: if_splits)
  have b: "banks r' = map (\<lambda>k. k\<lparr>actAllowedAt := now + tRFC cfg\<rparr>) (banks r)" "actTicks r' = actTicks r" "numBanksActive r' = numBanksActive r"
    by (simp_all add: r' doCommand_def all_banks_def)
  have "refresh_room cfg r'" using assms(4) p by (simp add: r' doCommand_def all_banks_def)
  then have "rank_ok cfg r'"
    using assms(1) by (auto simp: rank_ok_def act_window_def b open_banks_map refresh_room_def) (simp_all add: r' doCommand_def all_banks_def)
  then show ?thesis using assms(1,2) p by (simp add: rank_moved_def b rank_ok_def) (simp add: r' doCommand_def all_banks_def)
qed

lemma rank_moved_via:
  assumes "rank_ok cfg r" "banks x = banks r" "actTicks x = actTicks r" "numBanksActive x = numBanksActive r" "rank_ok cfg x \<Longrightarrow> rank_moved cfg x r'"
  shows "rank_moved cfg r r'"
  using assms rank_ok_cong [of x r cfg] by (simp add: rank_moved_def)

lemma processRefreshEvent_moved:
  assumes "rank_ok cfg r" "refreshEvent r = None" "processRefreshEvent cfg tso now ar nx r = Inr r'" "pwrState r' = PWR_REF \<longrightarrow> refresh_room cfg r'"
  shows "rank_moved cfg r r'"
proof -
  define r1 where "r1 = (if refreshState r = REF_IDLE then r\<lparr>refreshDueAt := now, refreshState := REF_DRAIN\<rparr> else r)"
  define r2 where "r2 = (if refreshState r1 = REF_DRAIN then r1\<lparr>refreshState := REF_PRE\<rparr> else r1)"
  have same: "banks r1 = banks r" "banks r2 = banks r" "actTicks r1 = actTicks r" "actTicks r2 = actTicks r" "numBanksActive r1 = numBanksActive r"
      "numBanksActive r2 = numBanksActive r" "refreshEvent r1 = None"
    using assms(2) by (simp_all add: r1_def r2_def)
  then have ok: "rank_ok cfg r2" using assms(1) rank_ok_cong [of r2 r cfg] by simp
  have eq: "processRefreshEvent cfg tso now ar nx r =
      (if refreshState r1 = REF_DRAIN \<and> rank_no r1 = ar \<and> nx then Inr r1
       else if refreshState r2 = REF_PRE then refresh_pre cfg tso now r2 else refresh_run cfg tso now r2)"
    unfolding processRefreshEvent_def r1_def r2_def Let_def ..
  have two: "rank_moved cfg r r'" if "rank_moved cfg r2 r'" using that by (rule rank_moved_via [OF assms(1) same(2,4,6)])
  consider "r' = r1" | "refreshState r2 = REF_PRE" "refresh_pre cfg tso now r2 = Inr r'"
    | "refreshState r2 \<noteq> REF_PRE" "refresh_run cfg tso now r2 = Inr r'"
    using assms(3) unfolding eq by (auto split: if_splits)
  then show ?thesis
  proof cases
    case 1
    then show ?thesis using same assms(1) by (intro rank_moved_same) simp_all
  next
    case 2
    then show ?thesis using two refresh_pre_moved [OF ok] by blast
  next
    case 3
    moreover have "refreshState r2 = REF_RUN" using 3(1) by (cases "refreshState r") (auto simp: r1_def r2_def)
    ultimately show ?thesis using two refresh_run_moved [OF ok] assms(4) by blast
  qed
qed

lemma processPowerEvent_moved:
  assumes "rank_ok cfg r" "refreshState r = REF_DRAIN \<longrightarrow> refreshEvent r = None"
    "processPowerEvent cfg tso now ar nx r = Inr (kick, r')" "pwrState r' = PWR_REF \<longrightarrow> refresh_room cfg r'"
  shows "rank_moved cfg r r'"
proof -
  define r1 where "r1 = r\<lparr>pwrStateTime := (pwrStateTime r)(pwrState r := pwrStateTime r (pwrState r) + tick_sub now (pwrStateTick r)),
                 pwrState := pwrStateTrans r, pwrStateTick := now\<rparr>"
  note at = rank_moved_via [OF assms(1)]
  consider "r' = r1\<lparr>refreshState := REF_IDLE\<rparr>" | "r' = r1"
    | "refreshState r1 = REF_RUN" "refresh_run cfg tso now r1 = Inr r'"
    | "refreshState r1 = REF_RUN" "refresh_run cfg tso now (r1\<lparr>pwrState := PWR_REF\<rparr>) = Inr r'"
    using assms(3) unfolding processPowerEvent_def Let_def r1_def [symmetric]
    by (auto simp: result_simps processRefreshEvent_def split: if_splits)
  then show ?thesis
  proof cases
    case 3
    then show ?thesis using at [of r1] refresh_run_moved assms(4) by (simp add: r1_def)
  next
    case 4
    then show ?thesis using at [of "r1\<lparr>pwrState := PWR_REF\<rparr>"] refresh_run_moved assms(4) by (simp add: r1_def)
  qed (use assms(1,2) in \<open>auto intro!: rank_moved_same simp: r1_def\<close>)
qed

lemma fire_rank_event_moved:
  assumes ok: "rank_ok cfg (ranks s ! i)" and dr: "refreshState (ranks s ! i) = REF_DRAIN \<longrightarrow> refreshEvent (ranks s ! i) = None" and i: "i < length (ranks s)"
    and step: "fire_rank_event cfg ev i s = Inr s'" and room: "pwrState (ranks s' ! i) = PWR_REF \<longrightarrow> refresh_room cfg (ranks s' ! i)"
  shows "\<exists>r' e. s' = (put_rank i r' s)\<lparr>nextReqEvent := e\<rparr> \<and> rank_moved cfg (ranks s ! i) r'"
proof -
  let ?r = "ranks s ! i"
  obtain r' e where s': "s' = (put_rank i r' s)\<lparr>nextReqEvent := e\<rparr>" and
    r': "fire_activate ?r = Inr r' \<or> fire_precharge ?r = Inr r' \<or> fire_refresh cfg (timeStampOffset s) (activeRank s) (nextReqEvent s \<noteq> None) ?r = Inr r' \<or>
      (\<exists>kick. fire_power cfg (timeStampOffset s) (activeRank s) (nextReqEvent s \<noteq> None) ?r = Inr (kick, r'))"
  proof (cases ev)
    case PowerEvent
    then show thesis using that step by (auto simp: fire_rank_event_def rbind_Inr_iff Let_def)
  qed (use that [of "nextReqEvent s"] step in \<open>auto simp: fire_rank_event_def rbind_Inr_iff Let_def put_rank_def\<close>)
  have room': "pwrState r' = PWR_REF \<longrightarrow> refresh_room cfg r'" using room i by (simp add: s' put_rank_def)
  note at = rank_moved_via [OF ok]
  have "rank_moved cfg ?r r'"
    using r'
  proof (elim disjE exE)
    assume "fire_activate ?r = Inr r'"
    then show ?thesis using ok dr
      by (auto simp: fire_activate_def processActivateEvent_def split: option.splits if_splits dest!: schedulePowerEvent_Inr intro!: rank_moved_same)
  next
    assume "fire_precharge ?r = Inr r'"
    then show ?thesis using ok dr
      by (auto simp: fire_precharge_def processPrechargeEvent_def split: option.splits if_splits dest!: schedulePowerEvent_Inr intro!: rank_moved_same)
  next
    assume f: "fire_refresh cfg (timeStampOffset s) (activeRank s) (nextReqEvent s \<noteq> None) ?r = Inr r'"
    show ?thesis
    proof (cases "refreshEvent ?r")
      case (Some t)
      then show ?thesis using f room' by (intro at [of "?r\<lparr>refreshEvent := None\<rparr>"] processRefreshEvent_moved) (simp_all add: fire_refresh_def)
    qed (use f ok in \<open>auto simp: fire_refresh_def intro!: rank_moved_same\<close>)
  next
    fix kick assume f: "fire_power cfg (timeStampOffset s) (activeRank s) (nextReqEvent s \<noteq> None) ?r = Inr (kick, r')"
    show ?thesis
    proof (cases "powerEvent ?r")
      case (Some t)
      then show ?thesis using f room' dr by (intro at [of "?r\<lparr>powerEvent := None\<rparr>"] processPowerEvent_moved) (simp_all add: fire_power_def)
    qed (use f ok dr in \<open>auto simp: fire_power_def intro!: rank_moved_same\<close>)
  qed
  then show ?thesis using s' by blast
qed

subsection \<open>Runs of the controller\<close>

text \<open>Requests that neither read nor write are answered at once.\<close>

definition invalidate_pkt :: "AbstractMemory \<Rightarrow> Packet \<Rightarrow> bool" where
  "invalidate_pkt m p \<longleftrightarrow> plain_pkt m p \<and> isRequest p \<and> isInvalidate p \<and> \<not> isRead p \<and> \<not> isWrite p"

text \<open>Runs of a controller from its start, with the number of requests accepted so far that need a response.
  Packets another cache answers, and clean evictions, are dropped at the port. A rank event may start a refresh
  only with room for the activates the rank remembers.\<close>

inductive port_run :: "DRAMConfig \<Rightarrow> nat \<Rightarrow> DRAMCtrl \<Rightarrow> bool" for cfg where
  started: "startup cfg now True (new_ctrl cfg m) = Inr s \<Longrightarrow> mem_valid m \<Longrightarrow> port_run cfg 0 s"
| request: "port_run cfg n s \<Longrightarrow> request_ok cfg (dmem s) p \<Longrightarrow> recvTimingReq cfg now p s = Inr (acc, s') \<Longrightarrow>
    port_run cfg (if acc \<and> needsResponse p then n + 1 else n) s'"
| dropped: "port_run cfg n s \<Longrightarrow> memInhibitAsserted p \<or> pkt_cmd p = CleanEvict \<Longrightarrow> recvTimingReq cfg now p s = Inr (acc, s') \<Longrightarrow> port_run cfg n s'"
| invalidate: "port_run cfg n s \<Longrightarrow> invalidate_pkt (dmem s) p \<Longrightarrow> recvTimingReq cfg now p s = Inr (acc, s') \<Longrightarrow>
    port_run cfg (if needsResponse p then n + 1 else n) s'"
| request_event: "port_run cfg n s \<Longrightarrow> nextReqEvent s = Some now \<Longrightarrow> sched_ok cfg now (ranks s) [] \<Longrightarrow>
    processNextReqEvent cfg now (s\<lparr>nextReqEvent := None\<rparr>) = Inr s' \<Longrightarrow> port_run cfg n s'"
| respond_event: "port_run cfg n s \<Longrightarrow> respondEvent s = Some now \<Longrightarrow>
    processRespondEvent cfg now (s\<lparr>respondEvent := None\<rparr>) = Inr s' \<Longrightarrow> port_run cfg n s'"
| rank_event: "port_run cfg n s \<Longrightarrow> i < ranksPerChannel cfg \<Longrightarrow> fire_rank_event cfg ev i s = Inr s' \<Longrightarrow>
    pwrState (ranks s' ! i) = PWR_REF \<longrightarrow> refresh_room cfg (ranks s' ! i) \<Longrightarrow> port_run cfg n s'"

lemma rank_event_ok:
  assumes ok: "port_ok cfg s" and i: "i < ranksPerChannel cfg" and step: "fire_rank_event cfg ev i s = Inr s'"
    and room: "pwrState (ranks s' ! i) = PWR_REF \<longrightarrow> refresh_room cfg (ranks s' ! i)"
  shows "port_ok cfg s' \<and> pending s' = pending s \<and> portResps s' = portResps s"
proof -
  have rs: "ranks_ok cfg (ranks s)" "draining_ok (ranks s)" using ok by (simp_all add: port_ok_def ctrl_ok_def core_ok_def)
  then have il: "i < length (ranks s)" "rank_ok cfg (ranks s ! i)" "refreshState (ranks s ! i) = REF_DRAIN \<longrightarrow> refreshEvent (ranks s ! i) = None"
    using i by (auto simp: ranks_ok_def draining_ok_def)
  obtain r' e where s': "s' = (put_rank i r' s)\<lparr>nextReqEvent := e\<rparr>" and m: "rank_moved cfg (ranks s ! i) r'"
    using fire_rank_event_moved [OF il(2,3,1) step room] by blast
  have b: "bank_time s a j \<le> bank_time s' a j" if "a < ranksPerChannel cfg" "j < banksPerRank cfg" for a j
    using m that il(1) rs(1) by (cases "a = i") (auto simp: bank_time_def rank_moved_def s' put_rank_def ranks_ok_def)
  have "ranks_ok cfg (ranks s')" "draining_ok (ranks s')"
    using m rs ranks_ok_put [OF rs(1), of r' i] by (auto simp: s' put_rank_def rank_moved_def draining_ok_def dest: set_update_subset_insert [THEN subsetD])
  moreover have "readyTime p \<le> bank_time s' a j + tCL cfg" if "p \<in> set (respQueue s)" "a < ranksPerChannel cfg" "j < banksPerRank cfg" for p a j
  proof -
    have "readyTime p \<le> bank_time s a j + tCL cfg" using ok that by (simp add: port_ok_def ctrl_ok_def core_ok_def resp_ok_def)
    then show ?thesis using b [OF that(2,3)] by linarith
  qed
  ultimately have "core_ok cfg s'" using ok by (simp add: port_ok_def ctrl_ok_def core_ok_def resp_ok_def s' put_rank_def)
  then show ?thesis using ok by (simp add: port_ok_def ctrl_ok_def queues_ok_def reads_of_def pending_def s' put_rank_def)
qed

lemma dropped_ok:
  assumes "port_ok cfg s" "memInhibitAsserted p \<or> pkt_cmd p = CleanEvict" "recvTimingReq cfg now p s = Inr (acc, s')"
  shows "port_ok cfg s' \<and> pending s' = pending s \<and> portResps s' = portResps s"
proof -
  have "s' = s\<lparr>pendingDelete := [p]\<rparr>" using assms(2,3) by (auto simp: recvTimingReq_def Let_def split: if_splits)
  then show ?thesis using assms(1) by (simp add: port_ok_frame)
qed

lemma invalidate_ok:
  assumes "port_ok cfg s" "invalidate_pkt (dmem s) p" "recvTimingReq cfg now p s = Inr (acc, s')"
  shows "port_ok cfg s' \<and> pending s' = pending s \<and> length (portResps s') = length (portResps s) + (if needsResponse p then 1 else 0)"
proof -
  have p: "plain_pkt (dmem s) p" "isRequest p" "isInvalidate p" "\<not> isRead p" "\<not> isWrite p" "pkt_cmd p \<noteq> SwapReq" "pkt_cmd p \<noteq> CleanEvict"
      "\<not> memInhibitAsserted p" "getAddr p = Inr (pkt_addr p)" "getSize p = Inr (pkt_size p)"
    using assms(2) by (auto simp: invalidate_pkt_def plain_pkt_def pkt_ok_def getAddr_def getSize_def isInvalidate_def isWrite_def cmd_defs)
  obtain q where q: "respond_if_needed p = Inr q" "needsResponse p \<longrightarrow> isResponse q"
    using p(2) respond_cases [of p] by (cases "needsResponse p") (auto simp: respond_if_needed_def makeResponse_def)
  have "access (dmem s) p = Inr (dmem s, q)" using access_plain [OF p(1,7)] p(3-6) q(1) by (simp add: access_kind_def)
  then show ?thesis
    using assms(1,3) p(4,5,7-10) q(2)
    by (auto simp: recvTimingReq_def accessAndRespond_def Let_def port_ok_def reads_of_def ctrl_ok_frame pending_def split: if_splits)
qed

lemma pending_0:
  assumes "port_ok cfg s" "readQueue s = []" "respQueue s = []"
  shows "pending s = 0"
proof -
  have "helper_ok [] h (helpers s ! h)" if "h < length (helpers s)" for h
    using assms that by (simp add: port_ok_def reads_of_def helpers_ok_def)
  then have "helpers s ! h = None" if "h < length (helpers s)" for h
    using that by (fastforce simp: helper_ok_def helper_load_def split: option.splits)
  then have "filter (\<lambda>x. x \<noteq> None) (helpers s) = []" by (simp add: filter_empty_conv all_set_conv_all_nth)
  then show ?thesis using assms(2,3) by (simp add: pending_def reads_of_def)
qed

lemma port_run_ok:
  assumes "port_run cfg n s" "config_ok cfg" "timing_ok cfg" "tRP cfg < tREFI cfg"
  shows "port_ok cfg s \<and> length (portResps s) + pending s = n"
  using assms
proof (induction rule: port_run.induct)
  case (started now m s)
  have "ctrl_ok cfg s" "reads_of s = []" "helpers s = []" "portResps s = []" "dmem s = m"
    using startup_ok [OF started.prems(3), of now m] started.hyps(1) by (auto simp: reads_of_def new_ctrl_def)
  then show ?case using started.hyps(2) by (simp add: port_ok_def pending_def helpers_ok_def)
next
  case (request n s p now acc s')
  then have s: "port_ok cfg s" "length (portResps s) + pending s = n" by blast+
  have "port_ok cfg s'" "accepted cfg p s acc s'"
    using recv_keeps_port [OF s(1) request.prems(1) request.hyps(2), of now] request.hyps(3) by auto
  then show ?case using s(2) unfolding accepted_def by (cases "acc \<and> needsResponse p") fastforce+
next
  case (request_event n s now s')
  then have s: "port_ok cfg s" "length (portResps s) + pending s = n" by blast+
  have "port_ok cfg (s\<lparr>nextReqEvent := None\<rparr>)" "sched_ok cfg now (ranks (s\<lparr>nextReqEvent := None\<rparr>)) []"
    using s(1) request_event.hyps(3) by (simp_all add: port_ok_frame)
  then have "port_ok cfg s'" "pending s' = pending s" "portResps s' = portResps s"
    using loop_keeps_port [of cfg "s\<lparr>nextReqEvent := None\<rparr>" now] request_event.prems(2) request_event.hyps(4) by auto
  then show ?case using s(2) by simp
next
  case (respond_event n s now s')
  then have s: "port_ok cfg s" "length (portResps s) + pending s = n" by blast+
  then show ?case using respond_keeps_port [OF s(1) respond_event.hyps(2)] respond_event.hyps(3) by auto
next
  case (dropped n s p now acc s')
  then show ?case using dropped_ok [of cfg s p now acc s'] by simp
next
  case (invalidate n s p now acc s')
  then show ?case using invalidate_ok [of cfg s p now acc s'] by auto
next
  case (rank_event n s i ev s')
  then show ?case using rank_event_ok [of cfg s i ev s'] by simp
qed

subsection \<open>Properties\<close>

text \<open>C8: no request is lost or answered twice: on every run, with reads, writes, writebacks, row operations, invalidations and dropped packets,
  request and response events and the activate, precharge, refresh and power events of the ranks in any order,
  the responses sent and the requests still waiting add up to the accepted requests that need a response, so
  that once no read is queued each of them has been answered. The response event that is due never fails, nor
  does the request event while the activate times of the banks are below \<open>MaxTick\<close>. A refresh on the run
  ends after the activates its rank remembers and, for the oldest of them, after its activation window: the code
  resets the activate times of the banks to the end of the refresh without a check.\<close>

theorem requests_answered_once:
  assumes "config_ok cfg" "timing_ok cfg" "tRP cfg < tREFI cfg" "port_run cfg n s"
  shows "length (portResps s) + pending s = n \<and> (readQueue s = [] \<and> respQueue s = [] \<longrightarrow> length (portResps s) = n) \<and>
    (\<forall>now. respondEvent s = Some now \<longrightarrow> (\<exists>s'. processRespondEvent cfg now (s\<lparr>respondEvent := None\<rparr>) = Inr s')) \<and>
    (\<forall>now. sched_ok cfg now (ranks s) [] \<longrightarrow> (\<exists>s'. processNextReqEvent cfg now (s\<lparr>nextReqEvent := None\<rparr>) = Inr s'))"
proof -
  have s: "port_ok cfg s" "length (portResps s) + pending s = n" using port_run_ok [OF assms(4,1-3)] by simp_all
  have "\<exists>s'. processNextReqEvent cfg now (s\<lparr>nextReqEvent := None\<rparr>) = Inr s'" if "sched_ok cfg now (ranks s) []" for now
    using loop_keeps_port [of cfg "s\<lparr>nextReqEvent := None\<rparr>" now] s(1) assms(2) that by (auto simp: port_ok_frame)
  moreover have "\<exists>s'. processRespondEvent cfg now (s\<lparr>respondEvent := None\<rparr>) = Inr s'" if "respondEvent s = Some now" for now
    using respond_keeps_port [OF s(1) that] by blast
  ultimately show ?thesis using s pending_0 [OF s(1)] by auto
qed

definition wide_read :: Packet where
  "wide_read = (new_packet (setThreadContext 0 0 (phys_request 0x20 0x80 0 0 0)) ReadReq)
     \<lparr>pkt_data := Some (replicate 0x80 0), pkt_flags := VALID_ADDR OR VALID_SIZE OR STATIC_DATA\<rparr>"

lemma wide_read_ok: "request_ok demo_config demo_mem wide_read" "isRead wide_read" "pkt_addr wide_read = 0x20" "pkt_size wide_read = 0x80"
  "needsResponse wide_read"
proof -
  show "isRead wide_read" "pkt_addr wide_read = 0x20" "pkt_size wide_read = 0x80" "needsResponse wide_read"
    by (simp_all add: wide_read_def new_packet_def isRead_def needsResponse_def cmd_defs setThreadContext_def phys_request_def setPhys_def
        empty_request_def hasPaddr_def hasSize_def isSet_def setFlag_def clearFlags_def req_flag_defs pkt_flag_defs private_flag_defs Let_def)
  have "cpu_pkt demo_mem wide_read"
    by (simp add: cpu_pkt_def plain_pkt_def pkt_ok_def cpu_cmd_def in_mem_def demo_mem_def plain_range_def wide_read_def
        new_packet_def isRowOp_def req_isRowOp_def setThreadContext_def phys_request_def setPhys_def empty_request_def hasPaddr_def
        hasContextId_def memInhibitAsserted_def isWrite_def cmd_defs hasSize_def isSet_def setFlag_def clearFlags_def req_flag_defs
        pkt_flag_defs private_flag_defs Let_def)
  then show "request_ok demo_config demo_mem wide_read"
    using cpu_pkt_port \<open>pkt_addr wide_read = 0x20\<close> \<open>pkt_size wide_read = 0x80\<close> by (simp add: request_ok_def demo_config_def)
qed

lemma demo_started:
  "\<exists>s. startup demo_config 0 True (new_ctrl demo_config demo_mem) = Inr s \<and> port_ok demo_config s \<and> dmem s = demo_mem \<and>
     readQueue s = [] \<and> respQueue s = [] \<and> writeQueue s = [] \<and> isInWriteQueue s = {}"
proof -
  obtain s where s: "startup demo_config 0 True (new_ctrl demo_config demo_mem) = Inr s" "ctrl_ok demo_config s"
      "readQueue s = []" "respQueue s = []" "writeQueue s = []" "helpers s = []" "dmem s = demo_mem"
    using startup_ok [of demo_config 0 demo_mem] by (auto simp: demo_config_def)
  moreover have "isInWriteQueue s = {}" using s(2,5) by (simp add: ctrl_ok_def queues_ok_def write_index_def)
  ultimately show ?thesis using demo_mem_valid by (auto simp: port_ok_def reads_of_def helpers_ok_def)
qed

theorem requests_answered_once_witness:
  "\<exists>s. port_run demo_config 1 s \<and> length (portResps s) + pending s = 1"
proof -
  obtain s where s: "startup demo_config 0 True (new_ctrl demo_config demo_mem) = Inr s" "port_ok demo_config s" "dmem s = demo_mem"
      "readQueue s = []" "respQueue s = []"
    using demo_started by blast
  have "has_room demo_config wide_read s"
    using s(4,5) wide_read_ok by (simp add: has_room_def readQueueFull_def bursts_of_def burst_spec_def demo_config_def)
  then obtain s' where r: "recvTimingReq demo_config 10 wide_read s = Inr (True, s')"
    using recv_keeps_port [OF s(2) demo_config_ok, of wide_read 10] wide_read_ok(1) s(3) by (auto simp: accepted_def)
  have "port_run demo_config 0 s" using port_run.started [OF s(1) demo_mem_valid] .
  then have run: "port_run demo_config 1 s'" using port_run.request [of demo_config 0 s wide_read 10 True s'] r s(3) wide_read_ok(1,5) by simp
  moreover have "timing_ok demo_config" "tRP demo_config < tREFI demo_config" using demo_ctrl_ok(2) by (simp_all add: demo_config_def)
  ultimately show ?thesis using requests_answered_once [OF demo_config_ok _ _ run] by blast
qed

text \<open>C9: a request to the memory is accepted exactly when its bursts fit into the queue, without any
  assertion firing.  A refused request changes nothing but the note to retry.  The bursts of an
  accepted read tile its bytes, each within one burst of the device, and those not held in the write
  queue are queued in order; an accepted write or row operation is carried out on the memory.\<close>

theorem accept_request:
  assumes "port_ok cfg s" "config_ok cfg" "request_ok cfg (dmem s) p"
  shows "\<exists>acc s'. recvTimingReq cfg now p s = Inr (acc, s') \<and> port_ok cfg s' \<and>
    tiles (burstSize cfg) (unat (pkt_addr p)) (pkt_size p) (bursts_of cfg p) \<and>
    (acc \<longleftrightarrow> (if isRead p then length (readQueue s) + length (respQueue s) + length (bursts_of cfg p) \<le> readBufferSize cfg
             else length (writeQueue s) + length (bursts_of cfg p) \<le> writeBufferSize cfg)) \<and>
    (\<not> acc \<longrightarrow> readQueue s' = readQueue s \<and> writeQueue s' = writeQueue s \<and> dmem s' = dmem s \<and>
       (if isRead p then retryRdReq s' else retryWrReq s')) \<and>
    (acc \<and> isRead p \<longrightarrow> (\<exists>new. readQueue s' = readQueue s @ new \<and> map burst_of new = unserved cfg s (bursts_of cfg p))) \<and>
    (acc \<and> \<not> isRead p \<longrightarrow> (\<exists>q. access (dmem s) p = Inr (dmem s', q)))"
proof -
  have "0 < pkt_size p" using assms(3) by (auto simp: request_ok_def port_pkt_def plain_pkt_def rowop_pkt_def pkt_ok_def)
  then have t: "tiles (burstSize cfg) (unat (pkt_addr p)) (pkt_size p) (bursts_of cfg p)" using bursts_of_tile [OF assms(2)] by simp
  obtain acc s' where "recvTimingReq cfg now p s = Inr (acc, s')" "port_ok cfg s'" "accepted cfg p s acc s'"
    using recv_keeps_port [OF assms] by blast
  then show ?thesis
    using t by (intro exI [of _ acc] exI [of _ s']) (simp add: accepted_def has_room_def readQueueFull_def writeQueueFull_def not_less)
qed

theorem accept_request_witness:
  "\<exists>s s'. startup demo_config 0 True (new_ctrl demo_config demo_mem) = Inr s \<and>
     recvTimingReq demo_config 10 wide_read s = Inr (True, s') \<and>
     map burst_of (readQueue s') = [(0x20, 0x20), (0x40, 0x40), (0x80, 0x20)]"
proof -
  obtain s where s: "startup demo_config 0 True (new_ctrl demo_config demo_mem) = Inr s" "port_ok demo_config s" "dmem s = demo_mem"
      "readQueue s = []" "respQueue s = []" "writeQueue s = []"
    using demo_started by blast
  have b: "bursts_of demo_config wide_read = [(0x20, 0x20), (0x40, 0x40), (0x80, 0x20)]"
    by (simp add: bursts_of_def wide_read_ok burst_spec_def demo_config_def upt_rec)
  have "unserved demo_config s (bursts_of demo_config wide_read) = bursts_of demo_config wide_read"
    using s(6) by (simp add: unserved_def in_write_queue_def filter_id_conv)
  then show ?thesis
    using accept_request [OF s(2) demo_config_ok, of wide_read 10] wide_read_ok(1,2) s b by (auto simp: demo_config_def)
qed

text \<open>C10: when a burst becomes ready, its request is answered exactly if no other burst of the request is
  still queued, with one response for the request's address and size, not before the current time;
  the event for the next burst is then scheduled for its time.\<close>

theorem answered_with_last_burst:
  assumes "port_ok cfg s" "respondEvent s = Some now"
  shows "\<exists>dp rest s'. respQueue s = dp # rest \<and> processRespondEvent cfg now (s\<lparr>respondEvent := None\<rparr>) = Inr s' \<and> port_ok cfg s' \<and>
    respQueue s' = rest \<and> respondEvent s' = (if rest = [] then None else Some (readyTime (hd rest))) \<and>
    (if burstHelper dp = None \<or> (\<forall>p \<in> set (rest @ readQueue s). burstHelper p \<noteq> burstHelper dp)
     then \<exists>t r. portResps s' = portResps s @ [(t, r)] \<and> isResponse r \<and> pkt_addr r = pkt_addr (dp_pkt dp) \<and>
       pkt_size r = pkt_size (dp_pkt dp) \<and> now \<le> t
     else portResps s' = portResps s)"
proof -
  obtain dp rest s' ps where r: "respQueue s = dp # rest" "processRespondEvent cfg now (s\<lparr>respondEvent := None\<rparr>) = Inr s'" "port_ok cfg s'"
      "respQueue s' = rest" "portResps s' = portResps s @ ps"
      "if last_burst dp (rest @ readQueue s) then \<exists>t r. ps = [(t, r)] \<and> isResponse r \<and> pkt_addr r = pkt_addr (dp_pkt dp) \<and> pkt_size r = pkt_size (dp_pkt dp) \<and> now \<le> t
       else ps = []"
    using respond_keeps_port [OF assms] by blast
  moreover have "respondEvent s' = (if rest = [] then None else Some (readyTime (hd rest)))"
    using r(3,4) by (simp add: port_ok_def ctrl_ok_def core_ok_def resp_ok_def)
  ultimately show ?thesis
    by (intro exI [of _ dp] exI [of _ rest] exI [of _ s']) (auto simp: last_burst_def split: if_splits)
qed

definition split_dp :: "nat \<Rightarrow> DRAMPacket" where
  "split_dp b = (demo_dp 0 b 5)\<lparr>dp_pkt := demo_pkt ReadReq 0x10 0 0, burstHelper := Some 0\<rparr>"

definition demo_waiting :: DRAMCtrl where
  "demo_waiting = (new_ctrl demo_config demo_mem)\<lparr>respQueue := [split_dp 1], readQueue := [split_dp 2], respondEvent := Some 0,
     helpers := [Some \<lparr>burstCount = 3, burstsServiced = 1\<rparr>], busBusyUntil := 41250\<rparr>"

theorem answered_with_last_burst_witness:
  "\<exists>s'. processRespondEvent demo_config 0 (demo_waiting\<lparr>respondEvent := None\<rparr>) = Inr s' \<and> port_ok demo_config s' \<and> portResps s' = []"
proof -
  have "cpu_pkt demo_mem (demo_pkt ReadReq 0x10 0 0)" "pkt_cmd (demo_pkt ReadReq 0x10 0 0) = ReadReq" by (simp_all add: demo_pkt_cpu cpu_cmd_def)
  moreover have "isRead (demo_pkt ReadReq 0x10 0 0)" "port_pkt demo_mem (demo_pkt ReadReq 0x10 0 0)"
    using calculation cpu_pkt_port by (simp_all add: isRead_def cmd_defs)
  moreover have "ranks_ok demo_config (ranks demo_waiting)" "draining_ok (ranks demo_waiting)"
    by (auto simp: ranks_ok_def demo_waiting_def new_ctrl_def new_rank_ok) (auto simp: draining_ok_def new_rank_def)
  moreover have "pkt_fits demo_config (split_dp 2)" by (simp add: pkt_fits_def split_dp_def demo_dp_def dp_ok_def demo_config_def NO_ROW_def)
  ultimately have "port_ok demo_config demo_waiting"
    using demo_mem_valid
    by (simp add: port_ok_def reads_of_def ctrl_ok_def core_ok_def queues_ok_def resp_ok_def demo_waiting_def new_ctrl_def row_ops_in_def
        helpers_ok_def helper_ok_def helper_load_def split_dp_def demo_dp_def) (simp add: demo_config_def)
  then show ?thesis
    using answered_with_last_burst [of demo_config demo_waiting 0] by (auto simp: demo_waiting_def new_ctrl_def split_dp_def)
qed

end
