(* ===== verification/Event_Queue.thy ===== *)
theory Event_Queue
  imports Gem5_Prelude "HOL-Library.Product_Lexorder"
begin

text \<open>
  The event queue (\<open>sim/eventq.cc\<close>, \<open>sim/eventq.hh\<close>, \<open>sim/eventq_impl.hh\<close>): a linked list of bins,
  each a linked stack of the events of one tick and priority, over an explicit store of events.  The
  pointer operations are shown to implement a list of events sorted by tick and priority in which
  a new event comes before the queued ones of its own tick and priority.
\<close>

subsection \<open>Events\<close>

type_synonym eptr = nat

record Event =
  nextBin :: "eptr option"
  nextInBin :: "eptr option"
  ev_when :: tick
  ev_priority :: int
  ev_queue :: "nat option"
  ev_Squashed :: bool
  ev_Scheduled :: bool
  ev_AutoDelete :: bool
  ev_IsExitEvent :: bool
  ev_IsMainQueue :: bool
  ev_initialized :: bool
  ev_deleted :: bool

type_synonym estore = "eptr \<Rightarrow> Event"

definition new_Event :: "int \<Rightarrow> bool \<Rightarrow> bool \<Rightarrow> bool \<Rightarrow> Event" where
  "new_Event p auto exit main =
     \<lparr>nextBin = None, nextInBin = None, ev_when = 0, ev_priority = p, ev_queue = None, ev_Squashed = False,
      ev_Scheduled = False, ev_AutoDelete = auto, ev_IsExitEvent = exit, ev_IsMainQueue = main,
      ev_initialized = True, ev_deleted = False\<rparr>"

definition ev_less :: "Event \<Rightarrow> Event \<Rightarrow> bool" where
  "ev_less l r \<longleftrightarrow> ev_when l < ev_when r \<or> ev_when l = ev_when r \<and> ev_priority l < ev_priority r"

definition ev_le :: "Event \<Rightarrow> Event \<Rightarrow> bool" where
  "ev_le l r \<longleftrightarrow> ev_when l < ev_when r \<or> ev_when l = ev_when r \<and> ev_priority l \<le> ev_priority r"

definition ev_eq :: "Event \<Rightarrow> Event \<Rightarrow> bool" where
  "ev_eq l r \<longleftrightarrow> ev_when l = ev_when r \<and> ev_priority l = ev_priority r"

definition setWhen :: "tick \<Rightarrow> nat \<Rightarrow> Event \<Rightarrow> Event" where
  "setWhen t q e = e\<lparr>ev_when := t, ev_queue := Some q\<rparr>"

definition delete_event :: "eptr \<Rightarrow> estore \<Rightarrow> estore result" where
  "delete_event p h =
     rbind (assertr (\<not> ev_Scheduled (h p)) ''!scheduled()'') (\<lambda>_.
     Inr (h(p := (h p)\<lparr>ev_Squashed := False, ev_AutoDelete := False, ev_IsExitEvent := False, ev_IsMainQueue := False,
                        ev_initialized := False, ev_deleted := True\<rparr>)))"

subsection \<open>The linked lists\<close>

text \<open>A loop over a list of pointers may fail to end on a cyclic store; its result is then \<open>None\<close>.\<close>

definition insertBefore :: "eptr \<Rightarrow> eptr option \<Rightarrow> estore \<Rightarrow> estore" where
  "insertBefore event cur h =
     (case cur of
        None \<Rightarrow> h(event := (h event)\<lparr>nextBin := None, nextInBin := None\<rparr>)
      | Some c \<Rightarrow>
          if ev_less (h event) (h c) then h(event := (h event)\<lparr>nextBin := Some c, nextInBin := None\<rparr>)
          else h(event := (h event)\<lparr>nextBin := nextBin (h c), nextInBin := Some c\<rparr>))"

partial_function (option) find_bin :: "estore \<Rightarrow> Event \<Rightarrow> eptr \<Rightarrow> eptr option \<Rightarrow> (eptr \<times> eptr option) option" where
  "find_bin h e prev cur =
     (if cur \<noteq> None \<and> ev_less (h (the cur)) e then find_bin h e (the cur) (nextBin (h (the cur))) else Some (prev, cur))"

definition eq_insert :: "eptr \<Rightarrow> estore \<times> eptr option \<Rightarrow> (estore \<times> eptr option) option" where
  "eq_insert event st =
     (let (h, head) = st in
      case head of
        None \<Rightarrow> Some (insertBefore event None h, Some event)
      | Some t \<Rightarrow>
          if ev_le (h event) (h t) then Some (insertBefore event (Some t) h, Some event)
          else
            (case find_bin h (h event) t (nextBin (h t)) of
               None \<Rightarrow> None
             | Some (prev, cur) \<Rightarrow>
                 let h1 = insertBefore event cur h in
                 Some (h1(prev := (h1 prev)\<lparr>nextBin := Some event\<rparr>), Some t)))"

partial_function (option) find_in_bin :: "estore \<Rightarrow> eptr \<Rightarrow> eptr \<Rightarrow> eptr option \<Rightarrow> eptr result option" where
  "find_in_bin h event cur next =
     (if next = Some event then Some (Inr cur)
      else if next = None then Some (Inl (Panic ''event not found!''))
      else find_in_bin h event (the next) (nextInBin (h (the next))))"

definition removeItem :: "eptr \<Rightarrow> eptr \<Rightarrow> estore \<Rightarrow> (estore \<times> eptr option) result option" where
  "removeItem event tp h =
     (if event = tp then
        (case nextInBin (h tp) of
           None \<Rightarrow> Some (Inr (h, nextBin (h tp)))
         | Some n \<Rightarrow> Some (Inr (h(n := (h n)\<lparr>nextBin := nextBin (h tp)\<rparr>), Some n)))
      else
        map_option (\<lambda>r. rbind r (\<lambda>cur. Inr (h(cur := (h cur)\<lparr>nextInBin := nextInBin (h event)\<rparr>), Some tp)))
          (find_in_bin h event tp (nextInBin (h tp))))"

definition eq_remove :: "nat \<Rightarrow> eptr \<Rightarrow> estore \<times> eptr option \<Rightarrow> (estore \<times> eptr option) result option" where
  "eq_remove qid event st =
     (let (h, head) = st in
      case head of
        None \<Rightarrow> Some (Inl (Panic ''event not found!''))
      | Some t \<Rightarrow>
          if ev_queue (h event) \<noteq> Some qid then Some (Inl (Assertion ''event->queue == this''))
          else if ev_eq (h t) (h event) then removeItem event t h
          else
            (case find_bin h (h event) t (nextBin (h t)) of
               None \<Rightarrow> None
             | Some (prev, None) \<Rightarrow> Some (Inl (Panic ''event not found!''))
             | Some (prev, Some c) \<Rightarrow>
                 if \<not> ev_eq (h c) (h event) then Some (Inl (Panic ''event not found!''))
                 else map_option (\<lambda>r. rbind r (\<lambda>(h1, tp). Inr (h1(prev := (h1 prev)\<lparr>nextBin := tp\<rparr>), Some t)))
                        (removeItem event c h)))"

subsection \<open>The queue\<close>

record EventQueue =
  eq_id :: nat
  eq_head :: "eptr option"
  eq_curTick :: tick
  async_queue :: "eptr list"

definition new_EventQueue :: "nat \<Rightarrow> EventQueue" where
  "new_EventQueue i = \<lparr>eq_id = i, eq_head = None, eq_curTick = 0, async_queue = []\<rparr>"

text \<open>The state: the store of events and one queue.  The results are \<open>None\<close> if a loop does not end.\<close>

type_synonym eqstate = "estore \<times> EventQueue"

definition upd_event :: "eptr \<Rightarrow> (Event \<Rightarrow> Event) \<Rightarrow> eqstate \<Rightarrow> eqstate" where
  "upd_event p f st = ((fst st)(p := f (fst st p)), snd st)"

definition insert_queue :: "eptr \<Rightarrow> eqstate \<Rightarrow> eqstate option" where
  "insert_queue p st =
     map_option (\<lambda>(h, head). (h, (snd st)\<lparr>eq_head := head\<rparr>)) (eq_insert p (fst st, eq_head (snd st)))"

definition remove_queue :: "eptr \<Rightarrow> eqstate \<Rightarrow> eqstate result option" where
  "remove_queue p st =
     map_option (\<lambda>r. rbind r (\<lambda>(h, head). Inr (h, (snd st)\<lparr>eq_head := head\<rparr>)))
       (eq_remove (eq_id (snd st)) p (fst st, eq_head (snd st)))"

definition asyncInsert :: "eptr \<Rightarrow> eqstate \<Rightarrow> eqstate" where
  "asyncInsert p st = (fst st, (snd st)\<lparr>async_queue := async_queue (snd st) @ [p]\<rparr>)"

text \<open>\<open>elsewhere\<close>: the simulation runs in parallel and the event is global or for the queue of another thread.\<close>

definition eq_schedule :: "bool \<Rightarrow> eptr \<Rightarrow> tick \<Rightarrow> eqstate \<Rightarrow> eqstate result option" where
  "eq_schedule elsewhere p t st =
     (if \<not> t \<ge> eq_curTick (snd st) then Some (Inl (Assertion ''when >= getCurTick()''))
      else if ev_Scheduled (fst st p) then Some (Inl (Assertion ''!event->scheduled()''))
      else if \<not> ev_initialized (fst st p) then Some (Inl (Assertion ''event->initialized()''))
      else
        let st1 = upd_event p (setWhen t (eq_id (snd st))) st in
        map_option (\<lambda>st2. Inr (upd_event p (\<lambda>e. e\<lparr>ev_Scheduled := True\<rparr>) st2))
          (if elsewhere then Some (asyncInsert p st1) else insert_queue p st1))"

definition eq_deschedule :: "eptr \<Rightarrow> eqstate \<Rightarrow> eqstate result option" where
  "eq_deschedule p st =
     (if \<not> ev_Scheduled (fst st p) then Some (Inl (Assertion ''event->scheduled()''))
      else if \<not> ev_initialized (fst st p) then Some (Inl (Assertion ''event->initialized()''))
      else
        map_option (\<lambda>r. rbind r (\<lambda>st1.
          let st2 = upd_event p (\<lambda>e. e\<lparr>ev_Squashed := False, ev_Scheduled := False\<rparr>) st1 in
          if ev_AutoDelete (fst st2 p) then rbind (delete_event p (fst st2)) (\<lambda>h. Inr (h, snd st2)) else Inr st2))
          (remove_queue p st))"

definition eq_reschedule :: "bool \<Rightarrow> eptr \<Rightarrow> tick \<Rightarrow> eqstate \<Rightarrow> eqstate result option" where
  "eq_reschedule always p t st =
     (if \<not> t \<ge> eq_curTick (snd st) then Some (Inl (Assertion ''when >= getCurTick()''))
      else if \<not> (always \<or> ev_Scheduled (fst st p)) then Some (Inl (Assertion ''always || event->scheduled()''))
      else if \<not> ev_initialized (fst st p) then Some (Inl (Assertion ''event->initialized()''))
      else
        (case (if ev_Scheduled (fst st p) then remove_queue p st else Some (Inr st)) of
           None \<Rightarrow> None
         | Some (Inl e) \<Rightarrow> Some (Inl e)
         | Some (Inr st1) \<Rightarrow>
             let st2 = upd_event p (setWhen t (eq_id (snd st1))) st1 in
             map_option (\<lambda>st3. Inr (upd_event p (\<lambda>e. e\<lparr>ev_Squashed := False, ev_Scheduled := True\<rparr>) st3)) (insert_queue p st2)))"

text \<open>The first event leaves the queue; \<open>nextTick\<close> and \<open>serviceOne\<close> of an empty queue dereference a null pointer.\<close>

definition pop_head :: "eptr \<Rightarrow> eqstate \<Rightarrow> eqstate" where
  "pop_head p st =
     (let h = (fst st)(p := (fst st p)\<lparr>ev_Scheduled := False\<rparr>) in
      case nextInBin (h p) of
        Some n \<Rightarrow> (h(n := (h n)\<lparr>nextBin := nextBin (h p)\<rparr>), (snd st)\<lparr>eq_head := Some n\<rparr>)
      | None \<Rightarrow> (h, (snd st)\<lparr>eq_head := nextBin (h p)\<rparr>))"

text \<open>The action of an event is the parameter \<open>process\<close>.  The result names the exit event, if it was one.\<close>

definition finish_event :: "eptr \<Rightarrow> eqstate \<Rightarrow> (eptr option \<times> eqstate) result" where
  "finish_event p st =
     (if ev_AutoDelete (fst st p) \<and> \<not> ev_Scheduled (fst st p)
      then rbind (delete_event p (fst st)) (\<lambda>h. Inr (None, (h, snd st))) else Inr (None, st))"

definition serviceOne :: "(eptr \<Rightarrow> eqstate \<Rightarrow> eqstate result option) \<Rightarrow> eqstate \<Rightarrow> (eptr option \<times> eqstate) result option" where
  "serviceOne process st =
     (case eq_head (snd st) of
        None \<Rightarrow> Some (Inl HostFault)
      | Some p \<Rightarrow>
          let st1 = pop_head p st in
          if \<not> ev_Squashed (fst st1 p) then
            map_option (\<lambda>r. rbind r (\<lambda>st2.
                if ev_IsExitEvent (fst st2 p) then
                  rbind (assertr (\<not> ev_AutoDelete (fst st2 p) \<or> \<not> ev_IsMainQueue (fst st2 p)) ''!AutoDelete || !IsMainQueue'') (\<lambda>_.
                  Inr (Some p, st2))
                else finish_event p st2))
              (process p (fst st1, (snd st1)\<lparr>eq_curTick := ev_when (fst st1 p)\<rparr>))
          else Some (finish_event p (upd_event p (\<lambda>e. e\<lparr>ev_Squashed := False\<rparr>) st1)))"

partial_function (option) serviceEvents ::
  "(eptr \<Rightarrow> eqstate \<Rightarrow> eqstate result option) \<Rightarrow> tick \<Rightarrow> eqstate \<Rightarrow> eqstate result option" where
  "serviceEvents process t st =
     (if eq_head (snd st) = None \<or> ev_when (fst st (the (eq_head (snd st)))) > t
      then Some (Inr (fst st, (snd st)\<lparr>eq_curTick := t\<rparr>))
      else Option.bind (serviceOne process st) (\<lambda>r.
             if isl r then Some (Inl (projl r)) else serviceEvents process t (snd (projr r))))"

fun insert_all :: "eptr list \<Rightarrow> eqstate \<Rightarrow> eqstate option" where
  "insert_all [] st = Some st"
| "insert_all (p # ps) st = (case insert_queue p st of None \<Rightarrow> None | Some st1 \<Rightarrow> insert_all ps st1)"

definition handleAsyncInsertions :: "eqstate \<Rightarrow> eqstate option" where
  "handleAsyncInsertions st =
     map_option (\<lambda>st1. (fst st1, (snd st1)\<lparr>async_queue := []\<rparr>)) (insert_all (async_queue (snd st)) st)"

definition checkpointReschedule :: "eptr \<Rightarrow> eqstate \<Rightarrow> eqstate option" where
  "checkpointReschedule p st = (if ev_Scheduled (fst st p) then insert_queue p st else Some st)"

definition replaceHead :: "eptr option \<Rightarrow> eqstate \<Rightarrow> eptr option \<times> eqstate" where
  "replaceHead s st = (eq_head (snd st), (fst st, (snd st)\<lparr>eq_head := s\<rparr>))"

text \<open>The consistency check walks the events of a bin (\<open>cur\<close>) and then goes on to the next bin.\<close>

partial_function (option) verify_loop :: "estore \<Rightarrow> eptr \<Rightarrow> eptr option \<Rightarrow> tick \<Rightarrow> int \<Rightarrow> eptr set \<Rightarrow> bool option" where
  "verify_loop h bin cur t pri seen =
     (if cur = None then
        if nextBin (h bin) = None then Some True
        else verify_loop h (the (nextBin (h bin))) (nextBin (h bin)) t pri seen
      else if ev_when (h (the cur)) < t then Some False
      else if ev_when (h (the cur)) = t \<and> ev_priority (h (the cur)) < pri then Some False
      else if the cur \<in> seen then Some False
      else verify_loop h bin (nextInBin (h (the cur))) (ev_when (h (the cur))) (ev_priority (h (the cur))) (insert (the cur) seen))"

definition debugVerify :: "eqstate \<Rightarrow> bool option" where
  "debugVerify st =
     (case eq_head (snd st) of None \<Rightarrow> Some True | Some p \<Rightarrow> verify_loop (fst st) p (Some p) 0 0 {})"

subsection \<open>The bins of a store\<close>

fun in_bin :: "estore \<Rightarrow> eptr \<Rightarrow> eptr list \<Rightarrow> bool" where
  "in_bin h p [] \<longleftrightarrow> nextInBin (h p) = None"
| "in_bin h p (n # ns) \<longleftrightarrow> nextInBin (h p) = Some n \<and> in_bin h n ns"

fun bins_at :: "estore \<Rightarrow> eptr option \<Rightarrow> eptr list list \<Rightarrow> bool" where
  "bins_at h hp [] \<longleftrightarrow> hp = None"
| "bins_at h hp ([] # bs) \<longleftrightarrow> False"
| "bins_at h hp ((p # ps) # bs) \<longleftrightarrow> hp = Some p \<and> in_bin h p ps \<and> bins_at h (nextBin (h p)) bs"

definition ekey :: "estore \<Rightarrow> eptr \<Rightarrow> tick \<times> int" where
  "ekey h p = (ev_when (h p), ev_priority (h p))"

definition bins_ok :: "(eptr \<Rightarrow> tick \<times> int) \<Rightarrow> eptr list list \<Rightarrow> bool" where
  "bins_ok k bs \<longleftrightarrow> distinct (concat bs) \<and> [] \<notin> set bs \<and> (\<forall>b \<in> set bs. k ` set b \<subseteq> {k (hd b)}) \<and> sorted_wrt (<) (map (\<lambda>b. k (hd b)) bs)"

lemma ev_order: "ev_less (h p) (h q) \<longleftrightarrow> ekey h p < ekey h q" "ev_le (h p) (h q) \<longleftrightarrow> ekey h p \<le> ekey h q"
    "ev_eq (h p) (h q) \<longleftrightarrow> ekey h p = ekey h q"
  by (auto simp: ev_less_def ev_le_def ev_eq_def ekey_def less_prod_def less_eq_prod_def)

lemma in_bin_cong: "\<forall>x \<in> set (p # ps). nextInBin (h' x) = nextInBin (h x) \<Longrightarrow> in_bin h' p ps = in_bin h p ps"
  by (induction h p ps rule: in_bin.induct) auto

lemma bins_at_cong:
  "\<forall>x \<in> set (concat bs). nextInBin (h' x) = nextInBin (h x) \<Longrightarrow> \<forall>b \<in> set bs. b \<noteq> [] \<longrightarrow> nextBin (h' (hd b)) = nextBin (h (hd b)) \<Longrightarrow>
   bins_at h' hp bs = bins_at h hp bs"
proof (induction h hp bs rule: bins_at.induct)
  case (3 h hp p ps bs)
  have "in_bin h' p ps = in_bin h p ps" using 3(2) by (intro in_bin_cong) auto
  moreover have "bins_at h' (nextBin (h p)) bs = bins_at h (nextBin (h p)) bs" using 3 by auto
  ultimately show ?case using 3(3) by simp
qed auto

lemma bins_ok_Nil [simp]: "bins_ok k []" by (simp add: bins_ok_def)

lemma bins_ok_Cons [simp]:
  "bins_ok k (b # bs) \<longleftrightarrow> b \<noteq> [] \<and> distinct b \<and> set b \<inter> set (concat bs) = {} \<and> k ` set b \<subseteq> {k (hd b)} \<and>
     (\<forall>c \<in> set bs. k (hd b) < k (hd c)) \<and> bins_ok k bs"
  by (auto simp: bins_ok_def)

lemma bins_ok_hd: "bins_ok k bs \<Longrightarrow> c \<in> set bs \<Longrightarrow> hd c \<in> set (concat bs)"
  by (auto simp: bins_ok_def intro: hd_in_set)

lemma bins_ok_key: "bins_ok k bs \<Longrightarrow> x \<in> set (concat bs) \<Longrightarrow> \<exists>c \<in> set bs. x \<in> set c \<and> k x = k (hd c)"
  by (auto simp: bins_ok_def)

text \<open>Inserting an event into the list of bins.\<close>

fun ins_bins :: "(eptr \<Rightarrow> tick \<times> int) \<Rightarrow> eptr \<Rightarrow> eptr list list \<Rightarrow> eptr list list" where
  "ins_bins k e [] = [[e]]"
| "ins_bins k e (b # bs) = (if k (hd b) < k e then b # ins_bins k e bs else if k e = k (hd b) then (e # b) # bs else [e] # b # bs)"

definition ins_event :: "(eptr \<Rightarrow> tick \<times> int) \<Rightarrow> eptr \<Rightarrow> eptr list \<Rightarrow> eptr list" where
  "ins_event k e xs = takeWhile (\<lambda>x. k x < k e) xs @ e # dropWhile (\<lambda>x. k x < k e) xs"

lemma ins_bins_concat: "bins_ok k bs \<Longrightarrow> concat (ins_bins k e bs) = ins_event k e (concat bs)"
proof (induction bs)
  case (Cons b bs)
  have b: "k ` set b \<subseteq> {k (hd b)}" "b \<noteq> []" and bs: "bins_ok k bs" using Cons.prems by simp_all
  show ?case
  proof (cases "k (hd b) < k e")
    case True
    then have "\<forall>x \<in> set b. k x < k e" using b(1) by auto
    then have "ins_event k e (b @ concat bs) = b @ ins_event k e (concat bs)" by (simp add: ins_event_def takeWhile_append dropWhile_append)
    then show ?thesis using True Cons.IH [OF bs] by simp
  next
    case False
    have "\<not> k x < k e" if "x \<in> set b" for x using b(1) that False by auto
    then have "ins_event k e (b @ concat bs) = e # b @ concat bs" using b(2) by (cases b) (auto simp: ins_event_def)
    then show ?thesis using False by simp
  qed
qed (simp add: ins_event_def)

lemma set_ins_event: "set (ins_event k e xs) = insert e (set xs)"
  by (metis ins_event_def set_append takeWhile_dropWhile_id list.simps(15) Un_insert_right)

lemma ins_bins_ok:
  assumes "bins_ok k bs" "e \<notin> set (concat bs)"
  shows "bins_ok k (ins_bins k e bs)"
  using assms
proof (induction bs)
  case (Cons b bs)
  have bs: "bins_ok k bs" and lt: "\<forall>c \<in> set bs. k (hd b) < k (hd c)" using Cons.prems(1) by simp_all
  have c: "set (concat (ins_bins k e bs)) = insert e (set (concat bs))"
    by (simp add: ins_bins_concat [OF bs] set_ins_event del: set_concat)
  show ?case
  proof (cases "k (hd b) < k e")
    case True
    have ih: "bins_ok k (ins_bins k e bs)" using Cons bs by simp
    have "k (hd b) < k (hd d)" if "d \<in> set (ins_bins k e bs)" for d
    proof -
      have "hd d = e \<or> hd d \<in> set (concat bs)" using bins_ok_hd [OF ih that] unfolding c by blast
      then show ?thesis using True lt bins_ok_key [OF bs, of "hd d"] by (metis (no_types))
    qed
    moreover have "set b \<inter> set (concat (ins_bins k e bs)) = {}" using Cons.prems unfolding c by auto
    ultimately show ?thesis using True ih Cons.prems(1) by simp
  next
    case False
    then show ?thesis using bs lt Cons.prems by auto
  qed
qed simp

text \<open>The pointer operations change the links of the events and nothing else.\<close>

definition relinked :: "estore \<Rightarrow> estore \<Rightarrow> bool" where
  "relinked h h' \<longleftrightarrow> (\<forall>x. h' x = (h x)\<lparr>nextBin := nextBin (h' x), nextInBin := nextInBin (h' x)\<rparr>)"

lemma relinked_refl [simp]: "relinked h h" by (simp add: relinked_def)

lemma relinked_trans: "relinked h h' \<Longrightarrow> relinked h' h'' \<Longrightarrow> relinked h h''"
  unfolding relinked_def by (metis (no_types, lifting) Event.surjective Event.update_convs(1,2))

lemma relinked_upd: "relinked h (h(p := (h p)\<lparr>nextBin := a, nextInBin := b\<rparr>))" "relinked h (h(p := (h p)\<lparr>nextBin := a\<rparr>))"
    "relinked h (h(p := (h p)\<lparr>nextInBin := b\<rparr>))"
  by (simp_all add: relinked_def)

lemma relinked_fields:
  assumes "relinked h h'"
  shows "ev_when (h' x) = ev_when (h x)" "ev_priority (h' x) = ev_priority (h x)" "ev_queue (h' x) = ev_queue (h x)"
    "ev_Squashed (h' x) = ev_Squashed (h x)" "ev_Scheduled (h' x) = ev_Scheduled (h x)" "ev_AutoDelete (h' x) = ev_AutoDelete (h x)"
    "ev_initialized (h' x) = ev_initialized (h x)"
proof -
  have e: "h' x = (h x)\<lparr>nextBin := nextBin (h' x), nextInBin := nextInBin (h' x)\<rparr>" using assms unfolding relinked_def by blast
  show "ev_when (h' x) = ev_when (h x)" "ev_priority (h' x) = ev_priority (h x)" "ev_queue (h' x) = ev_queue (h x)"
    "ev_Squashed (h' x) = ev_Squashed (h x)" "ev_Scheduled (h' x) = ev_Scheduled (h x)" "ev_AutoDelete (h' x) = ev_AutoDelete (h x)"
    "ev_initialized (h' x) = ev_initialized (h x)"
    using arg_cong [OF e, of ev_when] arg_cong [OF e, of ev_priority] arg_cong [OF e, of ev_queue] arg_cong [OF e, of ev_Squashed]
      arg_cong [OF e, of ev_Scheduled] arg_cong [OF e, of ev_AutoDelete] arg_cong [OF e, of ev_initialized] by simp_all
qed

lemma relinked_key: "relinked h h' \<Longrightarrow> ekey h' = ekey h"
  by (rule ext) (simp add: ekey_def relinked_fields)

lemma insertBefore_relinked: "relinked h (insertBefore e cur h)"
  by (simp add: insertBefore_def relinked_upd split: option.split)

definition eq_rep :: "estore \<Rightarrow> eptr option \<Rightarrow> eptr list list \<Rightarrow> bool" where
  "eq_rep h hp bs \<longleftrightarrow> bins_at h hp bs \<and> bins_ok (ekey h) bs"

definition link_after :: "eptr \<Rightarrow> eptr \<Rightarrow> eptr option \<Rightarrow> estore \<Rightarrow> estore" where
  "link_after e prev cur h = (let h1 = insertBefore e cur h in h1(prev := (h1 prev)\<lparr>nextBin := Some e\<rparr>))"

lemma link_after_other:
  assumes "x \<noteq> e"
  shows "nextInBin (link_after e prev cur h x) = nextInBin (h x)"
    "nextBin (link_after e prev cur h x) = (if x = prev then Some e else nextBin (h x))"
  using assms by (auto simp: link_after_def insertBefore_def Let_def split: option.split)

lemma link_after_event:
  assumes "prev \<noteq> e"
  shows "nextBin (link_after e prev cur h e) = (case cur of None \<Rightarrow> None | Some c \<Rightarrow> if ev_less (h e) (h c) then Some c else nextBin (h c))"
    "nextInBin (link_after e prev cur h e) = (case cur of None \<Rightarrow> None | Some c \<Rightarrow> if ev_less (h e) (h c) then None else Some c)"
  using assms by (auto simp: link_after_def insertBefore_def Let_def split: option.split)

lemma link_after_relinked: "relinked h (link_after e prev cur h)"
  unfolding link_after_def Let_def by (rule relinked_trans [OF insertBefore_relinked relinked_upd(2)])

lemma link_after_in_bin: "e \<notin> set (p # ps) \<Longrightarrow> in_bin (link_after e prev cur h) p ps = in_bin h p ps"
proof (rule in_bin_cong)
  assume "e \<notin> set (p # ps)"
  then show "\<forall>x \<in> set (p # ps). nextInBin (link_after e prev cur h x) = nextInBin (h x)" by (metis link_after_other(1))
qed

lemma find_bin_None [simp]: "find_bin h e prev None = Some (prev, None)"
  by (subst find_bin.simps) simp

lemma find_bin_Some [simp]: "find_bin h e prev (Some c) = (if ev_less (h c) e then find_bin h e c (nextBin (h c)) else Some (prev, Some c))"
  by (subst find_bin.simps) simp

lemma insert_behind:
  assumes "bins_at h (Some p) ((p # ps) # bs)" "bins_ok (ekey h) ((p # ps) # bs)" "e \<notin> set (concat ((p # ps) # bs))" "ekey h p < ekey h e"
  shows "\<exists>prev cur. find_bin h (h e) p (nextBin (h p)) = Some (prev, cur) \<and> prev \<in> set (concat ((p # ps) # bs)) \<and>
    bins_at (link_after e prev cur h) (Some p) ((p # ps) # ins_bins (ekey h) e bs)"
  using assms
proof (induction bs arbitrary: p ps)
  case Nil
  have e: "e \<noteq> p" "e \<notin> set (p # ps)" using Nil.prems(3) by auto
  have "in_bin (link_after e p None h) p ps" using link_after_in_bin [OF e(2)] Nil.prems(1) by simp
  then show ?case using Nil.prems(1) e by (intro exI [of _ p] exI [of _ None]) (simp add: link_after_other link_after_event)
next
  case (Cons b bs)
  obtain c cs where b: "b = c # cs" using Cons.prems(1) by (cases b) auto
  have nb: "nextBin (h p) = Some c" "in_bin h p ps" and c: "bins_at h (Some c) ((c # cs) # bs)" using Cons.prems(1) by (simp_all add: b)
  have e: "e \<noteq> p" "e \<notin> set (p # ps)" "e \<notin> set (concat ((c # cs) # bs))" using Cons.prems(3) by (auto simp: b)
  have ok: "bins_ok (ekey h) ((c # cs) # bs)" and dis: "set (p # ps) \<inter> set (concat ((c # cs) # bs)) = {}" using Cons.prems(2) by (auto simp: b)
  have inb: "in_bin (link_after e prev cur h) p ps" for prev cur
    using link_after_in_bin [OF e(2)] nb(2) by blast
  show ?case
  proof (cases "ekey h c < ekey h e")
    case True
    obtain prev cur where r: "find_bin h (h e) c (nextBin (h c)) = Some (prev, cur)" "prev \<in> set (concat ((c # cs) # bs))"
        "bins_at (link_after e prev cur h) (Some c) ((c # cs) # ins_bins (ekey h) e bs)"
      using Cons.IH [OF c ok e(3) True] by blast
    have "prev \<noteq> p" using r(2) dis by auto
    then show ?thesis using r inb nb e(1) True by (intro exI [of _ prev] exI [of _ cur]) (auto simp: b ev_order link_after_other)
  next
    case False
    have cong: "bins_at (link_after e p (Some c) h) x bs' = bins_at h x bs'" if "set (concat bs') \<subseteq> set (concat ((c # cs) # bs))" "[] \<notin> set bs'" for x bs'
    proof (rule bins_at_cong)
      have n: "y \<noteq> e" "y \<noteq> p" if "y \<in> set (concat bs')" for y using that \<open>set (concat bs') \<subseteq> _\<close> e(3) dis by auto
      then show "\<forall>y \<in> set (concat bs'). nextInBin (link_after e p (Some c) h y) = nextInBin (h y)" by (simp add: link_after_other del: set_concat)
      show "\<forall>b \<in> set bs'. b \<noteq> [] \<longrightarrow> nextBin (link_after e p (Some c) h (hd b)) = nextBin (h (hd b))"
      proof (intro ballI impI)
        fix d assume "d \<in> set bs'" "d \<noteq> []"
        then have "hd d \<in> set (concat bs')" by (auto intro!: bexI [of _ d])
        then show "nextBin (link_after e p (Some c) h (hd d)) = nextBin (h (hd d))" using n by (simp add: link_after_other)
      qed
    qed
    have nn: "[] \<notin> set bs" using ok by (simp add: bins_ok_def)
    show ?thesis
    proof (cases "ekey h e = ekey h c")
      case True
      have "bins_at (link_after e p (Some c) h) (nextBin (h c)) bs" using c cong [of bs] nn by auto
      moreover have "in_bin (link_after e p (Some c) h) c cs"
        using link_after_in_bin [of e c cs] c e(3) by auto
      ultimately show ?thesis
        using nb inb e(1) False True by (intro exI [of _ p] exI [of _ "Some c"]) (simp add: b ev_order link_after_other link_after_event)
    next
      case ne: False
      have "bins_at (link_after e p (Some c) h) (Some c) ((c # cs) # bs)" using c cong [of "(c # cs) # bs"] nn by auto
      then show ?thesis
        using nb inb e(1) False ne by (intro exI [of _ p] exI [of _ "Some c"]) (simp add: b ev_order link_after_other link_after_event)
    qed
  qed
qed

lemma eq_insert_rep:
  assumes "eq_rep h hp bs" "e \<notin> set (concat bs)"
  shows "\<exists>h' hp'. eq_insert e (h, hp) = Some (h', hp') \<and> eq_rep h' hp' (ins_bins (ekey h) e bs) \<and> relinked h h' \<and>
    (\<forall>x. x \<notin> insert e (set (concat bs)) \<longrightarrow> h' x = h x)"
proof -
  have ok: "bins_ok (ekey h') (ins_bins (ekey h) e bs)" if "relinked h h'" for h'
    using ins_bins_ok [of "ekey h" bs e] assms that by (simp add: eq_rep_def relinked_key)
  show ?thesis
  proof (cases bs)
    case Nil
    then show ?thesis
      using assms(1) ok [OF insertBefore_relinked, of e None] insertBefore_relinked [of h e None]
      by (auto simp: eq_rep_def eq_insert_def insertBefore_def)
  next
    case (Cons b bs')
    then obtain p ps where b: "b = p # ps" "hp = Some p" using assms(1) by (cases b) (auto simp: eq_rep_def)
    have r: "bins_at h (Some p) ((p # ps) # bs')" "bins_ok (ekey h) ((p # ps) # bs')" "e \<notin> set (concat ((p # ps) # bs'))"
      using assms Cons b by (simp_all add: eq_rep_def)
    show ?thesis
    proof (cases "ekey h p < ekey h e")
      case True
      obtain prev cur where f: "find_bin h (h e) p (nextBin (h p)) = Some (prev, cur)" "prev \<in> set (concat ((p # ps) # bs'))"
          "bins_at (link_after e prev cur h) (Some p) ((p # ps) # ins_bins (ekey h) e bs')"
        using insert_behind [OF r True] by blast
      have "\<not> ekey h e \<le> ekey h p" using True by (simp add: not_le)
      then have "eq_insert e (h, hp) = Some (link_after e prev cur h, Some p)"
        using f(1) b by (simp add: eq_insert_def ev_order link_after_def Let_def)
      moreover have "eq_rep (link_after e prev cur h) (Some p) (ins_bins (ekey h) e bs)"
        using f(3) ok [OF link_after_relinked, of e prev cur] True Cons b by (simp add: eq_rep_def)
      moreover have "link_after e prev cur h x = h x" if "x \<notin> insert e (set (concat bs))" for x
        using that f(2) Cons b by (auto simp: link_after_def insertBefore_def Let_def split: option.split)
      ultimately show ?thesis using link_after_relinked [of h e prev cur] by blast
    next
      case False
      define h' where "h' = insertBefore e (Some p) h"
      have hx: "h' x = h x" if "x \<noteq> e" for x using that by (simp add: h'_def insertBefore_def)
      have "ekey h e \<le> ekey h p" using False by (simp add: not_less)
      then have "eq_insert e (h, hp) = Some (h', Some e)" using b by (simp add: eq_insert_def ev_order h'_def)
      moreover have rest: "bins_at h' x bs'' = bins_at h x bs''" if "e \<notin> set (concat bs'')" "[] \<notin> set bs''" for x bs''
      proof (rule bins_at_cong)
        show "\<forall>y \<in> set (concat bs''). nextInBin (h' y) = nextInBin (h y)" using that(1) hx by (metis (no_types))
        show "\<forall>d \<in> set bs''. d \<noteq> [] \<longrightarrow> nextBin (h' (hd d)) = nextBin (h (hd d))"
        proof (intro ballI impI)
          fix d assume "d \<in> set bs''" "d \<noteq> []"
          then have "hd d \<in> set (concat bs'')" by (auto intro!: bexI [of _ d])
          then show "nextBin (h' (hd d)) = nextBin (h (hd d))" using that(1) hx by metis
        qed
      qed
      have "bins_at h' (Some e) (ins_bins (ekey h) e bs)"
      proof (cases "ekey h e = ekey h p")
        case True
        have "h' x = h x" if "x \<in> set (p # ps)" for x using that r(3) by (intro hx) auto
        then have "in_bin h' p ps = in_bin h p ps" by (intro in_bin_cong) simp
        moreover have "bins_at h' (nextBin (h p)) bs' = bins_at h (nextBin (h p)) bs'" using rest r by (auto simp: bins_ok_def)
        ultimately show ?thesis using True r(1) Cons b by (simp add: h'_def insertBefore_def ev_order)
      next
        case ne: False
        have "bins_at h' (Some p) ((p # ps) # bs')" using rest [of "(p # ps) # bs'"] r by (auto simp: bins_ok_def)
        then show ?thesis using ne False Cons b by (simp add: h'_def insertBefore_def ev_order)
      qed
      then have "eq_rep h' (Some e) (ins_bins (ekey h) e bs)"
        using ok [of h'] insertBefore_relinked [of h e "Some p"] by (simp add: eq_rep_def h'_def)
      ultimately show ?thesis using insertBefore_relinked [of h e "Some p"] hx by (auto simp: h'_def)
    qed
  qed
qed

text \<open>Removing an event from the list of bins.\<close>

fun del_bins :: "eptr \<Rightarrow> eptr list list \<Rightarrow> eptr list list" where
  "del_bins e [] = []"
| "del_bins e (b # bs) = (if e \<in> set b then (if remove1 e b = [] then bs else remove1 e b # bs) else b # del_bins e bs)"

lemma del_bins_concat: "concat (del_bins e bs) = remove1 e (concat bs)"
  by (induction bs) (auto simp: remove1_append)

lemma del_bins_sub: "b \<in> set (del_bins e bs) \<Longrightarrow> \<exists>c \<in> set bs. b = c \<or> e \<in> set c \<and> b = remove1 e c \<and> b \<noteq> []"
  by (induction bs) (auto split: if_splits)

lemma del_bins_ok: "bins_ok k bs \<Longrightarrow> bins_ok k (del_bins e bs)"
proof (induction bs)
  case (Cons b bs)
  have b: "b \<noteq> []" "distinct b" "set b \<inter> set (concat bs) = {}" "k ` set b \<subseteq> {k (hd b)}" "\<forall>c \<in> set bs. k (hd b) < k (hd c)" "bins_ok k bs"
    using Cons.prems by simp_all
  show ?case
  proof (cases "e \<in> set b \<and> remove1 e b \<noteq> []")
    case True
    have sub: "set (remove1 e b) \<subseteq> set b" by (rule set_remove1_subset)
    then have "hd (remove1 e b) \<in> set b" using True hd_in_set by blast
    then have hd: "k (hd (remove1 e b)) = k (hd b)" using b(4) by auto
    then show ?thesis using True b sub by auto
  next
    case False
    have "k (hd b) < k (hd c)" if cin: "c \<in> set (del_bins e bs)" for c
    proof -
      obtain d where d: "d \<in> set bs" "hd c \<in> set d"
        using del_bins_sub [OF cin] b(6) set_remove1_subset [of e] hd_in_set by (metis bins_ok_def subsetD)
      then have "k (hd c) = k (hd d)" using b(6) by (auto simp: bins_ok_def)
      then show ?thesis using b(5) d(1) by simp
    qed
    moreover have "set (concat (del_bins e bs)) \<subseteq> set (concat bs)" unfolding del_bins_concat by (rule set_remove1_subset)
    ultimately show ?thesis using False b Cons.IH by auto
  qed
qed simp

lemma find_in_bin_ok:
  assumes "in_bin h c xs" "distinct (c # xs)" "e \<in> set xs"
  shows "\<exists>cur. find_in_bin h e c (nextInBin (h c)) = Some (Inr cur) \<and> cur \<in> set (c # xs) \<and> cur \<noteq> e \<and>
    in_bin (h(cur := (h cur)\<lparr>nextInBin := nextInBin (h e)\<rparr>)) c (remove1 e xs)"
  using assms
proof (induction xs arbitrary: c)
  case (Cons x xs)
  have x: "nextInBin (h c) = Some x" "in_bin h x xs" using Cons.prems(1) by simp_all
  show ?case
  proof (cases "x = e")
    case True
    define h' where "h' = h(c := (h c)\<lparr>nextInBin := nextInBin (h e)\<rparr>)"
    have "in_bin h' c xs"
    proof (cases xs)
      case Nil
      then show ?thesis using x True by (simp add: h'_def)
    next
      case (Cons y ys)
      have "in_bin h' y ys = in_bin h y ys" using Cons.prems(2) Cons by (intro in_bin_cong) (auto simp: h'_def)
      then show ?thesis using x True Cons by (simp add: h'_def)
    qed
    then show ?thesis using True x Cons.prems(2) by (intro exI [of _ c]) (subst find_in_bin.simps, auto simp: h'_def)
  next
    case False
    then have "distinct (x # xs)" "e \<in> set xs" using Cons.prems by auto
    then obtain cur where cur: "find_in_bin h e x (nextInBin (h x)) = Some (Inr cur)" "cur \<in> set (x # xs)" "cur \<noteq> e"
        "in_bin (h(cur := (h cur)\<lparr>nextInBin := nextInBin (h e)\<rparr>)) x (remove1 e xs)"
      using Cons.IH [OF x(2)] by blast
    have "cur \<noteq> c" using cur(2) Cons.prems(2) by auto
    then show ?thesis using cur x False by (intro exI [of _ cur]) (subst find_in_bin.simps, auto)
  qed
qed simp

lemma removeItem_ok:
  assumes "bins_at h (Some p) ((p # ps) # bs)" "bins_ok k ((p # ps) # bs)" "e \<in> set (p # ps)"
  shows "\<exists>h' tp. removeItem e p h = Some (Inr (h', tp)) \<and> bins_at h' tp (del_bins e ((p # ps) # bs)) \<and> relinked h h' \<and>
    (\<forall>x. x \<notin> set (p # ps) \<longrightarrow> h' x = h x)"
proof -
  have d: "distinct (p # ps)" "set (p # ps) \<inter> set (concat bs) = {}" "[] \<notin> set bs" and r: "in_bin h p ps" "bins_at h (nextBin (h p)) bs"
    using assms(1,2) by (auto simp: bins_ok_def)
  have rest: "bins_at h' x bs = bins_at h x bs" if "\<forall>y. y \<notin> set (p # ps) \<longrightarrow> h' y = h y" for h' x
  proof (rule bins_at_cong)
    show "\<forall>y \<in> set (concat bs). nextInBin (h' y) = nextInBin (h y)" using that d(2) by (metis disjoint_iff)
    show "\<forall>c \<in> set bs. c \<noteq> [] \<longrightarrow> nextBin (h' (hd c)) = nextBin (h (hd c))"
    proof (intro ballI impI)
      fix c assume "c \<in> set bs" "c \<noteq> []"
      then have "hd c \<in> set (concat bs)" by (auto intro!: bexI [of _ c])
      then show "nextBin (h' (hd c)) = nextBin (h (hd c))" using that d(2) by (metis disjoint_iff)
    qed
  qed
  show ?thesis
  proof (cases "e = p")
    case True
    show ?thesis
    proof (cases ps)
      case Nil
      then show ?thesis using True r by (intro exI [of _ h] exI [of _ "nextBin (h p)"]) (simp add: removeItem_def)
    next
      case (Cons n ns)
      define h' where "h' = h(n := (h n)\<lparr>nextBin := nextBin (h p)\<rparr>)"
      have "in_bin h' n ns = in_bin h n ns" by (rule in_bin_cong) (simp add: h'_def)
      moreover have "\<forall>y. y \<notin> set (p # ps) \<longrightarrow> h' y = h y" using Cons by (simp add: h'_def)
      moreover have "removeItem e p h = Some (Inr (h', Some n))" using True r(1) Cons by (simp add: removeItem_def h'_def)
      ultimately show ?thesis
        using True r Cons rest [of h'] relinked_upd(2) [of h n] by (intro exI [of _ h'] exI [of _ "Some n"]) (simp add: h'_def)
    qed
  next
    case False
    then have e: "e \<in> set ps" using assms(3) by simp
    obtain cur where c: "find_in_bin h e p (nextInBin (h p)) = Some (Inr cur)" "cur \<in> set (p # ps)"
        "in_bin (h(cur := (h cur)\<lparr>nextInBin := nextInBin (h e)\<rparr>)) p (remove1 e ps)"
      using find_in_bin_ok [OF r(1) d(1) e] by blast
    define h' where "h' = h(cur := (h cur)\<lparr>nextInBin := nextInBin (h e)\<rparr>)"
    have o: "\<forall>y. y \<notin> set (p # ps) \<longrightarrow> h' y = h y" "nextBin (h' p) = nextBin (h p)" using c(2) by (auto simp: h'_def)
    have "removeItem e p h = Some (Inr (h', Some p))" using False c(1) by (simp add: removeItem_def h'_def)
    moreover have "in_bin h' p (remove1 e ps)" "relinked h h'" using c(3) relinked_upd(3) [of h cur] by (simp_all add: h'_def)
    ultimately show ?thesis
      using r(2) False e o rest [OF o(1)] by (intro exI [of _ h'] exI [of _ "Some p"]) simp
  qed
qed

lemma remove_behind:
  assumes "bins_at h (Some p) ((p # ps) # bs)" "bins_ok (ekey h) ((p # ps) # bs)" "e \<in> set (concat bs)"
  shows "\<exists>prev c h1 tp. find_bin h (h e) p (nextBin (h p)) = Some (prev, Some c) \<and> ekey h c = ekey h e \<and>
    removeItem e c h = Some (Inr (h1, tp)) \<and> relinked h h1 \<and> prev \<in> set (concat ((p # ps) # bs)) \<and> (\<forall>x. x \<notin> set (concat bs) \<longrightarrow> h1 x = h x) \<and>
    bins_at (h1(prev := (h1 prev)\<lparr>nextBin := tp\<rparr>)) (Some p) ((p # ps) # del_bins e bs)"
  using assms
proof (induction bs arbitrary: p ps)
  case (Cons b bs)
  obtain c cs where b: "b = c # cs" using Cons.prems(1) by (cases b) auto
  have nb: "nextBin (h p) = Some c" "in_bin h p ps" and c: "bins_at h (Some c) ((c # cs) # bs)" using Cons.prems(1) by (simp_all add: b)
  have ok: "bins_ok (ekey h) ((c # cs) # bs)" and dis: "set (p # ps) \<inter> set (concat ((c # cs) # bs)) = {}" using Cons.prems(2) by (auto simp: b)
  have inb: "in_bin h' p ps" if "\<forall>x \<in> set (p # ps). nextInBin (h' x) = nextInBin (h x)" for h'
    using in_bin_cong [OF that] nb(2) by blast
  show ?case
  proof (cases "e \<in> set (c # cs)")
    case True
    then have k: "ekey h c = ekey h e" using ok by auto
    obtain h1 tp where r: "removeItem e c h = Some (Inr (h1, tp))" "bins_at h1 tp (del_bins e ((c # cs) # bs))" "relinked h h1"
        "\<forall>x. x \<notin> set (c # cs) \<longrightarrow> h1 x = h x"
      using removeItem_ok [OF c ok True] by blast
    define h' where "h' = h1(p := (h1 p)\<lparr>nextBin := tp\<rparr>)"
    have del: "set (concat (del_bins e ((c # cs) # bs))) \<subseteq> set (concat ((c # cs) # bs))"
      unfolding del_bins_concat by (rule set_remove1_subset)
    have "bins_at h' tp (del_bins e ((c # cs) # bs)) = bins_at h1 tp (del_bins e ((c # cs) # bs))"
    proof (rule bins_at_cong)
      show "\<forall>x \<in> set (concat (del_bins e ((c # cs) # bs))). nextInBin (h' x) = nextInBin (h1 x)" by (simp add: h'_def del: del_bins.simps)
      show "\<forall>d \<in> set (del_bins e ((c # cs) # bs)). d \<noteq> [] \<longrightarrow> nextBin (h' (hd d)) = nextBin (h1 (hd d))"
      proof (intro ballI impI)
        fix d assume "d \<in> set (del_bins e ((c # cs) # bs))" "d \<noteq> []"
        then have "hd d \<in> set (concat ((c # cs) # bs))" using del bins_ok_hd [OF del_bins_ok [OF ok]] by blast
        then have "hd d \<noteq> p" using dis by auto
        then show "nextBin (h' (hd d)) = nextBin (h1 (hd d))" by (simp add: h'_def)
      qed
    qed
    moreover have "in_bin h' p ps"
    proof (rule inb)
      have "h1 x = h x" if "x \<in> set (p # ps)" for x using r(4) that dis by auto
      then show "\<forall>x \<in> set (p # ps). nextInBin (h' x) = nextInBin (h x)" by (auto simp: h'_def)
    qed
    moreover have "nextBin (h' p) = tp" by (simp add: h'_def)
    ultimately have "bins_at h' (Some p) ((p # ps) # del_bins e (b # bs))" using r(2) by (simp add: b del: del_bins.simps)
    moreover have "find_bin h (h e) p (nextBin (h p)) = Some (p, Some c)" using nb(1) k by (simp add: ev_order)
    moreover have "\<forall>x. x \<notin> set (concat (b # bs)) \<longrightarrow> h1 x = h x" using r(4) by (simp add: b)
    moreover have "p \<in> set (concat ((p # ps) # b # bs))" by simp
    ultimately show ?thesis using k r(1,3) unfolding h'_def by blast
  next
    case False
    then have e: "e \<in> set (concat bs)" using Cons.prems(3) by (auto simp: b)
    then have lt: "ekey h c < ekey h e" using ok bins_ok_key [of "ekey h" bs e] by auto
    obtain prev d h1 tp where r: "find_bin h (h e) c (nextBin (h c)) = Some (prev, Some d)" "ekey h d = ekey h e"
        "removeItem e d h = Some (Inr (h1, tp))" "relinked h h1" "prev \<in> set (concat ((c # cs) # bs))" "\<forall>x. x \<notin> set (concat bs) \<longrightarrow> h1 x = h x"
        "bins_at (h1(prev := (h1 prev)\<lparr>nextBin := tp\<rparr>)) (Some c) ((c # cs) # del_bins e bs)"
      using Cons.IH [OF c ok e] by blast
    define h' where "h' = h1(prev := (h1 prev)\<lparr>nextBin := tp\<rparr>)"
    have "h' x = h x" if "x \<in> set (p # ps)" for x using r(5,6) that dis by (auto simp: h'_def)
    then have "in_bin h' p ps" "nextBin (h' p) = Some c" using inb [of h'] nb(1) by auto
    then have "bins_at h' (Some p) ((p # ps) # del_bins e (b # bs))" using r(7) False by (simp add: b h'_def)
    moreover have "find_bin h (h e) p (nextBin (h p)) = Some (prev, Some d)" using nb(1) lt r(1) by (simp add: ev_order)
    moreover have "\<forall>x. x \<notin> set (concat (b # bs)) \<longrightarrow> h1 x = h x" using r(6) by simp
    moreover have "prev \<in> set (concat ((p # ps) # b # bs))" using r(5) by (auto simp: b)
    ultimately show ?thesis using r(2-4) unfolding h'_def by blast
  qed
qed simp

lemma eq_remove_rep:
  assumes "eq_rep h hp bs" "e \<in> set (concat bs)" "ev_queue (h e) = Some q"
  shows "\<exists>h' hp'. eq_remove q e (h, hp) = Some (Inr (h', hp')) \<and> eq_rep h' hp' (del_bins e bs) \<and> relinked h h' \<and>
    (\<forall>x. x \<notin> set (concat bs) \<longrightarrow> h' x = h x)"
proof -
  have ok: "bins_ok (ekey h') (del_bins e bs)" if "relinked h h'" for h'
    using del_bins_ok [of "ekey h" bs e] assms that by (simp add: eq_rep_def relinked_key)
  obtain p ps bs' where b: "bs = (p # ps) # bs'" "hp = Some p" using assms(1,2) by (cases "(h, hp, bs)" rule: bins_at.cases) (auto simp: eq_rep_def)
  have r: "bins_at h (Some p) ((p # ps) # bs')" "bins_ok (ekey h) ((p # ps) # bs')" using assms b by (simp_all add: eq_rep_def)
  show ?thesis
  proof (cases "e \<in> set (p # ps)")
    case True
    then have k: "ekey h p = ekey h e" using r(2) by auto
    obtain h1 tp where x: "removeItem e p h = Some (Inr (h1, tp))" "bins_at h1 tp (del_bins e ((p # ps) # bs'))" "relinked h h1"
        "\<forall>x. x \<notin> set (p # ps) \<longrightarrow> h1 x = h x"
      using removeItem_ok [OF r True] by blast
    have "eq_remove q e (h, hp) = Some (Inr (h1, tp))" using x(1) b k assms(3) by (simp add: eq_remove_def ev_order)
    then show ?thesis using x ok [OF x(3)] b by (intro exI [of _ h1] exI [of _ tp]) (simp add: eq_rep_def del: del_bins.simps)
  next
    case False
    then have e: "e \<in> set (concat bs')" using assms(2) b by auto
    then have lt: "ekey h p < ekey h e" using r(2) bins_ok_key [of "ekey h" bs' e] by auto
    obtain prev d h1 tp where x: "find_bin h (h e) p (nextBin (h p)) = Some (prev, Some d)" "ekey h d = ekey h e"
        "removeItem e d h = Some (Inr (h1, tp))" "relinked h h1" "prev \<in> set (concat ((p # ps) # bs'))" "\<forall>x. x \<notin> set (concat bs') \<longrightarrow> h1 x = h x"
        "bins_at (h1(prev := (h1 prev)\<lparr>nextBin := tp\<rparr>)) (Some p) ((p # ps) # del_bins e bs')"
      using remove_behind [OF r e] by blast
    define h' where "h' = h1(prev := (h1 prev)\<lparr>nextBin := tp\<rparr>)"
    have rl: "relinked h h'" unfolding h'_def by (rule relinked_trans [OF x(4) relinked_upd(2)])
    have "eq_remove q e (h, hp) = Some (Inr (h', Some p))" using x(1-3) b less_imp_neq [OF lt] assms(3) by (simp add: eq_remove_def ev_order h'_def)
    moreover have "bins_at h' (Some p) (del_bins e bs)" using x(7) False b by (simp add: h'_def)
    moreover have "h' x = h x" if "x \<notin> set (concat bs)" for x using that x(5,6) b by (auto simp: h'_def)
    ultimately show ?thesis using ok [OF rl] rl by (intro exI [of _ h'] exI [of _ "Some p"]) (simp add: eq_rep_def)
  qed
qed

end
