(* ===== verification/Event_Calendar.thy ===== *)
theory Event_Calendar
  imports Event_Queue
begin

text \<open>
  The specification of the event queue, a list of events in service order, and the proof that the linked
  lists of \<open>sim/eventq.cc\<close> implement it: every operation returns, and gives the result or the error of the
  specification.
\<close>

subsection \<open>The specification: a calendar\<close>

text \<open>
  The specification of the queue: the events without their links, and the list of the queued events in the
  order in which they will be serviced.  Its operations use no pointers.
\<close>

record calendar =
  cal_events :: estore
  cal_order :: "eptr list"
  cal_id :: nat
  cal_now :: tick
  cal_async :: "eptr list"

definition unlink :: "Event \<Rightarrow> Event" where
  "unlink e = e\<lparr>nextBin := None, nextInBin := None\<rparr>"

definition cal_upd :: "eptr \<Rightarrow> (Event \<Rightarrow> Event) \<Rightarrow> calendar \<Rightarrow> calendar" where
  "cal_upd p f c = c\<lparr>cal_events := (cal_events c)(p := f (cal_events c p))\<rparr>"

definition cal_insert :: "eptr \<Rightarrow> calendar \<Rightarrow> calendar" where
  "cal_insert p c = c\<lparr>cal_order := ins_event (ekey (cal_events c)) p (cal_order c)\<rparr>"

definition cal_remove :: "eptr \<Rightarrow> calendar \<Rightarrow> calendar result" where
  "cal_remove p c =
     (if cal_order c = [] then Inl (Panic ''event not found!'')
      else if ev_queue (cal_events c p) \<noteq> Some (cal_id c) then Inl (Assertion ''event->queue == this'')
      else if p \<notin> set (cal_order c) then Inl (Panic ''event not found!'')
      else Inr (c\<lparr>cal_order := remove1 p (cal_order c)\<rparr>))"

definition cal_delete :: "eptr \<Rightarrow> calendar \<Rightarrow> calendar result" where
  "cal_delete p c = rbind (delete_event p (cal_events c)) (\<lambda>h. Inr (c\<lparr>cal_events := h\<rparr>))"

definition cal_schedule :: "bool \<Rightarrow> eptr \<Rightarrow> tick \<Rightarrow> calendar \<Rightarrow> calendar result" where
  "cal_schedule elsewhere p t c =
     rbind (assertr (t \<ge> cal_now c) ''when >= getCurTick()'') (\<lambda>_.
     rbind (assertr (\<not> ev_Scheduled (cal_events c p)) ''!event->scheduled()'') (\<lambda>_.
     rbind (assertr (ev_initialized (cal_events c p)) ''event->initialized()'') (\<lambda>_.
     let c1 = cal_upd p (setWhen t (cal_id c)) c in
     Inr (cal_upd p (\<lambda>e. e\<lparr>ev_Scheduled := True\<rparr>)
            (if elsewhere then c1\<lparr>cal_async := cal_async c1 @ [p]\<rparr> else cal_insert p c1)))))"

definition cal_deschedule :: "eptr \<Rightarrow> calendar \<Rightarrow> calendar result" where
  "cal_deschedule p c =
     rbind (assertr (ev_Scheduled (cal_events c p)) ''event->scheduled()'') (\<lambda>_.
     rbind (assertr (ev_initialized (cal_events c p)) ''event->initialized()'') (\<lambda>_.
     rbind (cal_remove p c) (\<lambda>c1.
     let c2 = cal_upd p (\<lambda>e. e\<lparr>ev_Squashed := False, ev_Scheduled := False\<rparr>) c1 in
     if ev_AutoDelete (cal_events c2 p) then cal_delete p c2 else Inr c2)))"

definition cal_reschedule :: "bool \<Rightarrow> eptr \<Rightarrow> tick \<Rightarrow> calendar \<Rightarrow> calendar result" where
  "cal_reschedule always p t c =
     rbind (assertr (t \<ge> cal_now c) ''when >= getCurTick()'') (\<lambda>_.
     rbind (assertr (always \<or> ev_Scheduled (cal_events c p)) ''always || event->scheduled()'') (\<lambda>_.
     rbind (assertr (ev_initialized (cal_events c p)) ''event->initialized()'') (\<lambda>_.
     rbind (if ev_Scheduled (cal_events c p) then cal_remove p c else Inr c) (\<lambda>c1.
     Inr (cal_upd p (\<lambda>e. e\<lparr>ev_Squashed := False, ev_Scheduled := True\<rparr>)
           (cal_insert p (cal_upd p (setWhen t (cal_id c1)) c1)))))))"

definition cal_finish :: "eptr \<Rightarrow> calendar \<Rightarrow> (eptr option \<times> calendar) result" where
  "cal_finish p c =
     (if ev_AutoDelete (cal_events c p) \<and> \<not> ev_Scheduled (cal_events c p) then rbind (cal_delete p c) (\<lambda>c1. Inr (None, c1)) else Inr (None, c))"

definition cal_serviceOne :: "(eptr \<Rightarrow> calendar \<Rightarrow> calendar result) \<Rightarrow> calendar \<Rightarrow> (eptr option \<times> calendar) result" where
  "cal_serviceOne act c =
     (case cal_order c of
        [] \<Rightarrow> Inl HostFault
      | p # ps \<Rightarrow>
          let c1 = cal_upd p (\<lambda>e. e\<lparr>ev_Scheduled := False\<rparr>) (c\<lparr>cal_order := ps\<rparr>) in
          if ev_Squashed (cal_events c1 p) then cal_finish p (cal_upd p (\<lambda>e. e\<lparr>ev_Squashed := False\<rparr>) c1)
          else
            rbind (act p (c1\<lparr>cal_now := ev_when (cal_events c1 p)\<rparr>)) (\<lambda>c2.
            if ev_IsExitEvent (cal_events c2 p) then
              rbind (assertr (\<not> ev_AutoDelete (cal_events c2 p) \<or> \<not> ev_IsMainQueue (cal_events c2 p)) ''!AutoDelete || !IsMainQueue'') (\<lambda>_.
              Inr (Some p, c2))
            else cal_finish p c2))"

subsection \<open>The queue implements the calendar\<close>

definition eq_ok :: "eqstate \<Rightarrow> eptr list \<Rightarrow> bool" where
  "eq_ok st xs \<longleftrightarrow> (\<exists>bs. eq_rep (fst st) (eq_head (snd st)) bs \<and> xs = concat bs) \<and>
     (\<forall>e \<in> set xs. ev_queue (fst st e) = Some (eq_id (snd st)) \<and> ev_Scheduled (fst st e) \<and> eq_curTick (snd st) \<le> ev_when (fst st e))"

definition calendar_of :: "eqstate \<Rightarrow> eptr list \<Rightarrow> calendar" where
  "calendar_of st xs =
     \<lparr>cal_events = (\<lambda>p. unlink (fst st p)), cal_order = xs, cal_id = eq_id (snd st), cal_now = eq_curTick (snd st), cal_async = async_queue (snd st)\<rparr>"

definition refines :: "eqstate \<Rightarrow> calendar \<Rightarrow> bool" where
  "refines st c \<longleftrightarrow> eq_ok st (cal_order c) \<and> c = calendar_of st (cal_order c)"

text \<open>The operation returns, with the error of the specification or with a queue that implements its result.\<close>

definition implements :: "eqstate result option \<Rightarrow> calendar result \<Rightarrow> bool" where
  "implements x y \<longleftrightarrow> (\<exists>r. x = Some r \<and> rel_sum (=) refines r y)"

lemma unlink_fields [simp]:
  "ev_when (unlink e) = ev_when e" "ev_priority (unlink e) = ev_priority e" "ev_queue (unlink e) = ev_queue e"
  "ev_Squashed (unlink e) = ev_Squashed e" "ev_Scheduled (unlink e) = ev_Scheduled e" "ev_AutoDelete (unlink e) = ev_AutoDelete e"
  "ev_IsExitEvent (unlink e) = ev_IsExitEvent e" "ev_IsMainQueue (unlink e) = ev_IsMainQueue e" "ev_initialized (unlink e) = ev_initialized e"
  by (simp_all add: unlink_def)

lemma unlink_relinked: "relinked h h' \<Longrightarrow> unlink (h' x) = unlink (h x)"
proof -
  assume "relinked h h'"
  then obtain a b where "h' x = (h x)\<lparr>nextBin := a, nextInBin := b\<rparr>" unfolding relinked_def by blast
  then show ?thesis by (simp add: unlink_def)
qed

lemma ekey_unlink [simp]: "ekey (\<lambda>p. unlink (h p)) = ekey h"
  by (rule ext) (simp add: ekey_def)

lemma eq_rep_upd:
  assumes "eq_rep h hp bs" "\<forall>x. x \<in> set (concat bs) \<longrightarrow> nextBin (h' x) = nextBin (h x) \<and> nextInBin (h' x) = nextInBin (h x) \<and> ekey h' x = ekey h x"
  shows "eq_rep h' hp bs"
proof -
  have ok: "bins_ok (ekey h) bs" using assms(1) by (simp add: eq_rep_def)
  have "bins_at h' hp bs = bins_at h hp bs"
  proof (rule bins_at_cong)
    show "\<forall>b \<in> set bs. b \<noteq> [] \<longrightarrow> nextBin (h' (hd b)) = nextBin (h (hd b))" using assms(2) bins_ok_hd [OF ok] by blast
  qed (use assms(2) in blast)
  moreover have hd: "ekey h' (hd b) = ekey h (hd b)" if "b \<in> set bs" for b using assms(2) bins_ok_hd [OF ok that] by blast
  have "bins_ok (ekey h') bs"
    unfolding bins_ok_def
  proof (intro conjI ballI)
    have "map (\<lambda>b. ekey h' (hd b)) bs = map (\<lambda>b. ekey h (hd b)) bs" using hd by simp
    then show "sorted_wrt (<) (map (\<lambda>b. ekey h' (hd b)) bs)" using ok by (simp only: bins_ok_def)
    fix b assume b: "b \<in> set bs"
    then have "\<forall>x \<in> set b. ekey h' x = ekey h x" using assms(2) by auto
    then show "ekey h' ` set b \<subseteq> {ekey h' (hd b)}" using ok b hd by (force simp: bins_ok_def)
  qed (use ok in \<open>simp_all add: bins_ok_def\<close>)
  ultimately show ?thesis using assms(1) by (simp add: eq_rep_def)
qed

lemma find_in_bin_missing: "in_bin h c xs \<Longrightarrow> e \<notin> set xs \<Longrightarrow> find_in_bin h e c (nextInBin (h c)) = Some (Inl (Panic ''event not found!''))"
  by (induction xs arbitrary: c) (subst find_in_bin.simps, simp)+

lemma removeItem_missing: "in_bin h c cs \<Longrightarrow> e \<notin> set (c # cs) \<Longrightarrow> removeItem e c h = Some (Inl (Panic ''event not found!''))"
  by (simp add: removeItem_def find_in_bin_missing rbind_simps)

lemma find_bin_stops:
  "bins_at h (Some p) ((p # ps) # bs) \<Longrightarrow>
   \<exists>prev cur. find_bin h e p (nextBin (h p)) = Some (prev, cur) \<and> (\<forall>c. cur = Some c \<longrightarrow> (\<exists>cs. c # cs \<in> set bs \<and> in_bin h c cs))"
proof (induction bs arbitrary: p ps)
  case (Cons b bs)
  obtain c cs where b: "b = c # cs" using Cons.prems by (cases b) auto
  have nb: "nextBin (h p) = Some c" and c: "bins_at h (Some c) ((c # cs) # bs)" using Cons.prems by (simp_all add: b)
  then show ?case using Cons.IH [OF c] by (cases "ev_less (h c) e") (auto simp: b)
qed simp

lemma eq_remove_missing:
  assumes "eq_rep h hp bs" "e \<notin> set (concat bs)" "ev_queue (h e) = Some q"
  shows "eq_remove q e (h, hp) = Some (Inl (Panic ''event not found!''))"
proof (cases bs)
  case Nil
  then show ?thesis using assms by (simp add: eq_rep_def eq_remove_def)
next
  case (Cons b bs')
  then obtain p ps where b: "b = p # ps" "hp = Some p" using assms(1) by (cases b) (auto simp: eq_rep_def)
  have r: "bins_at h (Some p) ((p # ps) # bs')" "in_bin h p ps" "e \<notin> set (p # ps)" using assms Cons b by (auto simp: eq_rep_def)
  obtain prev cur where f: "find_bin h (h e) p (nextBin (h p)) = Some (prev, cur)"
      "\<forall>c. cur = Some c \<longrightarrow> (\<exists>cs. c # cs \<in> set bs' \<and> in_bin h c cs)"
    using find_bin_stops [OF r(1)] by blast
  have "removeItem e c h = Some (Inl (Panic ''event not found!''))" if "cur = Some c" for c
  proof -
    obtain cs where cs: "c # cs \<in> set bs'" "in_bin h c cs" using f(2) \<open>cur = Some c\<close> by blast
    then have "e \<notin> set (c # cs)" using assms(2) Cons by auto
    then show ?thesis using removeItem_missing cs(2) by blast
  qed
  then show ?thesis using f(1) b removeItem_missing [OF r(2,3)] assms(3) by (auto simp: eq_remove_def rbind_simps split: option.split)
qed

lemma refines_fields:
  assumes "refines st c"
  shows "cal_events c p = unlink (fst st p)" "cal_id c = eq_id (snd st)" "cal_now c = eq_curTick (snd st)" "cal_async c = async_queue (snd st)"
proof -
  have c: "c = calendar_of st (cal_order c)" using assms by (simp add: refines_def)
  show "cal_events c p = unlink (fst st p)" "cal_id c = eq_id (snd st)" "cal_now c = eq_curTick (snd st)" "cal_async c = async_queue (snd st)"
    by (subst c, simp add: calendar_of_def)+
qed

lemma refines_key: "refines st c \<Longrightarrow> ekey (cal_events c) = ekey (fst st)"
  by (rule ext) (simp add: ekey_def refines_fields)

lemma refinesI:
  assumes "eq_ok st (cal_order c)" "\<And>p. cal_events c p = unlink (fst st p)" "cal_id c = eq_id (snd st)" "cal_now c = eq_curTick (snd st)"
    "cal_async c = async_queue (snd st)"
  shows "refines st c"
proof -
  have "cal_events c = (\<lambda>p. unlink (fst st p))" using assms(2) by (rule ext)
  then show ?thesis using assms(1,3-5) by (simp add: refines_def calendar_of_def)
qed

lemma refines_unscheduled: "refines st c \<Longrightarrow> \<not> ev_Scheduled (fst st p) \<Longrightarrow> p \<notin> set (cal_order c)"
  by (auto simp: refines_def eq_ok_def)

lemma refines_upd:
  assumes "refines st c" "\<And>e. unlink (f e) = f (unlink e)"
    "p \<in> set (cal_order c) \<Longrightarrow> f (fst st p) = (fst st p)\<lparr>ev_Squashed := ev_Squashed (f (fst st p))\<rparr>"
  shows "refines (upd_event p f st) (cal_upd p f c)"
proof (rule refinesI)
  obtain bs where bs: "eq_rep (fst st) (eq_head (snd st)) bs" "cal_order c = concat bs" using assms(1) by (auto simp: refines_def eq_ok_def)
  define h where "h = fst (upd_event p f st)"
  have same: "h x = (fst st x)\<lparr>ev_Squashed := ev_Squashed (h x)\<rparr>" if "x \<in> set (cal_order c)" for x
    using assms(3) that by (cases "x = p") (simp_all add: h_def upd_event_def)
  have fld: "nextBin (h x) = nextBin (fst st x)" "nextInBin (h x) = nextInBin (fst st x)" "ev_when (h x) = ev_when (fst st x)"
      "ev_priority (h x) = ev_priority (fst st x)" "ev_queue (h x) = ev_queue (fst st x)" "ev_Scheduled (h x) = ev_Scheduled (fst st x)"
    if "x \<in> set (cal_order c)" for x
    by (subst same [OF that], simp)+
  have "eq_rep h (eq_head (snd st)) bs" by (rule eq_rep_upd [OF bs(1)]) (use fld bs(2) in \<open>simp add: ekey_def del: set_concat\<close>)
  then show "eq_ok (upd_event p f st) (cal_order (cal_upd p f c))"
    using assms(1) bs(2) fld by (auto simp: eq_ok_def refines_def cal_upd_def h_def upd_event_def simp del: set_concat)
  show "cal_events (cal_upd p f c) q = unlink (fst (upd_event p f st) q)" for q
    using refines_fields(1) [OF assms(1)] assms(2) by (simp add: cal_upd_def upd_event_def)
qed (use refines_fields [OF assms(1)] in \<open>simp_all add: cal_upd_def upd_event_def\<close>)

lemma insert_scheduled:
  assumes "refines st c" "p \<notin> set (cal_order c)" "ev_queue (fst st p) = Some (eq_id (snd st))" "eq_curTick (snd st) \<le> ev_when (fst st p)"
    "\<And>e. f e = e\<lparr>ev_Squashed := ev_Squashed (f e), ev_Scheduled := True\<rparr>" "\<And>e. unlink (f e) = f (unlink e)"
  shows "\<exists>st'. insert_queue p st = Some st' \<and> refines (upd_event p f st') (cal_upd p f (cal_insert p c))"
proof -
  obtain bs where bs: "eq_rep (fst st) (eq_head (snd st)) bs" "cal_order c = concat bs" using assms(1) by (auto simp: refines_def eq_ok_def)
  obtain h hp where i: "eq_insert p (fst st, eq_head (snd st)) = Some (h, hp)" "eq_rep h hp (ins_bins (ekey (fst st)) p bs)" "relinked (fst st) h"
    using eq_insert_rep [OF bs(1), of p] assms(2) bs(2) by auto
  define st' where "st' = (h, (snd st)\<lparr>eq_head := hp\<rparr>)"
  have ord: "cal_order (cal_insert p c) = concat (ins_bins (ekey (fst st)) p bs)"
    using refines_key [OF assms(1)] bs ins_bins_concat [of "ekey (fst st)" bs p] by (simp add: cal_insert_def eq_rep_def)
  have fld: "nextBin (f e) = nextBin e" "nextInBin (f e) = nextInBin e" "ev_when (f e) = ev_when e" "ev_priority (f e) = ev_priority e"
      "ev_queue (f e) = ev_queue e" "ev_Scheduled (f e)" for e
    by (subst assms(5), simp)+
  have "refines (upd_event p f st') (cal_upd p f (cal_insert p c))"
  proof (rule refinesI)
    have "eq_rep (h(p := f (h p))) hp (ins_bins (ekey (fst st)) p bs)" by (rule eq_rep_upd [OF i(2)]) (simp add: fld ekey_def)
    moreover have "set (concat (ins_bins (ekey (fst st)) p bs)) = insert p (set (cal_order c))"
      using ins_bins_concat [of "ekey (fst st)" bs p] bs by (simp add: eq_rep_def set_ins_event del: set_concat)
    ultimately show "eq_ok (upd_event p f st') (cal_order (cal_upd p f (cal_insert p c)))"
      using assms(1,3,4) ord relinked_fields [OF i(3)] fld
      by (auto simp: eq_ok_def refines_def cal_upd_def upd_event_def st'_def simp del: set_concat)
    show "cal_events (cal_upd p f (cal_insert p c)) q = unlink (fst (upd_event p f st') q)" for q
      using refines_fields(1) [OF assms(1)] assms(6) unlink_relinked [OF i(3)] by (simp add: cal_upd_def cal_insert_def upd_event_def st'_def)
  qed (use refines_fields [OF assms(1)] in \<open>simp_all add: cal_upd_def cal_insert_def upd_event_def st'_def\<close>)
  then show ?thesis using i(1) by (simp add: insert_queue_def st'_def)
qed

lemma refines_distinct: "refines st c \<Longrightarrow> distinct (cal_order c)"
  by (auto simp: refines_def eq_ok_def eq_rep_def bins_ok_def)

lemma remove_refines:
  assumes "refines st c"
  shows "implements (remove_queue p st) (cal_remove p c)"
proof -
  obtain bs where bs: "eq_rep (fst st) (eq_head (snd st)) bs" "cal_order c = concat bs" using assms by (auto simp: refines_def eq_ok_def)
  have nil: "concat bs = [] \<longleftrightarrow> bs = []" using bs(1) by (cases bs) (auto simp: eq_rep_def)
  note f = refines_fields [OF assms]
  consider "cal_order c = []" | "cal_order c \<noteq> []" "ev_queue (fst st p) \<noteq> Some (eq_id (snd st))"
    | "cal_order c \<noteq> []" "ev_queue (fst st p) = Some (eq_id (snd st))" "p \<notin> set (cal_order c)"
    | "ev_queue (fst st p) = Some (eq_id (snd st))" "p \<in> set (cal_order c)" by fastforce
  then show ?thesis
  proof cases
    case 1
    then have "eq_head (snd st) = None" using bs nil by (simp add: eq_rep_def)
    then show ?thesis using 1 by (simp add: implements_def remove_queue_def eq_remove_def cal_remove_def rbind_simps)
  next
    case 2
    then obtain q where "eq_head (snd st) = Some q" using bs nil by (cases "(fst st, eq_head (snd st), bs)" rule: bins_at.cases) (auto simp: eq_rep_def)
    then show ?thesis using 2 f by (simp add: implements_def remove_queue_def eq_remove_def cal_remove_def rbind_simps)
  next
    case 3
    then show ?thesis using eq_remove_missing [OF bs(1), of p] bs(2) f by (simp add: implements_def remove_queue_def cal_remove_def rbind_simps)
  next
    case 4
    then obtain h hp where r: "eq_remove (eq_id (snd st)) p (fst st, eq_head (snd st)) = Some (Inr (h, hp))" "eq_rep h hp (del_bins p bs)" "relinked (fst st) h"
      using eq_remove_rep [OF bs(1), of p] bs(2) by auto
    define st' where "st' = (h, (snd st)\<lparr>eq_head := hp\<rparr>)"
    have ord: "concat (del_bins p bs) = remove1 p (cal_order c)" by (simp add: del_bins_concat bs(2))
    have "refines st' (c\<lparr>cal_order := remove1 p (cal_order c)\<rparr>)"
    proof (rule refinesI)
      show "eq_ok st' (cal_order (c\<lparr>cal_order := remove1 p (cal_order c)\<rparr>))"
        using r(2) ord assms relinked_fields [OF r(3)] set_remove1_subset [of p "cal_order c"]
        by (auto simp: eq_ok_def refines_def st'_def simp del: set_concat intro!: exI [of _ "del_bins p bs"])
    qed (use f unlink_relinked [OF r(3)] in \<open>simp_all add: st'_def\<close>)
    moreover have "cal_remove p c = Inr (c\<lparr>cal_order := remove1 p (cal_order c)\<rparr>)" using 4 f by (auto simp: cal_remove_def)
    ultimately show ?thesis using r(1) by (simp add: implements_def remove_queue_def rbind_simps st'_def)
  qed
qed

lemma remove_refines_cases:
  assumes "refines st c"
  obtains e where "remove_queue p st = Some (Inl e)" "cal_remove p c = Inl e"
  | st1 c1 where "remove_queue p st = Some (Inr st1)" "cal_remove p c = Inr c1" "refines st1 c1" "p \<notin> set (cal_order c1)"
proof (cases "cal_remove p c")
  case (Inr c1)
  moreover have "p \<notin> set (cal_order c1)" using Inr refines_distinct [OF assms] by (auto simp: cal_remove_def split: if_splits)
  ultimately show ?thesis using that(2) remove_refines [OF assms, of p] by (auto simp: implements_def rel_sum.simps)
qed (use that(1) remove_refines [OF assms, of p] in \<open>auto simp: implements_def rel_sum.simps\<close>)

lemma delete_refines:
  assumes "refines st c" "p \<notin> set (cal_order c)"
  shows "rel_sum (=) refines (rbind (delete_event p (fst st)) (\<lambda>h. Inr (h, snd st))) (cal_delete p c)"
proof -
  define f where "f = (\<lambda>e :: Event. e\<lparr>ev_Squashed := False, ev_AutoDelete := False, ev_IsExitEvent := False, ev_IsMainQueue := False,
                        ev_initialized := False, ev_deleted := True\<rparr>)"
  have "refines (upd_event p f st) (cal_upd p f c)" by (rule refines_upd [OF assms(1)]) (use assms(2) in \<open>simp_all add: f_def unlink_def\<close>)
  then show ?thesis
    using refines_fields(1) [OF assms(1), of p] by (simp add: cal_delete_def delete_event_def rbind_simps assertr_def f_def upd_event_def cal_upd_def)
qed

lemma schedule_refines:
  assumes "refines st c"
  shows "implements (eq_schedule el p t st) (cal_schedule el p t c)"
proof (cases "t \<ge> eq_curTick (snd st) \<and> \<not> ev_Scheduled (fst st p) \<and> ev_initialized (fst st p)")
  case False
  then show ?thesis using refines_fields [OF assms] by (auto simp: implements_def eq_schedule_def cal_schedule_def rbind_simps assertr_def)
next
  case True
  note f = refines_fields [OF assms]
  have new: "p \<notin> set (cal_order c)" using refines_unscheduled [OF assms] True by blast
  define st1 c1 where "st1 = upd_event p (setWhen t (eq_id (snd st))) st" and "c1 = cal_upd p (setWhen t (cal_id c)) c"
  have r1: "refines st1 c1"
    unfolding st1_def c1_def f(2) by (rule refines_upd [OF assms]) (use new in \<open>simp_all add: setWhen_def unlink_def\<close>)
  have p: "p \<notin> set (cal_order c1)" "ev_queue (fst st1 p) = Some (eq_id (snd st1))" "eq_curTick (snd st1) \<le> ev_when (fst st1 p)"
    using new True by (simp_all add: c1_def st1_def cal_upd_def upd_event_def setWhen_def)
  let ?f = "\<lambda>e :: Event. e\<lparr>ev_Scheduled := True\<rparr>"
  have a: "eq_schedule el p t st = map_option (\<lambda>st2. Inr (upd_event p ?f st2)) (if el then Some (asyncInsert p st1) else insert_queue p st1)"
    and b: "cal_schedule el p t c = Inr (cal_upd p ?f (if el then c1\<lparr>cal_async := cal_async c1 @ [p]\<rparr> else cal_insert p c1))"
    using True f by (simp_all add: eq_schedule_def cal_schedule_def rbind_simps assertr_def Let_def st1_def c1_def)
  show ?thesis
  proof (cases el)
    case True
    have "refines (asyncInsert p st1) (c1\<lparr>cal_async := cal_async c1 @ [p]\<rparr>)"
      by (rule refinesI) (use r1 refines_fields [OF r1] in \<open>simp_all add: asyncInsert_def refines_def eq_ok_def\<close>)
    then have "refines (upd_event p ?f (asyncInsert p st1)) (cal_upd p ?f (c1\<lparr>cal_async := cal_async c1 @ [p]\<rparr>))"
      by (rule refines_upd) (use p in \<open>simp_all add: unlink_def\<close>)
    then show ?thesis unfolding a b using True by (simp add: implements_def)
  next
    case False
    obtain st' where "insert_queue p st1 = Some st'" "refines (upd_event p ?f st') (cal_upd p ?f (cal_insert p c1))"
      using insert_scheduled [OF r1 p, of ?f] by (auto simp: unlink_def)
    then show ?thesis unfolding a b using False by (simp add: implements_def)
  qed
qed

lemma deschedule_refines:
  assumes "refines st c"
  shows "implements (eq_deschedule p st) (cal_deschedule p c)"
proof (cases "ev_Scheduled (fst st p) \<and> ev_initialized (fst st p)")
  case False
  then show ?thesis using refines_fields [OF assms] by (auto simp: implements_def eq_deschedule_def cal_deschedule_def rbind_simps assertr_def)
next
  case True
  note f = refines_fields [OF assms]
  let ?f = "\<lambda>e :: Event. e\<lparr>ev_Squashed := False, ev_Scheduled := False\<rparr>"
  show ?thesis
  proof (cases rule: remove_refines_cases [OF assms, of p])
    case (1 e)
    then show ?thesis using True f by (auto simp: implements_def eq_deschedule_def cal_deschedule_def rbind_simps assertr_def)
  next
    case (2 st1 c1)
    define st2 c2 where "st2 = upd_event p ?f st1" and "c2 = cal_upd p ?f c1"
    have r2: "refines st2 c2" unfolding st2_def c2_def by (rule refines_upd [OF 2(3)]) (use 2(4) in \<open>simp_all add: unlink_def\<close>)
    have p: "p \<notin> set (cal_order c2)" using 2(4) by (simp add: c2_def cal_upd_def)
    have "eq_deschedule p st = Some (if ev_AutoDelete (fst st2 p) then rbind (delete_event p (fst st2)) (\<lambda>h. Inr (h, snd st2)) else Inr st2)"
      "cal_deschedule p c = (if ev_AutoDelete (cal_events c2 p) then cal_delete p c2 else Inr c2)"
      using True 2 f by (simp_all add: eq_deschedule_def cal_deschedule_def rbind_simps assertr_def Let_def st2_def c2_def)
    then show ?thesis using delete_refines [OF r2 p] r2 refines_fields(1) [OF r2, of p] by (simp add: implements_def)
  qed
qed

lemma insert_later:
  assumes "refines st1 c1" "p \<notin> set (cal_order c1)" "eq_curTick (snd st1) \<le> t"
  defines "g \<equiv> \<lambda>e :: Event. e\<lparr>ev_Squashed := False, ev_Scheduled := True\<rparr>"
  shows "implements (map_option (\<lambda>st3. Inr (upd_event p g st3)) (insert_queue p (upd_event p (setWhen t (eq_id (snd st1))) st1)))
    (Inr (cal_upd p g (cal_insert p (cal_upd p (setWhen t (cal_id c1)) c1))))"
proof -
  define st2 c2 where "st2 = upd_event p (setWhen t (eq_id (snd st1))) st1" and "c2 = cal_upd p (setWhen t (cal_id c1)) c1"
  have r2: "refines st2 c2"
    unfolding st2_def c2_def refines_fields(2) [OF assms(1)]
    by (rule refines_upd [OF assms(1)]) (use assms(2) in \<open>simp_all add: setWhen_def unlink_def\<close>)
  have p: "p \<notin> set (cal_order c2)" "ev_queue (fst st2 p) = Some (eq_id (snd st2))" "eq_curTick (snd st2) \<le> ev_when (fst st2 p)"
    using assms(2,3) by (simp_all add: c2_def st2_def cal_upd_def upd_event_def setWhen_def)
  obtain st' where "insert_queue p st2 = Some st'" "refines (upd_event p g st') (cal_upd p g (cal_insert p c2))"
    using insert_scheduled [OF r2 p, of g] by (auto simp: g_def unlink_def)
  then show ?thesis by (simp add: implements_def st2_def c2_def)
qed

lemma reschedule_refines:
  assumes "refines st c"
  shows "implements (eq_reschedule al p t st) (cal_reschedule al p t c)"
proof (cases "t \<ge> eq_curTick (snd st) \<and> (al \<or> ev_Scheduled (fst st p)) \<and> ev_initialized (fst st p)")
  case False
  then show ?thesis using refines_fields [OF assms] by (auto simp: implements_def eq_reschedule_def cal_reschedule_def rbind_simps assertr_def)
next
  case True
  note f = refines_fields [OF assms]
  let ?g = "\<lambda>e :: Event. e\<lparr>ev_Squashed := False, ev_Scheduled := True\<rparr>"
  have a: "eq_reschedule al p t st = (case (if ev_Scheduled (fst st p) then remove_queue p st else Some (Inr st)) of
        None \<Rightarrow> None | Some (Inl e) \<Rightarrow> Some (Inl e)
      | Some (Inr st1) \<Rightarrow> map_option (\<lambda>st3. Inr (upd_event p ?g st3)) (insert_queue p (upd_event p (setWhen t (eq_id (snd st1))) st1)))"
    and b: "cal_reschedule al p t c = rbind (if ev_Scheduled (fst st p) then cal_remove p c else Inr c) (\<lambda>c1.
      Inr (cal_upd p ?g (cal_insert p (cal_upd p (setWhen t (cal_id c1)) c1))))"
    using True f by (simp_all add: eq_reschedule_def cal_reschedule_def rbind_simps assertr_def Let_def split: option.split sum.split)
  show ?thesis
  proof (cases "ev_Scheduled (fst st p)")
    case False
    then show ?thesis
      unfolding a b using insert_later [OF assms refines_unscheduled [OF assms False], of t] True by (simp add: rbind_simps)
  next
    case s: True
    show ?thesis
    proof (cases rule: remove_refines_cases [OF assms, of p])
      case (1 e)
      then show ?thesis unfolding a b using s by (simp add: implements_def rbind_simps)
    next
      case (2 st1 c1)
      have "cal_now c1 = cal_now c" using 2(2) by (auto simp: cal_remove_def split: if_splits)
      then have "eq_curTick (snd st1) \<le> t" using True f(3) refines_fields(3) [OF 2(3)] by simp
      then show ?thesis unfolding a b using s 2 insert_later [OF 2(3,4), of t] by (simp add: rbind_simps)
    qed
  qed
qed

lemma refines_head: "refines st c \<Longrightarrow> eq_head (snd st) = (case cal_order c of [] \<Rightarrow> None | p # ps \<Rightarrow> Some p)"
proof -
  assume "refines st c"
  then obtain bs where "bins_at (fst st) (eq_head (snd st)) bs" "cal_order c = concat bs" by (auto simp: refines_def eq_ok_def eq_rep_def)
  then show ?thesis by (cases "(fst st, eq_head (snd st), bs)" rule: bins_at.cases) auto
qed

lemma pop_refines:
  assumes "refines st c" "cal_order c = p # ps"
  shows "refines (pop_head p st) (cal_upd p (\<lambda>e. e\<lparr>ev_Scheduled := False\<rparr>) (c\<lparr>cal_order := ps\<rparr>))"
proof -
  let ?h = "(fst st)(p := (fst st p)\<lparr>ev_Scheduled := False\<rparr>)"
  obtain bs where bs: "eq_rep (fst st) (eq_head (snd st)) bs" "cal_order c = concat bs" using assms by (auto simp: refines_def eq_ok_def)
  have "eq_rep ?h (eq_head (snd st)) bs" by (rule eq_rep_upd [OF bs(1)]) (simp add: ekey_def)
  moreover obtain qs bs' where b: "bs = (p # qs) # bs'" using bs assms(2) by (cases "(fst st, eq_head (snd st), bs)" rule: bins_at.cases) (auto simp: eq_rep_def)
  ultimately have e: "bins_at ?h (Some p) ((p # qs) # bs')" "bins_ok (ekey ?h) ((p # qs) # bs')" by (simp_all add: eq_rep_def)
  obtain h' tp where r: "removeItem p p ?h = Some (Inr (h', tp))" "bins_at h' tp (del_bins p ((p # qs) # bs'))" "relinked ?h h'"
    using removeItem_ok [OF e, of p] by auto
  have pop: "pop_head p st = (h', (snd st)\<lparr>eq_head := tp\<rparr>)" using r(1) by (auto simp: pop_head_def removeItem_def Let_def split: option.splits)
  have ord: "concat (del_bins p ((p # qs) # bs')) = ps" using bs(2) b assms(2) unfolding del_bins_concat by simp
  have "eq_rep h' tp (del_bins p ((p # qs) # bs'))" using r(2) del_bins_ok [OF e(2), of p] relinked_key [OF r(3)] by (simp add: eq_rep_def)
  moreover have "p \<notin> set ps" using refines_distinct [OF assms(1)] assms(2) by simp
  ultimately have "eq_ok (pop_head p st) ps"
    using assms ord relinked_fields [OF r(3)] unfolding pop eq_ok_def by (auto simp: refines_def eq_ok_def intro!: exI [of _ "del_bins p ((p # qs) # bs')"] simp del: del_bins.simps)
  then show ?thesis
    unfolding pop by (intro refinesI) (use refines_fields [OF assms(1)] unlink_relinked [OF r(3)] in \<open>simp_all add: cal_upd_def unlink_def\<close>)
qed

lemma bins_ok_sorted: "bins_ok k bs \<Longrightarrow> sorted_wrt (\<lambda>a b. k a \<le> k b) (concat bs)"
proof (induction bs)
  case (Cons b bs)
  have b: "k ` set b \<subseteq> {k (hd b)}" "\<forall>c \<in> set bs. k (hd b) < k (hd c)" "bins_ok k bs" using Cons.prems by simp_all
  have "k x \<le> k y" if xy: "x \<in> set b" "y \<in> set (concat bs)" for x y
  proof -
    obtain c where "c \<in> set bs" "k y = k (hd c)" using bins_ok_key [OF b(3) xy(2)] by blast
    moreover have "k x = k (hd b)" using b(1) xy(1) by auto
    ultimately show ?thesis using b(2) by (simp add: order_less_imp_le)
  qed
  moreover obtain v where "\<forall>x \<in> set b. k x = v" using b(1) by blast
  then have "sorted_wrt (\<lambda>a b. k a \<le> k b) b" by (simp add: sorted_wrt_iff_nth_less)
  ultimately show ?case using Cons.IH [OF b(3)] by (simp add: sorted_wrt_append)
qed simp

lemma refines_sorted: "refines st c \<Longrightarrow> sorted_wrt (\<lambda>a b. ekey (fst st) a \<le> ekey (fst st) b) (cal_order c)"
  by (auto simp: refines_def eq_ok_def eq_rep_def intro: bins_ok_sorted)

lemma ekey_when: "ekey h p \<le> ekey h q \<Longrightarrow> ev_when (h p) \<le> ev_when (h q)"
  by (auto simp: ekey_def less_eq_prod_def)

lemma refines_now:
  assumes "refines st c" "\<forall>e \<in> set (cal_order c). t \<le> ev_when (fst st e)"
  shows "refines (fst st, (snd st)\<lparr>eq_curTick := t\<rparr>) (c\<lparr>cal_now := t\<rparr>)"
  by (rule refinesI) (use assms refines_fields [OF assms(1)] in \<open>simp_all add: refines_def eq_ok_def\<close>)

subsection \<open>Servicing events\<close>

definition implements_service :: "(eptr option \<times> eqstate) result option \<Rightarrow> (eptr option \<times> calendar) result \<Rightarrow> bool" where
  "implements_service x y \<longleftrightarrow> (\<exists>r. x = Some r \<and> rel_sum (=) (rel_prod (=) refines) r y)"

lemma finish_refines:
  assumes "refines st c"
  shows "rel_sum (=) (rel_prod (=) refines) (finish_event p st) (cal_finish p c)"
proof (cases "ev_AutoDelete (fst st p) \<and> \<not> ev_Scheduled (fst st p)")
  case True
  then have "p \<notin> set (cal_order c)" using refines_unscheduled [OF assms] by blast
  from delete_refines [OF assms this] True show ?thesis
    using refines_fields(1) [OF assms, of p]
    by (auto simp: finish_event_def cal_finish_def cal_delete_def delete_event_def rbind_simps assertr_def)
qed (use assms refines_fields(1) [OF assms, of p] in \<open>auto simp: finish_event_def cal_finish_def\<close>)

text \<open>The contract of the actions of events: they act on the queue as some operation acts on the calendar.\<close>

locale event_actions =
  fixes process :: "eptr \<Rightarrow> eqstate \<Rightarrow> eqstate result option" and action :: "eptr \<Rightarrow> calendar \<Rightarrow> calendar result"
  assumes process_refines: "refines st c \<Longrightarrow> implements (process p st) (action p c)"
begin

lemma serviceOne_refines:
  assumes "refines st c"
  shows "implements_service (serviceOne process st) (cal_serviceOne action c)"
proof (cases "cal_order c")
  case Nil
  then show ?thesis using refines_head [OF assms] by (simp add: implements_service_def serviceOne_def cal_serviceOne_def)
next
  case (Cons p ps)
  define st1 c1 where "st1 = pop_head p st" and "c1 = cal_upd p (\<lambda>e. e\<lparr>ev_Scheduled := False\<rparr>) (c\<lparr>cal_order := ps\<rparr>)"
  have r1: "refines st1 c1" unfolding st1_def c1_def by (rule pop_refines [OF assms Cons])
  have hd: "eq_head (snd st) = Some p" using refines_head [OF assms] Cons by simp
  note f1 = refines_fields [OF r1]
  show ?thesis
  proof (cases "ev_Squashed (fst st1 p)")
    case True
    have "refines (upd_event p (\<lambda>e. e\<lparr>ev_Squashed := False\<rparr>) st1) (cal_upd p (\<lambda>e. e\<lparr>ev_Squashed := False\<rparr>) c1)"
      by (rule refines_upd [OF r1]) (simp_all add: unlink_def)
    from finish_refines [OF this, of p] show ?thesis
      using True f1(1) [of p] hd Cons
      by (simp add: implements_service_def serviceOne_def cal_serviceOne_def Let_def st1_def [symmetric] c1_def [symmetric])
  next
    case False
    define st2 c2 where "st2 = (fst st1, (snd st1)\<lparr>eq_curTick := ev_when (fst st1 p)\<rparr>)" and "c2 = c1\<lparr>cal_now := ev_when (cal_events c1 p)\<rparr>"
    have wc: "ev_when (cal_events c1 x) = ev_when (cal_events c x)" for x by (simp add: c1_def cal_upd_def)
    have w: "ev_when (fst st1 x) = ev_when (fst st x)" for x using wc [of x] f1(1) [of x] refines_fields(1) [OF assms, of x] by simp
    have "\<forall>e \<in> set (cal_order c1). ev_when (fst st1 p) \<le> ev_when (fst st1 e)"
      using refines_sorted [OF assms] Cons by (auto simp: c1_def cal_upd_def w dest!: ekey_when)
    from refines_now [OF r1 this] have "refines st2 c2" using f1(1) [of p] by (simp add: st2_def c2_def)
    from process_refines [OF this, of p] obtain r where r: "process p st2 = Some r" "rel_sum (=) refines r (action p c2)"
      by (auto simp: implements_def)
    have a: "serviceOne process st = Some (rbind r (\<lambda>st2.
          if ev_IsExitEvent (fst st2 p) then
            rbind (assertr (\<not> ev_AutoDelete (fst st2 p) \<or> \<not> ev_IsMainQueue (fst st2 p)) ''!AutoDelete || !IsMainQueue'') (\<lambda>_. Inr (Some p, st2))
          else finish_event p st2))"
      using False r(1) hd by (simp add: serviceOne_def Let_def st1_def [symmetric] st2_def [symmetric])
    have b: "cal_serviceOne action c = rbind (action p c2) (\<lambda>c2.
          if ev_IsExitEvent (cal_events c2 p) then
            rbind (assertr (\<not> ev_AutoDelete (cal_events c2 p) \<or> \<not> ev_IsMainQueue (cal_events c2 p)) ''!AutoDelete || !IsMainQueue'') (\<lambda>_. Inr (Some p, c2))
          else cal_finish p c2)"
      using False f1(1) [of p] Cons by (simp add: cal_serviceOne_def Let_def c1_def [symmetric] c2_def)
    from r(2) show ?thesis
    proof cases
      case (2 st3 c3)
      then show ?thesis
        using finish_refines [OF 2(3), of p] refines_fields(1) [OF 2(3), of p] by (simp add: a b implements_service_def rbind_simps assertr_def)
    qed (simp add: a b implements_service_def rbind_simps)
  qed
qed

end

subsection \<open>Sessions\<close>

text \<open>The calls that the actions of events make, and those of a whole simulation: calls between the events and the servicing of the next event.\<close>

datatype queue_call = Schedule bool eptr tick | Deschedule eptr | Reschedule bool eptr tick

datatype session_step = Call queue_call | Service

fun do_call :: "queue_call \<Rightarrow> eqstate \<Rightarrow> eqstate result option" where
  "do_call (Schedule elsewhere p t) st = eq_schedule elsewhere p t st"
| "do_call (Deschedule p) st = eq_deschedule p st"
| "do_call (Reschedule always p t) st = eq_reschedule always p t st"

fun cal_call :: "queue_call \<Rightarrow> calendar \<Rightarrow> calendar result" where
  "cal_call (Schedule elsewhere p t) c = cal_schedule elsewhere p t c"
| "cal_call (Deschedule p) c = cal_deschedule p c"
| "cal_call (Reschedule always p t) c = cal_reschedule always p t c"

fun do_calls :: "queue_call list \<Rightarrow> eqstate \<Rightarrow> eqstate result option" where
  "do_calls [] st = Some (Inr st)"
| "do_calls (x # xs) st = (case do_call x st of Some (Inr st1) \<Rightarrow> do_calls xs st1 | r \<Rightarrow> r)"

fun cal_calls :: "queue_call list \<Rightarrow> calendar \<Rightarrow> calendar result" where
  "cal_calls [] c = Inr c"
| "cal_calls (x # xs) c = rbind (cal_call x c) (cal_calls xs)"

fun session :: "(eptr \<Rightarrow> queue_call list) \<Rightarrow> session_step list \<Rightarrow> eqstate \<Rightarrow> eqstate result option" where
  "session act [] st = Some (Inr st)"
| "session act (Call x # xs) st = (case do_call x st of Some (Inr st1) \<Rightarrow> session act xs st1 | r \<Rightarrow> r)"
| "session act (Service # xs) st =
     (case serviceOne (\<lambda>p. do_calls (act p)) st of Some (Inr (_, st1)) \<Rightarrow> session act xs st1 | Some (Inl e) \<Rightarrow> Some (Inl e) | None \<Rightarrow> None)"

fun cal_session :: "(eptr \<Rightarrow> queue_call list) \<Rightarrow> session_step list \<Rightarrow> calendar \<Rightarrow> calendar result" where
  "cal_session act [] c = Inr c"
| "cal_session act (Call x # xs) c = rbind (cal_call x c) (cal_session act xs)"
| "cal_session act (Service # xs) c = rbind (cal_serviceOne (\<lambda>p. cal_calls (act p)) c) (\<lambda>(_, c1). cal_session act xs c1)"

lemma do_call_refines: "refines st c \<Longrightarrow> implements (do_call x st) (cal_call x c)"
  by (cases x) (simp_all add: schedule_refines deschedule_refines reschedule_refines)

lemma implements_cases:
  assumes "implements x y"
  obtains e where "x = Some (Inl e)" "y = Inl e" | st c where "x = Some (Inr st)" "y = Inr c" "refines st c"
  using assms unfolding implements_def by (auto elim: rel_sum.cases)

lemma do_calls_refines: "refines st c \<Longrightarrow> implements (do_calls xs st) (cal_calls xs c)"
proof (induction xs arbitrary: st c)
  case (Cons x xs)
  show ?case by (cases rule: implements_cases [OF do_call_refines [OF Cons.prems, of x]]) (simp_all add: rbind_simps Cons.IH, simp add: implements_def)
qed (simp add: implements_def)

interpretation scripts: event_actions "\<lambda>p. do_calls (act p)" "\<lambda>p. cal_calls (act p)" for act
  by unfold_locales (rule do_calls_refines)

lemma session_refines: "refines st c \<Longrightarrow> implements (session act xs st) (cal_session act xs c)"
proof (induction xs arbitrary: st c)
  case (Cons s xs)
  show ?case
  proof (cases s)
    case (Call x)
    show ?thesis
      by (cases rule: implements_cases [OF do_call_refines [OF Cons.prems, of x]]) (simp_all add: Call rbind_simps Cons.IH, simp add: implements_def)
  next
    case Service
    obtain r where r: "serviceOne (\<lambda>p. do_calls (act p)) st = Some r"
        "rel_sum (=) (rel_prod (=) refines) r (cal_serviceOne (\<lambda>p. cal_calls (act p)) c)"
      using scripts.serviceOne_refines [OF Cons.prems, of act] by (auto simp: implements_service_def)
    from r(2) show ?thesis by cases (auto simp: Service r(1) rbind_simps Cons.IH implements_def [of "Some (Inl _)"])
  qed
qed (simp add: implements_def)

lemma new_refines: "refines (h, new_EventQueue i) (calendar_of (h, new_EventQueue i) [])"
  by (rule refinesI) (auto simp: eq_ok_def eq_rep_def new_EventQueue_def calendar_of_def intro: exI [of _ "[]"])

subsection \<open>The consistency check\<close>

lemma verify_ok:
  assumes "case rest of [] \<Rightarrow> cur = None | r # rs \<Rightarrow> cur = Some r \<and> in_bin h r rs" "bins_at h (nextBin (h bin)) bs"
    "sorted_wrt (\<lambda>a b. ekey h a \<le> ekey h b) (rest @ concat bs)" "\<forall>x \<in> set (rest @ concat bs). (t, pri) \<le> ekey h x"
    "distinct (rest @ concat bs)" "seen \<inter> set (rest @ concat bs) = {}"
  shows "verify_loop h bin cur t pri seen = Some True"
  using assms
proof (induction bs arbitrary: bin rest cur t pri seen)
  case Nil
  from Nil.prems show ?case
  proof (induction rest arbitrary: cur t pri seen)
    case Nil
    then show ?case by (subst verify_loop.simps) simp
  next
    case (Cons r rs)
    have "verify_loop h bin (nextInBin (h r)) (ev_when (h r)) (ev_priority (h r)) (insert r seen) = Some True"
      by (rule Cons.IH) (use Cons.prems in \<open>auto simp: ekey_def split: list.splits\<close>)
    moreover have "\<not> ev_when (h r) < t" "\<not> (ev_when (h r) = t \<and> ev_priority (h r) < pri)" "r \<notin> seen"
      using Cons.prems(4,6) by (auto simp: ekey_def less_eq_prod_def)
    ultimately show ?case using Cons.prems(1) by (subst verify_loop.simps) auto
  qed
next
  case (Cons b bs)
  from Cons.prems show ?case
  proof (induction rest arbitrary: cur t pri seen)
    case Nil
    obtain c cs where b: "b = c # cs" "nextBin (h bin) = Some c" "in_bin h c cs" "bins_at h (nextBin (h c)) bs" using Nil.prems(2) by (cases b) auto
    have "verify_loop h c (Some c) t pri seen = Some True"
      by (rule Cons.IH [where rest = "c # cs"]) (use Nil.prems b in auto)
    then show ?case using b Nil.prems(1) by (subst verify_loop.simps) simp
  next
    case (Cons r rs)
    have "verify_loop h bin (nextInBin (h r)) (ev_when (h r)) (ev_priority (h r)) (insert r seen) = Some True"
      by (rule Cons.IH) (use Cons.prems in \<open>auto simp: ekey_def split: list.splits\<close>)
    moreover have "\<not> ev_when (h r) < t" "\<not> (ev_when (h r) = t \<and> ev_priority (h r) < pri)" "r \<notin> seen"
      using Cons.prems(4,6) by (auto simp: ekey_def less_eq_prod_def)
    ultimately show ?case using Cons.prems(1) by (subst verify_loop.simps) auto
  qed
qed

lemma debugVerify_refines:
  assumes "refines st c"
  shows "debugVerify st =
    Some (case eq_head (snd st) of None \<Rightarrow> True | Some p \<Rightarrow> \<not> (ev_when (fst st p) = 0 \<and> ev_priority (fst st p) < 0))"
proof -
  obtain bs where bs: "bins_at (fst st) (eq_head (snd st)) bs" "bins_ok (ekey (fst st)) bs" using assms by (auto simp: refines_def eq_ok_def eq_rep_def)
  show ?thesis
  proof (cases "eq_head (snd st)")
    case None
    then show ?thesis by (simp add: debugVerify_def)
  next
    case (Some p)
    then obtain ps bs' where b: "bs = (p # ps) # bs'" using bs(1) by (cases "(fst st, eq_head (snd st), bs)" rule: bins_at.cases) auto
    have s: "sorted_wrt (\<lambda>a b. ekey (fst st) a \<le> ekey (fst st) b) (p # ps @ concat bs')" using bins_ok_sorted [OF bs(2)] b by simp
    show ?thesis
    proof (cases "ev_when (fst st p) = 0 \<and> ev_priority (fst st p) < 0")
      case True
      then show ?thesis using Some by (simp add: debugVerify_def, subst verify_loop.simps, simp)
    next
      case False
      then have z: "(0, 0) \<le> ekey (fst st) p" by (auto simp: ekey_def less_eq_prod_def)
      have "verify_loop (fst st) p (Some p) 0 0 {} = Some True"
      proof (rule verify_ok [where rest = "p # ps"])
        show "\<forall>x \<in> set ((p # ps) @ concat bs'). (0, 0) \<le> ekey (fst st) x" using z s order_trans [OF z] by auto
        show "distinct ((p # ps) @ concat bs')" using bs(2) b by (auto simp: bins_ok_def)
      qed (use bs b Some s in auto)
      then show ?thesis using Some False by (simp add: debugVerify_def)
    qed
  qed
qed

subsection \<open>Servicing all events up to a tick\<close>

text \<open>
  The actions that let \<open>serviceEvents\<close> end: an action returns, and an event it schedules or moves is later than
  the current tick.  Events of the current tick can only leave the queue.
\<close>

definition future_only :: "(eptr \<Rightarrow> eqstate \<Rightarrow> eqstate result option) \<Rightarrow> bool" where
  "future_only process \<longleftrightarrow> (\<forall>p st xs. eq_ok st xs \<longrightarrow> (\<exists>r. process p st = Some r \<and>
     (\<forall>st'. r = Inr st' \<longrightarrow> (\<exists>xs'. eq_ok st' xs' \<and> eq_curTick (snd st') = eq_curTick (snd st) \<and>
        (\<forall>e \<in> set xs'. eq_curTick (snd st) < ev_when (fst st' e) \<or> e \<in> set xs \<and> ev_when (fst st' e) = ev_when (fst st e))))))"

lemma eq_ok_refines: "eq_ok st xs \<Longrightarrow> refines st (calendar_of st xs)"
  by (simp add: refines_def calendar_of_def)

lemma refines_ok: "refines st c \<Longrightarrow> eq_ok st (cal_order c)"
  by (simp add: refines_def)

lemma finish_event_ok:
  assumes "eq_ok st xs"
  shows "(\<exists>e. finish_event p st = Inl e) \<or> (\<exists>st'. finish_event p st = Inr (None, st') \<and> eq_ok st' xs \<and> (\<forall>e. ev_when (fst st' e) = ev_when (fst st e)))"
proof -
  have "rel_sum (=) (rel_prod (=) refines) (finish_event p st) (cal_finish p (calendar_of st xs))" by (rule finish_refines [OF eq_ok_refines [OF assms]])
  then show ?thesis
  proof cases
    case (2 a b)
    have "fst a = None" using 2(1) by (auto simp: finish_event_def rbind_def split: if_splits sum.splits)
    then obtain st' where st': "a = (None, st')" by (cases a) simp
    obtain x c' where b: "b = (x, c')" by (cases b)
    have r: "refines st' c'" using 2(3) st' b by simp
    have "cal_order c' = xs" "\<forall>e. ev_when (cal_events c' e) = ev_when (fst st e)"
      using 2(2) b by (auto simp: cal_finish_def cal_delete_def delete_event_def rbind_def assertr_def calendar_of_def split: if_splits sum.splits)
    then show ?thesis using 2(1) st' refines_ok [OF r] refines_fields(1) [OF r] by simp
  qed auto
qed

lemma serviceOne_step:
  assumes "eq_ok st xs" "future_only process" "xs \<noteq> []"
  defines "w \<equiv> ev_when (fst st (hd xs))"
  shows "\<exists>r. serviceOne process st = Some r \<and> (\<forall>x st'. r = Inr (x, st') \<longrightarrow> (\<exists>xs'. eq_ok st' xs' \<and>
    (\<forall>e \<in> set xs'. w < ev_when (fst st' e) \<or> e \<in> set (tl xs) \<and> ev_when (fst st' e) = ev_when (fst st e))))"
proof -
  obtain p ps where xs: "xs = p # ps" using assms(3) by (cases xs) auto
  define c where "c = calendar_of st xs"
  have r: "refines st c" "cal_order c = p # ps" using eq_ok_refines [OF assms(1)] xs by (simp_all add: c_def calendar_of_def)
  have hd: "eq_head (snd st) = Some p" using refines_head [OF r(1)] r(2) by simp
  define st1 where "st1 = pop_head p st"
  note r1 = pop_refines [OF r, folded st1_def]
  have ok1: "eq_ok st1 ps" using refines_ok [OF r1] by (simp add: cal_upd_def)
  have w1: "ev_when (fst st1 e) = ev_when (fst st e)" for e
    using arg_cong [OF refines_fields(1) [OF r1, of e], of ev_when] arg_cong [OF refines_fields(1) [OF r(1), of e], of ev_when]
    by (simp add: cal_upd_def split: if_splits)
  show ?thesis
  proof (cases "ev_Squashed (fst st1 p)")
    case True
    let ?st2 = "upd_event p (\<lambda>e. e\<lparr>ev_Squashed := False\<rparr>) st1"
    have "refines ?st2 (cal_upd p (\<lambda>e. e\<lparr>ev_Squashed := False\<rparr>) (calendar_of st1 ps))"
      by (rule refines_upd [OF eq_ok_refines [OF ok1]]) (simp_all add: unlink_def)
    then have "eq_ok ?st2 ps" by (auto dest!: refines_ok simp: cal_upd_def calendar_of_def)
    moreover have "ev_when (fst ?st2 e) = ev_when (fst st e)" for e using w1 by (simp add: upd_event_def)
    moreover have "serviceOne process st = Some (finish_event p ?st2)" using True hd by (simp add: serviceOne_def st1_def)
    ultimately show ?thesis using finish_event_ok [of ?st2 ps p] xs by (auto simp: w_def)
  next
    case False
    define st2 where "st2 = (fst st1, (snd st1)\<lparr>eq_curTick := ev_when (fst st1 p)\<rparr>)"
    have "\<forall>e \<in> set ps. ev_when (fst st1 p) \<le> ev_when (fst st1 e)"
      using refines_sorted [OF r(1)] r(2) by (auto simp: w1 dest!: ekey_when)
    then have ok2: "eq_ok st2 ps" using ok1 by (auto simp: eq_ok_def st2_def)
    have cur: "eq_curTick (snd st2) = w" "\<And>e. ev_when (fst st2 e) = ev_when (fst st e)" using w1 xs by (simp_all add: st2_def w_def)
    obtain r where r: "process p st2 = Some r" "\<forall>st'. r = Inr st' \<longrightarrow> (\<exists>xs'. eq_ok st' xs' \<and>
        (\<forall>e \<in> set xs'. w < ev_when (fst st' e) \<or> e \<in> set ps \<and> ev_when (fst st' e) = ev_when (fst st e)))"
      using assms(2) [unfolded future_only_def, THEN spec, THEN spec, THEN spec, THEN mp, OF ok2, of p] unfolding cur by blast
    have s: "serviceOne process st = Some (rbind r (\<lambda>st2.
          if ev_IsExitEvent (fst st2 p) then
            rbind (assertr (\<not> ev_AutoDelete (fst st2 p) \<or> \<not> ev_IsMainQueue (fst st2 p)) ''!AutoDelete || !IsMainQueue'') (\<lambda>_. Inr (Some p, st2))
          else finish_event p st2))"
      using False r(1) hd by (simp add: serviceOne_def Let_def st1_def [symmetric] st2_def [symmetric])
    show ?thesis
    proof (cases r)
      case (Inr st3)
      then obtain xs' where x: "eq_ok st3 xs'" "\<forall>e \<in> set xs'. w < ev_when (fst st3 e) \<or> e \<in> set ps \<and> ev_when (fst st3 e) = ev_when (fst st e)"
        using r(2) by blast
      then show ?thesis using s Inr finish_event_ok [OF x(1), of p] xs by (auto simp: rbind_simps assertr_def)
    qed (use s in \<open>simp add: rbind_simps\<close>)
  qed
qed

text \<open>What is left to service until \<open>t\<close>: the ticks, and the events of the first one.\<close>

definition work_left :: "tick \<Rightarrow> eqstate \<Rightarrow> eptr list \<Rightarrow> nat \<times> nat" where
  "work_left t st xs = (Suc t - ev_when (fst st (hd xs)), length (filter (\<lambda>e. ev_when (fst st e) = ev_when (fst st (hd xs))) xs))"

lemma eq_ok_distinct: "eq_ok st xs \<Longrightarrow> distinct xs"
  using refines_distinct [OF eq_ok_refines] by (fastforce simp: calendar_of_def)

lemma eq_ok_hd: "eq_ok st xs \<Longrightarrow> eq_head (snd st) = (if xs = [] then None else Some (hd xs))"
  using refines_head [OF eq_ok_refines] by (auto simp: calendar_of_def split: list.splits)

lemma eq_ok_first: "eq_ok st xs \<Longrightarrow> e \<in> set xs \<Longrightarrow> ev_when (fst st (hd xs)) \<le> ev_when (fst st e)"
  using refines_sorted [OF eq_ok_refines, of st xs] by (cases xs) (auto simp: calendar_of_def dest!: ekey_when)

lemma work_decreases:
  assumes "eq_ok st xs" "xs \<noteq> []" "ev_when (fst st (hd xs)) \<le> t" "eq_ok st' xs'" "xs' \<noteq> []"
    "\<forall>e \<in> set xs'. ev_when (fst st (hd xs)) < ev_when (fst st' e) \<or> e \<in> set (tl xs) \<and> ev_when (fst st' e) = ev_when (fst st e)"
  shows "work_left t st' xs' < work_left t st xs"
proof -
  let ?w = "ev_when (fst st (hd xs))" and ?w' = "ev_when (fst st' (hd xs'))"
  have hd': "hd xs' \<in> set xs'" using assms(5) by simp
  have tl: "e \<in> set xs" if "e \<in> set (tl xs)" for e using that assms(2) by (cases xs) auto
  have ge: "?w \<le> ?w'" using assms(6) hd' eq_ok_first [OF assms(1)] tl by (metis less_imp_le)
  show ?thesis
  proof (cases "?w < ?w'")
    case True
    then have "Suc t - ?w' < Suc t - ?w" using assms(3) by linarith
    then show ?thesis by (simp add: work_left_def less_prod_def)
  next
    case False
    then have w: "?w' = ?w" using ge by simp
    have "set (filter (\<lambda>e. ev_when (fst st' e) = ?w) xs') \<subseteq> set (filter (\<lambda>e. ev_when (fst st e) = ?w) (tl xs))" using assms(6) by auto
    then have "length (filter (\<lambda>e. ev_when (fst st' e) = ?w) xs') \<le> length (filter (\<lambda>e. ev_when (fst st e) = ?w) (tl xs))"
      using eq_ok_distinct [OF assms(1)] eq_ok_distinct [OF assms(4)]
      by (metis (no_types, lifting) List.finite_set card_mono distinct_card distinct_filter distinct_tl)
    also have "\<dots> < length (filter (\<lambda>e. ev_when (fst st e) = ?w) xs)" using assms(2) by (cases xs) simp_all
    finally show ?thesis by (simp add: work_left_def less_prod_def w)
  qed
qed

lemma serviceEvents_stop:
  assumes "eq_ok st xs" "\<forall>e \<in> set xs. t < ev_when (fst st e)"
  shows "serviceEvents process t st = Some (Inr (fst st, (snd st)\<lparr>eq_curTick := t\<rparr>))" "eq_ok (fst st, (snd st)\<lparr>eq_curTick := t\<rparr>) xs"
proof -
  show "serviceEvents process t st = Some (Inr (fst st, (snd st)\<lparr>eq_curTick := t\<rparr>))"
    using eq_ok_hd [OF assms(1)] assms(2) by (subst serviceEvents.simps) auto
  show "eq_ok (fst st, (snd st)\<lparr>eq_curTick := t\<rparr>) xs" using assms by (auto simp: eq_ok_def)
qed

lemma serviceEvents_ends:
  assumes "eq_ok st xs" "future_only process"
  shows "\<exists>r. serviceEvents process t st = Some r \<and> (\<forall>st'. r = Inr st' \<longrightarrow> eq_curTick (snd st') = t \<and>
    (\<exists>xs'. eq_ok st' xs' \<and> (\<forall>e \<in> set xs'. t < ev_when (fst st' e))))"
  using assms(1)
proof (induction "work_left t st xs" arbitrary: st xs rule: less_induct)
  case less
  show ?case
  proof (cases "xs = [] \<or> t < ev_when (fst st (hd xs))")
    case True
    then have late: "\<forall>e \<in> set xs. t < ev_when (fst st e)" using eq_ok_first [OF less.prems] by (auto intro: less_le_trans)
    then show ?thesis using serviceEvents_stop [OF less.prems late] by auto
  next
    case False
    then have nn: "xs \<noteq> []" "ev_when (fst st (hd xs)) \<le> t" by auto
    obtain r where r: "serviceOne process st = Some r" "\<forall>x st'. r = Inr (x, st') \<longrightarrow> (\<exists>xs'. eq_ok st' xs' \<and>
        (\<forall>e \<in> set xs'. ev_when (fst st (hd xs)) < ev_when (fst st' e) \<or> e \<in> set (tl xs) \<and> ev_when (fst st' e) = ev_when (fst st e)))"
      using serviceOne_step [OF less.prems assms(2) nn(1)] by blast
    have u: "serviceEvents process t st = (if isl r then Some (Inl (projl r)) else serviceEvents process t (snd (projr r)))"
      using r(1) nn eq_ok_hd [OF less.prems] by (subst serviceEvents.simps) simp
    show ?thesis
    proof (cases r)
      case (Inr a)
      obtain x st' where a: "a = (x, st')" by (cases a)
      obtain xs' where x: "eq_ok st' xs'"
          "\<forall>e \<in> set xs'. ev_when (fst st (hd xs)) < ev_when (fst st' e) \<or> e \<in> set (tl xs) \<and> ev_when (fst st' e) = ev_when (fst st e)"
        using r(2) Inr a by blast
      show ?thesis
      proof (cases "xs' = []")
        case True
        then have late: "\<forall>e \<in> set xs'. t < ev_when (fst st' e)" by simp
        show ?thesis using serviceEvents_stop [OF x(1) late] Inr a u late by auto
      next
        case n': False
        then show ?thesis using less.hyps [OF work_decreases [OF less.prems nn x(1) n' x(2)] x(1)] Inr a u by simp
      qed
    qed (use u in simp)
  qed
qed

lemma session_ok:
  assumes "session act steps (h, new_EventQueue i) = Some (Inr st)"
  shows "\<exists>c. refines st c"
  using session_refines [OF new_refines, of act steps h i] assms by (auto simp: implements_def elim: rel_sum.cases)

text \<open>An event that schedules itself again after a fixed time lets \<open>serviceEvents\<close> end.\<close>

lemma set_cal_insert: "set (cal_order (cal_insert p c)) = insert p (set (cal_order c))"
  by (simp add: cal_insert_def set_ins_event)

lemma periodic_future_only:
  assumes "0 < d"
  shows "future_only (\<lambda>p st. eq_schedule False p (eq_curTick (snd st) + d) st)"
  unfolding future_only_def
proof (intro allI impI)
  fix p :: eptr and st xs
  let ?t = "eq_curTick (snd st) + d" and ?c = "calendar_of st xs"
  assume "eq_ok st xs"
  then have i: "implements (eq_schedule False p ?t st) (cal_schedule False p ?t ?c)" by (intro schedule_refines eq_ok_refines)
  show "\<exists>r. eq_schedule False p ?t st = Some r \<and> (\<forall>st'. r = Inr st' \<longrightarrow> (\<exists>xs'. eq_ok st' xs' \<and> eq_curTick (snd st') = eq_curTick (snd st) \<and>
      (\<forall>e \<in> set xs'. eq_curTick (snd st) < ev_when (fst st' e) \<or> e \<in> set xs \<and> ev_when (fst st' e) = ev_when (fst st e))))"
  proof (cases rule: implements_cases [OF i])
    case (2 st' c')
    note f = refines_fields [OF 2(3)]
    have c': "cal_now c' = eq_curTick (snd st)" "set (cal_order c') = insert p (set xs)"
        "\<And>e. ev_when (cal_events c' e) = (if e = p then ?t else ev_when (fst st e))"
      using 2(2) by (auto simp: cal_schedule_def rbind_def assertr_def Let_def cal_upd_def set_cal_insert setWhen_def calendar_of_def cal_insert_def set_ins_event split: if_splits)
    have "\<forall>e \<in> set (cal_order c'). eq_curTick (snd st) < ev_when (fst st' e) \<or> e \<in> set xs \<and> ev_when (fst st' e) = ev_when (fst st e)"
      using c'(2,3) f(1) assms by auto
    then show ?thesis using 2(1) refines_ok [OF 2(3)] c'(1) f(3) by auto
  qed simp
qed

subsection \<open>Properties\<close>

text \<open>C6: in a session that starts with an empty queue, whatever the calls are and whatever calls the actions of the serviced events make,
  the linked lists return, with the error or with the queue of the specification.\<close>

theorem queue_implements_calendar:
  "\<exists>r. session act steps (h, new_EventQueue i) = Some r \<and>
     rel_sum (=) refines r (cal_session act steps (calendar_of (h, new_EventQueue i) []))"
  using session_refines [OF new_refines] unfolding implements_def by blast

text \<open>C7: servicing the events up to a tick ends when the actions of events schedule only later events; then the current tick is that tick
  and only later events are queued.\<close>

theorem serviceEvents_returns:
  assumes "session act steps (h, new_EventQueue i) = Some (Inr st)" "future_only process"
  shows "\<exists>r. serviceEvents process t st = Some r \<and> (\<forall>st'. r = Inr st' \<longrightarrow> eq_curTick (snd st') = t \<and>
    (\<exists>xs'. eq_ok st' xs' \<and> (\<forall>e \<in> set xs'. t < ev_when (fst st' e))))"
proof -
  obtain c where "refines st c" using session_ok [OF assms(1)] by blast
  from serviceEvents_ends [OF refines_ok [OF this] assms(2)] show ?thesis .
qed

text \<open>C40: the consistency check of the code accepts every queue of a session, unless the first event is at tick 0 with a negative priority.\<close>

theorem debugVerify_accepts:
  assumes "session act steps (h, new_EventQueue i) = Some (Inr st)"
  shows "debugVerify st =
    Some (case eq_head (snd st) of None \<Rightarrow> True | Some p \<Rightarrow> \<not> (ev_when (fst st p) = 0 \<and> ev_priority (fst st p) < 0))"
proof -
  obtain c where "refines st c" using session_ok [OF assms] by blast
  then show ?thesis by (rule debugVerify_refines)
qed

definition two_events :: estore where
  "two_events = (\<lambda>p. new_Event (if p = 0 then - 5 else 3) False False False)"

definition two_queued :: eqstate where
  "two_queued =
     ((two_events)
        (0 := (two_events 0)\<lparr>ev_when := 7, ev_queue := Some 0, ev_Scheduled := True, nextBin := Some 1\<rparr>,
         1 := (two_events 1)\<lparr>ev_when := 7, ev_queue := Some 0, ev_Scheduled := True\<rparr>),
      (new_EventQueue 0)\<lparr>eq_head := Some 0\<rparr>)"

lemma two_queued_session:
  "session (\<lambda>p. []) [Call (Schedule False 1 7), Call (Schedule False 0 7)] (two_events, new_EventQueue 0) = Some (Inr two_queued)"
  by (simp add: two_queued_def two_events_def new_EventQueue_def new_Event_def eq_schedule_def upd_event_def setWhen_def insert_queue_def
      eq_insert_def insertBefore_def ev_le_def ev_less_def Let_def fun_eq_iff)

lemma serviceEvents_returns_witness:
  "\<exists>r. serviceEvents (\<lambda>p st. eq_schedule False p (eq_curTick (snd st) + 5) st) 20 two_queued = Some r \<and>
     (\<forall>st'. r = Inr st' \<longrightarrow> eq_curTick (snd st') = 20 \<and> (\<exists>xs'. eq_ok st' xs' \<and> (\<forall>e \<in> set xs'. 20 < ev_when (fst st' e))))"
  using serviceEvents_returns [OF two_queued_session periodic_future_only [of 5]] by simp

lemma debugVerify_accepts_witness: "debugVerify two_queued = Some True"
  using debugVerify_accepts [OF two_queued_session] by (simp add: two_queued_def)

end
