(* ===== verification/Cache_Tags.thy ===== *)
theory Cache_Tags
  imports Mem_Packet
begin

text \<open>
  Cache blocks (\<open>mem/cache/blk.hh\<close>), the sets of a set-associative tag store (\<open>mem/cache/tags/cacheset.hh\<close>,
  \<open>mem/cache/tags/base_set_assoc\<close>) and the least-recently-used and random replacement policies
  (\<open>mem/cache/tags/lru\<close>, \<open>mem/cache/tags/random_repl\<close>).  The blocks live in one array; a set is the list of
  the indices of its blocks, most recently used first.
\<close>

subsection \<open>Blocks\<close>

definition BlkValid :: "32 word" where "BlkValid = 0x01"
definition BlkWritable :: "32 word" where "BlkWritable = 0x02"
definition BlkReadable :: "32 word" where "BlkReadable = 0x04"
definition BlkDirty :: "32 word" where "BlkDirty = 0x08"
definition BlkHWPrefetched :: "32 word" where "BlkHWPrefetched = 0x20"
definition BlkSecure :: "32 word" where "BlkSecure = 0x40"

record Lock =
  lock_contextId :: nat
  lowAddr :: addr
  highAddr :: addr

record CacheBlk =
  blk_task_id :: nat
  blk_asid :: int
  blk_tag :: addr
  blk_data :: nat
  blk_size :: nat
  blk_status :: "32 word"
  blk_whenReady :: tick
  blk_set :: int
  blk_way :: int
  isTouched :: bool
  refCount :: nat
  srcMasterId :: nat
  tickInserted :: tick
  lockList :: "Lock list"

definition new_CacheBlk :: CacheBlk where
  "new_CacheBlk =
     \<lparr>blk_task_id = Unknown_TaskId, blk_asid = - 1, blk_tag = 0, blk_data = 0, blk_size = 0, blk_status = 0, blk_whenReady = 0,
      blk_set = - 1, blk_way = - 1, isTouched = False, refCount = 0, srcMasterId = invldMasterId, tickInserted = 0, lockList = []\<rparr>"

definition isWritable :: "CacheBlk \<Rightarrow> bool" where
  "isWritable b \<longleftrightarrow> blk_status b AND (BlkWritable OR BlkValid) = BlkWritable OR BlkValid"

definition isReadable :: "CacheBlk \<Rightarrow> bool" where
  "isReadable b \<longleftrightarrow> blk_status b AND (BlkReadable OR BlkValid) = BlkReadable OR BlkValid"

definition isValid :: "CacheBlk \<Rightarrow> bool" where "isValid b \<longleftrightarrow> blk_status b AND BlkValid \<noteq> 0"
definition isDirty :: "CacheBlk \<Rightarrow> bool" where "isDirty b \<longleftrightarrow> blk_status b AND BlkDirty \<noteq> 0"
definition wasPrefetched :: "CacheBlk \<Rightarrow> bool" where "wasPrefetched b \<longleftrightarrow> blk_status b AND BlkHWPrefetched \<noteq> 0"
definition blk_isSecure :: "CacheBlk \<Rightarrow> bool" where "blk_isSecure b \<longleftrightarrow> blk_status b AND BlkSecure \<noteq> 0"

definition new_Lock :: "Request \<Rightarrow> Lock result" where
  "new_Lock req =
     rbind (contextId req) (\<lambda>c. rbind (getPaddr req) (\<lambda>a. rbind (getReqSize req) (\<lambda>s.
     Inr \<lparr>lock_contextId = c, lowAddr = a, highAddr = a + of_nat s - 1\<rparr>)))"

definition lock_matchesContext :: "Lock \<Rightarrow> Request \<Rightarrow> bool result" where
  "lock_matchesContext l req =
     rbind (getPaddr req) (\<lambda>req_low. rbind (getReqSize req) (\<lambda>s. rbind (contextId req) (\<lambda>c.
     let req_high = req_low + of_nat s - 1 in
     Inr (lock_contextId l = c \<and> req_low \<ge> lowAddr l \<and> req_high \<le> highAddr l))))"

definition overlapping :: "Lock \<Rightarrow> Request \<Rightarrow> bool result" where
  "overlapping l req =
     rbind (getPaddr req) (\<lambda>req_low. rbind (getReqSize req) (\<lambda>s.
     let req_high = req_low + of_nat s - 1 in
     Inr (req_low \<le> highAddr l \<and> req_high \<ge> lowAddr l)))"

definition blk_trackLoadLocked :: "Packet \<Rightarrow> CacheBlk \<Rightarrow> CacheBlk result" where
  "blk_trackLoadLocked pkt b =
     rbind (assertr (isLLSC pkt) ''pkt->isLLSC()'') (\<lambda>_.
     rbind (new_Lock (pkt_req pkt)) (\<lambda>l. Inr (b\<lparr>lockList := l # lockList b\<rparr>)))"

fun erase_overlapping :: "Request \<Rightarrow> Lock list \<Rightarrow> Lock list result" where
  "erase_overlapping req [] = Inr []"
| "erase_overlapping req (l # ls) =
     rbind (overlapping l req) (\<lambda>ov. rbind (erase_overlapping req ls) (\<lambda>ls'. Inr (if ov then ls' else l # ls')))"

definition clearLoadLocks :: "Request option \<Rightarrow> CacheBlk \<Rightarrow> CacheBlk result" where
  "clearLoadLocks req b =
     (case req of
        None \<Rightarrow> Inr (b\<lparr>lockList := []\<rparr>)
      | Some r \<Rightarrow> rbind (erase_overlapping r (lockList b)) (\<lambda>ls. Inr (b\<lparr>lockList := ls\<rparr>)))"

definition blk_invalidate :: "CacheBlk \<Rightarrow> CacheBlk" where
  "blk_invalidate b = b\<lparr>blk_status := 0, isTouched := False, lockList := []\<rparr>"

fun any_matching :: "Request \<Rightarrow> Lock list \<Rightarrow> bool result" where
  "any_matching req [] = Inr False"
| "any_matching req (l # ls) = rbind (lock_matchesContext l req) (\<lambda>m. if m then Inr True else any_matching req ls)"

definition checkWrite :: "Packet \<Rightarrow> CacheBlk \<Rightarrow> (bool \<times> Packet \<times> CacheBlk) result" where
  "checkWrite pkt b =
     (if \<not> isLLSC pkt \<and> lockList b = [] then Inr (True, pkt, b)
      else
        let req = pkt_req pkt in
        if isLLSC pkt then
          rbind (any_matching req (lockList b)) (\<lambda>success.
          let req1 = setExtraData (if success then 1 else 0) req in
          rbind (clearLoadLocks (Some req1) b) (\<lambda>b1. Inr (success, pkt\<lparr>pkt_req := req1\<rparr>, b1)))
        else rbind (clearLoadLocks (Some req) b) (\<lambda>b1. Inr (True, pkt, b1)))"

subsection \<open>Sets\<close>

definition set_match :: "addr \<Rightarrow> bool \<Rightarrow> CacheBlk \<Rightarrow> bool" where
  "set_match tag is_secure b \<longleftrightarrow> blk_tag b = tag \<and> isValid b \<and> blk_isSecure b = is_secure"

fun findBlk_from :: "CacheBlk list \<Rightarrow> addr \<Rightarrow> bool \<Rightarrow> nat \<Rightarrow> nat list \<Rightarrow> nat option \<times> nat" where
  "findBlk_from blks tag is_secure i [] = (None, i)"
| "findBlk_from blks tag is_secure i (b # bs) =
     (if set_match tag is_secure (blks ! b) then (Some b, i) else findBlk_from blks tag is_secure (Suc i) bs)"

definition findBlk_way :: "CacheBlk list \<Rightarrow> addr \<Rightarrow> bool \<Rightarrow> nat list \<Rightarrow> nat option \<times> nat" where
  "findBlk_way blks tag is_secure xs = findBlk_from blks tag is_secure 0 xs"

definition findBlk :: "CacheBlk list \<Rightarrow> addr \<Rightarrow> bool \<Rightarrow> nat list \<Rightarrow> nat option" where
  "findBlk blks tag is_secure xs = fst (findBlk_way blks tag is_secure xs)"

function head_loop :: "nat \<Rightarrow> nat \<Rightarrow> nat \<Rightarrow> nat list \<Rightarrow> nat list result" where
  "head_loop blk i next xs =
     (if \<not> i < length xs then Inl (Assertion ''i < assoc'')
      else
        let old = xs ! i; xs1 = xs[i := next] in
        if old \<noteq> blk then head_loop blk (Suc i) old xs1 else Inr xs1)"
  by pat_completeness auto
termination
  by (relation "measure (\<lambda>(blk, i, next, xs). length xs - i)") auto

declare head_loop.simps [simp del]

definition moveToHead :: "nat \<Rightarrow> nat list \<Rightarrow> nat list result" where
  "moveToHead blk xs =
     (if xs = [] then Inl HostFault else if xs ! 0 = blk then Inr xs else head_loop blk 0 blk xs)"

text \<open>The index of the loop is one less than the argument, which is 0 when the index would be negative.\<close>

fun tail_loop :: "nat \<Rightarrow> nat \<Rightarrow> nat \<Rightarrow> nat list \<Rightarrow> nat list result" where
  "tail_loop blk 0 next xs = Inl (Assertion ''i >= 0'')"
| "tail_loop blk (Suc i) next xs =
     (let old = xs ! i; xs1 = xs[i := next] in if old \<noteq> blk then tail_loop blk i old xs1 else Inr xs1)"

definition moveToTail :: "nat \<Rightarrow> nat list \<Rightarrow> nat list result" where
  "moveToTail blk xs =
     (if xs = [] then Inl HostFault
      else if xs ! (length xs - 1) = blk then Inr xs else tail_loop blk (length xs) blk xs)"

subsection \<open>The tag store\<close>

record TagParams =
  tp_size :: nat
  tp_block_size :: nat
  tp_assoc :: nat
  tp_hit_latency :: nat
  tp_sequential_access :: bool

record Tags =
  tags_blkSize :: nat
  accessLatency :: nat
  warmupBound :: nat
  warmedUp :: bool
  replacements :: nat
  tagsInUse :: int
  totalRefs :: nat
  sampledRefs :: nat
  warmupCycle :: tick
  occupancies :: "nat \<Rightarrow> int"
  tagAccesses :: nat
  dataAccesses :: nat
  tags_assoc :: nat
  allocAssoc :: nat
  numSets :: nat
  sequentialAccess :: bool
  tag_sets :: "nat list list"
  tag_blks :: "CacheBlk list"
  setShift :: nat
  tagShift :: nat
  setMask :: addr
  blkMask :: addr

definition init_blk :: "nat \<Rightarrow> nat \<Rightarrow> nat \<Rightarrow> CacheBlk" where
  "init_blk block_size i j =
     (blk_invalidate new_CacheBlk)
       \<lparr>blk_tag := of_nat j, blk_whenReady := 0, isTouched := False, blk_size := block_size, blk_set := int i, blk_way := int j\<rparr>"

text \<open>The division by zero of the initialiser comes before the check of the associativity.\<close>

definition new_Tags :: "TagParams \<Rightarrow> Tags result" where
  "new_Tags p =
     (if tp_block_size p * tp_assoc p = 0 then Inl HostFault
      else
        let bs = tp_block_size p; a = tp_assoc p; n = tp_size p div (bs * a) mod 2 ^ 32 in
        rbind (fatal_if (bs < 4 \<or> \<not> isPowerOf2 (of_nat bs :: addr)) ''Block size must be at least 4 and a power of 2'') (\<lambda>_.
        rbind (fatal_if (n \<le> 0 \<or> \<not> isPowerOf2 (of_nat n :: addr)) ''# of sets must be non-zero and a power of 2'') (\<lambda>_.
        rbind (fatal_if (a \<le> 0) ''associativity must be greater than zero'') (\<lambda>_.
        rbind (floorLog2 (of_nat bs)) (\<lambda>ss.
        rbind (floorLog2 (of_nat n)) (\<lambda>ns.
        Inr \<lparr>tags_blkSize = bs, accessLatency = tp_hit_latency p, warmupBound = n * a, warmedUp = False, replacements = 0, tagsInUse = 0,
             totalRefs = 0, sampledRefs = 0, warmupCycle = 0, occupancies = (\<lambda>_. 0), tagAccesses = 0, dataAccesses = 0,
             tags_assoc = a, allocAssoc = a, numSets = n, sequentialAccess = tp_sequential_access p,
             tag_sets = map (\<lambda>i. map (\<lambda>j. i * a + j) [0..<a]) [0..<n],
             tag_blks = map (\<lambda>k. (init_blk bs (k div a) (k mod a))\<lparr>blk_data := bs * k\<rparr>) [0..<n * a],
             setShift = ss, tagShift = ss + ns, setMask = of_nat n - 1, blkMask = of_nat bs - 1\<rparr>))))))"

definition extractTag :: "Tags \<Rightarrow> addr \<Rightarrow> addr" where "extractTag t a = drop_bit (tagShift t) a"
definition extractSet :: "Tags \<Rightarrow> addr \<Rightarrow> nat" where "extractSet t a = unat (drop_bit (setShift t) a AND setMask t)"
definition blkAlign :: "Tags \<Rightarrow> addr \<Rightarrow> addr" where "blkAlign t a = a AND NOT (blkMask t)"
definition regenerateBlkAddr :: "Tags \<Rightarrow> addr \<Rightarrow> nat \<Rightarrow> addr" where
  "regenerateBlkAddr t tag s = push_bit (tagShift t) tag OR push_bit (setShift t) (of_nat s)"

definition upd_blk :: "nat \<Rightarrow> (CacheBlk \<Rightarrow> CacheBlk) \<Rightarrow> Tags \<Rightarrow> Tags" where
  "upd_blk b f t = t\<lparr>tag_blks := (tag_blks t)[b := f (tag_blks t ! b)]\<rparr>"

definition findBlock :: "Tags \<Rightarrow> addr \<Rightarrow> bool \<Rightarrow> nat option" where
  "findBlock t a is_secure = findBlk (tag_blks t) (extractTag t a) is_secure (tag_sets t ! extractSet t a)"

definition findBlockBySetAndWay :: "Tags \<Rightarrow> nat \<Rightarrow> nat \<Rightarrow> nat" where
  "findBlockBySetAndWay t s w = tag_sets t ! s ! w"

text \<open>\<open>period\<close> is the clock period of the cache, \<open>now\<close> the current tick.\<close>

definition ticksToCycles :: "nat \<Rightarrow> tick \<Rightarrow> nat" where "ticksToCycles period t = divCeil t period"

definition accessBlock :: "nat \<Rightarrow> tick \<Rightarrow> addr \<Rightarrow> bool \<Rightarrow> Tags \<Rightarrow> nat option \<times> nat \<times> Tags" where
  "accessBlock period now a is_secure t =
     (let blk = findBlk (tag_blks t) (extractTag t a) is_secure (tag_sets t ! extractSet t a);
          t1 = t\<lparr>tagAccesses := tagAccesses t + allocAssoc t,
                 dataAccesses := dataAccesses t + (if sequentialAccess t then (if blk \<noteq> None then 1 else 0) else allocAssoc t)\<rparr> in
      case blk of
        None \<Rightarrow> (None, accessLatency t, t1)
      | Some b \<Rightarrow>
          let ready = blk_whenReady (tag_blks t ! b);
              lat = (if ready > now \<and> ticksToCycles period (ready - now) > accessLatency t then ticksToCycles period (ready - now) else accessLatency t) in
          (Some b, lat, upd_blk b (\<lambda>x. x\<lparr>refCount := refCount x + 1\<rparr>) t1))"

definition tags_invalidate :: "nat \<Rightarrow> tick \<Rightarrow> nat \<Rightarrow> Tags \<Rightarrow> Tags result" where
  "tags_invalidate maxMasters now b t =
     rbind (assertr (isValid (tag_blks t ! b)) ''blk->isValid()'') (\<lambda>_.
     rbind (assertr (srcMasterId (tag_blks t ! b) < maxMasters) ''blk->srcMasterId < cache->system->maxMasters()'') (\<lambda>_.
     Inr (upd_blk b (\<lambda>x. x\<lparr>srcMasterId := invldMasterId, blk_task_id := Unknown_TaskId, tickInserted := now\<rparr>)
            (t\<lparr>tagsInUse := tagsInUse t - 1,
               occupancies := (occupancies t)(srcMasterId (tag_blks t ! b) := occupancies t (srcMasterId (tag_blks t ! b)) - 1)\<rparr>))))"

text \<open>The search for an invalid block leaves the last block it looked at; it reads past the set if more ways may be allocated than there are.\<close>

fun victim_from :: "CacheBlk list \<Rightarrow> nat \<Rightarrow> nat list \<Rightarrow> nat option \<Rightarrow> nat option result" where
  "victim_from blks 0 xs found = Inr found"
| "victim_from blks (Suc n) [] found = Inl HostFault"
| "victim_from blks (Suc n) (b # bs) found = (if \<not> isValid (blks ! b) then Inr (Some b) else victim_from blks n bs (Some b))"

definition findVictim :: "addr \<Rightarrow> Tags \<Rightarrow> nat option result" where
  "findVictim a t = victim_from (tag_blks t) (allocAssoc t) (tag_sets t ! extractSet t a) None"

definition touch_blk :: "tick \<Rightarrow> nat \<Rightarrow> Tags \<Rightarrow> Tags" where
  "touch_blk now b t =
     (if isTouched (tag_blks t ! b) then t
      else
        let t1 = upd_blk b (\<lambda>x. x\<lparr>isTouched := True\<rparr>) (t\<lparr>tagsInUse := tagsInUse t + 1\<rparr>) in
        if \<not> warmedUp t1 \<and> tagsInUse t1 \<ge> int (warmupBound t1) then t1\<lparr>warmedUp := True, warmupCycle := now\<rparr> else t1)"

definition evict_blk :: "nat \<Rightarrow> nat \<Rightarrow> Tags \<Rightarrow> Tags result" where
  "evict_blk maxMasters b t =
     (if isValid (tag_blks t ! b) then
        let x = tag_blks t ! b in
        rbind (assertr (srcMasterId x < maxMasters) ''blk->srcMasterId < cache->system->maxMasters()'') (\<lambda>_.
        Inr (upd_blk b (\<lambda>x. blk_invalidate (x\<lparr>refCount := 0\<rparr>))
               (t\<lparr>replacements := replacements t + 1, totalRefs := totalRefs t + refCount x, sampledRefs := sampledRefs t + 1,
                  occupancies := (occupancies t)(srcMasterId x := occupancies t (srcMasterId x) - 1)\<rparr>)))
      else Inr t)"

definition insertBlock :: "nat \<Rightarrow> tick \<Rightarrow> Packet \<Rightarrow> nat \<Rightarrow> Tags \<Rightarrow> Tags result" where
  "insertBlock maxMasters now pkt b t =
     rbind (getAddr pkt) (\<lambda>a.
     let master_id = req_masterId (pkt_req pkt); t1 = touch_blk now b t in
     rbind (evict_blk maxMasters b t1) (\<lambda>t2.
     rbind (assertr (master_id < maxMasters) ''master_id < cache->system->maxMasters()'') (\<lambda>_.
     Inr (upd_blk b (\<lambda>x. x\<lparr>isTouched := True, blk_tag := extractTag t2 a, srcMasterId := master_id,
                           blk_task_id := req_taskId (pkt_req pkt), tickInserted := now\<rparr>)
            (t2\<lparr>occupancies := (occupancies t2)(master_id := occupancies t2 master_id + 1),
                tagAccesses := tagAccesses t2 + 1, dataAccesses := dataAccesses t2 + 1\<rparr>)))))"

definition setWayAllocationMax :: "nat \<Rightarrow> Tags \<Rightarrow> Tags result" where
  "setWayAllocationMax ways t =
     rbind (fatal_if (ways < 1) ''Allocation limit must be greater than zero'') (\<lambda>_. Inr (t\<lparr>allocAssoc := ways\<rparr>))"

definition cleanupRefs :: "Tags \<Rightarrow> Tags" where
  "cleanupRefs t =
     foldl (\<lambda>t b. if isValid b then t\<lparr>totalRefs := totalRefs t + refCount b, sampledRefs := sampledRefs t + 1\<rparr> else t) t (tag_blks t)"

text \<open>The statistics of \<open>computeStats\<close>: the occupancy per task and the number of blocks of a task in each of five age classes.
  \<open>us\<close> and \<open>ms\<close> are the ticks of a micro- and a millisecond.\<close>

definition NumTaskId :: nat where "NumTaskId = 1025"

definition age_index :: "tick \<Rightarrow> tick \<Rightarrow> tick \<Rightarrow> nat" where
  "age_index us ms age =
     (if age div us < 10 then 0 else if age div us < 100 then 1 else if age div ms < 1 then 2 else if age div ms < 10 then 3 else 4)"

type_synonym task_stats = "(nat \<Rightarrow> nat) \<times> (nat \<Rightarrow> nat \<Rightarrow> nat)"

fun stats_loop :: "tick \<Rightarrow> tick \<Rightarrow> tick \<Rightarrow> CacheBlk list \<Rightarrow> task_stats \<Rightarrow> task_stats result" where
  "stats_loop us ms now [] st = Inr st"
| "stats_loop us ms now (b # bs) (occ, age) =
     (if isValid b then
        rbind (assertr (blk_task_id b < NumTaskId) ''blks[i].task_id < ContextSwitchTaskId::NumTaskId'') (\<lambda>_.
        rbind (assertr (tickInserted b \<le> now) ''blks[i].tickInserted <= curTick()'') (\<lambda>_.
        let k = blk_task_id b; i = age_index us ms (now - tickInserted b) in
        stats_loop us ms now bs (occ(k := occ k + 1), age(k := (age k)(i := age k i + 1)))))
      else stats_loop us ms now bs (occ, age))"

definition computeStats :: "tick \<Rightarrow> tick \<Rightarrow> tick \<Rightarrow> Tags \<Rightarrow> task_stats result" where
  "computeStats us ms now t = stats_loop us ms now (tag_blks t) ((\<lambda>_. 0), (\<lambda>_ _. 0))"

text \<open>The visitor returns the block it was given, changed, and whether the traversal goes on.\<close>

fun visit_blks :: "(CacheBlk \<Rightarrow> bool \<times> CacheBlk) \<Rightarrow> CacheBlk list \<Rightarrow> CacheBlk list" where
  "visit_blks visitor [] = []"
| "visit_blks visitor (b # bs) = (let (more, b1) = visitor b in if more then b1 # visit_blks visitor bs else b1 # bs)"

definition forEachBlk :: "(CacheBlk \<Rightarrow> bool \<times> CacheBlk) \<Rightarrow> Tags \<Rightarrow> Tags" where
  "forEachBlk visitor t = t\<lparr>tag_blks := visit_blks visitor (tag_blks t)\<rparr>"

subsection \<open>Replacement policies\<close>

definition upd_set :: "nat \<Rightarrow> (nat list \<Rightarrow> nat list result) \<Rightarrow> Tags \<Rightarrow> Tags result" where
  "upd_set s f t =
     (if s < length (tag_sets t) then rbind (f (tag_sets t ! s)) (\<lambda>xs. Inr (t\<lparr>tag_sets := (tag_sets t)[s := xs]\<rparr>)) else Inl HostFault)"

definition lru_accessBlock :: "nat \<Rightarrow> tick \<Rightarrow> addr \<Rightarrow> bool \<Rightarrow> Tags \<Rightarrow> (nat option \<times> nat \<times> Tags) result" where
  "lru_accessBlock period now a is_secure t =
     (let (blk, lat, t1) = accessBlock period now a is_secure t in
      case blk of
        None \<Rightarrow> Inr (None, lat, t1)
      | Some b \<Rightarrow> rbind (upd_set (nat (blk_set (tag_blks t1 ! b))) (moveToHead b) t1) (\<lambda>t2. Inr (Some b, lat, t2)))"

definition lru_findVictim :: "addr \<Rightarrow> Tags \<Rightarrow> nat option" where
  "lru_findVictim a t = find (\<lambda>b. blk_way (tag_blks t ! b) < int (allocAssoc t)) (rev (tag_sets t ! extractSet t a))"

definition lru_insertBlock :: "nat \<Rightarrow> tick \<Rightarrow> Packet \<Rightarrow> nat \<Rightarrow> Tags \<Rightarrow> Tags result" where
  "lru_insertBlock maxMasters now pkt b t =
     rbind (insertBlock maxMasters now pkt b t) (\<lambda>t1. rbind (getAddr pkt) (\<lambda>a. upd_set (extractSet t1 a) (moveToHead b) t1))"

definition lru_invalidate :: "nat \<Rightarrow> tick \<Rightarrow> nat \<Rightarrow> Tags \<Rightarrow> Tags result" where
  "lru_invalidate maxMasters now b t =
     rbind (tags_invalidate maxMasters now b t) (\<lambda>t1. upd_set (nat (blk_set (tag_blks t1 ! b))) (moveToTail b) t1)"

text \<open>\<open>pick\<close> is the random index; the search for an allocatable way may not end if there is none.\<close>

partial_function (option) skip_ways :: "CacheBlk list \<Rightarrow> nat \<Rightarrow> nat list \<Rightarrow> nat \<Rightarrow> nat option" where
  "skip_ways blks alloc xs idx =
     (if blk_way (blks ! (xs ! idx)) \<ge> int alloc then skip_ways blks alloc xs ((idx + 1) mod length xs) else Some (xs ! idx))"

definition random_findVictim :: "nat \<Rightarrow> addr \<Rightarrow> Tags \<Rightarrow> nat option result option" where
  "random_findVictim pick a t =
     (case findVictim a t of
        Inr (Some b) \<Rightarrow>
          if isValid (tag_blks t ! b)
          then map_option (\<lambda>b. Inr (Some b)) (skip_ways (tag_blks t) (allocAssoc t) (tag_sets t ! extractSet t a) pick)
          else Some (Inr (Some b))
      | r \<Rightarrow> Some r)"

subsection \<open>Moving a block within its set\<close>

lemma head_loop_eq:
  assumes "blk \<notin> set as"
  shows "head_loop blk (length pre) next (pre @ as @ blk # bs) = Inr (pre @ next # as @ bs)"
  using assms
proof (induction as arbitrary: pre "next")
  case Nil
  then show ?case by (subst head_loop.simps) simp
next
  case (Cons a as)
  have "head_loop blk (length (pre @ [next])) a ((pre @ [next]) @ as @ blk # bs) = Inr ((pre @ [next]) @ a # as @ bs)"
    by (rule Cons.IH) (use Cons.prems in simp)
  then show ?case using Cons.prems by (subst head_loop.simps) simp
qed

lemma moveToHead_eq:
  assumes "blk \<in> set xs" "distinct xs"
  shows "moveToHead blk xs = Inr (blk # remove1 blk xs)"
proof -
  obtain as bs where xs: "xs = as @ blk # bs" "blk \<notin> set as" using split_list_first [OF assms(1)] by blast
  then show ?thesis
    using head_loop_eq [of blk as "[]" blk bs] by (cases as) (auto simp: moveToHead_def remove1_append)
qed

lemma tail_loop_eq:
  assumes "blk \<notin> set bs"
  shows "tail_loop blk (length as + 1 + length bs) next (as @ blk # bs @ post) = Inr (as @ bs @ next # post)"
  using assms
proof (induction bs arbitrary: "next" post rule: rev_induct)
  case (snoc b bs)
  have "(as @ blk # bs @ b # post)[length as + 1 + length bs := next] = as @ blk # bs @ next # post"
    by (simp add: list_update_append)
  moreover have "(as @ blk # bs @ b # post) ! (length as + 1 + length bs) = b" by (simp add: nth_append)
  ultimately show ?case using snoc.IH [of b "next # post"] snoc.prems by simp
qed (simp add: nth_append list_update_append)

lemma moveToTail_eq:
  assumes "blk \<in> set xs" "distinct xs"
  shows "moveToTail blk xs = Inr (remove1 blk xs @ [blk])"
proof -
  obtain as bs where xs: "xs = as @ blk # bs" "blk \<notin> set as" using split_list_first [OF assms(1)] by blast
  have bs: "blk \<notin> set bs" using xs assms(2) by simp
  show ?thesis
  proof (cases bs rule: rev_cases)
    case Nil
    then show ?thesis using xs by (simp add: moveToTail_def remove1_append)
  next
    case (snoc cs c)
    have "xs ! (length xs - 1) \<noteq> blk" using xs snoc bs by (simp add: nth_append)
    then show ?thesis using tail_loop_eq [OF bs, of as blk "[]"] xs by (simp add: moveToTail_def remove1_append)
  qed
qed

lemma findBlk_eq: "findBlk blks tag s xs = find (\<lambda>b. set_match tag s (blks ! b)) xs"
proof -
  have "fst (findBlk_from blks tag s i xs) = find (\<lambda>b. set_match tag s (blks ! b)) xs" for i by (induction xs arbitrary: i) auto
  then show ?thesis by (simp add: findBlk_def findBlk_way_def)
qed

text \<open>The way is the position of the block in its set, and the associativity if there is none.\<close>

lemma findBlk_way_spec:
  "case findBlk_way blks tag s xs of (None, w) \<Rightarrow> w = length xs \<and> (\<forall>b \<in> set xs. \<not> set_match tag s (blks ! b))
     | (Some b, w) \<Rightarrow> w < length xs \<and> xs ! w = b \<and> set_match tag s (blks ! b)"
proof -
  have "case findBlk_from blks tag s i xs of (None, w) \<Rightarrow> w = i + length xs \<and> (\<forall>b \<in> set xs. \<not> set_match tag s (blks ! b))
     | (Some b, w) \<Rightarrow> i \<le> w \<and> w < i + length xs \<and> xs ! (w - i) = b \<and> set_match tag s (blks ! b)" for i
  proof (induction xs arbitrary: i)
    case (Cons x xs)
    show ?case using Cons.IH [of "Suc i"] by (auto simp: Suc_diff_Suc nth_Cons' split: prod.splits option.splits)
  qed simp
  from this [of 0] show ?thesis by (auto simp: findBlk_way_def split: prod.splits option.splits)
qed

subsection \<open>Addresses\<close>

definition geometry_ok :: "Tags \<Rightarrow> bool" where
  "geometry_ok t \<longleftrightarrow> (\<exists>n. tagShift t = setShift t + n \<and> tagShift t < 64 \<and> numSets t = 2 ^ n \<and> setMask t = mask n \<and> blkMask t = mask (setShift t))"

lemma mask_minus_1: "(2 ^ n :: 'a::len word) - 1 = mask n"
  by (simp add: mask_eq_exp_minus_1)

lemma unat_of_nat_small: "n < 2 ^ LENGTH('a) \<Longrightarrow> unat (of_nat n :: 'a::len word) = n"
  by (simp add: unsigned_of_nat take_bit_nat_eq_self)

lemma log2_exp:
  assumes "k < 64"
  shows "floorLog2 (2 ^ k :: 64 word) = Inr k"
proof -
  have "(2 :: nat) ^ k < 2 ^ LENGTH(64)" using assms by (intro power_strict_increasing) simp_all
  from unat_of_nat_small [OF this] have u: "unat (2 ^ k :: 64 word) = 2 ^ k" by simp
  then have "(2 :: 64 word) ^ k \<noteq> 0" by (metis power_not_zero unat_eq_zero zero_neq_numeral)
  from floorLog2_spec [OF this] obtain l where l: "floorLog2 (2 ^ k :: 64 word) = Inr l" "2 ^ l \<le> (2 :: nat) ^ k" "(2 :: nat) ^ k < 2 ^ (l + 1)"
    unfolding u by blast
  then have "l = k" by (metis Suc_eq_plus1 less_Suc_eq_le one_less_numeral_iff power_increasing_iff power_strict_increasing_iff semiring_norm(76) le_antisym)
  then show ?thesis using l(1) by simp
qed

lemma extractSet_less: "geometry_ok t \<Longrightarrow> extractSet t a < numSets t"
  by (auto simp: geometry_ok_def extractSet_def take_bit_eq_mask [symmetric] unsigned_take_bit_eq take_bit_nat_less_exp)

lemma regenerate_extract:
  assumes "geometry_ok t"
  shows "regenerateBlkAddr t (extractTag t a) (extractSet t a) = blkAlign t a"
proof (rule bit_word_eqI)
  fix i :: nat assume i: "i < LENGTH(64)"
  obtain n where n: "tagShift t = setShift t + n" "setShift t + n < 64" "setMask t = mask n" "blkMask t = mask (setShift t)"
    using assms by (auto simp: geometry_ok_def)
  show "bit (regenerateBlkAddr t (extractTag t a) (extractSet t a)) i = bit (blkAlign t a) i"
    using i n by (cases "setShift t + n \<le> i") (auto simp: regenerateBlkAddr_def extractTag_def extractSet_def blkAlign_def bit_simps)
qed

lemma extract_regenerate:
  assumes "geometry_ok t" "s < numSets t" "unat tag < 2 ^ (64 - tagShift t)"
  shows "extractTag t (regenerateBlkAddr t tag s) = tag" "extractSet t (regenerateBlkAddr t tag s) = s"
proof -
  obtain n where n: "tagShift t = setShift t + n" "setShift t + n < 64" "setMask t = mask n" "blkMask t = mask (setShift t)" "s < 2 ^ n"
    using assms by (auto simp: geometry_ok_def)
  have s: "\<not> bit s i" if "n \<le> i" for i using n(5) that by (metis bit_take_bit_iff not_le take_bit_nat_eq_self)
  have s': "i < n" "setShift t + i < 64" if "bit s i" for i using s [of i] that n(2) by linarith+
  have tg: "setShift t + n + i < 64" if "bit tag i" for i
  proof -
    have "take_bit (64 - tagShift t) tag = tag"
      using assms(3) by (metis take_bit_nat_eq_self unsigned_take_bit_eq word_unat_eq_iff)
    then have "i < 64 - tagShift t" using that by (metis bit_take_bit_iff)
    then show ?thesis using n(1) by simp
  qed
  show "extractTag t (regenerateBlkAddr t tag s) = tag"
    by (rule bit_word_eqI) (use n s tg in \<open>auto simp: regenerateBlkAddr_def extractTag_def bit_simps\<close>)
  have "drop_bit (setShift t) (regenerateBlkAddr t tag s) AND setMask t = (of_nat s :: addr)"
    by (rule bit_word_eqI) (use n s' in \<open>auto simp: regenerateBlkAddr_def bit_simps\<close>)
  moreover have "(2 :: nat) ^ n \<le> 2 ^ 64" using n(2) by (intro power_increasing) simp_all
  then have "unat (of_nat s :: addr) = s" using n(5) by (intro unat_of_nat_small) simp
  ultimately show "extractSet t (regenerateBlkAddr t tag s) = s" by (simp add: extractSet_def)
qed

subsection \<open>The invariant of the tag store\<close>

definition line :: "CacheBlk \<Rightarrow> addr \<times> bool" where
  "line b = (blk_tag b, blk_isSecure b)"

definition lines :: "CacheBlk list \<Rightarrow> nat list \<Rightarrow> (addr \<times> bool) list" where
  "lines blks xs = map (\<lambda>b. line (blks ! b)) (filter (\<lambda>b. isValid (blks ! b)) xs)"

definition set_ok :: "CacheBlk list \<Rightarrow> nat list \<Rightarrow> bool" where
  "set_ok blks xs \<longleftrightarrow> distinct xs \<and> distinct (lines blks xs) \<and> sorted_wrt (\<lambda>a b. isValid (blks ! b) \<longrightarrow> isValid (blks ! a)) xs"

definition blk_ok :: "nat \<Rightarrow> CacheBlk \<Rightarrow> bool" where
  "blk_ok maxMasters b \<longleftrightarrow> (if isValid b then isTouched b \<and> srcMasterId b < maxMasters else blk_status b = 0 \<and> \<not> isTouched b)"

definition store_ok :: "Tags \<Rightarrow> bool" where
  "store_ok t \<longleftrightarrow> geometry_ok t \<and> 0 < tags_assoc t \<and> length (tag_sets t) = numSets t \<and> length (tag_blks t) = numSets t * tags_assoc t \<and>
     (\<forall>s < numSets t. set (tag_sets t ! s) = {s * tags_assoc t..<s * tags_assoc t + tags_assoc t} \<and> set_ok (tag_blks t) (tag_sets t ! s)) \<and>
     (\<forall>i < numSets t * tags_assoc t. blk_set (tag_blks t ! i) = int (i div tags_assoc t) \<and> blk_way (tag_blks t ! i) = int (i mod tags_assoc t))"

definition tags_ok :: "nat \<Rightarrow> Tags \<Rightarrow> bool" where
  "tags_ok maxMasters t \<longleftrightarrow> store_ok t \<and> (\<forall>b \<in> set (tag_blks t). blk_ok maxMasters b) \<and>
     tagsInUse t = int (length (filter isValid (tag_blks t))) \<and>
     (\<forall>m. occupancies t m = int (length (filter (\<lambda>b. isValid b \<and> srcMasterId b = m) (tag_blks t))))"

text \<open>The operations leave the geometry as it is.\<close>

definition same_geometry :: "Tags \<Rightarrow> Tags \<Rightarrow> bool" where
  "same_geometry t t' \<longleftrightarrow> tags_assoc t' = tags_assoc t \<and> allocAssoc t' = allocAssoc t \<and> numSets t' = numSets t \<and> setShift t' = setShift t \<and>
     tagShift t' = tagShift t \<and> setMask t' = setMask t \<and> blkMask t' = blkMask t"

lemma length_filter_update:
  assumes "i < length xs"
  shows "int (length (filter P (xs[i := y]))) = int (length (filter P xs)) - of_bool (P (xs ! i)) + of_bool (P y)"
proof -
  have "length (filter P (take i xs @ xs ! i # drop (Suc i) xs)) = length (filter P xs)" using id_take_nth_drop [OF assms] by simp
  then show ?thesis using assms by (auto simp: upd_conv_take_nth_drop)
qed

lemma set_blocks:
  assumes "store_ok t" "s < numSets t" "b \<in> set (tag_sets t ! s)"
  shows "b < length (tag_blks t)" "b div tags_assoc t = s" "blk_set (tag_blks t ! b) = int s"
proof -
  have b: "s * tags_assoc t \<le> b" "b < s * tags_assoc t + tags_assoc t" "0 < tags_assoc t" using assms by (auto simp: store_ok_def)
  have "b < Suc s * tags_assoc t" using b by simp
  also have "\<dots> \<le> numSets t * tags_assoc t" using assms(2) by (intro mult_right_mono) simp_all
  finally show l: "b < length (tag_blks t)" using assms(1) by (simp add: store_ok_def)
  show d: "b div tags_assoc t = s" using b by (intro div_nat_eqI) (simp_all add: mult.commute)
  show "blk_set (tag_blks t ! b) = int s" using assms(1) l d by (auto simp: store_ok_def)
qed

lemma lines_other: "b \<notin> set xs \<Longrightarrow> lines (blks[b := y]) xs = lines blks xs"
proof -
  assume "b \<notin> set xs"
  then have "\<forall>c \<in> set xs. blks[b := y] ! c = blks ! c" by (metis nth_list_update_neq)
  then show ?thesis by (auto simp: lines_def cong: filter_cong)
qed

lemma set_ok_other:
  assumes "b \<notin> set xs" "set_ok blks xs"
  shows "set_ok (blks[b := y]) xs"
proof -
  have "(blks[b := y]) ! c = blks ! c" if "c \<in> set xs" for c using that assms(1) by (metis nth_list_update_neq)
  then have "sorted_wrt (\<lambda>a b'. isValid (blks[b := y] ! b') \<longrightarrow> isValid (blks[b := y] ! a)) xs"
    using assms(2) sorted_wrt_mono_rel [of xs "\<lambda>a b. isValid (blks ! b) \<longrightarrow> isValid (blks ! a)"] by (simp add: set_ok_def)
  then show ?thesis using assms by (simp add: set_ok_def lines_other)
qed

lemma store_ok_upd:
  assumes "store_ok t" "s < numSets t" "b \<in> set (tag_sets t ! s)" "tag_blks t' = (tag_blks t)[b := y]" "tag_sets t' = (tag_sets t)[s := ys]"
    "same_geometry t t'" "blk_set y = blk_set (tag_blks t ! b)" "blk_way y = blk_way (tag_blks t ! b)"
    "set ys = set (tag_sets t ! s)" "set_ok (tag_blks t') ys"
  shows "store_ok t'" "lines (tag_blks t') (tag_sets t' ! r) = (if r = s then lines (tag_blks t') ys else lines (tag_blks t) (tag_sets t ! r)) \<or> r \<ge> numSets t"
proof -
  have len: "length (tag_sets t) = numSets t" using assms(1) by (simp add: store_ok_def)
  have other: "b \<notin> set (tag_sets t ! r)" if "r < numSets t" "r \<noteq> s" for r
    using set_blocks(2) [OF assms(1,2,3)] set_blocks(2) [OF assms(1) that(1)] that(2) by metis
  show "store_ok t'"
    using assms len set_blocks(1) [OF assms(1-3)] other set_ok_other
    by (auto simp: store_ok_def same_geometry_def geometry_ok_def nth_list_update)
  show "lines (tag_blks t') (tag_sets t' ! r) = (if r = s then lines (tag_blks t') ys else lines (tag_blks t) (tag_sets t ! r)) \<or> r \<ge> numSets t"
    using other [of r] lines_other [of b "tag_sets t ! r"] assms(2,4,5) len by (cases "r < numSets t") auto
qed

subsection \<open>The specification of the policy\<close>

text \<open>The calls the cache makes: an access, a fill after a miss (with the status bits of a filled block), and an invalidation.\<close>

datatype tag_op = Touch addr bool | Fill Packet | Drop addr bool

definition fill_status :: "bool \<Rightarrow> 32 word \<Rightarrow> 32 word" where
  "fill_status is_secure s = s OR (if is_secure then BlkSecure else 0) OR BlkValid OR BlkReadable"

fun tag_step :: "nat \<Rightarrow> nat \<Rightarrow> tick \<Rightarrow> tag_op \<Rightarrow> Tags \<Rightarrow> (bool \<times> Tags) result" where
  "tag_step period maxMasters now (Touch a s) t =
     rbind (lru_accessBlock period now a s t) (\<lambda>(blk, lat, t1). Inr (blk \<noteq> None, t1))"
| "tag_step period maxMasters now (Fill pkt) t =
     (case findBlock t (pkt_addr pkt) (pkt_isSecure pkt) of
        Some b \<Rightarrow> Inr (True, t)
      | None \<Rightarrow>
          (case lru_findVictim (pkt_addr pkt) t of
             None \<Rightarrow> Inr (False, t)
           | Some b \<Rightarrow> rbind (lru_insertBlock maxMasters now pkt b t) (\<lambda>t1.
               Inr (False, upd_blk b (\<lambda>x. x\<lparr>blk_status := fill_status (pkt_isSecure pkt) (blk_status x)\<rparr>) t1))))"
| "tag_step period maxMasters now (Drop a s) t =
     (case findBlock t a s of
        None \<Rightarrow> Inr (False, t)
      | Some b \<Rightarrow> rbind (lru_invalidate maxMasters now b t) (\<lambda>t1. Inr (True, upd_blk b blk_invalidate t1)))"

text \<open>The specification keeps for every set the lines it holds, most recently used first.\<close>

type_synonym lru_state = "nat \<Rightarrow> (addr \<times> bool) list"

fun lru_spec :: "Tags \<Rightarrow> tag_op \<Rightarrow> lru_state \<Rightarrow> bool \<times> lru_state" where
  "lru_spec g (Touch a s) c =
     (let k = (extractTag g a, s); r = extractSet g a in
      if k \<in> set (c r) then (True, c(r := k # removeAll k (c r))) else (False, c))"
| "lru_spec g (Fill pkt) c =
     (let k = (extractTag g (pkt_addr pkt), pkt_isSecure pkt); r = extractSet g (pkt_addr pkt) in
      if k \<in> set (c r) then (True, c) else (False, c(r := take (tags_assoc g) (k # c r))))"
| "lru_spec g (Drop a s) c =
     (let k = (extractTag g a, s); r = extractSet g a in
      if k \<in> set (c r) then (True, c(r := removeAll k (c r))) else (False, c))"

definition op_ok :: "nat \<Rightarrow> tag_op \<Rightarrow> bool" where
  "op_ok maxMasters op \<longleftrightarrow> (case op of Fill pkt \<Rightarrow> isSet (pkt_flags pkt) VALID_ADDR \<and> req_masterId (pkt_req pkt) < maxMasters | _ \<Rightarrow> True)"

definition lines_of :: "Tags \<Rightarrow> lru_state" where
  "lines_of t = (\<lambda>r. if r < numSets t then lines (tag_blks t) (tag_sets t ! r) else [])"

lemma same_extract: "same_geometry t t' \<Longrightarrow> extractSet t' a = extractSet t a" "same_geometry t t' \<Longrightarrow> extractTag t' a = extractTag t a"
  by (simp_all add: same_geometry_def extractSet_def extractTag_def)

lemma set_match_line: "set_match tag s b \<longleftrightarrow> isValid b \<and> line b = (tag, s)"
  by (auto simp: set_match_def line_def)

lemma findBlock_None:
  assumes "store_ok t"
  shows "findBlock t a s = None \<longleftrightarrow> (extractTag t a, s) \<notin> set (lines_of t (extractSet t a))"
proof -
  have "extractSet t a < numSets t" using extractSet_less [of t a] assms by (simp add: store_ok_def)
  then show ?thesis by (auto simp: findBlock_def findBlk_eq find_None_iff set_match_line lines_of_def lines_def image_iff)
qed

lemma findBlock_Some:
  assumes "findBlock t a s = Some b"
  shows "b \<in> set (tag_sets t ! extractSet t a)" "isValid (tag_blks t ! b)" "line (tag_blks t ! b) = (extractTag t a, s)"
  using assms by (auto simp: findBlock_def findBlk_eq find_Some_iff set_match_line)

lemma lines_remove:
  assumes "distinct (lines blks xs)" "b \<in> set xs" "isValid (blks ! b)"
  shows "lines blks (removeAll b xs) = removeAll (line (blks ! b)) (lines blks xs)"
proof -
  have inj: "inj_on (\<lambda>b. line (blks ! b)) (set (filter (\<lambda>b. isValid (blks ! b)) xs))" using assms(1) by (simp add: lines_def distinct_map)
  have "filter (\<lambda>b. isValid (blks ! b)) (removeAll b xs) = removeAll b (filter (\<lambda>b. isValid (blks ! b)) xs)" by (induction xs) auto
  moreover have "insert b (set (filter (\<lambda>b. isValid (blks ! b)) xs)) = set (filter (\<lambda>b. isValid (blks ! b)) xs)" using assms(2,3) by auto
  ultimately show ?thesis
    unfolding lines_def using map_removeAll_inj_on [of "\<lambda>b. line (blks ! b)" b "filter (\<lambda>b. isValid (blks ! b)) xs"] inj by simp
qed

lemma set_ok_front:
  assumes "set_ok blks xs" "b \<in> set xs" "isValid (blks ! b)"
  shows "set_ok blks (b # remove1 b xs)" "lines blks (b # remove1 b xs) = line (blks ! b) # removeAll (line (blks ! b)) (lines blks xs)"
proof -
  have r: "remove1 b xs = removeAll b xs" using assms(1) by (simp add: set_ok_def distinct_remove1_removeAll)
  show l: "lines blks (b # remove1 b xs) = line (blks ! b) # removeAll (line (blks ! b)) (lines blks xs)"
    using assms lines_remove [of blks xs b] by (simp add: r set_ok_def) (simp add: lines_def)
  show "set_ok blks (b # remove1 b xs)"
    unfolding set_ok_def l using assms by (auto simp: r set_ok_def removeAll_filter_not_eq sorted_wrt_filter)
qed

lemma set_ok_back:
  assumes "set_ok blks xs" "b \<in> set xs" "isValid (blks ! b)" "b < length blks" "\<not> isValid y"
  shows "set_ok (blks[b := y]) (remove1 b xs @ [b])" "lines (blks[b := y]) (remove1 b xs @ [b]) = removeAll (line (blks ! b)) (lines blks xs)"
proof -
  have r: "remove1 b xs = removeAll b xs" using assms(1) by (simp add: set_ok_def distinct_remove1_removeAll)
  have "lines (blks[b := y]) (removeAll b xs) = removeAll (line (blks ! b)) (lines blks xs)"
    using assms lines_remove [of blks xs b] lines_other [of b "removeAll b xs"] by (simp add: set_ok_def)
  moreover have "lines (blks[b := y]) (removeAll b xs @ [b]) = lines (blks[b := y]) (removeAll b xs)" using assms(4,5) by (simp add: lines_def)
  ultimately show l: "lines (blks[b := y]) (remove1 b xs @ [b]) = removeAll (line (blks ! b)) (lines blks xs)" by (simp add: r)
  have "set_ok blks (removeAll b xs)"
    using assms lines_remove [of blks xs b] by (auto simp: set_ok_def removeAll_filter_not_eq sorted_wrt_filter)
  then have "set_ok (blks[b := y]) (removeAll b xs)" by (intro set_ok_other) simp_all
  then show "set_ok (blks[b := y]) (remove1 b xs @ [b])"
    using assms(1,4,5) l by (auto simp: r set_ok_def sorted_wrt_append distinct_removeAll)
qed

lemma set_ok_fill:
  assumes "set_ok blks xs" "xs \<noteq> []" "last xs < length blks" "isValid y" "line y \<notin> set (lines blks xs)"
  defines "b \<equiv> last xs"
  shows "set_ok (blks[b := y]) (b # remove1 b xs)" "lines (blks[b := y]) (b # remove1 b xs) = take (length xs) (line y # lines blks xs)"
proof -
  obtain ys where xs: "xs = ys @ [b]" using assms(2) by (metis append_butlast_last_id b_def)
  have d: "b \<notin> set ys" "distinct ys" using assms(1) by (auto simp: xs set_ok_def)
  have ys: "set_ok blks ys" using assms(1) by (auto simp: xs set_ok_def sorted_wrt_append lines_def)
  have r: "remove1 b xs = ys" using d by (simp add: xs remove1_append)
  have l: "lines (blks[b := y]) (b # ys) = line y # lines blks ys"
    using assms(3,4) lines_other [OF d(1), of blks y] by (simp add: b_def) (simp add: lines_def)
  have "take (length ys) (lines blks xs) = lines blks ys"
  proof (cases "isValid (blks ! b)")
    case True
    then have "\<forall>c \<in> set ys. isValid (blks ! c)" using assms(1) by (auto simp: xs set_ok_def sorted_wrt_append)
    then show ?thesis by (simp add: lines_def xs)
  next
    case False
    then show ?thesis by (simp add: lines_def xs le_trans [OF length_filter_le])
  qed
  then show "lines (blks[b := y]) (b # remove1 b xs) = take (length xs) (line y # lines blks xs)" unfolding r l by (simp add: xs)
  have "set (lines blks ys) \<subseteq> set (lines blks xs)" by (auto simp: lines_def xs)
  then have "distinct (lines (blks[b := y]) (b # ys))" using l ys assms(5) by (auto simp: set_ok_def)
  moreover have "set_ok (blks[b := y]) ys" by (rule set_ok_other [OF d(1) ys])
  moreover have "isValid (blks[b := y] ! b)" using assms(3,4) by (simp add: b_def)
  ultimately show "set_ok (blks[b := y]) (b # remove1 b xs)" using d unfolding r by (simp add: set_ok_def)
qed

lemma tags_ok_upd:
  assumes "tags_ok mm t" "s < numSets t" "b \<in> set (tag_sets t ! s)" "tag_blks t' = (tag_blks t)[b := y]" "tag_sets t' = (tag_sets t)[s := ys]"
    "same_geometry t t'" "blk_set y = blk_set (tag_blks t ! b)" "blk_way y = blk_way (tag_blks t ! b)"
    "set ys = set (tag_sets t ! s)" "set_ok (tag_blks t') ys" "blk_ok mm y"
    "tagsInUse t' = tagsInUse t - of_bool (isValid (tag_blks t ! b)) + of_bool (isValid y)"
    "\<And>m. occupancies t' m = occupancies t m - of_bool (isValid (tag_blks t ! b) \<and> srcMasterId (tag_blks t ! b) = m)
       + of_bool (isValid y \<and> srcMasterId y = m)"
  shows "tags_ok mm t'" "lines_of t' = (lines_of t)(s := lines (tag_blks t') ys)"
proof -
  have st: "store_ok t" using assms(1) by (simp add: tags_ok_def)
  note u = store_ok_upd [OF st assms(2-10)]
  have b: "b < length (tag_blks t)" using set_blocks(1) [OF st assms(2,3)] .
  have "\<forall>x \<in> set (tag_blks t'). blk_ok mm x" using assms(1,4,11) set_update_subset_insert [of "tag_blks t" b y] by (auto simp: tags_ok_def)
  then show "tags_ok mm t'"
    using u(1) assms(1,12,13) length_filter_update [OF b, of isValid y] length_filter_update [OF b, of "\<lambda>b. isValid b \<and> srcMasterId b = m" y for m]
    by (simp add: tags_ok_def assms(4))
  show "lines_of t' = (lines_of t)(s := lines (tag_blks t') ys)"
  proof
    fix r
    show "lines_of t' r = ((lines_of t)(s := lines (tag_blks t') ys)) r"
      using u(2) [of r] assms(2,6) by (auto simp: lines_of_def same_geometry_def)
  qed
qed

lemma tags_ok_set: "tags_ok mm t \<Longrightarrow> extractSet t a < numSets t" "tags_ok mm t \<Longrightarrow> set_ok (tag_blks t) (tag_sets t ! extractSet t a)"
    "tags_ok mm t \<Longrightarrow> extractSet t a < length (tag_sets t)"
  using extractSet_less [of t a] by (auto simp: tags_ok_def store_ok_def)

lemma tags_ok_same:
  assumes "same_geometry t t'" "tag_blks t' = tag_blks t" "tag_sets t' = tag_sets t" "tagsInUse t' = tagsInUse t" "occupancies t' = occupancies t"
  shows "tags_ok mm t' = tags_ok mm t" "lines_of t' = lines_of t"
proof -
  show "tags_ok mm t' = tags_ok mm t" using assms by (simp add: tags_ok_def store_ok_def geometry_ok_def same_geometry_def)
  show "lines_of t' = lines_of t" by (rule ext) (use assms in \<open>auto simp: same_geometry_def lines_of_def\<close>)
qed

lemma touch_ok:
  assumes "tags_ok mm t" "lru_spec t (Touch a s) (lines_of t) = (hit, c)"
  shows "\<exists>t'. tag_step period mm now (Touch a s) t = Inr (hit, t') \<and> tags_ok mm t' \<and> same_geometry t t' \<and> lines_of t' = c"
proof -
  have st: "store_ok t" using assms(1) by (simp add: tags_ok_def)
  have fb: "findBlk (tag_blks t) (extractTag t a) s (tag_sets t ! extractSet t a) = findBlock t a s" by (simp add: findBlock_def)
  let ?r = "extractSet t a" and ?k = "(extractTag t a, s)"
  define t0 where "t0 = t\<lparr>tagAccesses := tagAccesses t + allocAssoc t,
    dataAccesses := dataAccesses t + (if sequentialAccess t then (if findBlock t a s \<noteq> None then 1 else 0) else allocAssoc t)\<rparr>"
  show ?thesis
  proof (cases "findBlock t a s")
    case None
    have "tag_step period mm now (Touch a s) t = Inr (False, t0)"
      using None by (simp add: lru_accessBlock_def accessBlock_def fb t0_def Let_def)
    moreover have g: "same_geometry t t0" by (simp add: t0_def same_geometry_def)
    moreover have "tags_ok mm t0" "lines_of t0 = lines_of t" using tags_ok_same [OF g] assms(1) by (simp_all add: t0_def)
    ultimately show ?thesis using assms(2) None findBlock_None [OF st, of a s] by (auto simp: Let_def)
  next
    case (Some b)
    note f = findBlock_Some [OF Some]
    define y where "y = (tag_blks t ! b)\<lparr>refCount := refCount (tag_blks t ! b) + 1\<rparr>"
    define t1 where "t1 = upd_blk b (\<lambda>x. x\<lparr>refCount := refCount x + 1\<rparr>) t0"
    define t2 where "t2 = t1\<lparr>tag_sets := (tag_sets t)[?r := b # remove1 b (tag_sets t ! ?r)]\<rparr>"
    have b: "b < length (tag_blks t)" "blk_set (tag_blks t ! b) = int ?r" using set_blocks [OF st tags_ok_set(1) [OF assms(1)] f(1)] by simp_all
    have same: "isValid y = isValid (tag_blks t ! b)" "line y = line (tag_blks t ! b)" "srcMasterId y = srcMasterId (tag_blks t ! b)"
      by (simp_all add: y_def isValid_def line_def blk_isSecure_def)
    have so: "set_ok (tag_blks t) (tag_sets t ! ?r)" using tags_ok_set(2) [OF assms(1)] .
    have lin: "lines ((tag_blks t)[b := y]) xs = lines (tag_blks t) xs" for xs
      using b(1) same by (auto simp: lines_def nth_list_update intro!: filter_cong map_cong)
    have srt: "isValid ((tag_blks t)[b := y] ! i) = isValid (tag_blks t ! i)" for i using b(1) same by (cases "i = b") simp_all
    have ok: "set_ok ((tag_blks t)[b := y]) xs = set_ok (tag_blks t) xs" for xs by (simp add: set_ok_def lin srt)
    have "tag_step period mm now (Touch a s) t = Inr (True, t2)"
      using Some moveToHead_eq [OF f(1)] so b tags_ok_set(3) [OF assms(1), of a]
      by (simp add: lru_accessBlock_def accessBlock_def fb Let_def t0_def [symmetric] t1_def [symmetric] upd_set_def t2_def set_ok_def)
        (simp add: t1_def t0_def upd_blk_def)
    moreover have t2: "tag_blks t2 = (tag_blks t)[b := y]" "tag_sets t2 = (tag_sets t)[?r := b # remove1 b (tag_sets t ! ?r)]" "same_geometry t t2"
      and cnt: "tagsInUse t2 = tagsInUse t" "occupancies t2 = occupancies t"
      by (simp_all add: t2_def t1_def t0_def upd_blk_def y_def same_geometry_def)
    have y: "blk_set y = blk_set (tag_blks t ! b)" "blk_way y = blk_way (tag_blks t ! b)" "blk_ok mm y"
      using assms(1) b(1) by (auto simp: tags_ok_def blk_ok_def y_def isValid_def)
    have ys: "set (b # remove1 b (tag_sets t ! ?r)) = set (tag_sets t ! ?r)" using so f(1) by (auto simp: set_ok_def)
    have ys2: "set_ok (tag_blks t2) (b # remove1 b (tag_sets t ! ?r))" unfolding t2(1) ok by (rule set_ok_front(1) [OF so f(1,2)])
    have "tags_ok mm t2" "lines_of t2 = (lines_of t)(?r := lines (tag_blks t2) (b # remove1 b (tag_sets t ! ?r)))"
      by (rule tags_ok_upd [OF assms(1) tags_ok_set(1) [OF assms(1)] f(1) t2 y(1,2) ys ys2 y(3)]; simp add: cnt same)+
    moreover have "lines (tag_blks t2) (b # remove1 b (tag_sets t ! ?r)) = ?k # removeAll ?k (lines_of t ?r)"
      using set_ok_front(2) [OF so f(1,2)] f(3) tags_ok_set(1) [OF assms(1)] by (simp add: t2(1) lin lines_of_def)
    moreover have "?k \<in> set (lines_of t ?r)" using Some findBlock_None [OF st, of a s] by auto
    ultimately show ?thesis using assms(2) t2(3) by (auto simp: Let_def)
  qed
qed

lemma drop_ok:
  assumes "tags_ok mm t" "lru_spec t (Drop a s) (lines_of t) = (hit, c)"
  shows "\<exists>t'. tag_step period mm now (Drop a s) t = Inr (hit, t') \<and> tags_ok mm t' \<and> same_geometry t t' \<and> lines_of t' = c"
proof -
  have st: "store_ok t" using assms(1) by (simp add: tags_ok_def)
  let ?r = "extractSet t a" and ?k = "(extractTag t a, s)"
  show ?thesis
  proof (cases "findBlock t a s")
    case None
    then show ?thesis using assms findBlock_None [OF st, of a s] by (auto simp: Let_def same_geometry_def)
  next
    case (Some b)
    note f = findBlock_Some [OF Some]
    let ?x = "tag_blks t ! b" and ?xs = "tag_sets t ! ?r"
    have b: "b < length (tag_blks t)" "blk_set ?x = int ?r" using set_blocks [OF st tags_ok_set(1) [OF assms(1)] f(1)] by simp_all
    have so: "set_ok (tag_blks t) ?xs" using tags_ok_set(2) [OF assms(1)] .
    have src: "srcMasterId ?x < mm" using assms(1) b(1) f(2) by (auto simp: tags_ok_def blk_ok_def)
    define y where "y = blk_invalidate (?x\<lparr>srcMasterId := invldMasterId, blk_task_id := Unknown_TaskId, tickInserted := now\<rparr>)"
    define t2 where "t2 = t\<lparr>tagsInUse := tagsInUse t - 1, occupancies := (occupancies t)(srcMasterId ?x := occupancies t (srcMasterId ?x) - 1),
      tag_blks := (tag_blks t)[b := y], tag_sets := (tag_sets t)[?r := remove1 b ?xs @ [b]]\<rparr>"
    have "tag_step period mm now (Drop a s) t = Inr (True, t2)"
      using Some f(2) src b moveToTail_eq [OF f(1)] so tags_ok_set(3) [OF assms(1), of a]
      by (simp add: lru_invalidate_def tags_invalidate_def upd_blk_def upd_set_def set_ok_def t2_def y_def)
    moreover have t2: "tag_blks t2 = (tag_blks t)[b := y]" "tag_sets t2 = (tag_sets t)[?r := remove1 b ?xs @ [b]]" "same_geometry t t2"
      by (simp_all add: t2_def same_geometry_def)
    have y: "blk_set y = blk_set ?x" "blk_way y = blk_way ?x" "\<not> isValid y" "blk_ok mm y"
      by (simp_all add: y_def blk_invalidate_def isValid_def blk_ok_def)
    have ys: "set (remove1 b ?xs @ [b]) = set ?xs" using so f(1) by (auto simp: set_ok_def)
    have ys2: "set_ok (tag_blks t2) (remove1 b ?xs @ [b])" unfolding t2(1) by (rule set_ok_back(1) [OF so f(1,2) b(1) y(3)])
    have "tags_ok mm t2" "lines_of t2 = (lines_of t)(?r := lines (tag_blks t2) (remove1 b ?xs @ [b]))"
      by (rule tags_ok_upd [OF assms(1) tags_ok_set(1) [OF assms(1)] f(1) t2 y(1,2) ys ys2 y(4)]; simp add: t2_def f(2) y(3))+
    moreover have "lines (tag_blks t2) (remove1 b ?xs @ [b]) = removeAll ?k (lines_of t ?r)"
      using set_ok_back(2) [OF so f(1,2) b(1) y(3)] f(3) tags_ok_set(1) [OF assms(1)] by (simp add: t2(1) lines_of_def)
    moreover have "?k \<in> set (lines_of t ?r)" using Some findBlock_None [OF st, of a s] by auto
    ultimately show ?thesis using assms(2) t2(3) by (auto simp: Let_def)
  qed
qed

lemma touch_blk_fields:
  "tag_blks (touch_blk now b t) = (tag_blks t)[b := (tag_blks t ! b)\<lparr>isTouched := True\<rparr>]" "tag_sets (touch_blk now b t) = tag_sets t"
  "same_geometry t (touch_blk now b t)" "occupancies (touch_blk now b t) = occupancies t"
  "tagsInUse (touch_blk now b t) = tagsInUse t + of_bool (\<not> isTouched (tag_blks t ! b))"
proof -
  show "tag_blks (touch_blk now b t) = (tag_blks t)[b := (tag_blks t ! b)\<lparr>isTouched := True\<rparr>]"
  proof (cases "isTouched (tag_blks t ! b)")
    case True
    then have "(tag_blks t ! b)\<lparr>isTouched := True\<rparr> = tag_blks t ! b" by simp
    then show ?thesis using True unfolding touch_blk_def by (simp only: if_True list_update_id)
  qed (simp add: touch_blk_def Let_def upd_blk_def)
qed (simp_all add: touch_blk_def Let_def upd_blk_def same_geometry_def)

lemma evict_blk_ok:
  assumes "b < length (tag_blks t)" "if isValid (tag_blks t ! b) then srcMasterId (tag_blks t ! b) < mm else blk_status (tag_blks t ! b) = 0"
  defines "x \<equiv> tag_blks t ! b"
  shows "\<exists>t1 z. evict_blk mm b t = Inr t1 \<and> tag_blks t1 = (tag_blks t)[b := z] \<and> tag_sets t1 = tag_sets t \<and> same_geometry t t1 \<and>
    blk_status z = 0 \<and> blk_set z = blk_set x \<and> blk_way z = blk_way x \<and> tagsInUse t1 = tagsInUse t \<and>
    (\<forall>m. occupancies t1 m = occupancies t m - of_bool (isValid x \<and> srcMasterId x = m))"
proof (cases "isValid x")
  case True
  define z where "z = blk_invalidate (x\<lparr>refCount := 0\<rparr>)"
  define t1 where "t1 = t\<lparr>replacements := replacements t + 1, totalRefs := totalRefs t + refCount x, sampledRefs := sampledRefs t + 1,
    occupancies := (occupancies t)(srcMasterId x := occupancies t (srcMasterId x) - 1), tag_blks := (tag_blks t)[b := z]\<rparr>"
  have "evict_blk mm b t = Inr t1" using True assms by (simp add: evict_blk_def Let_def upd_blk_def t1_def z_def)
  moreover have "blk_status z = 0" "blk_set z = blk_set x" "blk_way z = blk_way x" by (simp_all add: z_def blk_invalidate_def)
  ultimately show ?thesis using True by (intro exI [of _ t1] exI [of _ z]) (simp add: t1_def same_geometry_def)
next
  case False
  then show ?thesis
    using assms by (intro exI [of _ t] exI [of _ x]) (simp add: evict_blk_def same_geometry_def)
qed

lemma insertBlock_ok:
  assumes "b < length (tag_blks t)" "blk_ok mm (tag_blks t ! b)" "isSet (pkt_flags pkt) VALID_ADDR" "req_masterId (pkt_req pkt) < mm"
  defines "x \<equiv> tag_blks t ! b"
  shows "\<exists>t1 y. insertBlock mm now pkt b t = Inr t1 \<and> tag_blks t1 = (tag_blks t)[b := y] \<and> tag_sets t1 = tag_sets t \<and> same_geometry t t1 \<and>
    blk_status y = 0 \<and> isTouched y \<and> blk_tag y = extractTag t (pkt_addr pkt) \<and> srcMasterId y = req_masterId (pkt_req pkt) \<and>
    blk_set y = blk_set x \<and> blk_way y = blk_way x \<and> tagsInUse t1 = tagsInUse t + of_bool (\<not> isValid x) \<and>
    (\<forall>m. occupancies t1 m = occupancies t m - of_bool (isValid x \<and> srcMasterId x = m) + of_bool (req_masterId (pkt_req pkt) = m))"
proof -
  define t0 where "t0 = touch_blk now b t"
  note f = touch_blk_fields [where now = now and b = b and t = t, folded t0_def]
  have b0: "b < length (tag_blks t0)" and x: "tag_blks t0 ! b = x\<lparr>isTouched := True\<rparr>" using assms(1) f(1) by (simp_all add: x_def)
  have v: "isValid (x\<lparr>isTouched := True\<rparr>) = isValid x" by (simp add: isValid_def)
  have pre: "if isValid (tag_blks t0 ! b) then srcMasterId (tag_blks t0 ! b) < mm else blk_status (tag_blks t0 ! b) = 0"
    using assms(2) unfolding x v by (simp add: blk_ok_def x_def split: if_splits)
  obtain t2 z where e: "evict_blk mm b t0 = Inr t2" "tag_blks t2 = (tag_blks t0)[b := z]" "tag_sets t2 = tag_sets t0" "same_geometry t0 t2"
      "blk_status z = 0" "blk_set z = blk_set x" "blk_way z = blk_way x" "tagsInUse t2 = tagsInUse t0"
      "\<forall>m. occupancies t2 m = occupancies t0 m - of_bool (isValid x \<and> srcMasterId x = m)"
    using evict_blk_ok [OF b0 pre] unfolding x v by auto
  define y where "y = z\<lparr>isTouched := True, blk_tag := extractTag t2 (pkt_addr pkt), srcMasterId := req_masterId (pkt_req pkt),
                           blk_task_id := req_taskId (pkt_req pkt), tickInserted := now\<rparr>"
  define t1 where "t1 = t2\<lparr>occupancies := (occupancies t2)(req_masterId (pkt_req pkt) := occupancies t2 (req_masterId (pkt_req pkt)) + 1),
                tagAccesses := tagAccesses t2 + 1, dataAccesses := dataAccesses t2 + 1, tag_blks := (tag_blks t)[b := y]\<rparr>"
  have "insertBlock mm now pkt b t = Inr t1"
    using assms(1,3,4) e(1,2) f(1) by (simp add: insertBlock_def getAddr_def Let_def t0_def [symmetric] t1_def y_def upd_blk_def)
  moreover have g: "same_geometry t t1" using f(3) e(4) by (simp add: same_geometry_def t1_def)
  moreover have "extractTag t2 (pkt_addr pkt) = extractTag t (pkt_addr pkt)" using f(3) e(4) by (simp add: same_geometry_def extractTag_def)
  moreover have "isTouched x \<longleftrightarrow> isValid x" using assms(2) by (simp add: blk_ok_def x_def split: if_splits)
  ultimately show ?thesis
    using e f by (intro exI [of _ t1] exI [of _ y]) (simp add: t1_def y_def x_def)
qed

lemma fill_status_ok: "isValid (x\<lparr>blk_status := fill_status s 0\<rparr>)" "blk_isSecure (x\<lparr>blk_status := fill_status s 0\<rparr>) = s"
  by (simp_all add: isValid_def blk_isSecure_def fill_status_def BlkValid_def BlkSecure_def BlkReadable_def)

lemma find_Some_split: "find P xs = Some b \<Longrightarrow> \<exists>us vs. xs = us @ b # vs \<and> P b \<and> (\<forall>c \<in> set us. \<not> P c)"
proof (induction xs)
  case (Cons x xs)
  show ?case
  proof (cases "P x")
    case True
    then show ?thesis using Cons.prems by (intro exI [of _ "[]"] exI [of _ xs]) simp
  next
    case False
    then obtain us vs where "xs = us @ b # vs" "P b" "\<forall>c \<in> set us. \<not> P c" using Cons by auto
    then show ?thesis using False by (intro exI [of _ "x # us"] exI [of _ vs]) simp
  qed
qed simp

text \<open>The victim is the least recently used block of an allocatable way, and invalid if some allocatable block is.\<close>

lemma lru_findVictim_spec:
  assumes "tags_ok mm t" "lru_findVictim a t = Some b"
  shows "\<exists>as bs. tag_sets t ! extractSet t a = as @ b # bs \<and> blk_way (tag_blks t ! b) < int (allocAssoc t) \<and>
     (\<forall>c \<in> set bs. \<not> blk_way (tag_blks t ! c) < int (allocAssoc t)) \<and>
     (isValid (tag_blks t ! b) \<longrightarrow> (\<forall>c \<in> set as. isValid (tag_blks t ! c)))"
proof -
  let ?xs = "tag_sets t ! extractSet t a" and ?P = "\<lambda>b. blk_way (tag_blks t ! b) < int (allocAssoc t)"
  have v: "find ?P (rev ?xs) = Some b" using assms(2) by (simp add: lru_findVictim_def)
  obtain us vs where u: "rev ?xs = us @ b # vs" "?P b" "\<forall>c \<in> set us. \<not> ?P c"
    using find_Some_split [OF v] by blast
  from u(1) have "rev (rev ?xs) = rev (us @ b # vs)" by (rule arg_cong)
  then have x: "?xs = rev vs @ b # rev us" by simp
  moreover have "\<forall>c \<in> set (rev vs). isValid (tag_blks t ! b) \<longrightarrow> isValid (tag_blks t ! c)"
    using tags_ok_set(2) [OF assms(1), of a] unfolding x set_ok_def by (simp add: sorted_wrt_append)
  ultimately show ?thesis using u by (intro exI [of _ "rev vs"] exI [of _ "rev us"]) auto
qed

lemma lru_findVictim_last:
  assumes "tags_ok mm t" "tags_assoc t \<le> allocAssoc t"
  shows "tag_sets t ! extractSet t a \<noteq> []" "lru_findVictim a t = Some (last (tag_sets t ! extractSet t a))"
    "length (tag_sets t ! extractSet t a) = tags_assoc t"
proof -
  let ?xs = "tag_sets t ! extractSet t a"
  have st: "store_ok t" using assms(1) by (simp add: tags_ok_def)
  note r = tags_ok_set(1) [OF assms(1), of a]
  have xs: "set ?xs = {extractSet t a * tags_assoc t..<extractSet t a * tags_assoc t + tags_assoc t}" "0 < tags_assoc t" "distinct ?xs"
    using st r by (auto simp: store_ok_def set_ok_def)
  then show ne: "?xs \<noteq> []" by auto
  show "length ?xs = tags_assoc t" using distinct_card [OF xs(3)] xs(1) by simp
  have "last ?xs \<in> set ?xs" using ne by simp
  then have "last ?xs < length (tag_blks t)" using set_blocks(1) [OF st r] by blast
  then have "blk_way (tag_blks t ! last ?xs) = int (last ?xs mod tags_assoc t)" using st by (auto simp: store_ok_def)
  also have "\<dots> < int (allocAssoc t)" using xs(2) assms(2) by (meson mod_less_divisor of_nat_less_iff order_less_le_trans)
  finally show "lru_findVictim a t = Some (last ?xs)"
    using ne by (cases ?xs rule: rev_cases) (auto simp: lru_findVictim_def)
qed

lemma fill_ok:
  assumes "tags_ok mm t" "op_ok mm (Fill pkt)" "allocAssoc t = tags_assoc t" "lru_spec t (Fill pkt) (lines_of t) = (hit, c)"
  shows "\<exists>t'. tag_step period mm now (Fill pkt) t = Inr (hit, t') \<and> tags_ok mm t' \<and> same_geometry t t' \<and> lines_of t' = c"
proof -
  have st: "store_ok t" using assms(1) by (simp add: tags_ok_def)
  let ?a = "pkt_addr pkt" and ?s = "pkt_isSecure pkt"
  let ?r = "extractSet t ?a" and ?k = "(extractTag t ?a, ?s)"
  let ?xs = "tag_sets t ! ?r"
  show ?thesis
  proof (cases "findBlock t ?a ?s")
    case (Some b)
    then show ?thesis using assms findBlock_None [OF st, of ?a ?s] by (auto simp: Let_def same_geometry_def)
  next
    case None
    have new: "?k \<notin> set (lines_of t ?r)" using None findBlock_None [OF st, of ?a ?s] by simp
    have vic: "?xs \<noteq> []" "lru_findVictim ?a t = Some (last ?xs)" "length ?xs = tags_assoc t" using lru_findVictim_last [OF assms(1), of ?a] assms(3) by auto
    define b where "b = last ?xs"
    let ?x = "tag_blks t ! b"
    have f: "b \<in> set ?xs" using vic(1) by (simp add: b_def)
    have b: "b < length (tag_blks t)" "blk_set ?x = int ?r" using set_blocks [OF st tags_ok_set(1) [OF assms(1)] f] by simp_all
    have so: "set_ok (tag_blks t) ?xs" using tags_ok_set(2) [OF assms(1)] .
    have ok: "blk_ok mm ?x" "isSet (pkt_flags pkt) VALID_ADDR" "req_masterId (pkt_req pkt) < mm"
      using assms(1,2) b(1) by (auto simp: tags_ok_def op_ok_def)
    obtain t1 x1 where i: "insertBlock mm now pkt b t = Inr t1" "tag_blks t1 = (tag_blks t)[b := x1]" "tag_sets t1 = tag_sets t" "same_geometry t t1"
        "blk_status x1 = 0" "isTouched x1" "blk_tag x1 = extractTag t ?a" "srcMasterId x1 = req_masterId (pkt_req pkt)"
        "blk_set x1 = blk_set ?x" "blk_way x1 = blk_way ?x" "tagsInUse t1 = tagsInUse t + of_bool (\<not> isValid ?x)"
        "\<forall>m. occupancies t1 m = occupancies t m - of_bool (isValid ?x \<and> srcMasterId ?x = m) + of_bool (req_masterId (pkt_req pkt) = m)"
      using insertBlock_ok [OF b(1) ok] by blast
    define y where "y = x1\<lparr>blk_status := fill_status ?s 0\<rparr>"
    define t2 where "t2 = t1\<lparr>tag_blks := (tag_blks t)[b := y], tag_sets := (tag_sets t)[?r := b # remove1 b ?xs]\<rparr>"
    have "tag_step period mm now (Fill pkt) t = Inr (False, t2)"
      using None vic(2) i(1-3,5) moveToHead_eq [OF f] so b ok(2) tags_ok_set(3) [OF assms(1), of ?a] same_extract(1) [OF i(4)]
      by (simp add: lru_insertBlock_def b_def [symmetric] getAddr_def upd_set_def upd_blk_def set_ok_def t2_def y_def)
    moreover have t2: "tag_blks t2 = (tag_blks t)[b := y]" "tag_sets t2 = (tag_sets t)[?r := b # remove1 b ?xs]" "same_geometry t t2"
      using i(4) by (simp_all add: t2_def same_geometry_def)
    have y: "blk_set y = blk_set ?x" "blk_way y = blk_way ?x" "isValid y" "line y = ?k" "srcMasterId y = req_masterId (pkt_req pkt)" "blk_ok mm y"
      using i(5-10) fill_status_ok [where x = x1 and s = ?s] ok(3) by (simp_all add: y_def line_def blk_ok_def)
    have ys: "set (b # remove1 b ?xs) = set ?xs" using so f by (auto simp: set_ok_def)
    have notin: "line y \<notin> set (lines (tag_blks t) ?xs)" using new y(4) tags_ok_set(1) [OF assms(1), of ?a] by (simp add: lines_of_def)
    note fill = set_ok_fill [OF so vic(1) b(1) [unfolded b_def] y(3) notin, folded b_def]
    have ys2: "set_ok (tag_blks t2) (b # remove1 b ?xs)" unfolding t2(1) by (rule fill(1))
    have "tags_ok mm t2" "lines_of t2 = (lines_of t)(?r := lines (tag_blks t2) (b # remove1 b ?xs))"
      by (rule tags_ok_upd [OF assms(1) tags_ok_set(1) [OF assms(1)] f t2 y(1,2) ys ys2 y(6)]; simp add: t2_def i(11,12) y(3,5))+
    moreover have "lines (tag_blks t2) (b # remove1 b ?xs) = take (tags_assoc t) (?k # lines_of t ?r)"
      using fill(2) y(4) vic(3) tags_ok_set(1) [OF assms(1), of ?a] by (simp add: t2(1) lines_of_def)
    ultimately show ?thesis using assms(4) t2(3) new by (auto simp: Let_def)
  qed
qed

subsection \<open>Sessions\<close>

fun tag_run :: "nat \<Rightarrow> nat \<Rightarrow> (tick \<times> tag_op) list \<Rightarrow> Tags \<Rightarrow> (bool list \<times> Tags) result" where
  "tag_run period maxMasters [] t = Inr ([], t)"
| "tag_run period maxMasters ((now, op) # ops) t =
     rbind (tag_step period maxMasters now op t) (\<lambda>(hit, t1).
     rbind (tag_run period maxMasters ops t1) (\<lambda>(hits, t2). Inr (hit # hits, t2)))"

fun lru_run :: "Tags \<Rightarrow> (tick \<times> tag_op) list \<Rightarrow> lru_state \<Rightarrow> bool list \<times> lru_state" where
  "lru_run g [] c = ([], c)"
| "lru_run g ((now, op) # ops) c = (let (hit, c1) = lru_spec g op c; (hits, c2) = lru_run g ops c1 in (hit # hits, c2))"

definition params_ok :: "TagParams \<Rightarrow> bool" where
  "params_ok p \<longleftrightarrow> tp_block_size p < 2 ^ 32 \<and> tp_assoc p < 2 ^ 32"

lemma lru_spec_geometry: "same_geometry t t' \<Longrightarrow> lru_spec t' op c = lru_spec t op c"
  by (cases op) (simp_all add: Let_def same_extract, simp add: same_geometry_def)

lemma lru_run_geometry: "same_geometry t t' \<Longrightarrow> lru_run t' ops c = lru_run t ops c"
  by (induction t ops c rule: lru_run.induct) (simp_all add: lru_spec_geometry split: prod.split)

lemma tag_step_ok:
  assumes "tags_ok mm t" "op_ok mm op" "allocAssoc t = tags_assoc t" "lru_spec t op (lines_of t) = (hit, c)"
  shows "\<exists>t'. tag_step period mm now op t = Inr (hit, t') \<and> tags_ok mm t' \<and> same_geometry t t' \<and> lines_of t' = c"
  using assms touch_ok [OF assms(1)] drop_ok [OF assms(1)] fill_ok [OF assms(1)] by (cases op) metis+

lemma tag_run_ok:
  assumes "tags_ok mm t" "\<forall>(now, op) \<in> set ops. op_ok mm op" "allocAssoc t = tags_assoc t" "lru_run t ops (lines_of t) = (hits, c)"
  shows "\<exists>t'. tag_run period mm ops t = Inr (hits, t') \<and> tags_ok mm t' \<and> same_geometry t t' \<and> lines_of t' = c"
  using assms
proof (induction ops arbitrary: t hits c)
  case Nil
  then show ?case by (simp add: same_geometry_def)
next
  case (Cons x ops)
  obtain now op where x: "x = (now, op)" by (cases x)
  obtain hit c1 where s: "lru_spec t op (lines_of t) = (hit, c1)" by (cases "lru_spec t op (lines_of t)")
  obtain t1 where t1: "tag_step period mm now op t = Inr (hit, t1)" "tags_ok mm t1" "same_geometry t t1" "lines_of t1 = c1"
    using tag_step_ok [OF Cons.prems(1) _ Cons.prems(3) s] Cons.prems(2) x by auto
  obtain hs c2 where r: "lru_run t ops c1 = (hs, c2)" by (cases "lru_run t ops c1")
  have "allocAssoc t1 = tags_assoc t1" "lru_run t1 ops (lines_of t1) = (hs, c2)"
    using Cons.prems(3) t1(3,4) r lru_run_geometry [OF t1(3)] by (simp_all add: same_geometry_def)
  then obtain t2 where t2: "tag_run period mm ops t1 = Inr (hs, t2)" "tags_ok mm t2" "same_geometry t1 t2" "lines_of t2 = c2"
    using Cons.IH [OF t1(2)] Cons.prems(2) by auto
  have "same_geometry t t2" using t1(3) t2(3) by (simp add: same_geometry_def)
  then show ?case using Cons.prems(4) s r t1(1) t2 by (auto simp: x)
qed

lemma new_Tags_ok:
  assumes "new_Tags p = Inr t" "params_ok p"
  shows "tags_ok mm t" "allocAssoc t = tags_assoc t" "lines_of t = (\<lambda>_. [])"
proof -
  define bs a n where "bs = tp_block_size p" and "a = tp_assoc p" and "n = tp_size p div (tp_block_size p * tp_assoc p) mod 2 ^ 32"
  have small: "bs < 2 ^ 64" "n < 2 ^ 64" "n < 2 ^ 32" "bs < 2 ^ 32" using assms(2) by (auto simp: params_ok_def bs_def n_def intro: less_trans)
  have chk: "0 < a" "isPowerOf2 (of_nat bs :: addr)" "isPowerOf2 (of_nat n :: addr)"
    using assms(1) by (auto simp: new_Tags_def Let_def fatal_if_def bs_def a_def n_def rbind_def split: if_splits)
  obtain k l where kl: "k < 64" "(of_nat bs :: addr) = 2 ^ k" "l < 64" "(of_nat n :: addr) = 2 ^ l"
    using chk(2,3) by (auto simp: isPowerOf2_exp_iff)
  have p2: "unat (2 ^ j :: addr) = 2 ^ j" if "j < 64" for j
  proof -
    have "(2 :: nat) ^ j < 2 ^ LENGTH(64)" using that by (intro power_strict_increasing) simp_all
    from unat_of_nat_small [OF this] show ?thesis by simp
  qed
  have "unat (of_nat bs :: addr) = bs" "unat (of_nat n :: addr) = n" by (rule unat_of_nat_small; use small in simp)+
  then have eq: "bs = 2 ^ k" "n = 2 ^ l" using p2 [OF kl(1)] p2 [OF kl(3)] unfolding kl by simp_all
  then have lt: "k < 32" "l < 32" using small(3,4) by (metis nat_power_less_imp_less zero_less_numeral)+
  define blks where "blks = map (\<lambda>k. (init_blk bs (k div a) (k mod a))\<lparr>blk_data := bs * k\<rparr>) [0..<n * a]"
  define sets where "sets = map (\<lambda>i. map (\<lambda>j. i * a + j) [0..<a]) [0..<n]"
  have t: "tag_blks t = blks" "tag_sets t = sets" "setShift t = k" "tagShift t = k + l" "setMask t = mask l" "blkMask t = mask k" "numSets t = n"
      "tags_assoc t = a" "allocAssoc t = a" "tagsInUse t = 0" "occupancies t = (\<lambda>_. 0)"
    using assms(1) [unfolded new_Tags_def Let_def, folded n_def, folded bs_def a_def, folded blks_def sets_def] kl log2_exp [OF kl(1)] log2_exp [OF kl(3)]
    by (auto simp: fatal_if_def mask_minus_1 split: if_splits)
  have b: "isValid b = False" "blk_status b = 0" "isTouched b = False" if "b \<in> set blks" for b
    using that by (auto simp: blks_def init_blk_def blk_invalidate_def isValid_def)
  have nv: "\<not> isValid (blks ! i)" if "i < n * a" for i using b(1) [of "blks ! i"] that by (simp add: blks_def)
  have img: "(\<lambda>j. i * a + j) ` {0..<a} = {i * a..<i * a + a}" for i by (auto simp: image_iff intro!: bexI [of _ "x - i * a" for x])
  have inr: "x < n * a" if "i < n" "x < i * a + a" for i x
  proof -
    have "x < Suc i * a" using that(2) by simp
    also have "\<dots> \<le> n * a" using that(1) by (intro mult_right_mono) simp_all
    finally show ?thesis .
  qed
  have so: "set_ok blks (sets ! i)" and li: "lines blks (sets ! i) = []" and se: "set (sets ! i) = {i * a..<i * a + a}" if "i < n" for i
  proof -
    show se: "set (sets ! i) = {i * a..<i * a + a}" using that img by (simp add: sets_def)
    have inv: "\<forall>c \<in> set (sets ! i). \<not> isValid (blks ! c)" unfolding se using nv inr [OF that] by simp
    then show "lines blks (sets ! i) = []" by (simp add: lines_def)
    moreover have "distinct (sets ! i)" using that by (simp add: sets_def distinct_map)
    ultimately show "set_ok blks (sets ! i)" using inv by (auto simp: set_ok_def intro: sorted_wrt_mono_rel [of _ "\<lambda>_ _. True"] simp: sorted_wrt_iff_nth_less)
  qed
  have "length blks = n * a" "length sets = n" "\<forall>i < n * a. blk_set (blks ! i) = int (i div a) \<and> blk_way (blks ! i) = int (i mod a)"
    by (simp_all add: blks_def sets_def init_blk_def)
  moreover have "geometry_ok t" using t lt eq by (auto simp: geometry_ok_def intro!: exI [of _ l])
  ultimately have "store_ok t" using so se chk(1) by (simp add: store_ok_def t)
  then show "tags_ok mm t" using b by (auto simp: tags_ok_def t blk_ok_def filter_empty_conv)
  show "allocAssoc t = tags_assoc t" by (simp add: t)
  show "lines_of t = (\<lambda>_. [])" using li by (auto simp: lines_of_def t)
qed

subsection \<open>Properties\<close>

text \<open>C5: from a new tag store, every sequence of accesses, fills and invalidations succeeds and behaves as the specification of the policy:
  the hits are the same, each set holds the same lines in the order of their last use, and the counts of blocks in use and of
  occupied blocks per master are the true ones.\<close>

theorem lru_tags_refine:
  assumes "new_Tags p = Inr t" "params_ok p" "\<forall>(now, op) \<in> set ops. op_ok maxMasters op"
  shows "\<exists>t'. tag_run period maxMasters ops t = Inr (fst (lru_run t ops (\<lambda>_. [])), t') \<and> lines_of t' = snd (lru_run t ops (\<lambda>_. [])) \<and>
    tags_ok maxMasters t'"
proof -
  note n = new_Tags_ok [OF assms(1,2)]
  have "lru_run t ops (lines_of t) = (fst (lru_run t ops (\<lambda>_. [])), snd (lru_run t ops (\<lambda>_. [])))" by (simp add: n(3))
  from tag_run_ok [OF n(1) assms(3) n(2) this] show ?thesis by blast
qed

text \<open>The block address regenerated from the tag and the set of an address is the aligned address, and a tag and a set are
  recovered from the address regenerated from them.\<close>

theorem block_address_roundtrip:
  assumes "new_Tags p = Inr t" "params_ok p" "s < numSets t" "unat tag < 2 ^ (64 - tagShift t)"
  shows "regenerateBlkAddr t (extractTag t a) (extractSet t a) = blkAlign t a \<and>
    extractTag t (regenerateBlkAddr t tag s) = tag \<and> extractSet t (regenerateBlkAddr t tag s) = s"
proof -
  have g: "geometry_ok t" using new_Tags_ok(1) [OF assms(1,2), of 0] by (simp add: tags_ok_def store_ok_def)
  show ?thesis using regenerate_extract [OF g] extract_regenerate [OF g assms(3,4)] by blast
qed

definition small_cache :: TagParams where
  "small_cache = \<lparr>tp_size = 16, tp_block_size = 4, tp_assoc = 2, tp_hit_latency = 1, tp_sequential_access = False\<rparr>"

definition small_tags :: Tags where
  "small_tags = projr (new_Tags small_cache)"

definition fill_pkt :: Packet where
  "fill_pkt = demo_read\<lparr>pkt_addr := 0x10, pkt_isSecure := False, pkt_flags := VALID_ADDR, pkt_req := (pkt_req demo_read)\<lparr>req_masterId := 0\<rparr>\<rparr>"

lemma small_tags_new: "new_Tags small_cache = Inr small_tags"
  and small_tags_fields: "setShift small_tags = 2" "tagShift small_tags = 3" "setMask small_tags = 1" "tags_assoc small_tags = 2" "numSets small_tags = 2"
proof -
  have p: "isPowerOf2 (4 :: addr)" "isPowerOf2 (2 :: addr)" by (simp_all add: isPowerOf2_def leastSigBit_def)
  have l: "floorLog2 4 = Inr 2" "floorLog2 2 = Inr 1" using log2_exp [of 2] log2_exp [of 1] by simp_all
  show n: "new_Tags small_cache = Inr small_tags"
    by (simp add: small_tags_def new_Tags_def small_cache_def p l fatal_if_def)
  show "setShift small_tags = 2" "tagShift small_tags = 3" "setMask small_tags = 1" "tags_assoc small_tags = 2" "numSets small_tags = 2"
    by (simp_all add: small_tags_def new_Tags_def small_cache_def p l fatal_if_def)
qed

theorem lru_tags_refine_witness:
  "\<exists>t'. tag_run 500 1 [(0, Touch 0x10 False), (1, Fill fill_pkt), (2, Touch 0x12 False)] small_tags = Inr ([False, False, True], t') \<and> tags_ok 1 t'"
proof -
  let ?ops = "[(0, Touch 0x10 False), (1, Fill fill_pkt), (2, Touch 0x12 False)]"
  have "fst (lru_run small_tags ?ops (\<lambda>_. [])) = [False, False, True]"
    by (simp add: Let_def extractTag_def extractSet_def small_tags_fields fill_pkt_def)
  moreover have "\<forall>(now, op) \<in> set ?ops. op_ok 1 op" by (simp add: op_ok_def fill_pkt_def isSet_def VALID_ADDR_def)
  ultimately show ?thesis
    using lru_tags_refine [OF small_tags_new, of ?ops 1 500] by (auto simp: params_ok_def small_cache_def)
qed

theorem block_address_roundtrip_witness:
  "regenerateBlkAddr small_tags (extractTag small_tags 0x37) (extractSet small_tags 0x37) = blkAlign small_tags 0x37 \<and>
   extractTag small_tags (regenerateBlkAddr small_tags 5 1) = 5 \<and> extractSet small_tags (regenerateBlkAddr small_tags 5 1) = 1"
  by (rule block_address_roundtrip [OF small_tags_new]) (simp_all add: params_ok_def small_cache_def small_tags_fields)

end
