(* ===== verification/Refinement.thy ===== *)
theory Refinement
  imports Gem5_Prelude
begin

text \<open>
  Sessions of operations on a component and on its specification. A component is a function from an operation and a state to an
  answer and a new state, or an error; its specification is the same without the errors. The locale \<open>simulation\<close> is the contract
  between the two: a relation of states that every legal operation keeps, with the same answer. Its third argument counts the
  operations the relation still allows for, so that components that wear out (counters of a bounded width) fit as well.
\<close>

fun run_ops :: "('op \<Rightarrow> 's \<Rightarrow> ('r \<times> 's) result) \<Rightarrow> 'op list \<Rightarrow> 's \<Rightarrow> ('r list \<times> 's) result" where
  "run_ops f [] s = Inr ([], s)"
| "run_ops f (p # ps) s = rbind (f p s) (\<lambda>(r, s1). rbind (run_ops f ps s1) (\<lambda>(rs, s2). Inr (r # rs, s2)))"

fun spec_ops :: "('op \<Rightarrow> 'a \<Rightarrow> 'r \<times> 'a) \<Rightarrow> 'op list \<Rightarrow> 'a \<Rightarrow> 'r list \<times> 'a" where
  "spec_ops g [] x = ([], x)"
| "spec_ops g (p # ps) x = (let (r, y) = g p x; (rs, z) = spec_ops g ps y in (r # rs, z))"

locale simulation =
  fixes impl :: "'op \<Rightarrow> 's \<Rightarrow> ('r \<times> 's) result"
    and spec :: "'op \<Rightarrow> 'a \<Rightarrow> 'r \<times> 'a"
    and related :: "nat \<Rightarrow> 's \<Rightarrow> 'a \<Rightarrow> bool"
    and legal :: "'op \<Rightarrow> bool"
  assumes simulates: "related (Suc n) s x \<Longrightarrow> legal p \<Longrightarrow> \<exists>s'. impl p s = Inr (fst (spec p x), s') \<and> related n s' (snd (spec p x))"
begin

lemma run_simulates:
  "related (length ps + n) s x \<Longrightarrow> \<forall>p \<in> set ps. legal p \<Longrightarrow>
    \<exists>s'. run_ops impl ps s = Inr (fst (spec_ops spec ps x), s') \<and> related n s' (snd (spec_ops spec ps x))"
proof (induction ps arbitrary: s x)
  case (Cons p ps)
  then obtain s1 where s1: "impl p s = Inr (fst (spec p x), s1)" "related (length ps + n) s1 (snd (spec p x))"
    using simulates [of "length ps + n" s x p] by auto
  obtain s2 where "run_ops impl ps s1 = Inr (fst (spec_ops spec ps (snd (spec p x))), s2)" "related n s2 (snd (spec_ops spec ps (snd (spec p x))))"
    using Cons.IH [OF s1(2)] Cons.prems(2) by auto
  then show ?case using s1(1) by (simp add: case_prod_beta)
qed simp

end

lemma run_ops_append: "run_ops f (ps @ qs) s = rbind (run_ops f ps s) (\<lambda>(rs, s1). rbind (run_ops f qs s1) (\<lambda>(rs', s2). Inr (rs @ rs', s2)))"
  by (induction ps arbitrary: s) (auto simp: rbind_def split: sum.split prod.split)

end
