(* ===== verification/Stack_Dist.thy ===== *)
theory Stack_Dist
  imports Int_Math Refinement
begin

text \<open>
  The stack distance calculator (\<open>mem/stack_dist_calc.hh\<close>, \<open>mem/stack_dist_calc.cc\<close>): the number of distinct
  addresses used since the last use of an address, computed with a binary tree of partial sums over
  the history of accesses.  The theory proves it equal to the position in a stack of addresses.

  A node of layer \<open>l\<close> is reached through the map of its layer; a pointer to it is its index there, and the
  parent of a node is in the layer above.  A node that was deleted is absent from the map, and following a
  pointer to it is a \<open>HostFault\<close>.
\<close>

subsection \<open>The tree of sums\<close>

record Node =
  sumLeft :: nat
  sumRight :: nat
  discardLeft :: bool
  discardRight :: bool
  nodeIndex :: nat
  node_parent :: "nat option"
  isLeftNode :: bool
  isMarked :: bool

definition new_Node :: Node where
  "new_Node = \<lparr>sumLeft = 0, sumRight = 0, discardLeft = False, discardRight = False, nodeIndex = 0, node_parent = None,
     isLeftNode = True, isMarked = False\<rparr>"

type_synonym layer = "nat \<rightharpoonup> Node"

record StackDistCalc =
  sd_index :: nat
  sd_tree :: "layer list"
  aiMap :: "addr \<rightharpoonup> nat"
  nextIndex :: "nat list"
  sd_stack :: "addr list"
  verifyStack :: bool

definition Infinity :: nat where "Infinity = 2 ^ 64 - 1"

definition new_StackDistCalc :: "bool \<Rightarrow> StackDistCalc" where
  "new_StackDistCalc verify_stack =
     \<lparr>sd_index = 0, sd_tree = [Map.empty, [0 \<mapsto> new_Node]], aiMap = Map.empty, nextIndex = [0, 1], sd_stack = [], verifyStack = verify_stack\<rparr>"

definition getTreeDepth :: "StackDistCalc \<Rightarrow> nat" where "getTreeDepth s = length (sd_tree s) - 1"

definition deref :: "layer list \<Rightarrow> nat \<Rightarrow> nat \<Rightarrow> Node result" where
  "deref tree l j = (if l < length tree then case (tree ! l) j of None \<Rightarrow> Inl HostFault | Some n \<Rightarrow> Inr n else Inl HostFault)"

definition put_node :: "nat \<Rightarrow> nat \<Rightarrow> Node option \<Rightarrow> layer list \<Rightarrow> layer list" where
  "put_node l j n tree = tree[l := (tree ! l)(j := n)]"

text \<open>\<^verbatim>\<open>1 << i\<close> is an \<^verbatim>\<open>int\<close>; a shift by more than 30 has no value.\<close>

definition int_shl :: "nat \<Rightarrow> nat result" where
  "int_shl i = (if i < 31 then Inr (2 ^ i) else Inl HostFault)"

definition check_sums :: "bool \<Rightarrow> Node \<Rightarrow> nat \<Rightarrow> unit result" where
  "check_sums verify n level =
     (if verify then
        rbind (int_shl (level - 1)) (\<lambda>k.
        if sumLeft n > k then Inl (Panic ''Error in sum left'') else if sumRight n > k then Inl (Panic ''Error in sum right'') else Inr ())
      else Inr ())"

text \<open>The new values of a node on the way up, and whether it is deleted.\<close>

definition sum_node :: "bool \<Rightarrow> nat \<Rightarrow> bool \<Rightarrow> Node \<Rightarrow> Node" where
  "sum_node from_left sum_from_below discard_node n =
     (let n1 = (if from_left then n\<lparr>sumLeft := sum_from_below\<rparr> else n\<lparr>sumRight := sum_from_below\<rparr>) in
      if discard_node \<and> sum_from_below = 0 then if from_left then n1\<lparr>discardLeft := True\<rparr> else n1\<lparr>discardRight := True\<rparr> else n1)"

definition sum_deletes :: "nat \<Rightarrow> bool \<Rightarrow> Node \<Rightarrow> bool" where
  "sum_deletes sum_from_below discard_node n \<longleftrightarrow>
     discardLeft n \<and> discardRight n \<and> discard_node \<and> node_parent n \<noteq> None \<and> sum_from_below = 0"

function updateSum :: "bool \<Rightarrow> nat \<Rightarrow> bool \<Rightarrow> nat \<Rightarrow> nat \<Rightarrow> nat \<Rightarrow> bool \<Rightarrow> layer list \<Rightarrow> (nat \<times> layer list) result" where
  "updateSum verify node from_left sum_from_below level stack_dist discard_node tree =
     (if \<not> level + 1 < length tree then Inl HostFault
      else
        rbind (deref tree (level + 1) node) (\<lambda>n.
        rbind (check_sums verify n (level + 1)) (\<lambda>_.
        let n1 = sum_node from_left sum_from_below discard_node n;
            dist = (if from_left then stack_dist + sumRight n else stack_dist);
            del = sum_deletes sum_from_below discard_node n1;
            tree1 = (if del then put_node (level + 1) (nodeIndex n) None tree else put_node (level + 1) node (Some n1) tree) in
        case node_parent n of
          None \<Rightarrow> Inr (dist, tree1)
        | Some p \<Rightarrow> updateSum verify p (isLeftNode n) (sumLeft n1 + sumRight n1) (level + 1) dist del tree1)))"
  by pat_completeness auto
termination
  by (relation "measure (\<lambda>(verify, node, from_left, sum_from_below, level, stack_dist, discard_node, tree). length tree - level)")
    (auto simp: put_node_def)

declare updateSum.simps [simp del]

definition updateSumsLeavesToRoot :: "bool \<Rightarrow> nat \<Rightarrow> bool \<Rightarrow> layer list \<Rightarrow> (nat \<times> layer list) result" where
  "updateSumsLeavesToRoot verify leaf is_new_leaf tree =
     rbind (deref tree 0 leaf) (\<lambda>n.
     let n1 = n\<lparr>sumLeft := if is_new_leaf then 1 else 0\<rparr>; tree1 = put_node 0 leaf (Some n1) tree in
     case node_parent n of
       None \<Rightarrow> Inl HostFault
     | Some p \<Rightarrow>
         if is_new_leaf then
           rbind (updateSum verify p (isLeftNode n) (sumLeft n1) 0 0 False tree1) (\<lambda>(_, tree2). Inr (Infinity, tree2))
         else updateSum verify p (isLeftNode n) 0 0 0 True tree1)"

function getSum :: "nat \<Rightarrow> bool \<Rightarrow> nat \<Rightarrow> nat \<Rightarrow> nat \<Rightarrow> layer list \<Rightarrow> nat result" where
  "getSum node from_left sum_from_below stack_dist level tree =
     (if \<not> level + 1 < length tree then Inl HostFault
      else
        rbind (deref tree (level + 1) node) (\<lambda>n.
        let dist = (if from_left then stack_dist + sumRight n else stack_dist) in
        case node_parent n of
          None \<Rightarrow> Inr dist
        | Some p \<Rightarrow> getSum p (isLeftNode n) (sumLeft n + sumRight n) dist (level + 1) tree))"
  by pat_completeness auto
termination
  by (relation "measure (\<lambda>(node, from_left, sum_from_below, stack_dist, level, tree). length tree - level)") auto

declare getSum.simps [simp del]

definition getSumsLeavesToRoot :: "nat \<Rightarrow> layer list \<Rightarrow> nat result" where
  "getSumsLeavesToRoot leaf tree =
     rbind (deref tree 0 leaf) (\<lambda>n. case node_parent n of None \<Rightarrow> Inl HostFault | Some p \<Rightarrow> getSum p (isLeftNode n) 0 0 0 tree)"

subsection \<open>Growing the tree\<close>

text \<open>A new node of layer \<open>i\<close>; reading a missing entry of the map of the layer above gives a null pointer.\<close>

definition add_inode :: "nat \<Rightarrow> layer list \<times> nat list \<Rightarrow> layer list \<times> nat list" where
  "add_inode i st =
     (let (tree, nx) = st; up = nx ! (i + 1) - 1 in
      (put_node i (nx ! i)
         (Some (new_Node\<lparr>isLeftNode := even (nx ! i), node_parent := if (tree ! (i + 1)) up = None then None else Some up, nodeIndex := nx ! i\<rparr>)) tree,
       nx[i := nx ! i + 1]))"

fun add_inodes :: "nat list \<Rightarrow> layer list \<times> nat list \<Rightarrow> layer list \<times> nat list" where
  "add_inodes [] st = st"
| "add_inodes (i # is) st = add_inodes is (add_inode i st)"

fun add_some_inodes :: "nat \<Rightarrow> nat list \<Rightarrow> layer list \<times> nat list \<Rightarrow> (layer list \<times> nat list) result" where
  "add_some_inodes idx [] st = Inr st"
| "add_some_inodes idx (i # is) st = rbind (int_shl i) (\<lambda>k. add_some_inodes idx is (if idx mod k = 0 then add_inode i st else st))"

definition grow_root :: "layer list \<times> nat list \<Rightarrow> (layer list \<times> nat list) result" where
  "grow_root st =
     (let (tree, nx) = st; d = length tree - 1 in
      rbind (deref tree d 0) (\<lambda>old.
      let root = new_Node\<lparr>sumLeft := sumRight old + sumLeft old, discardLeft := discardLeft old \<and> discardRight old\<rparr> in
      Inr (put_node d 0 (Some (old\<lparr>node_parent := Some 0\<rparr>)) tree @ [[0 \<mapsto> root]], nx @ [1])))"

definition updateTree :: "StackDistCalc \<Rightarrow> StackDistCalc result" where
  "updateTree s =
     rbind (if isPowerOf2 (of_nat (sd_index s) :: 64 word)
            then rbind (grow_root (sd_tree s, nextIndex s)) (\<lambda>st. Inr (add_inodes (rev [1..<length (fst st) - 1]) st))
            else add_some_inodes (sd_index s) (rev [1..<getTreeDepth s]) (sd_tree s, nextIndex s)) (\<lambda>(tree, nx).
     Inr (s\<lparr>sd_tree := tree, nextIndex := nx\<rparr>))"

subsection \<open>The checks\<close>

fun climb :: "nat \<Rightarrow> nat \<Rightarrow> Node \<Rightarrow> layer list \<Rightarrow> Node result" where
  "climb 0 l n tree = Inr n"
| "climb (Suc k) l n tree =
     (case node_parent n of
        None \<Rightarrow> Inl (Panic ''Sanity check failed'')
      | Some p \<Rightarrow> rbind (deref tree (l + 1) p) (\<lambda>m. climb k (l + 1) m tree))"

definition sanityCheckTree :: "nat \<Rightarrow> layer list \<Rightarrow> unit result" where
  "sanityCheckTree leaf tree =
     rbind (deref tree 0 leaf) (\<lambda>n.
     rbind (case node_parent n of None \<Rightarrow> Inl HostFault | Some p \<Rightarrow> deref tree 1 p) (\<lambda>m.
     rbind (climb (length tree - 2) 1 m tree) (\<lambda>r.
     if node_parent r \<noteq> None then Inl (Panic ''Sanity check failed'') else Inr ())))"

fun search_stack :: "addr \<Rightarrow> addr list \<Rightarrow> nat \<Rightarrow> (nat \<times> addr list) option" where
  "search_stack a [] d = None"
| "search_stack a (x # xs) d =
     (if x = a then Some (d, xs) else map_option (\<lambda>(d1, ys). (d1, x # ys)) (search_stack a xs (d + 1)))"

definition verifyStackDist :: "addr \<Rightarrow> bool \<Rightarrow> StackDistCalc \<Rightarrow> nat \<times> StackDistCalc" where
  "verifyStackDist a update_stack s =
     (let found = search_stack a (rev (sd_stack s)) 0;
          dist = (case found of None \<Rightarrow> Infinity | Some (d, _) \<Rightarrow> d);
          rest = (case found of None \<Rightarrow> sd_stack s | Some (_, ys) \<Rightarrow> rev ys) in
      (dist, if update_stack then s\<lparr>sd_stack := rest @ [a]\<rparr> else s))"

subsection \<open>The calculator\<close>

definition remove_leaf :: "addr \<Rightarrow> bool \<Rightarrow> StackDistCalc \<Rightarrow> (nat \<times> bool \<times> StackDistCalc) result" where
  "remove_leaf a addNewNode s =
     (case aiMap s a of
        Some r \<Rightarrow>
          rbind (updateSumsLeavesToRoot (verifyStack s) r False (sd_tree s)) (\<lambda>(dist, tree).
          rbind (deref tree 0 r) (\<lambda>leaf.
          Inr (dist, isMarked leaf,
               s\<lparr>aiMap := (aiMap s)(a := if addNewNode then Some (sd_index s) else None), sd_tree := put_node 0 r None tree\<rparr>)))
      | None \<Rightarrow> Inr (Infinity, False, if addNewNode then s\<lparr>aiMap := (aiMap s)(a \<mapsto> sd_index s)\<rparr> else s))"

definition add_leaf :: "StackDistCalc \<Rightarrow> StackDistCalc result" where
  "add_leaf s =
     rbind (if even (sd_index s) then updateTree s else Inr s) (\<lambda>s1.
     let up = nextIndex s1 ! 1 - 1;
         leaf = new_Node\<lparr>nodeIndex := sd_index s1, isLeftNode := even (sd_index s1),
                         node_parent := if (sd_tree s1 ! 1) up = None then None else Some up\<rparr> in
     rbind (updateSumsLeavesToRoot (verifyStack s1) (sd_index s1) True (put_node 0 (sd_index s1) (Some leaf) (sd_tree s1))) (\<lambda>(_, tree).
     Inr (s1\<lparr>sd_tree := tree, nextIndex := (nextIndex s1)[0 := nextIndex s1 ! 0 + 1]\<rparr>)))"

definition calcStackDistAndUpdate :: "addr \<Rightarrow> bool \<Rightarrow> StackDistCalc \<Rightarrow> ((nat \<times> bool) \<times> StackDistCalc) result" where
  "calcStackDistAndUpdate a addNewNode s =
     rbind (remove_leaf a addNewNode s) (\<lambda>(dist, mrk, s1).
     if addNewNode then
       rbind (add_leaf s1) (\<lambda>s2.
       rbind (if verifyStack s2 then
                rbind (sanityCheckTree (sd_index s2) (sd_tree s2)) (\<lambda>_.
                let (vdist, s3) = verifyStackDist a True s2 in
                if vdist \<noteq> dist then Inl (Panic ''Expected stack-distance'') else Inr s3)
              else Inr s2) (\<lambda>s3.
       Inr ((dist, mrk), s3\<lparr>sd_index := sd_index s3 + 1\<rparr>)))
     else Inr ((dist, mrk), s1))"

definition calcStackDist :: "addr \<Rightarrow> bool \<Rightarrow> StackDistCalc \<Rightarrow> ((nat \<times> bool) \<times> StackDistCalc) result" where
  "calcStackDist a mrk s =
     rbind (case aiMap s a of
              Some r \<Rightarrow>
                rbind (deref (sd_tree s) 0 r) (\<lambda>leaf.
                let tree = put_node 0 r (Some (leaf\<lparr>isMarked := mrk\<rparr>)) (sd_tree s) in
                rbind (getSumsLeavesToRoot r tree) (\<lambda>dist. Inr (dist, isMarked leaf, s\<lparr>sd_tree := tree\<rparr>)))
            | None \<Rightarrow> Inr (Infinity, False, s)) (\<lambda>(dist, old, s1).
     if verifyStack s1 \<and> fst (verifyStackDist a False s1) \<noteq> dist then Inl (Panic ''Expected stack-distance'')
     else Inr ((dist, old), s1))"

subsection \<open>Counting live leaves\<close>

definition cnt :: "nat set \<Rightarrow> nat \<Rightarrow> nat \<Rightarrow> nat" where
  "cnt L l j = card (L \<inter> {j * 2 ^ l..<(j + 1) * 2 ^ l})"

definition above :: "nat set \<Rightarrow> nat \<Rightarrow> nat \<Rightarrow> nat" where
  "above L i l = card (L \<inter> {i<..<(i div 2 ^ l + 1) * 2 ^ l})"

lemma block_mem: "x \<in> {j * 2 ^ l..<(j + 1) * 2 ^ l} \<longleftrightarrow> x div 2 ^ l = (j :: nat)"
proof -
  have "x div 2 ^ l = j \<longleftrightarrow> j \<le> x div 2 ^ l \<and> x div 2 ^ l < j + 1" by auto
  also have "\<dots> \<longleftrightarrow> j * 2 ^ l \<le> x \<and> x < (j + 1) * 2 ^ l" by (simp only: less_eq_div_iff_mult_less_eq div_less_iff_less_mult zero_less_power zero_less_numeral)
  finally show ?thesis by simp
qed

lemma cnt_alt: "cnt L l j = card {x \<in> L. x div 2 ^ l = j}"
proof -
  have "L \<inter> {j * 2 ^ l..<(j + 1) * 2 ^ l} = {x \<in> L. x div 2 ^ l = j}" using block_mem by blast
  then show ?thesis by (simp add: cnt_def)
qed

lemma cnt_le: "cnt L l j \<le> 2 ^ l"
proof -
  have "cnt L l j \<le> card {j * 2 ^ l..<(j + 1) * 2 ^ l}" unfolding cnt_def by (rule card_mono) auto
  then show ?thesis by simp
qed

lemma div_Suc_exp: "x div 2 ^ Suc l = x div 2 ^ l div (2 :: nat)"
  by (simp only: power_Suc2 div_mult2_eq)

lemma cnt_split:
  assumes "finite L"
  shows "cnt L (Suc l) j = cnt L l (2 * j) + cnt L l (2 * j + 1)"
proof -
  have "{x \<in> L. x div 2 ^ Suc l = j} = {x \<in> L. x div 2 ^ l = 2 * j} \<union> {x \<in> L. x div 2 ^ l = 2 * j + 1}"
    unfolding div_Suc_exp by auto
  moreover have "{x \<in> L. x div 2 ^ l = 2 * j} \<inter> {x \<in> L. x div 2 ^ l = 2 * j + 1} = {}" by auto
  ultimately show ?thesis using assms by (simp add: cnt_alt card_Un_disjoint)
qed

lemma cnt_other: "L' - {i} = L - {i} \<Longrightarrow> j \<noteq> i div 2 ^ l \<Longrightarrow> cnt L' l j = cnt L l j"
proof -
  assume a: "L' - {i} = L - {i}" "j \<noteq> i div 2 ^ l"
  then have "{x \<in> L'. x div 2 ^ l = j} = {x \<in> L. x div 2 ^ l = j}" by auto
  then show ?thesis by (simp add: cnt_alt)
qed

lemma cnt_above_all: "L \<subseteq> {..<n} \<Longrightarrow> n \<le> j * 2 ^ l \<Longrightarrow> cnt L l j = 0"
  unfolding cnt_def by (subst card_eq_0_iff) force

lemma above_0: "above L i 0 = 0"
  by (simp add: above_def card_eq_0_iff) (metis Int_empty_right atLeastLessThanSuc greaterThanLessThan_iff equals0I not_less_eq)

lemma above_Suc:
  assumes "finite L"
  shows "above L i (Suc l) = above L i l + (if even (i div 2 ^ l) then cnt L l (i div 2 ^ l + 1) else 0)"
proof -
  define q where "q = i div 2 ^ l"
  have i: "q * 2 ^ l \<le> i" "i < (q + 1) * 2 ^ l" using block_mem [of i q l] by (auto simp: q_def)
  show ?thesis
  proof (cases "even q")
    case True
    then have top: "(i div 2 ^ Suc l + 1) * 2 ^ Suc l = (q + 2) * 2 ^ l" unfolding div_Suc_exp q_def [symmetric] by (auto elim!: evenE simp: algebra_simps)
    have "{i<..<(q + 2) * 2 ^ l} = {i<..<(q + 1) * 2 ^ l} \<union> {(q + 1) * 2 ^ l..<(q + 1 + 1) * 2 ^ l}" using i(2) by auto
    then have "L \<inter> {i<..<(q + 2) * 2 ^ l} = (L \<inter> {i<..<(q + 1) * 2 ^ l}) \<union> (L \<inter> {(q + 1) * 2 ^ l..<(q + 1 + 1) * 2 ^ l})" by blast
    moreover have "(L \<inter> {i<..<(q + 1) * 2 ^ l}) \<inter> (L \<inter> {(q + 1) * 2 ^ l..<(q + 1 + 1) * 2 ^ l}) = {}" by auto
    ultimately show ?thesis
      using True assms unfolding above_def top cnt_def q_def [symmetric] by (simp add: card_Un_disjoint)
  next
    case False
    then have top: "(i div 2 ^ Suc l + 1) * 2 ^ Suc l = (q + 1) * 2 ^ l" unfolding div_Suc_exp q_def [symmetric] by (auto elim!: oddE simp: algebra_simps)
    show ?thesis using False unfolding above_def top q_def [symmetric] by simp
  qed
qed

lemma above_top:
  assumes "L \<subseteq> {..<n}" "n \<le> 2 ^ d" "i < n"
  shows "above L i d = card {x \<in> L. i < x}"
proof -
  have "i div 2 ^ d = 0" using assms by simp
  then have "L \<inter> {i<..<(i div 2 ^ d + 1) * 2 ^ d} = {x \<in> L. i < x}" using assms(1,2) by auto
  then show ?thesis by (simp add: above_def)
qed

subsection \<open>The invariant of the tree\<close>

text \<open>\<open>L\<close> are the live leaves, \<open>n\<close> the leaves added so far, \<open>m\<close> those the inner nodes have been made for, \<open>d\<close> the depth.\<close>

definition width :: "nat \<Rightarrow> nat \<Rightarrow> nat" where "width m l = (m - 1) div 2 ^ l + 1"

definition spent :: "nat \<Rightarrow> nat set \<Rightarrow> nat \<Rightarrow> nat \<Rightarrow> bool" where
  "spent n L l j \<longleftrightarrow> cnt L l j = 0 \<and> (j + 1) * 2 ^ l \<le> n"

definition inode_ok :: "nat \<Rightarrow> nat \<Rightarrow> nat set \<Rightarrow> nat \<Rightarrow> nat \<Rightarrow> Node \<Rightarrow> bool" where
  "inode_ok d n L l j nd \<longleftrightarrow> sumLeft nd = cnt L (l - 1) (2 * j) \<and> sumRight nd = cnt L (l - 1) (2 * j + 1) \<and> nodeIndex nd = j \<and>
     isLeftNode nd = even j \<and> node_parent nd = (if l = d then None else Some (j div 2)) \<and>
     (discardLeft nd \<longrightarrow> spent n L (l - 1) (2 * j)) \<and> (discardRight nd \<longrightarrow> spent n L (l - 1) (2 * j + 1))"

definition layer_ok :: "nat \<Rightarrow> nat \<Rightarrow> nat \<Rightarrow> nat set \<Rightarrow> nat \<Rightarrow> layer \<Rightarrow> bool" where
  "layer_ok d n m L l f \<longleftrightarrow> (\<forall>j. case f j of Some nd \<Rightarrow> j < width m l \<and> inode_ok d n L l j nd | None \<Rightarrow> j < width m l \<longrightarrow> l < d \<and> spent n L l j)"

lemma spent_other: "spent n L l j \<Longrightarrow> L' - {i} = L - {i} \<Longrightarrow> j \<noteq> i div 2 ^ l \<Longrightarrow> n \<le> n' \<Longrightarrow> spent n' L' l j"
  unfolding spent_def using cnt_other [of L' i L j l] by linarith

lemma inode_ok_other:
  assumes "inode_ok d n L (Suc l) j nd" "L' - {i} = L - {i}" "j \<noteq> i div 2 ^ Suc l" "n \<le> n'"
  shows "inode_ok d n' L' (Suc l) j nd"
proof -
  have "2 * j \<noteq> i div 2 ^ l" "2 * j + 1 \<noteq> i div 2 ^ l" using assms(3) unfolding div_Suc_exp by auto
  then have c: "cnt L' l (2 * j) = cnt L l (2 * j)" "cnt L' l (2 * j + 1) = cnt L l (2 * j + 1)"
      "spent n L l (2 * j) \<Longrightarrow> spent n' L' l (2 * j)" "spent n L l (2 * j + 1) \<Longrightarrow> spent n' L' l (2 * j + 1)"
    using cnt_other [OF assms(2)] spent_other [OF _ assms(2)] assms(4) by blast+
  show ?thesis using assms(1) c unfolding inode_ok_def by simp
qed

lemma spent_both: "finite L \<Longrightarrow> spent n L l (2 * j) \<Longrightarrow> spent n L l (2 * j + 1) \<Longrightarrow> spent n L (Suc l) j"
  by (simp add: spent_def cnt_split algebra_simps)

lemma sum_node_ok:
  assumes "inode_ok d n L (Suc l) (i div 2 ^ Suc l) nd" "L' - {i} = L - {i}" "n \<le> n'" "discard \<Longrightarrow> spent n' L' l (i div 2 ^ l)"
    "spent n L l (i div 2 ^ l) \<Longrightarrow> spent n' L' l (i div 2 ^ l)"
  shows "inode_ok d n' L' (Suc l) (i div 2 ^ Suc l) (sum_node (even (i div 2 ^ l)) (cnt L' l (i div 2 ^ l)) discard nd)"
proof -
  define q where "q = i div 2 ^ l"
  have q: "i div 2 ^ Suc l = q div 2" by (simp only: div_Suc_exp q_def)
  show ?thesis
  proof (cases "even q")
    case True
    then have e: "2 * (q div 2) = q" by simp
    have "q + 1 \<noteq> i div 2 ^ l" by (simp add: q_def)
    then have c: "cnt L' l (q + 1) = cnt L l (q + 1)" "spent n L l (q + 1) \<Longrightarrow> spent n' L' l (q + 1)"
      using cnt_other [OF assms(2)] spent_other [OF _ assms(2)] assms(3) by blast+
    show ?thesis
      using True assms(1,4,5) c unfolding inode_ok_def q by (auto simp: sum_node_def Let_def e q_def [symmetric])
  next
    case False
    then have e: "2 * (q div 2) + 1 = q" by simp
    then have "2 * (q div 2) \<noteq> i div 2 ^ l" by (simp add: q_def)
    then have c: "cnt L' l (2 * (q div 2)) = cnt L l (2 * (q div 2))" "spent n L l (2 * (q div 2)) \<Longrightarrow> spent n' L' l (2 * (q div 2))"
      using cnt_other [OF assms(2)] spent_other [OF _ assms(2)] assms(3) by blast+
    show ?thesis
      using False assms(1,4,5) c unfolding inode_ok_def q e by (auto simp: sum_node_def Let_def q_def [symmetric])
  qed
qed

lemma layer_ok_present: "layer_ok d n m L l f \<Longrightarrow> j < width m l \<Longrightarrow> \<not> (l < d \<and> spent n L l j) \<Longrightarrow> \<exists>nd. f j = Some nd \<and> inode_ok d n L l j nd"
  unfolding layer_ok_def by (drule spec [of _ j]) (auto split: option.splits)

lemma layer_ok_step:
  assumes "layer_ok d n m L (Suc l) f" "L' - {i} = L - {i}" "n \<le> n'" "i div 2 ^ Suc l < width m (Suc l)"
    "case x of Some nd \<Rightarrow> inode_ok d n' L' (Suc l) (i div 2 ^ Suc l) nd | None \<Rightarrow> Suc l < d \<and> spent n' L' (Suc l) (i div 2 ^ Suc l)"
  shows "layer_ok d n' m L' (Suc l) (f(i div 2 ^ Suc l := x))"
  unfolding layer_ok_def
proof
  fix j
  have f: "case f j of Some nd \<Rightarrow> j < width m (Suc l) \<and> inode_ok d n L (Suc l) j nd | None \<Rightarrow> j < width m (Suc l) \<longrightarrow> Suc l < d \<and> spent n L (Suc l) j"
    using assms(1) unfolding layer_ok_def by blast
  show "case (f(i div 2 ^ Suc l := x)) j of Some nd \<Rightarrow> j < width m (Suc l) \<and> inode_ok d n' L' (Suc l) j nd
      | None \<Rightarrow> j < width m (Suc l) \<longrightarrow> Suc l < d \<and> spent n' L' (Suc l) j"
  proof (cases "j = i div 2 ^ Suc l")
    case True
    then show ?thesis using assms(4,5) by (simp split: option.splits)
  next
    case False
    then show ?thesis
      using f inode_ok_other [OF _ assms(2) False assms(3), of d] spent_other [OF _ assms(2) False assms(3)] by (simp split: option.splits)
  qed
qed

lemma updateSum_ok:
  assumes "length tree = d + 1" "\<forall>l. 1 \<le> l \<and> l \<le> k \<longrightarrow> layer_ok d n' m L' l (tree ! l)" "\<forall>l. k < l \<and> l \<le> d \<longrightarrow> layer_ok d n m L l (tree ! l)"
    "L' - {i} = L - {i}" "finite L" "finite L'" "n \<le> n'" "k < d" "\<forall>l. i div 2 ^ l < width m l" "\<forall>l. \<not> spent n L l (i div 2 ^ l)"
    "discard \<longrightarrow> spent n' L' k (i div 2 ^ k)" "verify \<longrightarrow> d \<le> 31"
  shows "\<exists>tree'. updateSum verify (i div 2 ^ Suc k) (even (i div 2 ^ k)) (cnt L' k (i div 2 ^ k)) k (above L i k) discard tree = Inr (above L i d, tree') \<and>
    length tree' = d + 1 \<and> tree' ! 0 = tree ! 0 \<and> (\<forall>l. 1 \<le> l \<and> l \<le> d \<longrightarrow> layer_ok d n' m L' l (tree' ! l))"
  using assms(1-3,8,11)
proof (induction "d - k" arbitrary: k discard tree)
  case (Suc x)
  define j where "j = i div 2 ^ Suc k"
  define s where "s = cnt L' k (i div 2 ^ k)"
  have lay: "layer_ok d n m L (Suc k) (tree ! Suc k)" using Suc.prems(3,4) by simp
  have jw: "j < width m (Suc k)" using assms(9) unfolding j_def by blast
  have live: "\<not> spent n L (Suc k) j" using assms(10) unfolding j_def by blast
  obtain nd where nd: "(tree ! Suc k) j = Some nd" "inode_ok d n L (Suc k) j nd" using layer_ok_present [OF lay jw] live by blast
  define n1 where "n1 = sum_node (even (i div 2 ^ k)) s discard nd"
  have n1: "inode_ok d n' L' (Suc k) j n1"
    unfolding n1_def j_def s_def
    by (rule sum_node_ok [OF nd(2) [unfolded j_def] assms(4,7)]) (use Suc.prems(5) assms(10) in blast)+
  have fields: "nodeIndex nd = j" "isLeftNode nd = even j" "node_parent nd = (if Suc k = d then None else Some (j div 2))"
      "sumLeft nd = cnt L k (2 * j)" "sumRight nd = cnt L k (2 * j + 1)" using nd(2) by (simp_all add: inode_ok_def)
  define del where "del = sum_deletes s discard n1"
  have del: "del \<Longrightarrow> Suc k < d \<and> spent n' L' (Suc k) j"
    using n1 Suc.prems(4) spent_both [OF assms(6)] by (auto simp: del_def sum_deletes_def inode_ok_def split: if_splits)
  define tree1 where "tree1 = put_node (Suc k) j (if del then None else Some n1) tree"
  have dist: "(if even (i div 2 ^ k) then above L i k + sumRight nd else above L i k) = above L i (Suc k)"
  proof -
    have "2 * j + 1 = i div 2 ^ k + 1" if "even (i div 2 ^ k)" using that unfolding j_def div_Suc_exp by simp
    then show ?thesis using above_Suc [OF assms(5), of i k] fields(5) by simp
  qed
  have sums: "sumLeft n1 + sumRight n1 = cnt L' (Suc k) j" using n1 cnt_split [OF assms(6), of k j] by (simp add: inode_ok_def)
  have chk: "check_sums verify nd (Suc k) = Inr ()"
    using assms(12) Suc.prems(4) cnt_le [of L k "2 * j"] cnt_le [of L k "2 * j + 1"] fields by (auto simp: check_sums_def int_shl_def)
  have up: "updateSum verify j (even (i div 2 ^ k)) s k (above L i k) discard tree =
      (case node_parent nd of None \<Rightarrow> Inr (above L i (Suc k), tree1)
       | Some p \<Rightarrow> updateSum verify p (even j) (cnt L' (Suc k) j) (Suc k) (above L i (Suc k)) del tree1)"
  proof -
    have "deref tree (Suc k) j = Inr nd" "Suc k < length tree" using Suc.prems(1,4) nd(1) by (simp_all add: deref_def)
    moreover have "(if del then put_node (Suc k) j None tree else put_node (Suc k) j (Some n1) tree) = tree1" by (simp add: tree1_def)
    ultimately show ?thesis
      by (subst updateSum.simps) (simp only: Suc_eq_plus1 [symmetric] not_not if_False if_True simp_thms chk rbind_simps Let_def n1_def [symmetric]
        del_def [symmetric] dist sums fields(1,2))
  qed
  have len: "length tree1 = d + 1" using Suc.prems(1) by (simp add: tree1_def put_node_def)
  have at: "tree1 ! l = (if l = Suc k then (tree ! Suc k)(j := if del then None else Some n1) else tree ! l)" for l
    using Suc.prems(1,4) by (auto simp: tree1_def put_node_def nth_list_update)
  have "layer_ok d n' m L' (Suc k) (tree1 ! Suc k)"
    unfolding at j_def using layer_ok_step [OF lay assms(4,7) jw [unfolded j_def], of "if del then None else Some n1"] del n1 by (simp add: j_def)
  then have below: "\<forall>l. 1 \<le> l \<and> l \<le> Suc k \<longrightarrow> layer_ok d n' m L' l (tree1 ! l)" using Suc.prems(2) by (auto simp: at le_Suc_eq)
  show ?case
  proof (cases "Suc k = d")
    case True
    then show ?thesis using up below len at [of 0] fields(3) unfolding j_def [symmetric] s_def [symmetric] by auto
  next
    case False
    have abv: "\<forall>l. Suc k < l \<and> l \<le> d \<longrightarrow> layer_ok d n m L l (tree1 ! l)" using Suc.prems(3) by (simp add: at)
    have "\<exists>tree'. updateSum verify (i div 2 ^ Suc (Suc k)) (even (i div 2 ^ Suc k)) (cnt L' (Suc k) (i div 2 ^ Suc k)) (Suc k) (above L i (Suc k)) del tree1
        = Inr (above L i d, tree') \<and> length tree' = d + 1 \<and> tree' ! 0 = tree1 ! 0 \<and> (\<forall>l. 1 \<le> l \<and> l \<le> d \<longrightarrow> layer_ok d n' m L' l (tree' ! l))"
      by (rule Suc.hyps(1) [OF _ len below abv]) (use False Suc.hyps(2) Suc.prems(4) del in \<open>auto simp: j_def\<close>)
    moreover have "j div 2 = i div 2 ^ Suc (Suc k)" unfolding j_def by (simp only: div_Suc_exp)
    ultimately show ?thesis using up False at [of 0] fields(3) unfolding j_def [symmetric] s_def [symmetric] by simp
  qed
qed simp

lemma getSum_ok:
  assumes "length tree = d + 1" "\<forall>l. 1 \<le> l \<and> l \<le> d \<longrightarrow> layer_ok d n m L l (tree ! l)" "finite L" "k < d" "\<forall>l. i div 2 ^ l < width m l"
    "\<forall>l. \<not> spent n L l (i div 2 ^ l)"
  shows "getSum (i div 2 ^ Suc k) (even (i div 2 ^ k)) s (above L i k) k tree = Inr (above L i d)"
  using assms(4)
proof (induction "d - k" arbitrary: k s)
  case (Suc x)
  define j where "j = i div 2 ^ Suc k"
  have lay: "layer_ok d n m L (Suc k) (tree ! Suc k)" using assms(2) Suc.prems by simp
  have "j < width m (Suc k)" "\<not> spent n L (Suc k) j" using assms(5,6) unfolding j_def by blast+
  then obtain nd where nd: "(tree ! Suc k) j = Some nd" "inode_ok d n L (Suc k) j nd" using layer_ok_present [OF lay] by blast
  have fields: "isLeftNode nd = even j" "node_parent nd = (if Suc k = d then None else Some (j div 2))" "sumRight nd = cnt L k (2 * j + 1)"
    using nd(2) by (simp_all add: inode_ok_def)
  have dist: "(if even (i div 2 ^ k) then above L i k + sumRight nd else above L i k) = above L i (Suc k)"
  proof -
    have "2 * j + 1 = i div 2 ^ k + 1" if "even (i div 2 ^ k)" using that unfolding j_def div_Suc_exp by simp
    then show ?thesis using above_Suc [OF assms(3), of i k] fields(3) by simp
  qed
  have "deref tree (Suc k) j = Inr nd" "Suc k < length tree" using assms(1) Suc.prems nd(1) by (simp_all add: deref_def)
  then have up: "getSum j (even (i div 2 ^ k)) s (above L i k) k tree = (case node_parent nd of None \<Rightarrow> Inr (above L i (Suc k))
       | Some p \<Rightarrow> getSum p (even j) (sumLeft nd + sumRight nd) (above L i (Suc k)) (Suc k) tree)"
    by (subst getSum.simps) (simp only: Suc_eq_plus1 [symmetric] not_not if_False if_True simp_thms rbind_simps Let_def dist fields(1))
  show ?case
  proof (cases "Suc k = d")
    case True
    then show ?thesis using up fields(2) unfolding j_def [symmetric] by simp
  next
    case False
    have "getSum (i div 2 ^ Suc (Suc k)) (even (i div 2 ^ Suc k)) (sumLeft nd + sumRight nd) (above L i (Suc k)) (Suc k) tree = Inr (above L i d)"
      by (intro Suc.hyps(1)) (use Suc.hyps(2) Suc.prems False in simp_all)
    moreover have "j div 2 = i div 2 ^ Suc (Suc k)" unfolding j_def by (simp only: div_Suc_exp)
    ultimately show ?thesis using up False fields(2) unfolding j_def [symmetric] by simp
  qed
qed simp

subsection \<open>Growing keeps the invariant\<close>

definition grown :: "nat \<Rightarrow> nat \<Rightarrow> nat set \<Rightarrow> layer \<Rightarrow> nat \<Rightarrow> layer list \<times> nat list \<Rightarrow> bool" where
  "grown d n L F k st \<longleftrightarrow> length (fst st) = d + 1 \<and> length (snd st) = d + 1 \<and> fst st ! 0 = F \<and> snd st ! 0 = n \<and>
     (\<forall>l. 1 \<le> l \<and> l \<le> d \<longrightarrow> layer_ok d n (if k \<le> l then n + 1 else n) L l (fst st ! l) \<and> snd st ! l = width (if k \<le> l then n + 1 else n) l)"

lemma layer_ok_width: "width m l = width m' l \<Longrightarrow> layer_ok d n m L l f = layer_ok d n m' L l f"
  by (simp add: layer_ok_def cong: option.case_cong)

lemma width_Suc: "width (n + 1) l = n div 2 ^ l + 1"
  by (simp add: width_def)

lemma width_exact: "0 < n \<Longrightarrow> 2 ^ l dvd n \<Longrightarrow> width n l = n div 2 ^ l"
proof -
  assume "0 < n" "2 ^ l dvd n"
  then obtain q where q: "n = 2 ^ l * q" "0 < q" by (auto elim!: dvdE)
  have "(n - 1) div 2 ^ l = q - 1"
  proof (rule div_nat_eqI)
    have "2 ^ l * (q - 1) = n - 2 ^ l" "(1 :: nat) \<le> 2 ^ l" using q by (simp_all add: diff_mult_distrib2)
    then show "2 ^ l * (q - 1) \<le> n - 1" by linarith
    show "n - 1 < 2 ^ l * Suc (q - 1)" using q by simp
  qed
  then show ?thesis using q by (simp add: width_def)
qed

lemma width_same: "n = 0 \<or> \<not> 2 ^ l dvd n \<Longrightarrow> width (n + 1) l = width n l"
proof (cases "n = 0")
  case False
  assume "n = 0 \<or> \<not> 2 ^ l dvd n"
  then have nd: "\<not> 2 ^ l dvd n" using False by simp
  have "(n - 1) div 2 ^ l = n div 2 ^ l"
  proof (rule div_nat_eqI)
    have "2 ^ l * (n div 2 ^ l) \<le> n" "2 ^ l * (n div 2 ^ l) \<noteq> n" using nd by auto (metis dvd_triv_left)
    then show "2 ^ l * (n div 2 ^ l) \<le> n - 1" by linarith
    have "n < 2 ^ l * Suc (n div 2 ^ l)" by (simp add: dividend_less_times_div)
    then show "n - 1 < 2 ^ l * Suc (n div 2 ^ l)" by simp
  qed
  then show ?thesis by (simp add: width_def)
qed (simp add: width_def)

lemma grown_skip: "grown d n L F (Suc l) st \<Longrightarrow> n = 0 \<or> \<not> 2 ^ l dvd n \<Longrightarrow> grown d n L F l st"
proof -
  assume g: "grown d n L F (Suc l) st" "n = 0 \<or> \<not> 2 ^ l dvd n"
  have this_layer: "layer_ok d n (n + 1) L l (fst st ! l) \<and> snd st ! l = width (n + 1) l" if "1 \<le> l" "l \<le> d"
    using g(1) that layer_ok_width [OF width_same [OF g(2)], of d n L] width_same [OF g(2)] by (auto simp: grown_def)
  have "layer_ok d n (if l \<le> r then n + 1 else n) L r (fst st ! r) \<and> snd st ! r = width (if l \<le> r then n + 1 else n) r" if "1 \<le> r \<and> r \<le> d" for r
  proof (cases "r = l")
    case False
    then have "(l \<le> r) = (Suc l \<le> r)" by auto
    then show ?thesis using g(1) that by (simp add: grown_def)
  qed (use that this_layer in simp)
  then show ?thesis using g(1) by (simp add: grown_def)
qed

lemma new_layer:
  assumes "layer_ok d n n L l f" "L \<subseteq> {..<n}" "0 < n" "2 ^ l dvd n" "1 \<le> l" "l < d"
    "nd = new_Node\<lparr>isLeftNode := even (n div 2 ^ l), node_parent := Some (n div 2 ^ l div 2), nodeIndex := n div 2 ^ l\<rparr>"
  shows "layer_ok d n (n + 1) L l (f(n div 2 ^ l := Some nd))"
proof -
  have w: "width n l = n div 2 ^ l" "width (n + 1) l = n div 2 ^ l + 1" using width_exact [OF assms(3,4)] width_Suc by simp_all
  obtain k where k: "l = Suc k" using assms(5) by (cases l) auto
  have "2 ^ l * (n div 2 ^ l) = n" using assms(4) by (rule dvd_mult_div_cancel)
  then have "2 * (n div 2 ^ l) * 2 ^ k = n" unfolding k by (simp only: power_Suc mult.assoc mult.commute mult.left_commute)
  then have "cnt L k (2 * (n div 2 ^ l)) = 0" "cnt L k (2 * (n div 2 ^ l) + 1) = 0"
    by (intro cnt_above_all [OF assms(2)], simp)+
  then have nd: "inode_ok d n L l (n div 2 ^ l) nd" using assms(6) by (simp add: inode_ok_def assms(7) k new_Node_def)
  show ?thesis
    unfolding layer_ok_def
  proof
    fix j
    have f: "case f j of Some nd \<Rightarrow> j < width n l \<and> inode_ok d n L l j nd | None \<Rightarrow> j < width n l \<longrightarrow> l < d \<and> spent n L l j"
      using assms(1) unfolding layer_ok_def by blast
    show "case (f(n div 2 ^ l := Some nd)) j of Some nd \<Rightarrow> j < width (n + 1) l \<and> inode_ok d n L l j nd
        | None \<Rightarrow> j < width (n + 1) l \<longrightarrow> l < d \<and> spent n L l j"
    proof (cases "j = n div 2 ^ l")
      case True
      then show ?thesis using nd w(2) by simp
    next
      case False
      then have "j < width (n + 1) l \<longleftrightarrow> j < width n l" unfolding w by linarith
      then show ?thesis using f False by (simp split: option.splits)
    qed
  qed
qed

lemma grown_add:
  assumes "grown d n L F (Suc l) (tree, nx)" "L \<subseteq> {..<n}" "0 < n" "2 ^ l dvd n" "1 \<le> l" "l < d"
  shows "grown d n L F l (add_inode l (tree, nx))"
proof -
  let ?j = "n div 2 ^ l"
  have g: "length tree = d + 1" "length nx = d + 1" "tree ! 0 = F" "nx ! 0 = n"
      "\<And>r. 1 \<le> r \<Longrightarrow> r \<le> d \<Longrightarrow> layer_ok d n (if Suc l \<le> r then n + 1 else n) L r (tree ! r) \<and> nx ! r = width (if Suc l \<le> r then n + 1 else n) r"
    using assms(1) by (simp_all add: grown_def)
  have nxl: "nx ! l = ?j" "layer_ok d n n L l (tree ! l)" using g(5) [of l] assms(5,6) width_exact [OF assms(3,4)] by simp_all
  have "n div 2 ^ Suc l = ?j div 2" by (simp only: div_Suc_exp)
  then have up: "nx ! (l + 1) - 1 = ?j div 2" using g(5) [of "Suc l"] assms(6) width_Suc [of n "Suc l"] by simp
  have "\<exists>nd. (tree ! Suc l) (?j div 2) = Some nd \<and> inode_ok d n L (Suc l) (?j div 2) nd"
  proof (rule layer_ok_present)
    show "layer_ok d n (n + 1) L (Suc l) (tree ! Suc l)" using g(5) [of "Suc l"] assms(6) by simp
    show "?j div 2 < width (n + 1) (Suc l)" by (simp only: width_Suc div_Suc_exp)
    have "n < (n div 2 ^ Suc l + 1) * 2 ^ Suc l" by (metis Suc_eq_plus1 dividend_less_div_times zero_less_numeral zero_less_power mult_Suc add.commute)
    then show "\<not> (Suc l < d \<and> spent n L (Suc l) (?j div 2))" unfolding spent_def div_Suc_exp by linarith
  qed
  then have par: "(tree ! (l + 1)) (?j div 2) \<noteq> None" by auto
  define nd where "nd = new_Node\<lparr>isLeftNode := even ?j, node_parent := Some (?j div 2), nodeIndex := ?j\<rparr>"
  have a: "add_inode l (tree, nx) = (put_node l ?j (Some nd) tree, nx[l := ?j + 1])"
    unfolding add_inode_def Let_def prod.case nxl(1) up by (simp only: par if_False nd_def)
  have lay: "layer_ok d n (n + 1) L l ((tree ! l)(?j \<mapsto> nd))"
    by (rule new_layer [OF nxl(2) assms(2,3,4,5,6) nd_def])
  have "layer_ok d n (if l \<le> r then n + 1 else n) L r (put_node l ?j (Some nd) tree ! r) \<and> nx[l := ?j + 1] ! r = width (if l \<le> r then n + 1 else n) r"
    if r: "1 \<le> r \<and> r \<le> d" for r
  proof (cases "r = l")
    case True
    then show ?thesis using lay g(1,2) assms(6) width_Suc [of n l] by (simp add: put_node_def)
  next
    case False
    then have "(l \<le> r) = (Suc l \<le> r)" by auto
    then show ?thesis using g(5) [of r] r False by (simp add: put_node_def)
  qed
  then show ?thesis using g(1-4) assms(5) unfolding a by (simp add: grown_def put_node_def)
qed

lemma grown_down:
  assumes "grown d n L F k st" "\<forall>l. 1 \<le> l \<and> l < k \<longrightarrow> n = 0 \<or> \<not> 2 ^ l dvd n" "1 \<le> k"
  shows "grown d n L F 1 st"
  using assms
proof (induction k)
  case (Suc k)
  show ?case
  proof (cases "k = 0")
    case False
    then have "n = 0 \<or> \<not> 2 ^ k dvd n" using Suc.prems(2) by simp
    from grown_skip [OF Suc.prems(1) this] have g: "grown d n L F k st" .
    have "\<forall>l. 1 \<le> l \<and> l < k \<longrightarrow> n = 0 \<or> \<not> 2 ^ l dvd n" using Suc.prems(2) less_SucI by blast
    moreover have "1 \<le> k" using False by simp
    ultimately show ?thesis by (rule Suc.IH [OF g])
  next
    case True
    then show ?thesis using Suc.prems(1) by (simp only: One_nat_def)
  qed
qed simp

lemma upt_rev_Suc: "1 \<le> k \<Longrightarrow> rev [1..<Suc k] = k # rev [1..<k]"
  by simp

lemma add_inodes_grown:
  assumes "grown d n L F k st" "L \<subseteq> {..<n}" "0 < n" "\<forall>l < k. 2 ^ l dvd n" "1 \<le> k" "k \<le> d"
  shows "grown d n L F 1 (add_inodes (rev [1..<k]) st)"
  using assms
proof (induction k arbitrary: st)
  case (Suc k)
  show ?case
  proof (cases "k = 0")
    case False
    have "grown d n L F k (add_inode k st)" using grown_add [of d n L F k "fst st" "snd st"] Suc.prems False by simp
    then show ?thesis using Suc.IH Suc.prems False by (simp add: upt_rev_Suc)
  qed (use Suc.prems in simp)
qed simp

lemma add_some_grown:
  assumes "grown d n L F k st" "L \<subseteq> {..<n}" "0 < n \<or> k = 1" "1 \<le> k" "k \<le> d" "k \<le> 31"
  shows "\<exists>st'. add_some_inodes n (rev [1..<k]) st = Inr st' \<and> grown d n L F 1 st'"
  using assms
proof (induction k arbitrary: st)
  case (Suc k)
  show ?case
  proof (cases "k = 0")
    case False
    define st1 where "st1 = (if n mod 2 ^ k = 0 then add_inode k st else st)"
    have "grown d n L F k st1"
      using grown_add [of d n L F k "fst st" "snd st"] grown_skip [of d n L F k st] Suc.prems False by (auto simp: st1_def mod_eq_0_iff_dvd)
    then obtain st' where "add_some_inodes n (rev [1..<k]) st1 = Inr st'" "grown d n L F 1 st'"
      using Suc.IH [of st1] Suc.prems False by auto
    then show ?thesis using False Suc.prems(6) by (simp add: upt_rev_Suc int_shl_def st1_def)
  qed (use Suc.prems in auto)
qed simp

text \<open>The invariant between calls.\<close>

definition leaf_node :: "nat \<Rightarrow> bool \<Rightarrow> Node" where
  "leaf_node i mrk = new_Node\<lparr>sumLeft := 1, nodeIndex := i, isLeftNode := even i, node_parent := Some (i div 2), isMarked := mrk\<rparr>"

definition leaves_ok :: "nat set \<Rightarrow> (nat \<Rightarrow> bool) \<Rightarrow> layer \<Rightarrow> bool" where
  "leaves_ok L M f \<longleftrightarrow> (\<forall>i. f i = (if i \<in> L then Some (leaf_node i (M i)) else None))"

definition tree_ok :: "nat \<Rightarrow> nat \<Rightarrow> nat set \<Rightarrow> (nat \<Rightarrow> bool) \<Rightarrow> layer list \<times> nat list \<Rightarrow> bool" where
  "tree_ok d n L M st \<longleftrightarrow> 1 \<le> d \<and> leaves_ok L M (fst st ! 0) \<and> grown d n L (fst st ! 0) (Suc d) st \<and> L \<subseteq> {..<n} \<and> n \<le> 2 ^ d \<and> (d = 1 \<or> 2 ^ (d - 1) < n)"

lemma grow_root_grown:
  assumes "grown d n L F (Suc d) (tree, nx)" "L \<subseteq> {..<n}" "n = 2 ^ d" "1 \<le> d"
  shows "\<exists>st. grow_root (tree, nx) = Inr st \<and> grown (d + 1) n L F (d + 1) st"
proof -
  have g: "length tree = d + 1" "length nx = d + 1" "tree ! 0 = F" "nx ! 0 = n" "\<And>r. 1 \<le> r \<Longrightarrow> r \<le> d \<Longrightarrow> layer_ok d n n L r (tree ! r) \<and> nx ! r = width n r"
    using assms(1) by (simp_all add: grown_def)
  have fin: "finite L" using assms(2) finite_subset by blast
  have w: "width n d = 1" using assms(3) by (simp add: width_def)
  have "\<exists>nd. (tree ! d) 0 = Some nd \<and> inode_ok d n L d 0 nd" by (rule layer_ok_present [of d n n]) (use g(5) [of d] assms(4) w in auto)
  then obtain old where old: "(tree ! d) 0 = Some old" "inode_ok d n L d 0 old" by blast
  obtain k where k: "d = Suc k" using assms(4) by (cases d) auto
  define root where "root = new_Node\<lparr>sumLeft := sumRight old + sumLeft old, discardLeft := discardLeft old \<and> discardRight old\<rparr>"
  define tree1 where "tree1 = put_node d 0 (Some (old\<lparr>node_parent := Some 0\<rparr>)) tree @ [[0 \<mapsto> root]]"
  have gr: "grow_root (tree, nx) = Inr (tree1, nx @ [1])" using g(1) old(1) by (simp add: grow_root_def deref_def tree1_def root_def)
  have sums: "sumRight old + sumLeft old = cnt L d 0" using old(2) cnt_split [OF fin, of k 0] by (simp add: inode_ok_def k)
  have "inode_ok (d + 1) n L (d + 1) 0 root"
    using old(2) sums cnt_above_all [OF assms(2), of 1 d] assms(3) spent_both [OF fin, of n k 0]
    by (auto simp: inode_ok_def root_def new_Node_def k)
  moreover have "width (n + 1) (d + 1) = 1" using assms(3) by (simp add: width_def)
  ultimately have top: "layer_ok (d + 1) n (n + 1) L (d + 1) [0 \<mapsto> root]" by (simp add: layer_ok_def)
  have "layer_ok (d + 1) n n L r (tree1 ! r)" if r: "1 \<le> r" "r \<le> d" for r
    unfolding layer_ok_def
  proof
    fix j
    have f: "case (tree ! r) j of Some nd \<Rightarrow> j < width n r \<and> inode_ok d n L r j nd | None \<Rightarrow> j < width n r \<longrightarrow> r < d \<and> spent n L r j"
      using g(5) [OF r] unfolding layer_ok_def by blast
    show "case (tree1 ! r) j of Some nd \<Rightarrow> j < width n r \<and> inode_ok (d + 1) n L r j nd | None \<Rightarrow> j < width n r \<longrightarrow> r < d + 1 \<and> spent n L r j"
    proof (cases "r = d")
      case True
      then have t: "tree1 ! r = (tree ! d)(0 \<mapsto> old\<lparr>node_parent := Some 0\<rparr>)" using g(1) by (simp add: tree1_def put_node_def nth_append)
      have io: "inode_ok (d + 1) n L d 0 (old\<lparr>node_parent := Some 0\<rparr>)" using old(2) by (simp add: inode_ok_def)
      show ?thesis
      proof (cases "j = 0")
        case j: True
        show ?thesis unfolding t j using io w True by simp
      next
        case j: False
        have "((tree ! d)(0 \<mapsto> old\<lparr>node_parent := Some 0\<rparr>)) j = None" using f w j True by (simp split: option.splits)
        then show ?thesis unfolding t using w j True by simp
      qed
    next
      case False
      then have "tree1 ! r = tree ! r" using r g(1) by (simp add: tree1_def put_node_def nth_append)
      then show ?thesis using f False r(2) by (auto simp: inode_ok_def split: option.splits)
    qed
  qed
  then have "grown (d + 1) n L F (d + 1) (tree1, nx @ [1])"
    using g top assms(4) \<open>width (n + 1) (d + 1) = 1\<close>
    by (auto simp: grown_def tree1_def put_node_def nth_append le_Suc_eq split: if_splits)
  then show ?thesis using gr by blast
qed

lemma isPowerOf2_nat:
  assumes "n < 2 ^ 63"
  shows "isPowerOf2 (of_nat n :: 64 word) \<longleftrightarrow> (\<exists>k. n = 2 ^ k)"
proof -
  have u: "unat (of_nat n :: 64 word) = n" using assms by (simp add: unsigned_of_nat take_bit_nat_eq_self)
  have p: "unat (2 ^ k :: 64 word) = 2 ^ k" if "k < 64" for k
  proof -
    have "(2 :: nat) ^ k < 2 ^ 64" using that by (intro power_strict_increasing) simp_all
    then have "take_bit 64 ((2 :: nat) ^ k) = 2 ^ k" by (rule take_bit_nat_eq_self)
    then have "unat (of_nat (2 ^ k) :: 64 word) = 2 ^ k" unfolding unsigned_of_nat by simp
    then show ?thesis by simp
  qed
  show ?thesis
  proof
    assume "isPowerOf2 (of_nat n :: 64 word)"
    then obtain k where "k < 64" "(of_nat n :: 64 word) = 2 ^ k" by (auto simp: isPowerOf2_exp_iff)
    then show "\<exists>k. n = 2 ^ k" using u p by metis
  next
    assume "\<exists>k. n = 2 ^ k"
    then obtain k where k: "n = 2 ^ k" by blast
    have "(2 :: nat) ^ k < 2 ^ 63" using assms k by simp
    then have "k < 63" by (rule power_less_imp_less_exp [rotated]) simp
    then show "isPowerOf2 (of_nat n :: 64 word)" unfolding isPowerOf2_exp_iff k by (intro exI [of _ k]) simp
  qed
qed

definition deep_enough :: "nat \<Rightarrow> nat \<Rightarrow> bool" where
  "deep_enough d m \<longleftrightarrow> 1 \<le> d \<and> m \<le> 2 ^ d \<and> (d = 1 \<or> 2 ^ (d - 1) < m)"

lemma deep_le: "deep_enough d m \<Longrightarrow> m \<le> 2 ^ 31 \<Longrightarrow> d \<le> 31"
proof (cases "d = 1")
  case False
  assume a: "deep_enough d m" "m \<le> 2 ^ 31"
  then have "(2 :: nat) ^ (d - 1) < 2 ^ 31" using False by (simp add: deep_enough_def)
  then have "d - 1 < 31" by (rule power_less_imp_less_exp [rotated]) simp
  then show ?thesis by simp
qed simp

lemma tree_ok_deep: "tree_ok d n L M st \<longleftrightarrow> leaves_ok L M (fst st ! 0) \<and> grown d n L (fst st ! 0) (Suc d) st \<and> L \<subseteq> {..<n} \<and> deep_enough d n"
  by (auto simp: tree_ok_def deep_enough_def)

lemma deep_step: "deep_enough d n \<Longrightarrow> n \<noteq> 2 ^ d \<Longrightarrow> deep_enough d (n + 1)" "deep_enough d n \<Longrightarrow> n = 2 ^ d \<Longrightarrow> deep_enough (d + 1) (n + 1)"
  by (auto simp: deep_enough_def)

lemma prepare_ok:
  assumes "tree_ok d n L M (sd_tree s, nextIndex s)" "n = sd_index s" "n < 2 ^ 31"
  shows "\<exists>st d'. (if even (sd_index s) then updateTree s else Inr s) = Inr (s\<lparr>sd_tree := fst st, nextIndex := snd st\<rparr>) \<and>
    grown d' n L (sd_tree s ! 0) 1 st \<and> deep_enough d' (n + 1)"
proof -
  have t: "grown d n L (sd_tree s ! 0) (Suc d) (sd_tree s, nextIndex s)" "L \<subseteq> {..<n}" "deep_enough d n" using assms(1) by (simp_all add: tree_ok_deep)
  have d: "1 \<le> d" "n \<le> 2 ^ d" using t(3) by (simp_all add: deep_enough_def)
  have "n < 2 ^ 63" using assms(3) by simp
  from isPowerOf2_nat [OF this] have pow: "isPowerOf2 (of_nat (sd_index s) :: 64 word) \<longleftrightarrow> (\<exists>k. n = 2 ^ k)" unfolding assms(2) .
  consider "odd n" | "even n" "n = 2 ^ d" | "even n" "n \<noteq> 2 ^ d" by blast
  then show ?thesis
  proof cases
    case 1
    then have "\<forall>l. 1 \<le> l \<and> l < Suc d \<longrightarrow> n = 0 \<or> \<not> 2 ^ l dvd n" using dvd_trans [of 2 "2 ^ l" n for l] by (metis dvd_power less_le_trans zero_less_one)
    then have "grown d n L (sd_tree s ! 0) 1 (sd_tree s, nextIndex s)" using grown_down [OF t(1)] by simp
    moreover have "n \<noteq> 2 ^ d" using 1 d(1) by auto
    ultimately show ?thesis using 1 assms(2) deep_step(1) [OF t(3)] by (intro exI [of _ "(sd_tree s, nextIndex s)"] exI [of _ d]) simp
  next
    case 2
    obtain st where g: "grow_root (sd_tree s, nextIndex s) = Inr st" "grown (d + 1) n L (sd_tree s ! 0) (d + 1) st"
      using grow_root_grown [OF t(1,2) 2(2) d(1)] by blast
    have "\<forall>l < d + 1. 2 ^ l dvd n" using 2(2) by (simp add: le_imp_power_dvd)
    then have a: "grown (d + 1) n L (sd_tree s ! 0) 1 (add_inodes (rev [1..<d + 1]) st)"
      using add_inodes_grown [OF g(2) t(2)] 2(2) by simp
    have "length (fst st) - 1 = d + 1" using g(2) by (simp add: grown_def)
    moreover have "isPowerOf2 (of_nat (sd_index s) :: 64 word)" unfolding pow using 2(2) by (rule exI)
    ultimately have "updateTree s = Inr (s\<lparr>sd_tree := fst (add_inodes (rev [1..<d + 1]) st), nextIndex := snd (add_inodes (rev [1..<d + 1]) st)\<rparr>)"
      using g(1) by (simp add: updateTree_def case_prod_beta)
    then show ?thesis using a 2 assms(2) deep_step(2) [OF t(3)] by (intro exI [of _ "add_inodes (rev [1..<d + 1]) st"] exI [of _ "d + 1"]) (simp del: upt_Suc)
  next
    case 3
    have lt: "n < 2 ^ d" using 3(2) d(2) by simp
    have pos: "0 < n \<or> d = 1" using t(3) by (auto simp: deep_enough_def)
    have np: "\<not> isPowerOf2 (of_nat (sd_index s) :: 64 word)"
    proof
      assume "isPowerOf2 (of_nat (sd_index s) :: 64 word)"
      then obtain k where k: "n = 2 ^ k" unfolding pow by (rule exE)
      have "k < d" using lt unfolding k by (rule power_less_imp_less_exp [rotated]) simp
      moreover have "d \<noteq> 1" using 3(1) k \<open>k < d\<close> by (cases k) auto
      then have "2 ^ (d - 1) < (2 :: nat) ^ k" using t(3) by (simp add: deep_enough_def k)
      then have "d - 1 < k" by (rule power_less_imp_less_exp [rotated]) simp
      ultimately show False by simp
    qed
    have "n = 0 \<or> \<not> 2 ^ d dvd n" using lt by (meson dvd_imp_le gr0I not_less)
    from grown_skip [OF t(1) this] have gd: "grown d n L (sd_tree s ! 0) d (sd_tree s, nextIndex s)" .
    have "d \<le> 31" using deep_le [OF t(3)] assms(3) by simp
    then obtain st where a: "add_some_inodes n (rev [1..<d]) (sd_tree s, nextIndex s) = Inr st" "grown d n L (sd_tree s ! 0) 1 st"
      using add_some_grown [OF gd t(2) pos d(1) order_refl] by blast
    have "getTreeDepth s = d" using t(1) by (simp add: grown_def getTreeDepth_def)
    then have "updateTree s = Inr (s\<lparr>sd_tree := fst st, nextIndex := snd st\<rparr>)" using a(1) np assms(2) by (simp add: updateTree_def case_prod_beta)
    then show ?thesis using a(2) 3 assms(2) deep_step(1) [OF t(3)] by (intro exI [of _ st] exI [of _ d]) simp
  qed
qed

lemma within_width: "i < m \<Longrightarrow> \<forall>l. i div 2 ^ l < width m l"
  by (auto simp: width_def less_Suc_eq_le intro!: div_le_mono)

lemma live_not_spent: "i \<in> L \<Longrightarrow> finite L \<Longrightarrow> \<forall>l. \<not> spent n L l (i div 2 ^ l)"
  by (auto simp: spent_def cnt_alt)

lemma fresh_not_spent: "\<forall>l. \<not> spent n L l (n div 2 ^ l)"
proof
  fix l
  have "n < (n div 2 ^ l + 1) * 2 ^ l" using block_mem [of n "n div 2 ^ l" l] by auto
  then show "\<not> spent n L l (n div 2 ^ l)" by (simp add: spent_def)
qed

lemma put_leaf_layers: "put_node 0 i x tree ! l = (if l = 0 \<and> tree \<noteq> [] then (tree ! 0)(i := x) else tree ! l)" "length (put_node 0 i x tree) = length tree"
  by (cases tree; simp add: put_node_def nth_list_update)+

lemma add_leaf_ok:
  assumes "tree_ok d n L M (sd_tree s, nextIndex s)" "n = sd_index s" "n < 2 ^ 31"
  shows "\<exists>tree nx d'. add_leaf s = Inr (s\<lparr>sd_tree := tree, nextIndex := nx\<rparr>) \<and> tree_ok d' (n + 1) (insert n L) (M(n := False)) (tree, nx)"
proof -
  have t: "leaves_ok L M (sd_tree s ! 0)" "L \<subseteq> {..<n}" using assms(1) by (simp_all add: tree_ok_def)
  have fin: "finite L" using t(2) finite_subset by blast
  obtain st d' where p: "(if even (sd_index s) then updateTree s else Inr s) = Inr (s\<lparr>sd_tree := fst st, nextIndex := snd st\<rparr>)"
    "grown d' n L (sd_tree s ! 0) 1 st" "deep_enough d' (n + 1)" using prepare_ok [OF assms] by blast
  have d': "1 \<le> d'" "d' \<le> 31" using p(3) deep_le [OF p(3)] assms(3) by (simp_all add: deep_enough_def)
  have g: "length (fst st) = d' + 1" "length (snd st) = d' + 1" "fst st ! 0 = sd_tree s ! 0" "snd st ! 0 = n"
    "\<And>l. 1 \<le> l \<Longrightarrow> l \<le> d' \<Longrightarrow> layer_ok d' n (n + 1) L l (fst st ! l) \<and> snd st ! l = width (n + 1) l"
    using p(2) by (simp_all add: grown_def)
  have up: "snd st ! 1 - 1 = n div 2" using g(5) [of 1] d'(1) width_Suc [of n 1] by simp
  have "\<exists>nd. (fst st ! 1) (n div 2) = Some nd \<and> inode_ok d' n L 1 (n div 2) nd"
    by (rule layer_ok_present [of d' n "n + 1"]) (use g(5) [of 1] d'(1) within_width [of n "n + 1"] fresh_not_spent [of n L] in \<open>auto dest: spec [where x = 1]\<close>)
  then have par: "(fst st ! 1) (n div 2) \<noteq> None" by blast
  define tree1 where "tree1 = put_node 0 n (Some (leaf_node n False)) (fst st)"
  have "{x \<in> insert n L. x div 2 ^ 0 = n div 2 ^ 0} = {n}" by auto
  then have "cnt (insert n L) 0 (n div 2 ^ 0) = 1" by (simp add: cnt_alt)
  then obtain tree2 where u: "updateSum (verifyStack s) (n div 2) (even n) 1 0 0 False tree1 = Inr (above L n d', tree2)" "length tree2 = d' + 1" "tree2 ! 0 = tree1 ! 0"
    "\<forall>l. 1 \<le> l \<and> l \<le> d' \<longrightarrow> layer_ok d' (n + 1) (n + 1) (insert n L) l (tree2 ! l)"
    using updateSum_ok [of tree1 d' 0 "n + 1" "n + 1" "insert n L" n L n False "verifyStack s"] g d' fin within_width [of n "n + 1"] fresh_not_spent [of n L]
    by (auto simp: tree1_def put_leaf_layers above_0)
  have ne: "fst st \<noteq> []" using g(1) by auto
  have nn: "put_node 0 n (Some a) (put_node 0 n (Some b) (fst st)) = put_node 0 n (Some a) (fst st)" for a b
    using ne by (simp add: put_node_def)
  have "add_leaf s = Inr (s\<lparr>sd_tree := tree2, nextIndex := (snd st)[0 := n + 1]\<rparr>)"
    unfolding add_leaf_def p(1) using u(1) g(4) ne par up
    by (simp add: assms(2) [symmetric] Let_def updateSumsLeavesToRoot_def deref_def put_leaf_layers nn leaf_node_def tree1_def new_Node_def)
  moreover have "leaves_ok (insert n L) (M(n := False)) (tree2 ! 0)" using t g(3) u(3) ne by (auto simp: leaves_ok_def tree1_def put_leaf_layers)
  moreover have "(snd st)[0 := n + 1] ! l = width (n + 1) l" if "1 \<le> l" "l \<le> d'" for l using g(5) [OF that] that by simp
  moreover have "snd st \<noteq> []" using g(2) by auto
  ultimately show ?thesis using u p(3) g(2) t(2)
    by (intro exI [of _ tree2] exI [of _ "(snd st)[0 := n + 1]"] exI [of _ d']) (auto simp: tree_ok_deep grown_def)
qed

lemma remove_leaf_ok:
  assumes "tree_ok d n L M (sd_tree s, nextIndex s)" "n \<le> 2 ^ 31" "aiMap s a = Some i" "i \<in> L"
  shows "\<exists>tree. remove_leaf a new s = Inr (card {x \<in> L. i < x}, M i, s\<lparr>aiMap := (aiMap s)(a := if new then Some (sd_index s) else None), sd_tree := tree\<rparr>) \<and>
    tree_ok d n (L - {i}) M (tree, nextIndex s)"
proof -
  have t: "leaves_ok L M (sd_tree s ! 0)" "L \<subseteq> {..<n}" "deep_enough d n" "grown d n L (sd_tree s ! 0) (Suc d) (sd_tree s, nextIndex s)"
    using assms(1) by (simp_all add: tree_ok_deep)
  have fin: "finite L" using t(2) finite_subset by blast
  have i: "i < n" using assms(4) t(2) by blast
  have d: "1 \<le> d" "d \<le> 31" "n \<le> 2 ^ d" using t(3) deep_le [OF t(3)] assms(2) by (simp_all add: deep_enough_def)
  have g: "length (sd_tree s) = d + 1" "length (nextIndex s) = d + 1" "nextIndex s ! 0 = n"
    "\<And>l. 1 \<le> l \<Longrightarrow> l \<le> d \<Longrightarrow> layer_ok d n n L l (sd_tree s ! l) \<and> nextIndex s ! l = width n l"
    using t(4) by (simp_all add: grown_def)
  define tree1 where "tree1 = put_node 0 i (Some ((leaf_node i (M i))\<lparr>sumLeft := 0\<rparr>)) (sd_tree s)"
  have "cnt (L - {i}) 0 (i div 2 ^ 0) = 0" by (auto simp: cnt_alt card_eq_0_iff)
  then obtain tree2 where u: "updateSum (verifyStack s) (i div 2) (even i) 0 0 0 True tree1 = Inr (above L i d, tree2)" "length tree2 = d + 1" "tree2 ! 0 = tree1 ! 0"
    "\<forall>l. 1 \<le> l \<and> l \<le> d \<longrightarrow> layer_ok d n n (L - {i}) l (tree2 ! l)"
    using updateSum_ok [of tree1 d 0 n n "L - {i}" n L i True "verifyStack s"] g d fin i within_width [OF i] live_not_spent [OF assms(4) fin]
    by (auto simp: tree1_def put_leaf_layers above_0 spent_def)
  have ne: "sd_tree s \<noteq> []" using g(1) by auto
  have leaf: "(sd_tree s ! 0) i = Some (leaf_node i (M i))" using t(1) assms(4) by (simp add: leaves_ok_def)
  have "updateSumsLeavesToRoot (verifyStack s) i False (sd_tree s) = Inr (above L i d, tree2)"
    using u(1) leaf ne by (simp add: updateSumsLeavesToRoot_def deref_def Let_def tree1_def leaf_node_def)
  moreover have "deref tree2 0 i = Inr ((leaf_node i (M i))\<lparr>sumLeft := 0\<rparr>)" using u(2,3) ne by (simp add: deref_def tree1_def put_leaf_layers)
  ultimately have "remove_leaf a new s = Inr (card {x \<in> L. i < x}, M i, s\<lparr>aiMap := (aiMap s)(a := if new then Some (sd_index s) else None), sd_tree := put_node 0 i None tree2\<rparr>)"
    using assms(3) above_top [OF t(2) d(3) i] by (simp add: remove_leaf_def leaf_node_def)
  moreover have "leaves_ok (L - {i}) M (put_node 0 i None tree2 ! 0)" using t(1) u(2,3) ne by (auto simp: leaves_ok_def tree1_def put_leaf_layers)
  ultimately show ?thesis using u g t d
    by (intro exI [of _ "put_node 0 i None tree2"]) (auto simp: tree_ok_deep grown_def put_leaf_layers)
qed

lemma mark_leaf_ok:
  assumes "tree_ok d n L M (tree, nx)" "i \<in> L"
  shows "tree_ok d n L (M(i := b)) (put_node 0 i (Some ((leaf_node i (M i))\<lparr>isMarked := b\<rparr>)) tree, nx)"
    "deref tree 0 i = Inr (leaf_node i (M i))"
    "n \<le> 2 ^ d \<Longrightarrow> getSumsLeavesToRoot i tree = Inr (card {x \<in> L. i < x})"
proof -
  have t: "leaves_ok L M (tree ! 0)" "L \<subseteq> {..<n}" "deep_enough d n" "grown d n L (tree ! 0) (Suc d) (tree, nx)"
    using assms(1) by (simp_all add: tree_ok_deep)
  then have g: "length tree = d + 1" "\<forall>l. 1 \<le> l \<and> l \<le> d \<longrightarrow> layer_ok d n n L l (tree ! l)" by (simp_all add: grown_def)
  have ne: "tree \<noteq> []" using g(1) by auto
  have fin: "finite L" using t(2) finite_subset by blast
  have i: "i < n" using assms(2) t(2) by blast
  show dr: "deref tree 0 i = Inr (leaf_node i (M i))" using t(1) ne assms(2) by (simp add: deref_def leaves_ok_def)
  show "tree_ok d n L (M(i := b)) (put_node 0 i (Some ((leaf_node i (M i))\<lparr>isMarked := b\<rparr>)) tree, nx)"
    using t ne assms(2) by (auto simp: tree_ok_deep grown_def put_leaf_layers leaves_ok_def leaf_node_def)
  have "getSum (i div 2 ^ Suc 0) (even (i div 2 ^ 0)) 0 (above L i 0) 0 tree = Inr (above L i d)"
    using t(3) by (intro getSum_ok [OF g fin _ within_width [OF i] live_not_spent [OF assms(2) fin]]) (simp add: deep_enough_def)
  then show "getSumsLeavesToRoot i tree = Inr (card {x \<in> L. i < x})" if "n \<le> 2 ^ d"
    using dr above_top [OF t(2) that i] by (simp add: getSumsLeavesToRoot_def leaf_node_def above_0)
qed

lemma climb_ok:
  assumes "length tree = d + 1" "\<forall>l. 1 \<le> l \<and> l \<le> d \<longrightarrow> layer_ok d n n L l (tree ! l)" "\<forall>l. i div 2 ^ l < width n l" "\<forall>l. \<not> spent n L l (i div 2 ^ l)"
    "1 \<le> l" "l \<le> d" "inode_ok d n L l (i div 2 ^ l) nd"
  shows "\<exists>r. climb (d - l) l nd tree = Inr r \<and> node_parent r = None"
  using assms(5-7)
proof (induction "d - l" arbitrary: l nd)
  case 0
  then show ?case by (simp add: inode_ok_def)
next
  case (Suc k)
  have ld: "l \<noteq> d" "d - l = Suc (d - Suc l)" using Suc.hyps(2) by auto
  have p: "node_parent nd = Some (i div 2 ^ Suc l)" using Suc.prems(3) ld(1) unfolding inode_ok_def div_Suc_exp by simp
  have "\<exists>m. (tree ! Suc l) (i div 2 ^ Suc l) = Some m \<and> inode_ok d n L (Suc l) (i div 2 ^ Suc l) m"
    by (rule layer_ok_present [of d n n]) (use assms(2) spec [OF assms(3), of "Suc l"] spec [OF assms(4), of "Suc l"] ld(2) Suc.hyps(2) in auto)
  then obtain m where m: "(tree ! Suc l) (i div 2 ^ Suc l) = Some m" "inode_ok d n L (Suc l) (i div 2 ^ Suc l) m" by blast
  have "\<exists>r. climb (d - Suc l) (Suc l) m tree = Inr r \<and> node_parent r = None"
    by (rule Suc.hyps(1)) (use Suc.hyps(2) Suc.prems m(2) in auto)
  moreover have "deref tree (l + 1) (i div 2 ^ Suc l) = Inr m" using m(1) assms(1) Suc.hyps(2) by (simp add: deref_def)
  ultimately show ?case unfolding ld(2) climb.simps p by simp
qed

lemma sanityCheckTree_ok:
  assumes "tree_ok d n L M (tree, nx)" "i \<in> L"
  shows "sanityCheckTree i tree = Inr ()"
proof -
  have t: "L \<subseteq> {..<n}" "1 \<le> d" "length tree = d + 1" "\<forall>l. 1 \<le> l \<and> l \<le> d \<longrightarrow> layer_ok d n n L l (tree ! l)"
    using assms(1) by (simp_all add: tree_ok_def grown_def)
  have w: "\<forall>l. i div 2 ^ l < width n l" using assms(2) t(1) by (intro within_width) blast
  have sp: "\<forall>l. \<not> spent n L l (i div 2 ^ l)" using live_not_spent [OF assms(2)] t(1) finite_subset by blast
  have "\<exists>m. (tree ! 1) (i div 2 ^ 1) = Some m \<and> inode_ok d n L 1 (i div 2 ^ 1) m"
    by (rule layer_ok_present [of d n n]) (use t(2,4) spec [OF w, of 1] spec [OF sp, of 1] in auto)
  then obtain m where m: "(tree ! 1) (i div 2 ^ 1) = Some m" "inode_ok d n L 1 (i div 2 ^ 1) m" by blast
  obtain r where "climb (d - 1) 1 m tree = Inr r" "node_parent r = None" using climb_ok [OF t(3,4) w sp _ t(2) m(2)] by auto
  moreover have "deref tree 1 (i div 2) = Inr m" using m(1) t(2,3) by (simp add: deref_def)
  ultimately show ?thesis using mark_leaf_ok(2) [OF assms] t(3) by (simp add: sanityCheckTree_def leaf_node_def)
qed

subsection \<open>The reuse stack\<close>

text \<open>What the calculator promises: the distance of an address is its position in the stack of the addresses accessed, most recent first, each with its mark.\<close>

datatype sd_op = Access addr | Forget addr | Query addr bool

fun stack_pos :: "addr \<Rightarrow> (addr \<times> bool) list \<Rightarrow> (nat \<times> bool) option" where
  "stack_pos a [] = None"
| "stack_pos a ((b, m) # xs) = (if b = a then Some (0, m) else map_option (\<lambda>(d, k). (d + 1, k)) (stack_pos a xs))"

definition reuse_of :: "addr \<Rightarrow> (addr \<times> bool) list \<Rightarrow> nat \<times> bool" where
  "reuse_of a xs = (case stack_pos a xs of None \<Rightarrow> (Infinity, False) | Some r \<Rightarrow> r)"

fun reuse_step :: "sd_op \<Rightarrow> (addr \<times> bool) list \<Rightarrow> (nat \<times> bool) \<times> (addr \<times> bool) list" where
  "reuse_step (Access a) xs = (reuse_of a xs, (a, False) # filter (\<lambda>e. fst e \<noteq> a) xs)"
| "reuse_step (Forget a) xs = (reuse_of a xs, filter (\<lambda>e. fst e \<noteq> a) xs)"
| "reuse_step (Query a m) xs = (reuse_of a xs, map (\<lambda>e. if fst e = a then (a, m) else e) xs)"

fun sd_step :: "sd_op \<Rightarrow> StackDistCalc \<Rightarrow> ((nat \<times> bool) \<times> StackDistCalc) result" where
  "sd_step (Access a) s = calcStackDistAndUpdate a True s"
| "sd_step (Forget a) s = calcStackDistAndUpdate a False s"
| "sd_step (Query a m) s = calcStackDist a m s"

text \<open>The accesses the calculator holds, with the index of each: the stack the tree stands for.\<close>

type_synonym history = "(addr \<times> nat \<times> bool) list"

definition live :: "history \<Rightarrow> nat set" where "live es = (\<lambda>e. fst (snd e)) ` set es"

definition marks :: "history \<Rightarrow> nat \<Rightarrow> bool" where "marks es i \<longleftrightarrow> (i, True) \<in> snd ` set es"

definition recency :: "history \<Rightarrow> (addr \<times> bool) list" where "recency es = map (\<lambda>e. (fst e, snd (snd e))) es"

definition history_ok :: "history \<Rightarrow> bool" where
  "history_ok es \<longleftrightarrow> sorted_wrt (\<lambda>e f. fst (snd f) < fst (snd e)) es \<and> distinct (map fst es)"

definition sd_ok :: "StackDistCalc \<Rightarrow> history \<Rightarrow> bool" where
  "sd_ok s es \<longleftrightarrow> history_ok es \<and> aiMap s = map_of (map (\<lambda>e. (fst e, fst (snd e))) es) \<and> (verifyStack s \<longrightarrow> sd_stack s = rev (map fst es)) \<and>
     (\<exists>d. tree_ok d (sd_index s) (live es) (marks es) (sd_tree s, nextIndex s))"

lemma tree_ok_marks: "\<forall>i\<in>L. M i = M' i \<Longrightarrow> tree_ok d n L M st = tree_ok d n L M' st"
  by (simp add: tree_ok_def leaves_ok_def cong: if_cong)

lemma history_split:
  assumes "history_ok es" "es = pre @ (a, i, m) # post"
  shows "card {x \<in> live es. i < x} = length pre" "stack_pos a (recency es) = Some (length pre, m)"
    "filter (\<lambda>e. fst e \<noteq> a) es = pre @ post" "search_stack a (map fst es) d = Some (d + length pre, map fst (pre @ post))" "marks es i = m"
    "live (pre @ post) = live es - {i}" "history_ok (pre @ post)"
    "map_of (map (\<lambda>e. (fst e, fst (snd e))) es) a = Some i"
proof -
  have h: "sorted_wrt (\<lambda>e f. fst (snd f) < fst (snd e)) (pre @ (a, i, m) # post)" "distinct (map fst (pre @ (a, i, m) # post))"
    using assms unfolding history_ok_def by simp_all
  have s: "\<forall>e\<in>set pre. i < fst (snd e)" "\<forall>e\<in>set post. fst (snd e) < i" "sorted_wrt (\<lambda>e f. fst (snd f) < fst (snd e)) pre"
    "sorted_wrt (\<lambda>e f. fst (snd f) < fst (snd e)) (pre @ post)"
    using h(1) by (simp_all add: sorted_wrt_append)
  have k: "a \<notin> fst ` set pre" "a \<notin> fst ` set post" "distinct (map fst (pre @ post))" using h(2) by simp_all
  have keys: "\<forall>e\<in>set pre. fst e \<noteq> a" using k(1) by auto
  have pi: "i < j" if "(b, j, k) \<in> set pre" for b j k using s(1) that by auto
  have qi: "j < i" if "(b, j, k) \<in> set post" for b j k using s(2) that by auto
  have "sorted_wrt (\<lambda>x y. y < x) (map (\<lambda>e. fst (snd e)) pre)" using s(3) by (simp add: sorted_wrt_map)
  then have "distinct (map (\<lambda>e. fst (snd e)) pre)" by (induction pre) auto
  moreover have "{x \<in> live es. i < x} = set (map (\<lambda>e. fst (snd e)) pre)" unfolding assms(2) live_def by (auto dest: pi qi)
  ultimately show "card {x \<in> live es. i < x} = length pre" using distinct_card [of "map (\<lambda>e. fst (snd e)) pre"] by simp
  show "stack_pos a (recency es) = Some (length pre, m)" using keys unfolding assms(2) recency_def by (induction pre) auto
  show "search_stack a (map fst es) d = Some (d + length pre, map fst (pre @ post))"
    using keys unfolding assms(2) by (induction pre arbitrary: d) auto
  show "map_of (map (\<lambda>e. (fst e, fst (snd e))) es) a = Some i"
    using keys unfolding assms(2) by (induction pre) auto
  have "filter (\<lambda>e. fst e \<noteq> a) xs = xs" if "a \<notin> fst ` set xs" for xs :: history using that by (induction xs) auto
  then show "filter (\<lambda>e. fst e \<noteq> a) es = pre @ post" using k(1,2) unfolding assms(2) by simp
  show "marks es i = m" unfolding assms(2) marks_def by (auto dest: pi qi)
  show "live (pre @ post) = live es - {i}" unfolding assms(2) live_def by (auto dest: pi qi)
  show "history_ok (pre @ post)" using s(4) k(3) by (simp add: history_ok_def)
qed

lemma history_absent:
  assumes "a \<notin> fst ` set es"
  shows "stack_pos a (recency es) = None" "filter (\<lambda>e. fst e \<noteq> a) es = es" "search_stack a (map fst es) d = None"
    "map_of (map (\<lambda>e. (fst e, fst (snd e))) es) a = None"
proof -
  show "stack_pos a (recency es) = None" using assms unfolding recency_def by (induction es) auto
  show "search_stack a (map fst es) d = None" using assms by (induction es arbitrary: d) auto
  show "filter (\<lambda>e. fst e \<noteq> a) es = es" using assms by (induction es) auto
  show "map_of (map (\<lambda>e. (fst e, fst (snd e))) es) a = None" using assms by (induction es) auto
qed

definition without :: "addr \<Rightarrow> history \<Rightarrow> history" where "without a es = filter (\<lambda>e. fst e \<noteq> a) es"

definition remark :: "addr \<Rightarrow> bool \<Rightarrow> history \<Rightarrow> history" where
  "remark a m es = map (\<lambda>e. if fst e = a then (a, fst (snd e), m) else e) es"

lemma recency_ops: "recency (without a es) = filter (\<lambda>e. fst e \<noteq> a) (recency es)" "recency (e # es) = (fst e, snd (snd e)) # recency es"
  "recency (remark a m es) = map (\<lambda>e. if fst e = a then (a, m) else e) (recency es)"
  by (induction es) (auto simp: recency_def without_def remark_def)

lemma index_ops: "map_of (map (\<lambda>e. (fst e, fst (snd e))) (without a es)) = (map_of (map (\<lambda>e. (fst e, fst (snd e))) es))(a := None)"
  "map (\<lambda>e. (fst e, fst (snd e))) (remark a m es) = map (\<lambda>e. (fst e, fst (snd e))) es"
  by (induction es) (auto simp: without_def remark_def fun_eq_iff)

lemma remark_keeps: "map fst (remark a m es) = map fst es" "live (remark a m es) = live es" "history_ok (remark a m es) = history_ok es"
proof -
  show f: "map fst (remark a m es) = map fst es" by (simp add: remark_def)
  have idx: "map (\<lambda>e. fst (snd e)) (remark a m es) = map (\<lambda>e. fst (snd e)) es" by (simp add: remark_def)
  then show "live (remark a m es) = live es" unfolding live_def by (metis list.set_map)
  have "sorted_wrt (\<lambda>e f. fst (snd f) < fst (snd e)) xs = sorted_wrt (\<lambda>x y. y < x) (map (\<lambda>e. fst (snd e)) xs)" for xs :: history
    by (simp add: sorted_wrt_map)
  then show "history_ok (remark a m es) = history_ok es" using f idx by (simp add: history_ok_def)
qed

lemma remark_absent: "a \<notin> fst ` set es \<Longrightarrow> remark a m es = es"
  by (induction es) (auto simp: remark_def)

lemma isMarked_leaf: "isMarked (leaf_node i m) = m"
  by (simp add: leaf_node_def)

lemma history_cases:
  obtains (present) pre i m post where "es = pre @ (a, i, m) # post" | (absent) "a \<notin> fst ` set es"
proof (cases "a \<in> fst ` set es")
  case True
  then obtain i m where "(a, i, m) \<in> set es" by auto
  then show ?thesis using present by (meson split_list)
qed (rule absent)

lemma sd_ok_present:
  assumes "sd_ok s es" "es = pre @ (a, i, m) # post"
  shows "aiMap s a = Some i" "i \<in> live es" "marks es i = m" "reuse_of a (recency es) = (card {x \<in> live es. i < x}, m)"
proof -
  have h: "history_ok es" "aiMap s = map_of (map (\<lambda>e. (fst e, fst (snd e))) es)" using assms(1) by (simp_all add: sd_ok_def)
  note sp = history_split [OF h(1) assms(2)]
  show "aiMap s a = Some i" using h(2) sp(8) by simp
  show "i \<in> live es" by (simp add: live_def assms(2))
  show "marks es i = m" by (rule sp(5))
  show "reuse_of a (recency es) = (card {x \<in> live es. i < x}, m)" using sp(1,2) by (simp add: reuse_of_def)
qed

lemma sd_ok_absent:
  assumes "sd_ok s es" "a \<notin> fst ` set es"
  shows "aiMap s a = None" "reuse_of a (recency es) = (Infinity, False)" "without a es = es"
  using assms history_absent [OF assms(2)] by (simp_all add: sd_ok_def reuse_of_def without_def)

lemma verifyStackDist_ok:
  assumes "sd_ok s es" "sd_stack s' = sd_stack s" "verifyStack s"
  shows "verifyStackDist a upd s' = (fst (reuse_of a (recency es)), if upd then s'\<lparr>sd_stack := rev (map fst (without a es)) @ [a]\<rparr> else s')"
proof -
  have h: "history_ok es" "sd_stack s' = rev (map fst es)" using assms by (simp_all add: sd_ok_def)
  show ?thesis
  proof (cases es rule: history_cases [of _ a])
    case (present pre i m post)
    note sp = history_split [OF h(1) present]
    show ?thesis using sp(2,3) sp(4) [of 0] h(2) by (simp add: verifyStackDist_def reuse_of_def without_def)
  next
    case absent
    note ab = history_absent [OF this]
    show ?thesis using ab(1,2) ab(3) [of 0] h(2) by (simp add: verifyStackDist_def reuse_of_def without_def)
  qed
qed

lemma remove_ok:
  assumes "sd_ok s es" "sd_index s \<le> 2 ^ 31"
  shows "\<exists>tree d. remove_leaf a new s = Inr (fst (reuse_of a (recency es)), snd (reuse_of a (recency es)),
      s\<lparr>aiMap := (aiMap s)(a := if new then Some (sd_index s) else None), sd_tree := tree\<rparr>) \<and>
    tree_ok d (sd_index s) (live (without a es)) (marks (without a es)) (tree, nextIndex s) \<and> history_ok (without a es)"
proof -
  obtain d where t: "tree_ok d (sd_index s) (live es) (marks es) (sd_tree s, nextIndex s)" and h: "history_ok es" using assms(1) by (auto simp: sd_ok_def)
  show ?thesis
  proof (cases es rule: history_cases [of _ a])
    case (present pre i m post)
    note sp = history_split [OF h present] and pr = sd_ok_present [OF assms(1) present]
    have w: "without a es = pre @ post" using sp(3) by (simp add: without_def)
    have "marks (pre @ post) x = marks es x" if "x \<in> live es - {i}" for x using that by (auto simp: marks_def present)
    then have "tree_ok d (sd_index s) (live es - {i}) (marks es) st = tree_ok d (sd_index s) (live es - {i}) (marks (pre @ post)) st" for st
      by (intro tree_ok_marks) simp
    then show ?thesis using remove_leaf_ok [OF t assms(2) pr(1,2), of new] sp(6,7) pr(3,4) w by auto
  next
    case absent
    note ab = sd_ok_absent [OF assms(1) this]
    have "remove_leaf a new s = Inr (Infinity, False, s\<lparr>aiMap := (aiMap s)(a := if new then Some (sd_index s) else None), sd_tree := sd_tree s\<rparr>)"
      using ab(1) by (auto simp: remove_leaf_def fun_upd_idem)
    then show ?thesis using ab t h by (intro exI [of _ "sd_tree s"] exI [of _ d]) simp
  qed
qed

lemma forget_ok:
  assumes "sd_ok s es" "sd_index s \<le> 2 ^ 31" "\<not> verifyStack s"
  shows "\<exists>s'. calcStackDistAndUpdate a False s = Inr (reuse_of a (recency es), s') \<and> sd_ok s' (without a es) \<and> sd_index s' = sd_index s \<and> verifyStack s' = verifyStack s"
proof -
  obtain tree d where r: "remove_leaf a False s = Inr (fst (reuse_of a (recency es)), snd (reuse_of a (recency es)), s\<lparr>aiMap := (aiMap s)(a := None), sd_tree := tree\<rparr>)"
    "tree_ok d (sd_index s) (live (without a es)) (marks (without a es)) (tree, nextIndex s)" "history_ok (without a es)"
    using remove_ok [OF assms(1,2), of a False] by auto
  have "sd_ok (s\<lparr>aiMap := (aiMap s)(a := None), sd_tree := tree\<rparr>) (without a es)" using r(2,3) assms(1,3) by (auto simp: sd_ok_def index_ops)
  then show ?thesis using r(1) by (simp add: calcStackDistAndUpdate_def)
qed

lemma query_ok:
  assumes "sd_ok s es"
  shows "\<exists>s'. calcStackDist a m s = Inr (reuse_of a (recency es), s') \<and> sd_ok s' (remark a m es) \<and> sd_index s' = sd_index s \<and> verifyStack s' = verifyStack s"
proof -
  obtain d where t: "tree_ok d (sd_index s) (live es) (marks es) (sd_tree s, nextIndex s)" and h: "history_ok es" using assms(1) by (auto simp: sd_ok_def)
  show ?thesis
  proof (cases es rule: history_cases [of _ a])
    case (present pre i k post)
    note sp = history_split [OF h present] and pr = sd_ok_present [OF assms(1) present]
    define tree where "tree = put_node 0 i (Some ((leaf_node i k)\<lparr>isMarked := m\<rparr>)) (sd_tree s)"
    have t1: "tree_ok d (sd_index s) (live es) ((marks es)(i := m)) (tree, nextIndex s)" using mark_leaf_ok(1) [OF t pr(2)] by (simp add: tree_def pr(3))
    have "sd_index s \<le> 2 ^ d" using t by (simp add: tree_ok_def)
    from mark_leaf_ok(3) [OF t1 pr(2) this] have g: "getSumsLeavesToRoot i tree = Inr (card {x \<in> live es. i < x})" .
    have "a \<notin> fst ` set pre" "a \<notin> fst ` set post" using h unfolding present history_ok_def by simp_all
    from this [THEN remark_absent [of _ _ m]] have rm: "remark a m es = pre @ (a, i, m) # post" unfolding present by (simp add: remark_def)
    have "marks (remark a m es) x = ((marks es)(i := m)) x" if "x \<in> live es" for x
    proof (cases "x = i")
      case True
      have "history_ok (remark a m es)" using h by (simp add: remark_keeps)
      then show ?thesis using history_split(5) [OF _ rm] True by simp
    next
      case False
      moreover have "marks es x \<longleftrightarrow> (x, True) \<in> snd ` set (pre @ (a, i, k) # post)" unfolding marks_def present ..
      moreover have "marks (remark a m es) x \<longleftrightarrow> (x, True) \<in> snd ` set (pre @ (a, i, m) # post)" unfolding rm by (simp only: marks_def)
      ultimately show ?thesis by auto
    qed
    then have "tree_ok d (sd_index s) (live es) (marks (remark a m es)) (tree, nextIndex s)"
      using t1 tree_ok_marks [of "live es" "marks (remark a m es)" "(marks es)(i := m)"] by blast
    then have ok: "sd_ok (s\<lparr>sd_tree := tree\<rparr>) (remark a m es)" using assms by (auto simp: sd_ok_def remark_keeps index_ops)
    have "fst (verifyStackDist a False (s\<lparr>sd_tree := tree\<rparr>)) = fst (reuse_of a (recency es))" if "verifyStack s"
      using verifyStackDist_ok [OF assms _ that, of "s\<lparr>sd_tree := tree\<rparr>" a False] by simp
    then have "calcStackDist a m s = Inr (reuse_of a (recency es), s\<lparr>sd_tree := tree\<rparr>)"
      using pr(1,3,4) g mark_leaf_ok(2) [OF t pr(2)] unfolding calcStackDist_def by (simp add: Let_def tree_def [symmetric] isMarked_leaf)
    then show ?thesis using ok by simp
  next
    case absent
    note ab = sd_ok_absent [OF assms(1) this]
    have "fst (verifyStackDist a False s) = Infinity" if "verifyStack s" using verifyStackDist_ok [OF assms refl that, of a False] ab(2) by simp
    then show ?thesis using ab assms remark_absent [OF absent, of m] by (auto simp: calcStackDist_def)
  qed
qed

lemma access_ok:
  assumes "sd_ok s es" "sd_index s < 2 ^ 31"
  shows "\<exists>s'. calcStackDistAndUpdate a True s = Inr (reuse_of a (recency es), s') \<and> sd_ok s' ((a, sd_index s, False) # without a es) \<and>
    sd_index s' = sd_index s + 1 \<and> verifyStack s' = verifyStack s"
proof -
  define n w where "n = sd_index s" and "w = without a es"
  define s1 where "s1 tree = s\<lparr>aiMap := (aiMap s)(a \<mapsto> n), sd_tree := tree\<rparr>" for tree
  obtain tree d where r: "remove_leaf a True s = Inr (fst (reuse_of a (recency es)), snd (reuse_of a (recency es)), s1 tree)"
    "tree_ok d n (live w) (marks w) (tree, nextIndex s)" "history_ok w"
    using remove_ok [OF assms(1), of a True] assms(2) by (auto simp: n_def w_def s1_def)
  have "tree_ok d n (live w) (marks w) (sd_tree (s1 tree), nextIndex (s1 tree))" "n = sd_index (s1 tree)" "n < 2 ^ 31"
    using r(2) assms(2) by (simp_all add: s1_def n_def)
  from add_leaf_ok [OF this] obtain tree2 nx d' where add: "add_leaf (s1 tree) = Inr ((s1 tree)\<lparr>sd_tree := tree2, nextIndex := nx\<rparr>)"
    "tree_ok d' (n + 1) (insert n (live w)) ((marks w)(n := False)) (tree2, nx)" by blast
  define s2 where "s2 = (s1 tree)\<lparr>sd_tree := tree2, nextIndex := nx\<rparr>"
  define s3 where "s3 = (if verifyStack s then s2\<lparr>sd_stack := rev (map fst w) @ [a]\<rparr> else s2)"
  have lt: "\<forall>e \<in> set w. fst (snd e) < n" using r(2) by (auto simp: tree_ok_def live_def)
  have "sanityCheckTree n tree2 = Inr ()" by (rule sanityCheckTree_ok [OF add(2)]) simp
  moreover have "verifyStackDist a True s2 = (fst (reuse_of a (recency es)), s3)" if "verifyStack s"
    using verifyStackDist_ok [OF assms(1) _ that, of s2 a True] that by (simp add: s2_def s1_def s3_def w_def)
  ultimately have c: "calcStackDistAndUpdate a True s = Inr (reuse_of a (recency es), s3\<lparr>sd_index := n + 1\<rparr>)"
    unfolding calcStackDistAndUpdate_def using r(1) add(1) by (simp add: s2_def [symmetric]) (simp add: s2_def s3_def s1_def n_def)
  have "marks ((a, n, False) # w) x = ((marks w)(n := False)) x" for x using lt by (auto simp: marks_def)
  then have "marks ((a, n, False) # w) = (marks w)(n := False)" by blast
  moreover have "live ((a, n, False) # w) = insert n (live w)" by (simp add: live_def)
  moreover have "history_ok ((a, n, False) # w)" using r(3) lt by (auto simp: history_ok_def w_def without_def)
  moreover have "aiMap (s3\<lparr>sd_index := n + 1\<rparr>) = map_of (map (\<lambda>e. (fst e, fst (snd e))) ((a, n, False) # w))"
    using assms(1) by (simp add: s3_def s2_def s1_def w_def index_ops sd_ok_def)
  ultimately have "sd_ok (s3\<lparr>sd_index := n + 1\<rparr>) ((a, n, False) # w)"
    using add(2) by (auto simp: sd_ok_def s3_def s2_def s1_def)
  then show ?thesis using c by (simp add: n_def w_def s3_def s2_def s1_def)
qed

definition sd_related :: "bool \<Rightarrow> nat \<Rightarrow> StackDistCalc \<Rightarrow> (addr \<times> bool) list \<Rightarrow> bool" where
  "sd_related v n s xs \<longleftrightarrow> (\<exists>es. sd_ok s es \<and> recency es = xs) \<and> sd_index s + n \<le> 2 ^ 31 \<and> verifyStack s = v"

fun forgets :: "sd_op \<Rightarrow> bool" where
  "forgets (Forget a) = True"
| "forgets _ = False"

interpretation reuse: simulation sd_step reuse_step "sd_related v" "\<lambda>p. v \<longrightarrow> \<not> forgets p" for v
proof
  fix n s x p
  assume "sd_related v (Suc n) s x" "v \<longrightarrow> \<not> forgets p"
  then obtain es where es: "sd_ok s es" "recency es = x" "sd_index s < 2 ^ 31" "sd_index s + n \<le> 2 ^ 31" "sd_index s + 1 + n \<le> 2 ^ 31" "verifyStack s = v"
    by (auto simp: sd_related_def)
  show "\<exists>s'. sd_step p s = Inr (fst (reuse_step p x), s') \<and> sd_related v n s' (snd (reuse_step p x))"
  proof (cases p)
    case (Access a)
    then show ?thesis using access_ok [OF es(1,3), of a] es by (force simp: sd_related_def recency_ops)
  next
    case (Forget a)
    then have "\<not> verifyStack s" using \<open>v \<longrightarrow> \<not> forgets p\<close> es(6) by simp
    then show ?thesis using Forget forget_ok [OF es(1), of a] es by (force simp: sd_related_def recency_ops)
  next
    case (Query a m)
    then show ?thesis using query_ok [OF es(1), of a m] es by (force simp: sd_related_def recency_ops)
  qed
qed

lemma new_StackDistCalc_related: "n \<le> 2 ^ 31 \<Longrightarrow> sd_related v n (new_StackDistCalc v) []"
proof -
  have "layer_ok 1 0 0 {} 1 [0 \<mapsto> new_Node]" by (auto simp: layer_ok_def inode_ok_def new_Node_def width_def cnt_def)
  then have "tree_ok 1 0 {} (\<lambda>_. False) ([Map.empty, [0 \<mapsto> new_Node]], [0, 1])"
    by (auto simp: tree_ok_def leaves_ok_def grown_def width_def le_Suc_eq)
  moreover have "marks [] = (\<lambda>_. False)" by (simp add: marks_def fun_eq_iff)
  ultimately have "sd_ok (new_StackDistCalc v) []" by (auto simp: sd_ok_def history_ok_def live_def new_StackDistCalc_def)
  then show "n \<le> 2 ^ 31 \<Longrightarrow> sd_related v n (new_StackDistCalc v) []" by (auto simp: sd_related_def recency_def new_StackDistCalc_def)
qed



lemma sd_session_witness_spec:
  "fst (spec_ops reuse_step [Access 1, Access 2, Query 1 True, Access 3, Access 1, Query 2 False] []) =
    [(Infinity, False), (Infinity, False), (1, False), (Infinity, False), (2, True), (2, False)]"
  by (simp add: reuse_of_def)


lemma stale_stack_panics:
  assumes "sd_ok s es" "verifyStack s" "es = (a, i, m) # post" "sd_index s < 2 ^ 31"
  shows "rbind (calcStackDistAndUpdate a False s) (\<lambda>(_, s1). calcStackDistAndUpdate a True s1) = Inl (Panic ''Expected stack-distance'')"
proof -
  define n w s1 where "n = sd_index s" and "w = without a es" and "s1 tree = s\<lparr>aiMap := (aiMap s)(a := None), sd_tree := tree\<rparr>" for tree
  obtain tree d where r: "remove_leaf a False s = Inr (fst (reuse_of a (recency es)), snd (reuse_of a (recency es)), s1 tree)"
    "tree_ok d n (live w) (marks w) (tree, nextIndex s)" "history_ok w"
    using remove_ok [OF assms(1), of a False] assms(4) by (auto simp: n_def w_def s1_def)
  define s2 where "s2 = (s1 tree)\<lparr>aiMap := (aiMap s)(a \<mapsto> n)\<rparr>"
  have "remove_leaf a True (s1 tree) = Inr (Infinity, False, s2)" by (simp add: remove_leaf_def s1_def s2_def n_def)
  moreover have "tree_ok d n (live w) (marks w) (sd_tree s2, nextIndex s2)" "n = sd_index s2" "n < 2 ^ 31"
    using r(2) assms(4) by (simp_all add: s2_def s1_def n_def)
  from add_leaf_ok [OF this] obtain tree2 nx d' where add: "add_leaf s2 = Inr (s2\<lparr>sd_tree := tree2, nextIndex := nx\<rparr>)"
    "tree_ok d' (n + 1) (insert n (live w)) ((marks w)(n := False)) (tree2, nx)" by blast
  moreover have "sanityCheckTree n tree2 = Inr ()" by (rule sanityCheckTree_ok [OF add(2)]) simp
  moreover have "fst (verifyStackDist a True (s2\<lparr>sd_tree := tree2, nextIndex := nx\<rparr>)) = 0"
    using verifyStackDist_ok [OF assms(1) _ assms(2), of "s2\<lparr>sd_tree := tree2, nextIndex := nx\<rparr>" a True]
    by (simp add: s2_def s1_def assms(3) recency_def reuse_of_def)
  ultimately show ?thesis using r(1) assms(2)
    by (simp add: calcStackDistAndUpdate_def case_prod_beta Infinity_def s2_def s1_def n_def)
qed

text \<open>C38: with the checks on, an address that is removed and accessed again stops the simulation: the removal leaves the address on the
  debug stack, so the stack finds it where the tree reports \<open>Infinity\<close>.\<close>

theorem removal_breaks_check:
  assumes "length ps + 2 \<le> 2 ^ 31" "\<forall>p \<in> set ps. \<not> forgets p"
  shows "run_ops sd_step (ps @ [Access a, Forget a, Access a]) (new_StackDistCalc True) = Inl (Panic ''Expected stack-distance'')"
proof -
  obtain s where s: "run_ops sd_step ps (new_StackDistCalc True) = Inr (fst (spec_ops reuse_step ps []), s)" "sd_related True 2 s (snd (spec_ops reuse_step ps []))"
    using reuse.run_simulates [of True ps 2 "new_StackDistCalc True" "[]"] new_StackDistCalc_related [OF assms(1)] assms(2) by auto
  then obtain es where es: "sd_ok s es" "sd_index s < 2 ^ 31" "sd_index s + 1 < 2 ^ 31" "verifyStack s" by (auto simp: sd_related_def)
  from access_ok [OF es(1,2)] obtain s1 where s1: "calcStackDistAndUpdate a True s = Inr (reuse_of a (recency es), s1)"
    "sd_ok s1 ((a, sd_index s, False) # without a es)" "sd_index s1 = sd_index s + 1" "verifyStack s1 = verifyStack s" by blast
  have "rbind (calcStackDistAndUpdate a False s1) (\<lambda>(_, s1). calcStackDistAndUpdate a True s1) = Inl (Panic ''Expected stack-distance'')"
    using stale_stack_panics [OF s1(2) _ refl] s1(3,4) es(3,4) by simp
  then show ?thesis using s(1) s1(1) by (simp add: run_ops_append) (auto simp: rbind_def split: sum.splits)
qed

theorem removal_breaks_check_witness:
  "run_ops sd_step [Access 1, Access 2, Access 1, Forget 1, Access 1] (new_StackDistCalc True) = Inl (Panic ''Expected stack-distance'')"
  using removal_breaks_check [of "[Access 1, Access 2]" 1] by simp

end
