(* ===== verification/Data_Translation.thy ===== *)
theory Data_Translation
  imports Abstract_Mem Refinement
begin

text \<open>
  The translation of the addresses of one memory access (\<open>cpu/translation.hh\<close>). An access has one part, two parts when it
  crosses a cache line, or one part per operand row of a row operation. The TLB answers the parts in any order; the state collects
  the answers and reports the end with the last one. A fault is a value, \<open>None\<close> for \<^verbatim>\<open>NoFault\<close>. The requests of the parts are
  shared by pointer with the TLB, which writes the physical address into them; here the state owns them.
\<close>

type_synonym fault = "string option"

datatype Mode = ModeRead | ModeWrite | ModeExecute

record WholeTranslationState =
  outstanding :: nat
  faults :: "fault list"
  wts_delay :: bool
  isSplit :: bool
  wts_isRowOp :: bool
  mainReq :: Request
  sreqLow :: "Request option"
  sreqHigh :: "Request option"
  sreqDest :: "Request option"
  sreqSrc1 :: "Request option"
  sreqSrc2 :: "Request option"
  wts_data :: "byte list"
  wts_res :: "64 word option"
  wts_mode :: Mode

definition single_state :: "Request \<Rightarrow> byte list \<Rightarrow> 64 word option \<Rightarrow> Mode \<Rightarrow> WholeTranslationState result" where
  "single_state req data res mode =
     rbind (assertr (mode = ModeRead \<or> mode = ModeWrite) ''mode == BaseTLB::Read || mode == BaseTLB::Write'') (\<lambda>_.
     Inr \<lparr>outstanding = 1, faults = [None, None, None], wts_delay = False, isSplit = False, wts_isRowOp = False, mainReq = req,
          sreqLow = None, sreqHigh = None, sreqDest = None, sreqSrc1 = None, sreqSrc2 = None, wts_data = data, wts_res = res, wts_mode = mode\<rparr>)"

definition split_state :: "Request \<Rightarrow> Request \<Rightarrow> Request \<Rightarrow> byte list \<Rightarrow> 64 word option \<Rightarrow> Mode \<Rightarrow> WholeTranslationState result" where
  "split_state req low high data res mode =
     rbind (assertr (mode = ModeRead \<or> mode = ModeWrite) ''mode == BaseTLB::Read || mode == BaseTLB::Write'') (\<lambda>_.
     Inr \<lparr>outstanding = 2, faults = [None, None, None], wts_delay = False, isSplit = True, wts_isRowOp = False, mainReq = req,
          sreqLow = Some low, sreqHigh = Some high, sreqDest = None, sreqSrc1 = None, sreqSrc2 = None, wts_data = data, wts_res = res, wts_mode = mode\<rparr>)"

definition rowop_state ::
  "Request \<Rightarrow> Request \<Rightarrow> Request option \<Rightarrow> Request option \<Rightarrow> byte list \<Rightarrow> 64 word option \<Rightarrow> Mode \<Rightarrow> WholeTranslationState result" where
  "rowop_state req dest src1 src2 data res mode =
     rbind (assertr (mode = ModeWrite) ''mode == BaseTLB::Write'') (\<lambda>_.
     Inr \<lparr>outstanding = (if src1 = None then 1 else if src2 = None then 2 else 3), faults = [None, None, None], wts_delay = False,
          isSplit = False, wts_isRowOp = True, mainReq = req, sreqLow = None, sreqHigh = None, sreqDest = Some dest, sreqSrc1 = src1,
          sreqSrc2 = src2, wts_data = data, wts_res = res, wts_mode = mode\<rparr>)"

subsection \<open>The end of a translation\<close>

definition deref_req :: "Request option \<Rightarrow> Request result" where
  "deref_req r = (case r of None \<Rightarrow> Inl HostFault | Some q \<Rightarrow> Inr q)"

text \<open>An eight-byte field of the payload at an offset.\<close>

definition put_field :: "nat \<Rightarrow> addr \<Rightarrow> byte list \<Rightarrow> byte list result" where
  "put_field off v d = (if off + 8 \<le> length d then Inr (take off d @ bytes_of 8 v @ drop (off + 8) d) else Inl HostFault)"

definition finish_split :: "WholeTranslationState \<Rightarrow> WholeTranslationState result" where
  "finish_split s =
     rbind (deref_req (sreqLow s)) (\<lambda>low.
     rbind (deref_req (sreqHigh s)) (\<lambda>high.
     rbind (if faults s ! 0 = None then rbind (getPaddr low) (\<lambda>pa. Inr (setPaddr pa (mainReq s))) else Inr (mainReq s)) (\<lambda>r1.
     rbind (setReqFlags (req_flags low) r1) (\<lambda>r2.
     rbind (setReqFlags (req_flags high) r2) (\<lambda>r3.
     Inr (s\<lparr>mainReq := r3\<rparr>))))))"

definition finish_operand :: "nat \<Rightarrow> fault \<Rightarrow> Request \<Rightarrow> WholeTranslationState \<Rightarrow> WholeTranslationState result" where
  "finish_operand off flt r s =
     rbind (if flt = None then rbind (getPaddr r) (\<lambda>pa. put_field off pa (wts_data s)) else Inr (wts_data s)) (\<lambda>d.
     rbind (setReqFlags (req_flags r) (mainReq s)) (\<lambda>main.
     Inr (s\<lparr>wts_data := d, mainReq := main\<rparr>)))"

definition finish_rowop :: "WholeTranslationState \<Rightarrow> WholeTranslationState result" where
  "finish_rowop s =
     rbind (deref_req (sreqDest s)) (\<lambda>dest.
     rbind (finish_operand 8 (faults s ! 0) dest s) (\<lambda>s1.
     rbind (case sreqSrc1 s of None \<Rightarrow> Inr s1 | Some r \<Rightarrow> finish_operand 16 (faults s ! 1) r s1) (\<lambda>s2.
     rbind (case sreqSrc2 s of None \<Rightarrow> Inr s2 | Some r \<Rightarrow> finish_operand 24 (faults s ! 2) r s2) (\<lambda>s3.
     Inr (s3\<lparr>mainReq := setPaddr 0 (mainReq s3)\<rparr>)))))"

definition wts_finish :: "fault \<Rightarrow> nat \<Rightarrow> WholeTranslationState \<Rightarrow> (bool \<times> WholeTranslationState) result" where
  "wts_finish flt index s =
     rbind (assertr (outstanding s \<noteq> 0) ''outstanding'') (\<lambda>_.
     let s1 = s\<lparr>faults := (faults s)[index := flt], outstanding := outstanding s - 1\<rparr> in
     rbind (if isSplit s1 \<and> outstanding s1 = 0 then finish_split s1 else Inr s1) (\<lambda>s2.
     rbind (if wts_isRowOp s2 \<and> outstanding s2 = 0 then finish_rowop s2 else Inr s2) (\<lambda>s3.
     Inr (outstanding s3 = 0, s3))))"

definition getFault :: "WholeTranslationState \<Rightarrow> fault" where
  "getFault s =
     (if \<not> isSplit s then faults s ! 0
      else if faults s ! 0 \<noteq> None then faults s ! 0
      else if faults s ! 1 \<noteq> None then faults s ! 1
      else if faults s ! 2 \<noteq> None then faults s ! 2
      else None)"

definition setNoFault :: "WholeTranslationState \<Rightarrow> WholeTranslationState" where
  "setNoFault s = s\<lparr>faults := [None, None, None]\<rparr>"

definition wts_isPrefetch :: "WholeTranslationState \<Rightarrow> bool" where
  "wts_isPrefetch s = req_isPrefetch (mainReq s)"

definition wts_getPaddr :: "WholeTranslationState \<Rightarrow> addr result" where
  "wts_getPaddr s = getPaddr (mainReq s)"

definition markDelayed :: "WholeTranslationState \<Rightarrow> WholeTranslationState" where
  "markDelayed s = s\<lparr>wts_delay := True\<rparr>"

subsection \<open>The parts and the answers of the TLB\<close>

text \<open>The request of a part; the object that carries the index of the part points to it.\<close>

definition upd_part :: "nat \<Rightarrow> (Request \<Rightarrow> Request) \<Rightarrow> WholeTranslationState \<Rightarrow> WholeTranslationState" where
  "upd_part index f s =
     (if isSplit s then
        if index = 0 then s\<lparr>sreqLow := map_option f (sreqLow s)\<rparr> else s\<lparr>sreqHigh := map_option f (sreqHigh s)\<rparr>
      else if wts_isRowOp s then
        if index = 0 then s\<lparr>sreqDest := map_option f (sreqDest s)\<rparr>
        else if index = 1 then s\<lparr>sreqSrc1 := map_option f (sreqSrc1 s)\<rparr>
        else s\<lparr>sreqSrc2 := map_option f (sreqSrc2 s)\<rparr>
      else s\<lparr>mainReq := f (mainReq s)\<rparr>)"

text \<open>\<^verbatim>\<open>DataTranslation::finish\<close>.\<close>

definition data_finish :: "tick \<Rightarrow> fault \<Rightarrow> nat \<Rightarrow> Mode \<Rightarrow> WholeTranslationState \<Rightarrow> (bool \<times> WholeTranslationState) result" where
  "data_finish now flt index mode s =
     rbind (assertr (mode = wts_mode s) ''mode == state->mode'') (\<lambda>_.
     rbind (wts_finish flt index s) (\<lambda>(over, s1).
     Inr (over, if over \<and> getFault s1 = None then upd_part index (setTranslateLatency now) s1 else s1)))"

text \<open>The answer to one part: a fault, or a physical address and the flags of the page, which the TLB has written into the request.\<close>

datatype tlb_reply = TlbFault string | Translated addr "32 word"

definition tlb_write :: "addr \<Rightarrow> 32 word \<Rightarrow> Request \<Rightarrow> Request" where
  "tlb_write pa fl r = setPaddr pa (r\<lparr>req_flags := setFlag (req_flags r) fl\<rparr>)"

fun tlb_done :: "tick \<Rightarrow> nat \<times> tlb_reply \<Rightarrow> WholeTranslationState \<Rightarrow> (bool \<times> WholeTranslationState) result" where
  "tlb_done now (index, TlbFault f) s = data_finish now (Some f) index (wts_mode s) s"
| "tlb_done now (index, Translated pa fl) s = data_finish now None index (wts_mode s) (upd_part index (tlb_write pa fl) s)"

subsection \<open>Answers in any order\<close>

fun reply_fault :: "tlb_reply \<Rightarrow> fault" where
  "reply_fault (TlbFault f) = Some f"
| "reply_fault (Translated pa fl) = None"

fun reply_write :: "tlb_reply \<Rightarrow> Request \<Rightarrow> Request" where
  "reply_write (TlbFault f) r = r"
| "reply_write (Translated pa fl) r = tlb_write pa fl r"

definition record_reply :: "nat \<times> tlb_reply \<Rightarrow> WholeTranslationState \<Rightarrow> WholeTranslationState" where
  "record_reply a s = (upd_part (fst a) (reply_write (snd a)) s)\<lparr>faults := (faults s)[fst a := reply_fault (snd a)]\<rparr>"

definition closing :: "WholeTranslationState \<Rightarrow> WholeTranslationState result" where
  "closing s = (if isSplit s then finish_split s else if wts_isRowOp s then finish_rowop s else Inr s)"

lemma upd_part_id: "upd_part i (\<lambda>r. r) s = s"
  by (simp add: upd_part_def option.map_ident)

lemma upd_part_keeps: "outstanding (upd_part i f s) = outstanding s" "isSplit (upd_part i f s) = isSplit s"
  "wts_isRowOp (upd_part i f s) = wts_isRowOp s" "wts_mode (upd_part i f s) = wts_mode s" "faults (upd_part i f s) = faults s"
  "upd_part i f (s\<lparr>outstanding := n\<rparr>) = (upd_part i f s)\<lparr>outstanding := n\<rparr>"
  "upd_part i f (s\<lparr>faults := fs\<rparr>) = (upd_part i f s)\<lparr>faults := fs\<rparr>"
  by (simp_all add: upd_part_def)

lemma reply_write_id: "reply_write (TlbFault f) = (\<lambda>r. r)"
  by (simp add: fun_eq_iff)

lemma tlb_done_record:
  "tlb_done now a s = data_finish now (reply_fault (snd a)) (fst a) (wts_mode s) (upd_part (fst a) (reply_write (snd a)) s)"
proof (cases a)
  case (Pair i r)
  have "reply_write (Translated pa fl) = tlb_write pa fl" for pa fl by (simp add: fun_eq_iff)
  then show ?thesis using Pair by (cases r) (simp_all add: reply_write_id upd_part_id)
qed

lemma finish_split_keeps: "finish_split s = Inr s' \<Longrightarrow> outstanding s' = outstanding s \<and> wts_isRowOp s' = wts_isRowOp s \<and> isSplit s' = isSplit s"
  by (auto simp: finish_split_def rbind_def split: sum.splits if_splits)

lemma finish_operand_keeps: "finish_operand off flt r s = Inr s' \<Longrightarrow>
    outstanding s' = outstanding s \<and> wts_isRowOp s' = wts_isRowOp s \<and> isSplit s' = isSplit s"
  by (auto simp: finish_operand_def rbind_def split: sum.splits if_splits)

lemma finish_rowop_keeps: "finish_rowop s = Inr s' \<Longrightarrow> outstanding s' = outstanding s \<and> wts_isRowOp s' = wts_isRowOp s \<and> isSplit s' = isSplit s"
  by (auto simp: finish_rowop_def rbind_def dest!: finish_operand_keeps split: sum.splits option.splits)

lemma tlb_done_more:
  assumes "1 < outstanding s"
  shows "tlb_done now a s = Inr (False, (record_reply a s)\<lparr>outstanding := outstanding s - 1\<rparr>)"
  using assms unfolding tlb_done_record
  by (simp add: data_finish_def wts_finish_def record_reply_def upd_part_keeps Let_def)

lemma tlb_done_last:
  assumes "outstanding s = 1" "\<not> (isSplit s \<and> wts_isRowOp s)"
  shows "tlb_done now a s = rbind (closing ((record_reply a s)\<lparr>outstanding := 0\<rparr>)) (\<lambda>s1.
    Inr (True, if getFault s1 = None then upd_part (fst a) (setTranslateLatency now) s1 else s1))"
proof -
  define t where "t = (record_reply a s)\<lparr>outstanding := 0\<rparr>"
  have t: "isSplit t = isSplit s" "wts_isRowOp t = wts_isRowOp s" "outstanding t = 0" by (simp_all add: t_def record_reply_def upd_part_keeps)
  have u: "(upd_part (fst a) (reply_write (snd a)) s)\<lparr>faults := (faults (upd_part (fst a) (reply_write (snd a)) s))[fst a := reply_fault (snd a)],
    outstanding := outstanding (upd_part (fst a) (reply_write (snd a)) s) - 1\<rparr> = t"
    using assms(1) by (simp add: t_def record_reply_def upd_part_keeps)
  have "wts_finish (reply_fault (snd a)) (fst a) (upd_part (fst a) (reply_write (snd a)) s) =
    rbind (if isSplit t then finish_split t else Inr t) (\<lambda>s2.
    rbind (if wts_isRowOp s2 \<and> outstanding s2 = 0 then finish_rowop s2 else Inr s2) (\<lambda>s3. Inr (outstanding s3 = 0, s3)))"
    unfolding wts_finish_def Let_def u by (simp only: upd_part_keeps(1) assms(1) t(3) one_neq_zero not_False_eq_True assertr_True rbind_simps simp_thms)
  also have "\<dots> = rbind (closing t) (\<lambda>s1. Inr (True, s1))"
  proof (cases "closing t")
    case (Inr t')
    then have "outstanding t' = 0" "wts_isRowOp t' = wts_isRowOp t"
      using t(3) finish_split_keeps [of t t'] finish_rowop_keeps [of t t'] by (auto simp: closing_def split: if_splits)
    then show ?thesis using Inr assms(2) t by (auto simp: closing_def split: if_splits)
  qed (auto simp: closing_def t split: if_splits)
  finally show ?thesis unfolding tlb_done_record t_def [symmetric]
    by (cases "closing t") (simp_all add: data_finish_def upd_part_keeps)
qed

lemma record_reply_keeps: "outstanding (record_reply a s) = outstanding s" "isSplit (record_reply a s) = isSplit s"
  "wts_isRowOp (record_reply a s) = wts_isRowOp s" "record_reply a (s\<lparr>outstanding := n\<rparr>) = (record_reply a s)\<lparr>outstanding := n\<rparr>"
  by (simp_all add: record_reply_def upd_part_keeps)

lemma fold_record_outstanding: "fold record_reply as (s\<lparr>outstanding := n\<rparr>) = (fold record_reply as s)\<lparr>outstanding := n\<rparr>"
  by (induction as arbitrary: s) (simp_all add: record_reply_keeps)

lemma replies_run:
  assumes "as \<noteq> []" "outstanding s = length as" "\<not> (isSplit s \<and> wts_isRowOp s)"
  shows "run_ops (tlb_done now) as s = rbind (closing ((fold record_reply as s)\<lparr>outstanding := 0\<rparr>)) (\<lambda>s1.
    Inr (replicate (length as - 1) False @ [True], if getFault s1 = None then upd_part (fst (last as)) (setTranslateLatency now) s1 else s1))"
  using assms
proof (induction as arbitrary: s)
  case (Cons a as)
  show ?case
  proof (cases "as = []")
    case True
    then have "tlb_done now a s = rbind (closing ((record_reply a s)\<lparr>outstanding := 0\<rparr>)) (\<lambda>s1.
      Inr (True, if getFault s1 = None then upd_part (fst a) (setTranslateLatency now) s1 else s1))"
      using Cons.prems by (intro tlb_done_last) simp_all
    then show ?thesis using True by (simp add: rbind_def split: sum.split)
  next
    case False
    define s1 where "s1 = (record_reply a s)\<lparr>outstanding := length as\<rparr>"
    have "tlb_done now a s = Inr (False, s1)" using tlb_done_more [of s now a] Cons.prems(2) False by (simp add: s1_def)
    moreover have "run_ops (tlb_done now) as s1 = rbind (closing ((fold record_reply as s1)\<lparr>outstanding := 0\<rparr>)) (\<lambda>s1.
      Inr (replicate (length as - 1) False @ [True], if getFault s1 = None then upd_part (fst (last as)) (setTranslateLatency now) s1 else s1))"
      using Cons.prems(3) False by (intro Cons.IH) (simp_all add: s1_def record_reply_keeps)
    moreover have "(fold record_reply as s1)\<lparr>outstanding := 0\<rparr> = (fold record_reply (a # as) s)\<lparr>outstanding := 0\<rparr>"
      by (simp add: s1_def fold_record_outstanding)
    moreover have "replicate (length as) False = False # replicate (length as - 1) False" using False by (cases as) simp_all
    ultimately show ?thesis using False by (simp add: rbind_def split: sum.split)
  qed
qed simp

text \<open>The effect of all answers on a row operation, whatever their order.\<close>

definition answered :: "(nat \<times> tlb_reply) list \<Rightarrow> nat \<Rightarrow> Request \<Rightarrow> Request" where
  "answered as i r = (case map_of as i of None \<Rightarrow> r | Some p \<Rightarrow> reply_write p r)"

definition fault_after :: "(nat \<times> tlb_reply) list \<Rightarrow> nat \<Rightarrow> fault \<Rightarrow> fault" where
  "fault_after as i f = (case map_of as i of None \<Rightarrow> f | Some p \<Rightarrow> reply_fault p)"

lemma rowop_record:
  assumes "wts_isRowOp s" "\<not> isSplit s" "faults s = [f, g, h]" "i < 3"
  shows "record_reply (i, r) s = s\<lparr>faults := [if i = 0 then reply_fault r else f, if i = 1 then reply_fault r else g, if i = 2 then reply_fault r else h],
    sreqDest := map_option (\<lambda>q. if i = 0 then reply_write r q else q) (sreqDest s),
    sreqSrc1 := map_option (\<lambda>q. if i = 1 then reply_write r q else q) (sreqSrc1 s),
    sreqSrc2 := map_option (\<lambda>q. if i = 2 then reply_write r q else q) (sreqSrc2 s)\<rparr>"
proof -
  consider "i = 0" | "i = 1" | "i = 2" using assms(4) by linarith
  then show ?thesis using assms(1-3) by cases (simp_all add: record_reply_def upd_part_def option.map_ident)
qed

lemma rowop_answers:
  assumes "wts_isRowOp s" "\<not> isSplit s" "length (faults s) = 3" "distinct (map fst as)" "\<forall>a \<in> set as. fst a < 3"
  shows "fold record_reply as s = s\<lparr>faults := [fault_after as 0 (faults s ! 0), fault_after as 1 (faults s ! 1), fault_after as 2 (faults s ! 2)],
    sreqDest := map_option (answered as 0) (sreqDest s), sreqSrc1 := map_option (answered as 1) (sreqSrc1 s),
    sreqSrc2 := map_option (answered as 2) (sreqSrc2 s)\<rparr>"
  using assms
proof (induction as arbitrary: s)
  case Nil
  obtain f g h where "faults s = [f, g, h]" using Nil.prems(3) by (auto simp: numeral_3_eq_3 length_Suc_conv)
  moreover have "answered [] i = (\<lambda>r. r)" for i by (simp add: answered_def fun_eq_iff)
  ultimately show ?case by (simp add: fault_after_def option.map_ident)
next
  case (Cons a as)
  obtain f g h where fs: "faults s = [f, g, h]" using Cons.prems(3) by (auto simp: numeral_3_eq_3 length_Suc_conv)
  obtain i r where a: "a = (i, r)" by (cases a)
  have i: "i < 3" "map_of as i = None" "i \<notin> fst ` set as" using Cons.prems(4,5) by (simp_all add: a map_of_eq_None_iff)
  have ih: "fold record_reply as (record_reply a s) = (record_reply a s)\<lparr>faults := [fault_after as 0 (faults (record_reply a s) ! 0),
    fault_after as 1 (faults (record_reply a s) ! 1), fault_after as 2 (faults (record_reply a s) ! 2)],
    sreqDest := map_option (answered as 0) (sreqDest (record_reply a s)), sreqSrc1 := map_option (answered as 1) (sreqSrc1 (record_reply a s)),
    sreqSrc2 := map_option (answered as 2) (sreqSrc2 (record_reply a s))\<rparr>"
    using Cons.prems by (intro Cons.IH) (simp_all add: record_reply_keeps, simp add: record_reply_def)
  have h: "(\<lambda>q. answered as j (if i = j then reply_write r q else q)) = answered ((i, r) # as) j"
    "fault_after as j (if i = j then reply_fault r else x) = fault_after ((i, r) # as) j x" for j x
    using i(2) by (auto simp: answered_def fault_after_def fun_eq_iff)
  note rec = rowop_record [OF Cons.prems(1,2) fs i(1), of r]
  have "fold record_reply (a # as) s = fold record_reply as (record_reply a s)" by simp
  then show ?case unfolding ih unfolding a rec
    using h(1) [of 0] h(1) [of 1] h(1) [of 2] h(2) [of 0 f] h(2) [of 1 g] h(2) [of 2 h]
    by (simp add: option.map_comp comp_def fs split del: if_split)
qed

lemma length_bytes_of [simp]: "length (bytes_of n w) = n"
  by (simp add: bytes_of_def)

lemma put_fields: "put_field 8 v (payload_bytes k d s1 s2) = Inr (payload_bytes k v s1 s2)"
  "put_field 16 v (payload_bytes k d s1 s2) = Inr (payload_bytes k d v s2)"
  "put_field 24 v (payload_bytes k d s1 s2) = Inr (payload_bytes k d s1 v)"
  by (simp_all add: put_field_def payload_bytes_def)

lemma length_payload [simp]: "length (payload_bytes k d s1 s2) = 32"
  by (simp add: payload_bytes_def)

text \<open>An operand after the translation: the physical address, or the virtual one if the translation failed.\<close>

definition operand_after :: "fault \<Rightarrow> Request option \<Rightarrow> addr \<Rightarrow> addr" where
  "operand_after flt r v = (case r of None \<Rightarrow> v | Some q \<Rightarrow> if flt = None then req_paddr q else v)"

definition flags_after :: "Request option \<Rightarrow> 32 word \<Rightarrow> 32 word" where
  "flags_after r fl = (case r of None \<Rightarrow> fl | Some q \<Rightarrow> setFlag fl (req_flags q))"

lemma finish_operand_ok:
  assumes "flt = None \<longrightarrow> hasPaddr r" "isSet (privateFlags (mainReq s)) (VALID_PADDR OR VALID_VADDR)" "\<And>v. put_field off v (wts_data s) = Inr (f v)"
  shows "finish_operand off flt r s = Inr (s\<lparr>wts_data := if flt = None then f (req_paddr r) else wts_data s,
    mainReq := (mainReq s)\<lparr>req_flags := setFlag (req_flags (mainReq s)) (req_flags r)\<rparr>\<rparr>)"
  using assms by (simp add: finish_operand_def getPaddr_def hasPaddr_def setReqFlags_def)

lemma finish_rowop_ok:
  assumes "sreqDest s = Some dest" "wts_data s = payload_bytes k vd v1 v2" "faults s = [f0, f1, f2]"
    "isSet (privateFlags (mainReq s)) (VALID_PADDR OR VALID_VADDR)"
    "f0 = None \<longrightarrow> hasPaddr dest" "\<And>r. sreqSrc1 s = Some r \<Longrightarrow> f1 = None \<longrightarrow> hasPaddr r" "\<And>r. sreqSrc2 s = Some r \<Longrightarrow> f2 = None \<longrightarrow> hasPaddr r"
  shows "finish_rowop s = Inr (s\<lparr>wts_data := payload_bytes k (operand_after f0 (Some dest) vd) (operand_after f1 (sreqSrc1 s) v1) (operand_after f2 (sreqSrc2 s) v2),
    mainReq := setPaddr 0 ((mainReq s)\<lparr>req_flags := flags_after (sreqSrc2 s) (flags_after (sreqSrc1 s) (setFlag (req_flags (mainReq s)) (req_flags dest)))\<rparr>)\<rparr>)"
proof -
  define s1 where "s1 = s\<lparr>wts_data := payload_bytes k (operand_after f0 (Some dest) vd) v1 v2,
    mainReq := (mainReq s)\<lparr>req_flags := setFlag (req_flags (mainReq s)) (req_flags dest)\<rparr>\<rparr>"
  define s2 where "s2 = s1\<lparr>wts_data := payload_bytes k (operand_after f0 (Some dest) vd) (operand_after f1 (sreqSrc1 s) v1) v2,
    mainReq := (mainReq s1)\<lparr>req_flags := flags_after (sreqSrc1 s) (req_flags (mainReq s1))\<rparr>\<rparr>"
  define s3 where "s3 = s2\<lparr>wts_data := payload_bytes k (operand_after f0 (Some dest) vd) (operand_after f1 (sreqSrc1 s) v1) (operand_after f2 (sreqSrc2 s) v2),
    mainReq := (mainReq s2)\<lparr>req_flags := flags_after (sreqSrc2 s) (req_flags (mainReq s2))\<rparr>\<rparr>"
  have "finish_operand 8 f0 dest s = Inr s1"
    using finish_operand_ok [OF assms(5,4), of 8 "\<lambda>v. payload_bytes k v v1 v2"] assms(2) by (simp add: put_fields s1_def operand_after_def)
  moreover have "(case sreqSrc1 s of None \<Rightarrow> Inr s1 | Some r \<Rightarrow> finish_operand 16 f1 r s1) = Inr s2"
  proof (cases "sreqSrc1 s")
    case (Some r)
    then show ?thesis using finish_operand_ok [OF assms(6) [OF Some], of s1 16 "\<lambda>v. payload_bytes k (operand_after f0 (Some dest) vd) v v2"] assms(4)
      by (simp add: put_fields s1_def s2_def operand_after_def flags_after_def)
  qed (simp add: s1_def s2_def operand_after_def flags_after_def)
  moreover have "(case sreqSrc2 s of None \<Rightarrow> Inr s2 | Some r \<Rightarrow> finish_operand 24 f2 r s2) = Inr s3"
  proof (cases "sreqSrc2 s")
    case (Some r)
    then show ?thesis using finish_operand_ok [OF assms(7) [OF Some], of s2 24 "\<lambda>v. payload_bytes k (operand_after f0 (Some dest) vd) (operand_after f1 (sreqSrc1 s) v1) v"] assms(4)
      by (simp add: put_fields s1_def s2_def s3_def operand_after_def flags_after_def)
  qed (simp add: s2_def s3_def operand_after_def flags_after_def)
  moreover have "faults s ! 0 = f0" "faults s ! 1 = f1" "faults s ! 2 = f2" using assms(3) by simp_all
  ultimately have "finish_rowop s = Inr (s3\<lparr>mainReq := setPaddr 0 (mainReq s3)\<rparr>)" 
    unfolding finish_rowop_def by (simp only: assms(1) deref_req_def option.case rbind_simps)
  then show ?thesis by (simp add: s1_def s2_def s3_def)
qed

end
