(* ===== verification/Timing_Cpu.thy ===== *)
theory Timing_Cpu
  imports Data_Translation
begin

text \<open>
  The data side of the timing CPU (\<open>cpu/simple/timing.hh\<close>, \<open>cpu/simple/timing.cc\<close>) and the row instructions it executes
  (\<open>arch/x86/isa/microops/rowbit.isa\<close>, \<open>arch/x86/isa/decoder/two_byte_opcodes.isa\<close>): starting an access, the end of its
  translation, sending its packets to the cache with retries, and completing it. The cache is a function \<open>acc\<close> from the number of
  an attempt to whether it takes the packet. The ISA hooks for locked accesses are those of x86, which do nothing.
\<close>

datatype Status = Idle | Running | Faulting | ITBWaitResponse | IcacheRetry | IcacheWaitResponse | IcacheWaitSwitch
  | DTBWaitResponse | DcacheRetry | DcacheWaitResponse | DcacheWaitSwitch

text \<open>A packet of the CPU: a whole access, or a fragment of a split one with its index in the main packet.\<close>

datatype data_pkt = Whole Packet | Frag nat Packet

fun the_pkt :: "data_pkt \<Rightarrow> Packet" where
  "the_pkt (Whole p) = p"
| "the_pkt (Frag i p) = p"

text \<open>The main packet of a split access and its sender state: the fragments not sent yet and the number not answered yet.\<close>

record SplitMainSenderState =
  bigPkt :: Packet
  main_outstanding :: nat
  fragments :: "Packet option list"

definition getPendingFragment :: "SplitMainSenderState \<Rightarrow> int" where
  "getPendingFragment m = (if fragments m ! 0 \<noteq> None then 0 else if fragments m ! 1 \<noteq> None then 1 else -1)"

definition clearFromParent :: "nat \<Rightarrow> SplitMainSenderState \<Rightarrow> SplitMainSenderState" where
  "clearFromParent i m = m\<lparr>fragments := (fragments m)[i := None]\<rparr>"

record TimingSimpleCPU =
  cpu_status :: Status
  dcache_pkt :: "data_pkt option"
  split_main :: "SplitMainSenderState option"
  attempts :: nat
  sent :: "data_pkt list"
  ipr_events :: "data_pkt list"
  completed :: "(Packet option \<times> fault) list"
  cpu_lineSize :: nat
  cpu_masterId :: nat
  cpu_id :: nat
  cpu_taskId :: nat
  inst_pc :: addr

subsection \<open>Sending\<close>

definition sendTimingReq :: "(nat \<Rightarrow> bool) \<Rightarrow> data_pkt \<Rightarrow> TimingSimpleCPU \<Rightarrow> bool \<times> TimingSimpleCPU" where
  "sendTimingReq acc p c =
     (acc (attempts c), c\<lparr>attempts := attempts c + 1, sent := if acc (attempts c) then sent c @ [p] else sent c\<rparr>)"

definition req_isMmappedIpr :: "Request \<Rightarrow> bool" where
  "req_isMmappedIpr r = isSet (req_flags r) MMAPPED_IPR"

definition handleReadPacket :: "(nat \<Rightarrow> bool) \<Rightarrow> data_pkt \<Rightarrow> TimingSimpleCPU \<Rightarrow> bool \<times> TimingSimpleCPU" where
  "handleReadPacket acc p c =
     (if req_isMmappedIpr (pkt_req (the_pkt p)) then
        (True, c\<lparr>ipr_events := ipr_events c @ [p], cpu_status := DcacheWaitResponse, dcache_pkt := None\<rparr>)
      else case sendTimingReq acc p c of
        (False, c1) \<Rightarrow> (False, c1\<lparr>cpu_status := DcacheRetry, dcache_pkt := Some p\<rparr>)
      | (True, c1) \<Rightarrow> (True, c1\<lparr>cpu_status := DcacheWaitResponse, dcache_pkt := None\<rparr>))"

definition handleWritePacket :: "(nat \<Rightarrow> bool) \<Rightarrow> TimingSimpleCPU \<Rightarrow> (bool \<times> TimingSimpleCPU) result" where
  "handleWritePacket acc c =
     (case dcache_pkt c of
        None \<Rightarrow> Inl HostFault
      | Some p \<Rightarrow>
          if req_isMmappedIpr (pkt_req (the_pkt p)) then
            Inr (True, c\<lparr>ipr_events := ipr_events c @ [p], cpu_status := DcacheWaitResponse, dcache_pkt := None\<rparr>)
          else case sendTimingReq acc p c of
            (False, c1) \<Rightarrow> Inr (False, c1\<lparr>cpu_status := DcacheRetry\<rparr>)
          | (True, c1) \<Rightarrow> Inr (True, c1\<lparr>cpu_status := DcacheWaitResponse, dcache_pkt := None\<rparr>))"

subsection \<open>Completion\<close>

text \<open>\<^verbatim>\<open>advanceInst\<close> up to the fetch of the next instruction.\<close>

definition advanceInst :: "fault \<Rightarrow> TimingSimpleCPU \<Rightarrow> TimingSimpleCPU" where
  "advanceInst flt c = (if cpu_status c = Faulting then c else if flt \<noteq> None then c\<lparr>cpu_status := Faulting\<rparr> else c)"

definition NO_ACCESS :: "32 word" where "NO_ACCESS = 0x00080000"

definition finish_access :: "(Packet \<Rightarrow> fault) \<Rightarrow> Packet \<Rightarrow> TimingSimpleCPU \<Rightarrow> TimingSimpleCPU" where
  "finish_access completeAcc p c = advanceInst (completeAcc p) (c\<lparr>cpu_status := Running, completed := completed c @ [(Some p, completeAcc p)]\<rparr>)"

definition completeDataAccess :: "(Packet \<Rightarrow> fault) \<Rightarrow> tick \<Rightarrow> data_pkt \<Rightarrow> TimingSimpleCPU \<Rightarrow> TimingSimpleCPU result" where
  "completeDataAccess completeAcc now p c =
     rbind (assertr (\<not> isError (the_pkt p)) ''!pkt->isError()'') (\<lambda>_.
     rbind (assertr (cpu_status c = DcacheWaitResponse \<or> cpu_status c = DTBWaitResponse \<or> isSet (req_flags (pkt_req (the_pkt p))) NO_ACCESS)
              ''_status == DcacheWaitResponse || _status == DTBWaitResponse || NO_ACCESS'') (\<lambda>_.
     case p of
       Whole q \<Rightarrow> Inr (finish_access completeAcc (q\<lparr>pkt_req := setAccessLatency now (pkt_req q)\<rparr>) c)
     | Frag i q \<Rightarrow>
         (case split_main c of
            None \<Rightarrow> Inl (Assertion ''main_send_state'')
          | Some m \<Rightarrow>
              rbind (assertr (main_outstanding m \<noteq> 0) ''main_send_state->outstanding != 0'') (\<lambda>_.
              if main_outstanding m - 1 \<noteq> 0 then Inr (c\<lparr>split_main := Some (m\<lparr>main_outstanding := main_outstanding m - 1\<rparr>)\<rparr>)
              else Inr (finish_access completeAcc (bigPkt m) (c\<lparr>split_main := None\<rparr>))))))"

text \<open>The retry of a refused packet; a fragment is followed by the other one if that has not been sent.\<close>

definition retry_fragment :: "(nat \<Rightarrow> bool) \<Rightarrow> nat \<Rightarrow> SplitMainSenderState \<Rightarrow> TimingSimpleCPU \<Rightarrow> TimingSimpleCPU result" where
  "retry_fragment acc i m c =
     (let m1 = clearFromParent i m; other = getPendingFragment m1 in
      if other > 0 then
        case fragments m1 ! nat other of
          None \<Rightarrow> Inl HostFault
        | Some q \<Rightarrow>
            (let tmp = Frag (nat other) q; c1 = c\<lparr>split_main := Some m1, dcache_pkt := Some tmp\<rparr>;
                 clear = (\<lambda>c2. c2\<lparr>split_main := Some (m1\<lparr>fragments := (fragments m1)[nat other := None]\<rparr>)\<rparr>) in
             if isRead (bigPkt m) then
               case handleReadPacket acc tmp c1 of
                 (True, c2) \<Rightarrow> Inr (clear c2)
               | (False, c2) \<Rightarrow>
                   if isWrite (bigPkt m) then rbind (handleWritePacket acc c2) (\<lambda>(ok, c3). Inr (if ok then clear c3 else c3)) else Inr c2
             else if isWrite (bigPkt m) then rbind (handleWritePacket acc c1) (\<lambda>(ok, c2). Inr (if ok then clear c2 else c2))
             else Inr c1)
      else Inr (c\<lparr>split_main := Some m1, cpu_status := DcacheWaitResponse, dcache_pkt := None\<rparr>))"

definition recvReqRetry :: "(nat \<Rightarrow> bool) \<Rightarrow> TimingSimpleCPU \<Rightarrow> TimingSimpleCPU result" where
  "recvReqRetry acc c =
     (case dcache_pkt c of
        None \<Rightarrow> Inl (Assertion ''cpu->dcache_pkt != NULL'')
      | Some tmp \<Rightarrow>
          rbind (assertr (cpu_status c = DcacheRetry) ''cpu->_status == DcacheRetry'') (\<lambda>_.
          case tmp of
            Frag i q \<Rightarrow>
              (case split_main c of
                 None \<Rightarrow> Inl (Assertion ''main_send_state'')
               | Some m \<Rightarrow>
                   (case sendTimingReq acc tmp c of
                      (True, c1) \<Rightarrow> retry_fragment acc i m c1
                    | (False, c1) \<Rightarrow> Inr c1))
          | Whole q \<Rightarrow>
              (case sendTimingReq acc tmp c of
                 (True, c1) \<Rightarrow> Inr (c1\<lparr>cpu_status := DcacheWaitResponse, dcache_pkt := None\<rparr>)
               | (False, c1) \<Rightarrow> Inr c1)))"

subsection \<open>Building and sending the packets of an access\<close>

definition buildPacket :: "Request \<Rightarrow> bool \<Rightarrow> Packet" where
  "buildPacket req read = (if read then createRead req else createWrite req)"

definition sendData ::
  "(nat \<Rightarrow> bool) \<Rightarrow> (Packet \<Rightarrow> fault) \<Rightarrow> tick \<Rightarrow> Request \<Rightarrow> byte list \<Rightarrow> 64 word option \<Rightarrow> bool \<Rightarrow> TimingSimpleCPU \<Rightarrow> TimingSimpleCPU result" where
  "sendData acc completeAcc now req data res read c =
     rbind (dataDynamic data (buildPacket req read)) (\<lambda>pkt.
     if isSet (req_flags req) NO_ACCESS then
       rbind (assertr (dcache_pkt c = None) ''!dcache_pkt'') (\<lambda>_.
       rbind (makeResponse pkt) (\<lambda>rsp. completeDataAccess completeAcc now (Whole rsp) c))
     else if read then Inr (snd (handleReadPacket acc (Whole pkt) c))
     else
       rbind (if req_isLLSC req then Inr pkt
              else if req_isCondSwap req then
                case res of None \<Rightarrow> Inl (Assertion ''res'') | Some v \<Rightarrow> Inr (pkt\<lparr>pkt_req := setExtraData v (pkt_req pkt)\<rparr>)
              else Inr pkt) (\<lambda>pkt1.
       rbind (handleWritePacket acc (c\<lparr>dcache_pkt := Some (Whole pkt1)\<rparr>)) (\<lambda>(ok, c1). Inr c1)))"

definition buildSplitPacket ::
  "Request \<Rightarrow> Request \<Rightarrow> Request \<Rightarrow> byte list \<Rightarrow> bool \<Rightarrow> (Packet \<times> (Packet \<times> SplitMainSenderState) option) result" where
  "buildSplitPacket req1 req2 req data read =
     rbind (assertr (\<not> req_isMmappedIpr req1 \<and> \<not> req_isMmappedIpr req2) ''!req1->isMmappedIpr() && !req2->isMmappedIpr()'') (\<lambda>_.
     if isSet (req_flags req) NO_ACCESS then Inr (buildPacket req read, None)
     else
       rbind (dataDynamic data (new_packet req (responseCommand (pkt_cmd (buildPacket req1 read))))) (\<lambda>big.
       rbind (dataStatic data (buildPacket req1 read)) (\<lambda>pkt1.
       rbind (getReqSize req1) (\<lambda>sz.
       rbind (dataStatic (drop sz data) (buildPacket req2 read)) (\<lambda>pkt2.
       Inr (pkt1, Some (pkt2, \<lparr>bigPkt = big, main_outstanding = 2, fragments = [Some pkt1, Some pkt2]\<rparr>)))))))"

text \<open>The second fragment is tried only when the first one was taken; a taken fragment is cleared from the main packet.\<close>

definition sendSplitData ::
  "(nat \<Rightarrow> bool) \<Rightarrow> (Packet \<Rightarrow> fault) \<Rightarrow> tick \<Rightarrow> Request \<Rightarrow> Request \<Rightarrow> Request \<Rightarrow> byte list \<Rightarrow> bool \<Rightarrow> TimingSimpleCPU \<Rightarrow> TimingSimpleCPU result" where
  "sendSplitData acc completeAcc now req1 req2 req data read c =
     rbind (buildSplitPacket req1 req2 req data read) (\<lambda>(pkt1, rest).
     if isSet (req_flags req) NO_ACCESS then
       rbind (assertr (dcache_pkt c = None) ''!dcache_pkt'') (\<lambda>_.
       rbind (makeResponse pkt1) (\<lambda>rsp. completeDataAccess completeAcc now (Whole rsp) c))
     else
       case rest of
         None \<Rightarrow> Inl HostFault
       | Some (pkt2, m) \<Rightarrow>
           if read then
             case handleReadPacket acc (Frag 0 pkt1) (c\<lparr>split_main := Some m\<rparr>) of
               (False, c1) \<Rightarrow> Inr c1
             | (True, c1) \<Rightarrow>
                 (case handleReadPacket acc (Frag 1 pkt2) (c1\<lparr>split_main := Some (clearFromParent 0 m)\<rparr>) of
                    (False, c2) \<Rightarrow> Inr c2
                  | (True, c2) \<Rightarrow> Inr (c2\<lparr>split_main := Some (clearFromParent 1 (clearFromParent 0 m))\<rparr>))
           else
             rbind (handleWritePacket acc (c\<lparr>split_main := Some m, dcache_pkt := Some (Frag 0 pkt1)\<rparr>)) (\<lambda>(ok1, c1).
             if \<not> ok1 then Inr c1
             else
               rbind (handleWritePacket acc (c1\<lparr>split_main := Some (clearFromParent 0 m), dcache_pkt := Some (Frag 1 pkt2)\<rparr>)) (\<lambda>(ok2, c2).
               Inr (if ok2 then c2\<lparr>split_main := Some (clearFromParent 1 (clearFromParent 0 m))\<rparr> else c2))))"

definition translationFault :: "fault \<Rightarrow> TimingSimpleCPU \<Rightarrow> TimingSimpleCPU" where
  "translationFault flt c = advanceInst flt (c\<lparr>completed := completed c @ [(None, flt)]\<rparr>)"

definition finishTranslation ::
  "(nat \<Rightarrow> bool) \<Rightarrow> (Packet \<Rightarrow> fault) \<Rightarrow> tick \<Rightarrow> WholeTranslationState \<Rightarrow> TimingSimpleCPU \<Rightarrow> TimingSimpleCPU result" where
  "finishTranslation acc completeAcc now s c0 =
     (let c = c0\<lparr>cpu_status := Running\<rparr> in
      if getFault s \<noteq> None then
        let s1 = (if wts_isPrefetch s then setNoFault s else s) in Inr (translationFault (getFault s1) c)
      else if \<not> isSplit s then sendData acc completeAcc now (mainReq s) (wts_data s) (wts_res s) (wts_mode s = ModeRead) c
      else
        rbind (deref_req (sreqLow s)) (\<lambda>low.
        rbind (deref_req (sreqHigh s)) (\<lambda>high.
        sendSplitData acc completeAcc now low high (mainReq s) (wts_data s) (wts_mode s = ModeRead) c)))"

subsection \<open>Starting an access\<close>

definition new_data_request :: "tick \<Rightarrow> addr \<Rightarrow> nat \<Rightarrow> 32 word \<Rightarrow> TimingSimpleCPU \<Rightarrow> Request" where
  "new_data_request now a sz flags c =
     (virt_request now 0 a sz flags (cpu_masterId c) (inst_pc c) (cpu_id c) 0)\<lparr>req_taskId := cpu_taskId c\<rparr>"

definition split_point :: "addr \<Rightarrow> nat \<Rightarrow> TimingSimpleCPU \<Rightarrow> addr result" where
  "split_point a sz c =
     (let split_addr = roundDown (a + of_nat sz - 1) (of_nat (cpu_lineSize c)) in
      rbind (assertr (split_addr \<le> a \<or> split_addr - a < of_nat (cpu_lineSize c)) ''split_addr <= addr || split_addr - addr < block_size'') (\<lambda>_.
      Inr split_addr))"

definition start_split :: "addr \<Rightarrow> Request \<Rightarrow> byte list \<Rightarrow> 64 word option \<Rightarrow> Mode \<Rightarrow> WholeTranslationState result" where
  "start_split split_addr req data res mode =
     rbind (assertr (\<not> req_isLLSC req \<and> \<not> req_isSwap req) ''!req->isLLSC() && !req->isSwap()'') (\<lambda>_.
     rbind (splitOnVaddr split_addr req) (\<lambda>(req1, req2).
     split_state req req1 req2 data res mode))"

definition readMem :: "tick \<Rightarrow> addr \<Rightarrow> nat \<Rightarrow> 32 word \<Rightarrow> TimingSimpleCPU \<Rightarrow> (WholeTranslationState \<times> TimingSimpleCPU) result" where
  "readMem now a sz flags c =
     (let req = new_data_request now a sz flags c in
      rbind (split_point a sz c) (\<lambda>split_addr.
      rbind (if split_addr > a then start_split split_addr req (replicate sz 0) None ModeRead
             else single_state req (replicate sz 0) None ModeRead) (\<lambda>s.
      Inr (s, c\<lparr>cpu_status := DTBWaitResponse\<rparr>))))"

definition CACHE_BLOCK_ZERO :: "32 word" where "CACHE_BLOCK_ZERO = 0x00010000"

text \<open>A number that is no row operation differs from all of them, as in a three-operand operation.\<close>

definition start_rowop :: "Request \<Rightarrow> byte list \<Rightarrow> 64 word option \<Rightarrow> WholeTranslationState result" where
  "start_rowop req data res =
     rbind (decode_payload data) (\<lambda>(op, dest, src1, src2).
     rbind (splitRowOp \<lparr>rop = (case op of None \<Rightarrow> ROWAND | Some k \<Rightarrow> k), rdest = dest, rsrc1 = src1, rsrc2 = src2\<rparr> req) (\<lambda>(req_dest, req_src1, req_src2).
     rowop_state req req_dest req_src1 req_src2 data res ModeWrite))"

definition writeMem ::
  "tick \<Rightarrow> byte list option \<Rightarrow> nat \<Rightarrow> addr \<Rightarrow> 32 word \<Rightarrow> 64 word option \<Rightarrow> TimingSimpleCPU \<Rightarrow> (WholeTranslationState \<times> TimingSimpleCPU) result" where
  "writeMem now data sz a flags res c =
     rbind (case data of
              None \<Rightarrow> rbind (assertr (isSet flags CACHE_BLOCK_ZERO) ''flags & Request::CACHE_BLOCK_ZERO'') (\<lambda>_. Inr (replicate sz 0))
            | Some d \<Rightarrow> if sz \<le> length d then Inr (take sz d) else Inl HostFault) (\<lambda>newData.
     let req = new_data_request now a sz flags c in
     rbind (split_point a sz c) (\<lambda>split_addr.
     rbind (if split_addr > a then start_split split_addr req newData res ModeWrite
            else if isSet flags ROWOP then start_rowop req newData res
            else single_state req newData res ModeWrite) (\<lambda>s.
     Inr (s, c\<lparr>cpu_status := DTBWaitResponse\<rparr>))))"

subsection \<open>The row instructions\<close>

definition decode_row_op :: "nat \<Rightarrow> RowOp option" where
  "decode_row_op code =
     (if code = 0x5c then Some ROWAND else if code = 0x5d then Some ROWOR else if code = 0x5e then Some ROWNOT
      else if code = 0x5f then Some ROWXOR else if code = 0x60 then Some ROWAP else if code = 0x61 then Some ROWAAP
      else if code = 0x62 then Some ROWLS else if code = 0x63 then Some ROWRS else None)"

fun rowop_code :: "RowOp \<Rightarrow> nat" where
  "rowop_code ROWAND = 0" | "rowop_code ROWOR = 1" | "rowop_code ROWNOT = 2" | "rowop_code ROWXOR = 3"
| "rowop_code ROWAP = 4" | "rowop_code ROWAAP = 5" | "rowop_code ROWLS = 6" | "rowop_code ROWRS = 7"

definition row_instr_data :: "RowOp \<Rightarrow> addr \<Rightarrow> addr \<Rightarrow> addr \<Rightarrow> byte list" where
  "row_instr_data op rdi rsi rdx =
     payload_bytes (rowop_code op) rdi (if op = ROWAP then 0 else rsi)
       (if op = ROWNOT \<or> op = ROWAP \<or> op = ROWAAP \<or> op = ROWLS \<or> op = ROWRS then 0 else rdx)"

definition initiate_row_op :: "tick \<Rightarrow> RowOp \<Rightarrow> addr \<Rightarrow> addr \<Rightarrow> addr \<Rightarrow> TimingSimpleCPU \<Rightarrow> (WholeTranslationState \<times> TimingSimpleCPU) result" where
  "initiate_row_op now op rdi rsi rdx c = writeMem now (Some (row_instr_data op rdi rsi rdx)) 32 0 (UNCACHEABLE OR ROWOP) None c"

subsection \<open>Row instructions from the registers to the memory\<close>

lemma round_small:
  assumes "5 \<le> k" "k < 32"
  shows "roundDown 31 (of_nat (2 ^ k)) = 0"
proof -
  have "(31 :: 64 word) = mask 5" "(of_nat (2 ^ k) - 1 :: 64 word) = mask k" by (simp_all add: mask_eq_exp_minus_1)
  moreover have "mask 5 AND NOT (mask k :: 64 word) = 0" using assms(1) by (intro bit_word_eqI) (auto simp: bit_simps)
  ultimately show ?thesis by (simp only: roundDown_def Let_def)
qed

definition row_parts :: "RowOp \<Rightarrow> nat" where
  "row_parts op = (if op = ROWAP then 1 else if op = ROWNOT \<or> op = ROWAAP \<or> op = ROWLS \<or> op = ROWRS then 2 else 3)"

definition row_state :: "tick \<Rightarrow> RowOp \<Rightarrow> addr \<Rightarrow> addr \<Rightarrow> addr \<Rightarrow> TimingSimpleCPU \<Rightarrow> WholeTranslationState" where
  "row_state now op rdi rsi rdx c =
     (let req = new_data_request now 0 32 (UNCACHEABLE OR ROWOP) c in
      \<lparr>outstanding = row_parts op, faults = [None, None, None], wts_delay = False, isSplit = False, wts_isRowOp = True, mainReq = req,
       sreqLow = None, sreqHigh = None, sreqDest = Some (req\<lparr>req_vaddr := rdi\<rparr>),
       sreqSrc1 = (if row_parts op < 2 then None else Some (req\<lparr>req_vaddr := rsi\<rparr>)),
       sreqSrc2 = (if row_parts op < 3 then None else Some (req\<lparr>req_vaddr := rdx\<rparr>)),
       wts_data = row_instr_data op rdi rsi rdx, wts_res = None, wts_mode = ModeWrite\<rparr>)"

lemma data_request_fields:
  "req_flags (new_data_request now a n fl c) = fl" "isSet (privateFlags (new_data_request now a n fl c)) VALID_VADDR"
  "\<not> isSet (privateFlags (new_data_request now a n fl c)) VALID_PADDR" "hasSize (new_data_request now a n fl c)"
  "isSet (privateFlags (new_data_request now a n fl c)) (VALID_PADDR OR VALID_VADDR)"
  by (simp_all add: new_data_request_def virt_request_def setThreadContext_def setVirt_def empty_request_def hasSize_def
      isSet_def setFlag_def clearFlags_def private_flag_defs req_flag_defs)

lemma rowop_code_of: "rowop_code op < 8" "rowop_of_nat (rowop_code op) = Some op"
  by (cases op; simp add: rowop_of_nat_def numeral_eq_Suc)+

lemma initiate_row_op_ok:
  assumes "cpu_lineSize c = 2 ^ k" "5 \<le> k" "k < 32"
  shows "initiate_row_op now op rdi rsi rdx c = Inr (row_state now op rdi rsi rdx c, c\<lparr>cpu_status := DTBWaitResponse\<rparr>)"
proof -
  let ?r = "new_data_request now 0 32 (UNCACHEABLE OR ROWOP) c"
  have sp: "split_point 0 32 c = Inr 0" using round_small [OF assms(2,3)] by (simp add: split_point_def assms(1))
  have d: "decode_payload (row_instr_data op rdi rsi rdx) = Inr (Some op, rdi, if op = ROWAP then 0 else rsi,
    if op = ROWNOT \<or> op = ROWAP \<or> op = ROWAAP \<or> op = ROWLS \<or> op = ROWRS then 0 else rdx)"
    using decode_payload_bytes [OF rowop_code_of(1)] by (simp add: row_instr_data_def rowop_code_of)
  have rows: "isSet (UNCACHEABLE OR ROWOP) ROWOP" by (simp add: isSet_def req_flag_defs)
  have "start_rowop ?r (row_instr_data op rdi rsi rdx) None = Inr (row_state now op rdi rsi rdx c)"
    unfolding start_rowop_def d using data_request_fields(2,3) [of now 0 32 "UNCACHEABLE OR ROWOP" c]
    by (cases op) (simp_all add: splitRowOp_def rowop_state_def row_state_def row_parts_def Let_def)
  then show ?thesis using sp rows
    by (simp add: initiate_row_op_def writeMem_def row_instr_data_def Let_def)
qed

text \<open>The address of operand \<open>i\<close> after the answers of the TLB, and the flags the pages add.\<close>

definition addr_after :: "(nat \<times> tlb_reply) list \<Rightarrow> nat \<Rightarrow> addr \<Rightarrow> addr" where
  "addr_after as i v = (case map_of as i of Some (Translated pa fl) \<Rightarrow> pa | _ \<Rightarrow> v)"

definition all_parts :: "RowOp \<Rightarrow> (nat \<times> tlb_reply) list \<Rightarrow> bool" where
  "all_parts op as \<longleftrightarrow> distinct (map fst as) \<and> fst ` set as = {..<row_parts op}"

definition row_payload :: "RowOp \<Rightarrow> (nat \<times> tlb_reply) list \<Rightarrow> addr \<Rightarrow> addr \<Rightarrow> addr \<Rightarrow> byte list" where
  "row_payload op as rdi rsi rdx =
     payload_bytes (rowop_code op) (addr_after as 0 rdi) (if row_parts op < 2 then 0 else addr_after as 1 rsi)
       (if row_parts op < 3 then 0 else addr_after as 2 rdx)"

lemma all_parts_length: "all_parts op as \<Longrightarrow> length as = row_parts op"
  using distinct_card [of "map fst as"] by (simp add: all_parts_def)

lemma answered_request:
  assumes "all_parts op as" "i < row_parts op"
  shows "fault_after as i f = None \<longrightarrow> hasPaddr (answered as i r)"
    "(if fault_after as i f = None then req_paddr (answered as i r) else v) = addr_after as i v"
proof -
  have "i \<in> fst ` set as" using assms by (simp add: all_parts_def)
  then obtain p where "map_of as i = Some p" by (metis map_of_eq_None_iff not_None_eq)
  then show "fault_after as i f = None \<longrightarrow> hasPaddr (answered as i r)"
    "(if fault_after as i f = None then req_paddr (answered as i r) else v) = addr_after as i v"
    by (cases p; simp add: fault_after_def answered_def addr_after_def hasPaddr_def tlb_write_def setPaddr_def private_flag_defs isSet_def setFlag_def;
        simp add: bit_eq_iff bit_simps)+
qed

definition page_sets :: "(nat \<times> tlb_reply) list \<Rightarrow> 32 word \<Rightarrow> bool" where
  "page_sets as m \<longleftrightarrow> (\<exists>(i, r) \<in> set as. case r of TlbFault f \<Rightarrow> False | Translated pa fl \<Rightarrow> isSet fl m)"

lemma answered_flags: "isSet (req_flags (answered as i r)) m \<longrightarrow> isSet (req_flags r) m \<or> page_sets as m"
  "isSet (req_flags r) m \<longrightarrow> isSet (req_flags (answered as i r)) m"
proof -
  show "isSet (req_flags r) m \<longrightarrow> isSet (req_flags (answered as i r)) m"
    by (cases "map_of as i"; cases "the (map_of as i)") (auto simp: answered_def tlb_write_def setPaddr_def)
  show "isSet (req_flags (answered as i r)) m \<longrightarrow> isSet (req_flags r) m \<or> page_sets as m"
  proof (cases "map_of as i")
    case (Some p)
    then have "(i, p) \<in> set as" by (rule map_of_SomeD)
    then show ?thesis using Some by (cases p) (force simp: answered_def tlb_write_def setPaddr_def page_sets_def)+
  qed (simp add: answered_def)
qed

lemma row_translation:
  assumes "all_parts op as"
  shows "\<exists>s. run_ops (tlb_done t) as (row_state now op rdi rsi rdx c) = Inr (replicate (row_parts op - 1) False @ [True], s) \<and>
    wts_data s = row_payload op as rdi rsi rdx \<and> getFault s = fault_after as 0 None \<and> \<not> isSplit s \<and> wts_mode s = ModeWrite \<and>
    wts_res s = None \<and> hasPaddr (mainReq s) \<and> hasSize (mainReq s) \<and>
    (\<forall>m. isSet (req_flags (mainReq s)) m \<longrightarrow> isSet (UNCACHEABLE OR ROWOP) m \<or> page_sets as m) \<and> isSet (req_flags (mainReq s)) ROWOP"
proof -
  let ?r = "new_data_request now 0 32 (UNCACHEABLE OR ROWOP) c" and ?s = "row_state now op rdi rsi rdx c"
  have len: "length as = row_parts op" "as \<noteq> []" using all_parts_length [OF assms] by (auto simp: row_parts_def split: if_splits)
  have lt: "\<forall>a \<in> set as. fst a < 3"
  proof
    fix a assume "a \<in> set as"
    then have "fst a \<in> {..<row_parts op}" using assms unfolding all_parts_def by blast
    then show "fst a < 3" by (auto simp: row_parts_def split: if_splits)
  qed
  define u where "u = ?s\<lparr>faults := [fault_after as 0 None, fault_after as 1 None, fault_after as 2 None],
    sreqDest := Some (answered as 0 (?r\<lparr>req_vaddr := rdi\<rparr>)), sreqSrc1 := map_option (answered as 1) (sreqSrc1 ?s),
    sreqSrc2 := map_option (answered as 2) (sreqSrc2 ?s), outstanding := 0\<rparr>"
  have u: "(fold record_reply as ?s)\<lparr>outstanding := 0\<rparr> = u"
    using rowop_answers [of ?s as] assms lt by (simp add: row_state_def Let_def all_parts_def u_def)
  define main where "main = setPaddr 0 (?r\<lparr>req_flags := flags_after (sreqSrc2 u) (flags_after (sreqSrc1 u)
    (setFlag (req_flags ?r) (req_flags (answered as 0 (?r\<lparr>req_vaddr := rdi\<rparr>)))))\<rparr>)"
  define v where "v = u\<lparr>wts_data := payload_bytes (rowop_code op) (operand_after (fault_after as 0 None) (Some (answered as 0 (?r\<lparr>req_vaddr := rdi\<rparr>))) rdi)
    (operand_after (fault_after as 1 None) (sreqSrc1 u) (if op = ROWAP then 0 else rsi))
    (operand_after (fault_after as 2 None) (sreqSrc2 u) (if op = ROWNOT \<or> op = ROWAP \<or> op = ROWAAP \<or> op = ROWLS \<or> op = ROWRS then 0 else rdx)), mainReq := main\<rparr>"
  have pos: "0 < row_parts op" by (simp add: row_parts_def)
  have srcs: "sreqSrc1 u = (if row_parts op < 2 then None else Some (answered as 1 (?r\<lparr>req_vaddr := rsi\<rparr>)))"
    "sreqSrc2 u = (if row_parts op < 3 then None else Some (answered as 2 (?r\<lparr>req_vaddr := rdx\<rparr>)))"
    by (simp_all add: u_def row_state_def Let_def)
  have "finish_rowop u = Inr v"
    unfolding v_def main_def
    by (subst finish_rowop_ok [where dest = "answered as 0 (?r\<lparr>req_vaddr := rdi\<rparr>)" and k = "rowop_code op" and vd = rdi])
      (use answered_request(1) [OF assms] pos srcs data_request_fields(5) in
        \<open>auto simp: u_def row_state_def Let_def row_instr_data_def split: if_splits\<close>)
  then have "closing u = Inr v" by (simp add: closing_def u_def row_state_def Let_def)
  then have run: "run_ops (tlb_done t) as ?s = Inr (replicate (row_parts op - 1) False @ [True],
      if getFault v = None then upd_part (fst (last as)) (setTranslateLatency t) v else v)"
    using replies_run [of as ?s t] len u by (simp add: row_state_def Let_def)
  have op: "operand_after (fault_after as i None) (Some (answered as i r)) w = addr_after as i w" if "i < row_parts op" for i r w
    using answered_request(2) [OF assms that] by (simp add: operand_after_def)
  have data: "wts_data v = row_payload op as rdi rsi rdx"
    using op [of 0] op [of 1] op [of 2] unfolding v_def srcs
    by (cases op) (simp_all add: row_payload_def row_parts_def operand_after_def [of _ None])
  have flags: "isSet (req_flags main) m \<longrightarrow> isSet (UNCACHEABLE OR ROWOP) m \<or> page_sets as m" for m
    using answered_flags(1) [of as 0 "?r\<lparr>req_vaddr := rdi\<rparr>" m] answered_flags(1) [of as 1 "?r\<lparr>req_vaddr := rsi\<rparr>" m]
      answered_flags(1) [of as 2 "?r\<lparr>req_vaddr := rdx\<rparr>" m] srcs data_request_fields(1)
    by (auto simp: main_def setPaddr_def flags_after_def)
  have "isSet (UNCACHEABLE OR ROWOP) ROWOP" by (simp add: isSet_def req_flag_defs)
  then have rowop: "isSet (req_flags main) ROWOP" using srcs data_request_fields(1) by (auto simp: main_def setPaddr_def flags_after_def)
  have "isSet VALID_PADDR VALID_PADDR" by (simp add: isSet_def private_flag_defs)
  then have "hasPaddr main" "hasSize main" using data_request_fields(4)
    by (simp_all add: main_def setPaddr_def hasPaddr_def hasSize_def)
  have v: "wts_isRowOp v" "\<not> isSplit v" "wts_mode v = ModeWrite" "wts_res v = None" "mainReq v = main" "faults v ! 0 = fault_after as 0 None"
    by (simp_all add: v_def u_def row_state_def Let_def)
  define z where "z = (if getFault v = None then upd_part (fst (last as)) (setTranslateLatency t) v else v)"
  have "wts_data z = wts_data v" "getFault z = fault_after as 0 None" "\<not> isSplit z" "wts_mode z = ModeWrite" "wts_res z = None" "mainReq z = main"
    using v by (simp_all add: z_def upd_part_def getFault_def)
  then show ?thesis using run data flags rowop \<open>hasPaddr main\<close> \<open>hasSize main\<close> unfolding z_def [symmetric] by (intro exI [of _ z]) simp
qed

definition plain_pages :: "(nat \<times> tlb_reply) list \<Rightarrow> bool" where
  "plain_pages as \<longleftrightarrow> \<not> page_sets as (NO_ACCESS OR MMAPPED_IPR OR LLSC OR MEM_SWAP OR MEM_SWAP_COND)"

lemma isSet_or: "isSet f (a OR b) \<longleftrightarrow> isSet f a \<or> isSet f b"
  by (auto simp: isSet_bits bit_simps)

lemma page_sets_iff: "page_sets as m \<longleftrightarrow> (\<exists>i pa fl. (i, Translated pa fl) \<in> set as \<and> isSet fl m)"
proof
  assume "page_sets as m"
  then obtain i r where "(i, r) \<in> set as" "case r of TlbFault f \<Rightarrow> False | Translated pa fl \<Rightarrow> isSet fl m" by (auto simp: page_sets_def)
  then show "\<exists>i pa fl. (i, Translated pa fl) \<in> set as \<and> isSet fl m" by (cases r) auto
next
  assume "\<exists>i pa fl. (i, Translated pa fl) \<in> set as \<and> isSet fl m"
  then show "page_sets as m" unfolding page_sets_def by (auto intro!: bexI)
qed

lemma plain_pages_flags:
  assumes "plain_pages as" "\<forall>m. isSet fl m \<longrightarrow> isSet (UNCACHEABLE OR ROWOP) m \<or> page_sets as m"
  shows "\<not> isSet fl NO_ACCESS" "\<not> isSet fl MMAPPED_IPR" "\<not> isSet fl LLSC" "\<not> isSet fl MEM_SWAP" "\<not> isSet fl MEM_SWAP_COND"
proof -
  have or: "page_sets as (a OR b) \<longleftrightarrow> page_sets as a \<or> page_sets as b" for a b
    by (auto simp: page_sets_iff isSet_or)
  have "\<not> isSet (UNCACHEABLE OR ROWOP) m" if "m \<in> {NO_ACCESS, MMAPPED_IPR, LLSC, MEM_SWAP, MEM_SWAP_COND}" for m
    using that by (auto simp: isSet_def req_flag_defs NO_ACCESS_def)
  moreover have "\<not> page_sets as m" if "m \<in> {NO_ACCESS, MMAPPED_IPR, LLSC, MEM_SWAP, MEM_SWAP_COND}" for m
    using that assms(1) unfolding plain_pages_def or by blast
  ultimately show "\<not> isSet fl NO_ACCESS" "\<not> isSet fl MMAPPED_IPR" "\<not> isSet fl LLSC" "\<not> isSet fl MEM_SWAP" "\<not> isSet fl MEM_SWAP_COND"
    using assms(2) by blast+
qed

lemma row_packet_sent:
  assumes "getFault s = None" "\<not> isSplit s" "wts_mode s = ModeWrite" "wts_res s = None" "hasPaddr (mainReq s)" "isSet (req_flags (mainReq s)) ROWOP"
    "plain_pages as" "\<forall>m. isSet (req_flags (mainReq s)) m \<longrightarrow> isSet (UNCACHEABLE OR ROWOP) m \<or> page_sets as m" "acc (attempts c)"
  shows "\<exists>p c'. finishTranslation acc completeAcc t s c = Inr c' \<and> sent c' = sent c @ [Whole p] \<and> cpu_status c' = DcacheWaitResponse \<and>
    completed c' = completed c \<and> dcache_pkt c' = None \<and> cpu_lineSize c' = cpu_lineSize c \<and>
    getPtr p = Inr (wts_data s) \<and> isRowOp p \<and> \<not> memInhibitAsserted p \<and> needsResponse p \<and> isRequest p"
proof -
  let ?r = "mainReq s"
  note fl = plain_pages_flags [OF assms(7,8)]
  have cmd: "buildPacket ?r False = new_packet ?r WriteReq"
    using fl by (simp add: buildPacket_def createWrite_def makeWriteCmd_def req_isLLSC_def req_isSwap_def isSet_or)
  have pf: "pkt_flags (new_packet ?r WriteReq) = (if hasSize ?r then setFlag (setFlag 0 VALID_ADDR) VALID_SIZE else setFlag 0 VALID_ADDR)"
    "pkt_req (new_packet ?r WriteReq) = ?r" "pkt_cmd (new_packet ?r WriteReq) = WriteReq"
    using assms(5) by (simp_all add: new_packet_def Let_def)
  define p where "p = (new_packet ?r WriteReq)\<lparr>pkt_data := Some (wts_data s), pkt_flags := setFlag (pkt_flags (new_packet ?r WriteReq)) DYNAMIC_DATA\<rparr>"
  have dd: "dataDynamic (wts_data s) (buildPacket ?r False) = Inr p"
    unfolding cmd dataDynamic_def by (auto simp: pf p_def isSet_def setFlag_def pkt_flag_defs)
  have "finishTranslation acc completeAcc t s c = Inr (c\<lparr>cpu_status := DcacheWaitResponse, dcache_pkt := None, attempts := attempts c + 1, sent := sent c @ [Whole p]\<rparr>)"
    using assms(1-4,9) dd fl pf
    by (simp add: finishTranslation_def sendData_def req_isLLSC_def req_isCondSwap_def handleWritePacket_def sendTimingReq_def req_isMmappedIpr_def p_def)
  moreover have "getPtr p = Inr (wts_data s)" "isRowOp p" "\<not> memInhibitAsserted p" "needsResponse p" "isRequest p"
    using assms(6) pf by (auto simp: p_def getPtr_def isRowOp_def req_isRowOp_def memInhibitAsserted_def needsResponse_def isRequest_def
        isSet_def setFlag_def pkt_flag_defs cmd_defs)
  ultimately show ?thesis by (intro exI [of _ p]) simp
qed

lemma addr_after_translated:
  assumes "all_parts op as" "\<forall>(i, r) \<in> set as. \<exists>fl. r = Translated (tr ([rdi, rsi, rdx] ! i)) fl" "i < row_parts op"
  shows "addr_after as i v = tr ([rdi, rsi, rdx] ! i)" "fault_after as i f = None"
proof -
  have "i \<in> fst ` set as" using assms(1,3) by (simp add: all_parts_def)
  then obtain p where p: "map_of as i = Some p" by (metis map_of_eq_None_iff not_None_eq)
  then have "(i, p) \<in> set as" by (rule map_of_SomeD)
  then show "addr_after as i v = tr ([rdi, rsi, rdx] ! i)" "fault_after as i f = None"
    using assms(2) p by (auto simp: addr_after_def fault_after_def)
qed

lemma row_instruction_packet:
  assumes "cpu_lineSize c = 2 ^ k" "5 \<le> k" "k < 32"
    and "all_parts op as" "\<forall>(i, r) \<in> set as. \<exists>fl. r = Translated (tr ([rdi, rsi, rdx] ! i)) fl" "plain_pages as" "acc (attempts c)"
  shows "\<exists>s c1 s' c2 p. initiate_row_op now op rdi rsi rdx c = Inr (s, c1) \<and>
    run_ops (tlb_done t) as s = Inr (replicate (row_parts op - 1) False @ [True], s') \<and>
    finishTranslation acc completeAcc t s' c1 = Inr c2 \<and> sent c2 = sent c @ [Whole p] \<and> cpu_status c2 = DcacheWaitResponse \<and>
    completed c2 = completed c \<and> cpu_lineSize c2 = cpu_lineSize c \<and>
    isRowOp p \<and> \<not> memInhibitAsserted p \<and> needsResponse p \<and> isRequest p \<and>
    getPtr p = Inr (payload_bytes (rowop_code op) (tr rdi) (if row_parts op < 2 then 0 else tr rsi) (if row_parts op < 3 then 0 else tr rdx))"
proof -
  let ?c1 = "c\<lparr>cpu_status := DTBWaitResponse\<rparr>"
  have pos: "0 < row_parts op" by (simp add: row_parts_def)
  obtain s' where s': "run_ops (tlb_done t) as (row_state now op rdi rsi rdx c) = Inr (replicate (row_parts op - 1) False @ [True], s')"
    "wts_data s' = row_payload op as rdi rsi rdx" "getFault s' = None" "\<not> isSplit s'" "wts_mode s' = ModeWrite" "wts_res s' = None"
    "hasPaddr (mainReq s')" "isSet (req_flags (mainReq s')) ROWOP"
    "\<forall>m. isSet (req_flags (mainReq s')) m \<longrightarrow> isSet (UNCACHEABLE OR ROWOP) m \<or> page_sets as m"
    using row_translation [OF assms(4), of t now rdi rsi rdx c] addr_after_translated(2) [OF assms(4,5) pos] by metis
  have "acc (attempts ?c1)" using assms(7) by simp
  from row_packet_sent [OF s'(3-8) assms(6) s'(9), of acc ?c1, OF this, of completeAcc t] obtain p c2 where p: "finishTranslation acc completeAcc t s' ?c1 = Inr c2"
    "sent c2 = sent c @ [Whole p]" "cpu_status c2 = DcacheWaitResponse" "completed c2 = completed c" "cpu_lineSize c2 = cpu_lineSize c"
    "getPtr p = Inr (wts_data s')" "isRowOp p" "\<not> memInhibitAsserted p" "needsResponse p" "isRequest p" by auto
  have "getPtr p = Inr (payload_bytes (rowop_code op) (tr rdi) (if row_parts op < 2 then 0 else tr rsi) (if row_parts op < 3 then 0 else tr rdx))"
    using p(6) s'(2) addr_after_translated(1) [OF assms(4,5), of 0] addr_after_translated(1) [OF assms(4,5), of 1]
      addr_after_translated(1) [OF assms(4,5), of 2] pos by (simp add: row_payload_def)
  then show ?thesis using initiate_row_op_ok [OF assms(1-3)] s'(1) p by blast
qed

lemma row_op_unused:
  "row_op op N n d (if row_parts op < 2 then a' else a) (if row_parts op < 3 then b' else b) m = row_op op N n d a b m"
  by (cases op) (simp_all add: row_op_def row_parts_def)

text \<open>C2: a row instruction does to the memory what its name says. For any order in which the TLB answers the operands, the CPU sends
  one packet when the last answer is in, and the memory that executes it leaves in the row the destination register points to the
  result of the operation on the rows the source registers point to, and nothing else is changed. The registers hold virtual
  addresses; \<open>tr\<close> is the translation of the base address of a row, the only address of it that is translated, so a row is
  contiguous in physical memory. Each source is the destination row itself, as in \<^verbatim>\<open>rowop_or(mgt, mgt, tmp)\<close>, or apart from it. The
  result is the one \<open>row_spec\<close> states, but for a shift of a row onto itself, which takes the bit that crosses a word boundary
  from the word already shifted (\<open>row_result\<close>).\<close>

theorem row_instruction_end_to_end:
  assumes "cpu_lineSize c = 2 ^ k" "5 \<le> k" "k < 32"
    and "all_parts op as" "\<forall>(i, r) \<in> set as. \<exists>fl. r = Translated (tr ([rdi, rsi, rdx] ! i)) fl" "plain_pages as" "acc (attempts c)"
    and "mem_ok mem" "pmem mem = Some m" "in_mem mem (tr rdi) ROW_SIZE"
    and "\<forall>s \<in> set (row_sources op (host_offset mem (tr rsi)) (host_offset mem (tr rdx))).
      s + ROW_SIZE \<le> pmem_size mem \<and> (s = host_offset mem (tr rdi) \<or> row_apart (ROW_SIZE div 8) (host_offset mem (tr rdi)) s)"
  shows "\<exists>s c1 s' c2 p mem' p' m'. initiate_row_op now op rdi rsi rdx c = Inr (s, c1) \<and>
    run_ops (tlb_done t) as s = Inr (replicate (row_parts op - 1) False @ [True], s') \<and>
    finishTranslation acc completeAcc t s' c1 = Inr c2 \<and> sent c2 = sent c @ [Whole p] \<and>
    access mem p = Inr (mem', p') \<and> isResponse p' \<and> pmem mem' = Some m' \<and>
    (\<forall>j. j < host_offset mem (tr rdi) \<or> host_offset mem (tr rdi) + ROW_SIZE \<le> j \<longrightarrow> m' j = m j) \<and>
    (\<forall>i < ROW_SIZE div 8. row_at m' (host_offset mem (tr rdi)) i =
       (if (op = ROWLS \<or> op = ROWRS) \<and> host_offset mem (tr rdi) = host_offset mem (tr rsi)
        then row_result op True (ROW_SIZE div 8) (row_at m (host_offset mem (tr rdi))) (row_at m (host_offset mem (tr rsi))) (row_at m (host_offset mem (tr rdx))) i
        else row_spec op (ROW_SIZE div 8) (row_at m (host_offset mem (tr rdi))) (row_at m (host_offset mem (tr rsi))) (row_at m (host_offset mem (tr rdx))) i))"
proof -
  let ?d = "host_offset mem (tr rdi)" and ?s1 = "host_offset mem (tr rsi)" and ?s2 = "host_offset mem (tr rdx)" and ?n = "ROW_SIZE div 8"
  have n8: "8 * ?n = ROW_SIZE" by (simp add: ROW_SIZE_def)
  have "?d + 8 * ?n \<le> pmem_size mem" using in_mem_offset [OF assms(8,10)] n8 by simp
  moreover have "\<And>s. s \<in> set (row_sources op ?s1 ?s2) \<Longrightarrow> s + 8 * ?n \<le> pmem_size mem \<and> in_place ?n ?d s"
    using assms(11) n8 by (auto simp: in_place_def)
  ultimately obtain m' where m': "row_op op (pmem_size mem) ?n ?d ?s1 ?s2 m = Inr m'" "same_outside ?n ?d m m'"
      "\<forall>i < ?n. row_at m' ?d i = row_result op (?d = ?s1) ?n (row_at m ?d) (row_at m ?s1) (row_at m ?s2) i"
    using row_op_in_place [of ?d ?n "pmem_size mem" op ?s1 ?s2 m] by blast
  obtain s c1 s' c2 p where p: "initiate_row_op now op rdi rsi rdx c = Inr (s, c1)" "run_ops (tlb_done t) as s = Inr (replicate (row_parts op - 1) False @ [True], s')"
    "finishTranslation acc completeAcc t s' c1 = Inr c2" "sent c2 = sent c @ [Whole p]" "isRowOp p" "\<not> memInhibitAsserted p" "needsResponse p" "isRequest p"
    "getPtr p = Inr (payload_bytes (rowop_code op) (tr rdi) (if row_parts op < 2 then 0 else tr rsi) (if row_parts op < 3 then 0 else tr rdx))"
    using row_instruction_packet [where tr = tr and acc = acc, OF assms(1-7), of now t completeAcc] by blast
  have "row_op op (pmem_size mem) ?n ?d (host_offset mem (if row_parts op < 2 then 0 else tr rsi)) (host_offset mem (if row_parts op < 3 then 0 else tr rdx)) m = Inr m'"
    using m'(1) row_op_unused [of op] by (simp add: if_distrib [of "host_offset mem"])
  then obtain p' where p': "access mem p = Inr (mem\<lparr>pmem := Some m'\<rparr>, p')" "isResponse p'"
    using access_rowop_runs [OF assms(9) p(5-9) rowop_code_of(2)] by blast
  have "\<forall>j. j < ?d \<or> ?d + ROW_SIZE \<le> j \<longrightarrow> m' j = m j" using m'(2) n8 by (simp add: same_outside_def)
  moreover have "\<forall>i < ?n. row_at m' ?d i = (if (op = ROWLS \<or> op = ROWRS) \<and> ?d = ?s1 then row_result op True ?n (row_at m ?d) (row_at m ?s1) (row_at m ?s2) i
      else row_spec op ?n (row_at m ?d) (row_at m ?s1) (row_at m ?s2) i)"
    using m'(3) by (simp add: row_result_def)
  ultimately show ?thesis
    using p(1-4) p' by (intro exI [of _ s] exI [of _ c1] exI [of _ s'] exI [of _ c2] exI [of _ p] exI [of _ "mem\<lparr>pmem := Some m'\<rparr>"] exI [of _ p'] exI [of _ m'] conjI) simp_all
qed

text \<open>C34: a fault on a source operand of a row instruction is lost: the state reports the fault of the destination alone, so the CPU takes
  no fault and sends the packet with the virtual address of the source in the place of a physical one.\<close>

theorem source_fault_lost:
  assumes "cpu_lineSize c = 2 ^ k" "5 \<le> k" "k < 32"
    and "all_parts op as" "(0, Translated pd fl) \<in> set as" "(i, TlbFault f) \<in> set as" "plain_pages as" "acc (attempts c)"
  shows "\<exists>s c1 s' c2 p a1 a2. initiate_row_op now op rdi rsi rdx c = Inr (s, c1) \<and>
    run_ops (tlb_done t) as s = Inr (replicate (row_parts op - 1) False @ [True], s') \<and>
    finishTranslation acc completeAcc t s' c1 = Inr c2 \<and> sent c2 = sent c @ [Whole p] \<and> completed c2 = completed c \<and>
    getPtr p = Inr (payload_bytes (rowop_code op) pd a1 a2) \<and> (i = 1 \<and> a1 = rsi \<or> i = 2 \<and> a2 = rdx)"
proof -
  have m: "map_of as 0 = Some (Translated pd fl)" "map_of as i = Some (TlbFault f)" using assms(4-6) by (simp_all add: all_parts_def)
  have "i \<in> {..<row_parts op}" using assms(4,6) unfolding all_parts_def by force
  moreover have "row_parts op \<le> 3" by (simp add: row_parts_def)
  moreover have "i \<noteq> 0" using m by (cases "i = 0") simp_all
  ultimately have parts: "i = 1 \<and> \<not> row_parts op < 2 \<or> i = 2 \<and> \<not> row_parts op < 3" by auto
  obtain s' where s': "run_ops (tlb_done t) as (row_state now op rdi rsi rdx c) = Inr (replicate (row_parts op - 1) False @ [True], s')"
    "wts_data s' = row_payload op as rdi rsi rdx" "getFault s' = None" "\<not> isSplit s'" "wts_mode s' = ModeWrite" "wts_res s' = None"
    "hasPaddr (mainReq s')" "isSet (req_flags (mainReq s')) ROWOP"
    "\<forall>m. isSet (req_flags (mainReq s')) m \<longrightarrow> isSet (UNCACHEABLE OR ROWOP) m \<or> page_sets as m"
    using row_translation [OF assms(4), of t now rdi rsi rdx c] m(1) by (auto simp: fault_after_def)
  have "acc (attempts (c\<lparr>cpu_status := DTBWaitResponse\<rparr>))" using assms(8) by simp
  from row_packet_sent [OF s'(3-8) assms(7) s'(9), of acc "c\<lparr>cpu_status := DTBWaitResponse\<rparr>", OF this, of completeAcc t] obtain p c2 where
    p: "finishTranslation acc completeAcc t s' (c\<lparr>cpu_status := DTBWaitResponse\<rparr>) = Inr c2" "sent c2 = sent c @ [Whole p]"
    "completed c2 = completed c" "getPtr p = Inr (wts_data s')" by auto
  let ?a1 = "if row_parts op < 2 then 0 else addr_after as 1 rsi" and ?a2 = "if row_parts op < 3 then 0 else addr_after as 2 rdx"
  have "getPtr p = Inr (payload_bytes (rowop_code op) pd ?a1 ?a2)" using p(4) s'(2) m(1) by (simp add: row_payload_def addr_after_def)
  moreover have "i = 1 \<and> ?a1 = rsi \<or> i = 2 \<and> ?a2 = rdx" using m(2) parts by (auto simp: addr_after_def)
  ultimately show ?thesis using initiate_row_op_ok [OF assms(1-3)] s'(1) p(1-3) by blast
qed

definition demo_cpu :: TimingSimpleCPU where
  "demo_cpu = \<lparr>cpu_status = Running, dcache_pkt = None, split_main = None, attempts = 0, sent = [], ipr_events = [], completed = [],
     cpu_lineSize = 64, cpu_masterId = 0, cpu_id = 0, cpu_taskId = 0, inst_pc = 0\<rparr>"

theorem row_instruction_end_to_end_witness:
  "\<exists>s c1 s' c2 p mem' p' m'. initiate_row_op 0 ROWOR 0x7000 0x7000 0x5000 demo_cpu = Inr (s, c1) \<and>
    run_ops (tlb_done 0) [(1, Translated 0x2000 0), (2, Translated 0 0), (0, Translated 0x2000 0)] s = Inr ([False, False, True], s') \<and>
    finishTranslation (\<lambda>_. True) (\<lambda>_. None) 0 s' c1 = Inr c2 \<and> sent c2 = [Whole p] \<and> access demo_mem p = Inr (mem', p') \<and>
    pmem mem' = Some m' \<and> row_at m' 0x2000 5 = row_at (\<lambda>_. 0) 0x2000 5 OR row_at (\<lambda>_. 0) 0 5"
proof -
  let ?as = "[(1, Translated 0x2000 0), (2, Translated 0 0), (0, Translated 0x2000 0)]"
  have d: "mem_ok demo_mem" "pmem demo_mem = Some (\<lambda>_. 0)" "in_mem demo_mem 0x2000 ROW_SIZE" "host_offset demo_mem 0x2000 = 0x2000"
    "host_offset demo_mem 0 = 0" "pmem_size demo_mem = 0x10000"
    using demo_mem_valid by (simp_all add: mem_valid_def demo_mem_def in_mem_def plain_range_def ROW_SIZE_def host_offset_def)
  define tr :: "addr \<Rightarrow> addr" where "tr a = (if a = 0x7000 then 0x2000 else 0)" for a
  have "all_parts ROWOR ?as" by (auto simp: all_parts_def row_parts_def)
  moreover have "\<forall>(i, r) \<in> set ?as. \<exists>fl. r = Translated (tr ([0x7000, 0x7000, 0x5000] ! i)) fl" by (simp add: tr_def)
  moreover have "plain_pages ?as" by (auto simp: plain_pages_def page_sets_def isSet_def)
  moreover have r: "replicate (row_parts ROWOR - 1) False @ [True] = [False, False, True]" by (simp add: row_parts_def numeral_2_eq_2)
  ultimately show ?thesis
    using row_instruction_end_to_end [of demo_cpu 6 ROWOR ?as tr "0x7000" "0x7000" "0x5000" "\<lambda>_. True" demo_mem "\<lambda>_. 0" 0 0 "\<lambda>_. None"] d
    unfolding r by (fastforce simp: demo_cpu_def tr_def row_sources_def row_apart_def ROW_SIZE_def row_spec_def)
qed

theorem source_fault_lost_witness:
  "\<exists>s c1 s' c2 p a2. initiate_row_op 0 ROWAND 0x7000 0x5000 0x3000 demo_cpu = Inr (s, c1) \<and>
    run_ops (tlb_done 0) [(1, TlbFault ''page fault''), (2, Translated 0 0), (0, Translated 0x2000 0)] s = Inr ([False, False, True], s') \<and>
    finishTranslation (\<lambda>_. True) (\<lambda>_. None) 0 s' c1 = Inr c2 \<and> sent c2 = [Whole p] \<and> completed c2 = [] \<and> getPtr p = Inr (payload_bytes 0 0x2000 0x5000 a2)"
proof -
  let ?as = "[(1, TlbFault ''page fault''), (2, Translated 0 0), (0, Translated 0x2000 0)]"
  have parts: "all_parts ROWAND ?as" by (auto simp: all_parts_def row_parts_def)
  have pages: "plain_pages ?as" by (auto simp: plain_pages_def page_sets_def isSet_def)
  have r: "replicate (row_parts ROWAND - 1) False @ [True] = [False, False, True]" "rowop_code ROWAND = 0" "sent demo_cpu @ [x] = [x]" "completed demo_cpu = []" for x
    by (simp_all add: row_parts_def numeral_2_eq_2 demo_cpu_def)
  have line: "cpu_lineSize demo_cpu = 2 ^ 6" by (simp add: demo_cpu_def)
  show ?thesis
    using source_fault_lost [OF line _ _ parts _ _ pages, of "0x2000" 0 1 "''page fault''" "\<lambda>_. True" 0 "0x7000" "0x5000" "0x3000" 0 "\<lambda>_. None"]
    unfolding r by simp
qed

subsection \<open>Split accesses\<close>

text \<open>What the cache may do: ask for a retry after it refused a packet, and answer a packet it took. \<open>A\<close> are the positions of the
  answered packets in \<open>sent\<close>; an answer is never an error and comes when no packet waits for a retry.\<close>

inductive cache_step :: "(nat \<Rightarrow> bool) \<Rightarrow> (Packet \<Rightarrow> fault) \<Rightarrow> TimingSimpleCPU \<times> nat set \<Rightarrow> (TimingSimpleCPU \<times> nat set) result \<Rightarrow> bool"
  for acc completeAcc where
  retry: "cpu_status c = DcacheRetry \<Longrightarrow> cache_step acc completeAcc (c, A) (rbind (recvReqRetry acc c) (\<lambda>c'. Inr (c', A)))"
| answer: "i < length (sent c) \<Longrightarrow> i \<notin> A \<Longrightarrow> cpu_status c \<noteq> DcacheRetry \<Longrightarrow> \<not> isError q \<Longrightarrow>
    cache_step acc completeAcc (c, A) (rbind (completeDataAccess completeAcc now (case sent c ! i of Whole _ \<Rightarrow> Whole q | Frag j _ \<Rightarrow> Frag j q) c) (\<lambda>c'. Inr (c', insert i A)))"

inductive cache_run :: "(nat \<Rightarrow> bool) \<Rightarrow> (Packet \<Rightarrow> fault) \<Rightarrow> TimingSimpleCPU \<times> nat set \<Rightarrow> TimingSimpleCPU \<times> nat set \<Rightarrow> bool"
  for acc completeAcc where
  refl: "cache_run acc completeAcc x x"
| more: "cache_run acc completeAcc x y \<Longrightarrow> cache_step acc completeAcc y (Inr z) \<Longrightarrow> cache_run acc completeAcc x z"

text \<open>A split access with \<open>k\<close> fragments taken by the cache, after packets \<open>ps\<close> that are all answered.\<close>

definition split_ok :: "(Packet \<Rightarrow> fault) \<Rightarrow> data_pkt list \<Rightarrow> (Packet option \<times> fault) list \<Rightarrow> Packet \<Rightarrow> Packet \<Rightarrow> Packet \<Rightarrow> nat \<Rightarrow> TimingSimpleCPU \<times> nat set \<Rightarrow> bool" where
  "split_ok completeAcc ps old big p1 p2 k x \<longleftrightarrow> (case x of (c, A) \<Rightarrow>
     k \<le> 2 \<and> sent c = ps @ take k [Frag 0 p1, Frag 1 p2] \<and> {..<length ps} \<subseteq> A \<and> A \<subseteq> {..<length ps + k} \<and>
     (if card A = length ps + 2
      then completed c = old @ [(Some big, completeAcc big)] \<and> split_main c = None \<and> (cpu_status c = Running \<or> cpu_status c = Faulting)
      else completed c = old \<and>
        split_main c = Some \<lparr>bigPkt = big, main_outstanding = length ps + 2 - card A, fragments = [if 1 \<le> k then None else Some p1, if 2 \<le> k then None else Some p2]\<rparr> \<and>
        (if k = 2 then cpu_status c = DcacheWaitResponse \<and> dcache_pkt c = None
         else cpu_status c = DcacheRetry \<and> dcache_pkt c = Some ([Frag 0 p1, Frag 1 p2] ! k))))"

lemma send_result: "sendTimingReq acc p c = (acc (attempts c), c\<lparr>attempts := attempts c + 1, sent := if acc (attempts c) then sent c @ [p] else sent c\<rparr>)"
  by (simp add: sendTimingReq_def)

lemma card_bound: "A \<subseteq> {..<length ps + k} \<Longrightarrow> k < 2 \<Longrightarrow> card A \<noteq> length ps + (2 :: nat)"
  using card_mono [of "{..<length ps + k}" A] by auto

lemma split_retry:
  assumes "split_ok completeAcc ps old big p1 p2 k (c, A)" "cpu_status c = DcacheRetry" "isRead big \<noteq> isWrite big"
    "\<not> req_isMmappedIpr (pkt_req p1)" "\<not> req_isMmappedIpr (pkt_req p2)"
  shows "\<exists>c' k'. recvReqRetry acc c = Inr c' \<and> split_ok completeAcc ps old big p1 p2 k' (c', A)"
proof -
  have k: "k = 0 \<or> k = 1" using assms(1,2) by (auto simp: split_ok_def split: if_splits)
  have s: "sent c = ps @ take k [Frag 0 p1, Frag 1 p2]" "{..<length ps} \<subseteq> A" "A \<subseteq> {..<length ps + k}" "card A \<noteq> length ps + 2" "completed c = old"
    "split_main c = Some \<lparr>bigPkt = big, main_outstanding = length ps + 2 - card A, fragments = [if 1 \<le> k then None else Some p1, if 2 \<le> k then None else Some p2]\<rparr>"
    "dcache_pkt c = Some ([Frag 0 p1, Frag 1 p2] ! k)"
    using assms(1) k card_bound [of A ps k] by (auto simp: split_ok_def)
  from k show ?thesis
  proof
    assume k0: "k = 0"
    show ?thesis
    proof (cases "acc (attempts c)")
      case False
      then have "recvReqRetry acc c = Inr (c\<lparr>attempts := attempts c + 1\<rparr>)" using s(6,7) k0 assms(2) by (simp add: recvReqRetry_def send_result)
      moreover have "split_ok completeAcc ps old big p1 p2 0 (c\<lparr>attempts := attempts c + 1\<rparr>, A)" using s k0 assms(2) by (auto simp: split_ok_def)
      ultimately show ?thesis by blast
    next
      case True
      define c1 where "c1 = c\<lparr>attempts := attempts c + 2, sent := sent c @ Frag 0 p1 # (if acc (attempts c + 1) then [Frag 1 p2] else []),
        cpu_status := if acc (attempts c + 1) then DcacheWaitResponse else DcacheRetry, dcache_pkt := if acc (attempts c + 1) then None else Some (Frag 1 p2),
        split_main := Some \<lparr>bigPkt = big, main_outstanding = length ps + 2 - card A, fragments = [None, if acc (attempts c + 1) then None else Some p2]\<rparr>\<rparr>"
      have "recvReqRetry acc c = Inr c1" using s(6,7) k0 assms(2-5) True
        by (cases "isRead big"; cases "acc (attempts c + 1)")
          (simp_all add: recvReqRetry_def send_result retry_fragment_def clearFromParent_def getPendingFragment_def Let_def handleReadPacket_def handleWritePacket_def c1_def)
      moreover have "split_ok completeAcc ps old big p1 p2 (if acc (attempts c + 1) then 2 else 1) (c1, A)"
        using s k0 by (cases "acc (attempts c + 1)") (auto simp: split_ok_def c1_def)
      ultimately show ?thesis by blast
    qed
  next
    assume k1: "k = 1"
    define c1 where "c1 = (if acc (attempts c) then c\<lparr>attempts := attempts c + 1, sent := sent c @ [Frag 1 p2], cpu_status := DcacheWaitResponse, dcache_pkt := None,
        split_main := Some \<lparr>bigPkt = big, main_outstanding = length ps + 2 - card A, fragments = [None, None]\<rparr>\<rparr> else c\<lparr>attempts := attempts c + 1\<rparr>)"
    have "recvReqRetry acc c = Inr c1" using s(6,7) k1 assms(2)
      by (simp add: recvReqRetry_def send_result retry_fragment_def clearFromParent_def getPendingFragment_def Let_def c1_def)
    moreover have "split_ok completeAcc ps old big p1 p2 (if acc (attempts c) then 2 else 1) (c1, A)"
      using s k1 assms(2) by (auto simp: split_ok_def c1_def)
    ultimately show ?thesis by blast
  qed
qed


lemma split_answer:
  assumes "split_ok completeAcc ps old big p1 p2 k (c, A)" "i < length (sent c)" "i \<notin> A" "cpu_status c \<noteq> DcacheRetry" "\<not> isError q"
  shows "\<exists>c'. completeDataAccess completeAcc now (case sent c ! i of Whole _ \<Rightarrow> Whole q | Frag j _ \<Rightarrow> Frag j q) c = Inr c' \<and>
    split_ok completeAcc ps old big p1 p2 k (c', insert i A)"
proof -
  have s: "sent c = ps @ take k [Frag 0 p1, Frag 1 p2]" "{..<length ps} \<subseteq> A" "A \<subseteq> {..<length ps + k}" "k \<le> 2" using assms(1) by (simp_all add: split_ok_def)
  have i: "i < length ps + k" using assms(2) s by (auto simp: min_def split: if_splits)
  moreover have "length ps \<le> i" using assms(3) s(2) by (meson lessThan_iff not_le subsetD)
  ultimately have i: "i < length ps + k" "length ps \<le> i" by simp_all
  have fin: "finite A" using s(3) finite_subset by blast
  have card: "card (insert i A) = Suc (card A)" "card A < length ps + 2" "length ps \<le> card A"
  proof -
    show "card (insert i A) = Suc (card A)" using fin assms(3) by simp
    have "card (insert i A) \<le> card {..<length ps + k}" using i s(3) by (intro card_mono) auto
    then show "card A < length ps + 2" using fin assms(3) s(4) by simp
    show "length ps \<le> card A" using card_mono [OF fin s(2)] by simp
  qed
  have st: "k = 2" "completed c = old" "cpu_status c = DcacheWaitResponse" "dcache_pkt c = None"
    "split_main c = Some \<lparr>bigPkt = big, main_outstanding = length ps + 2 - card A, fragments = [None, None]\<rparr>"
    using assms(1,4) card(2) by (auto simp: split_ok_def split: if_splits)
  have "\<exists>j. (case sent c ! i of Whole _ \<Rightarrow> Whole q | Frag j _ \<Rightarrow> Frag j q) = Frag j q"
    using i st(1) s(1) by (cases "i = length ps") (auto simp: nth_append)
  then obtain j where j: "(case sent c ! i of Whole _ \<Rightarrow> Whole q | Frag j _ \<Rightarrow> Frag j q) = Frag j q" ..
  show ?thesis
  proof (cases "card A = length ps + 1")
    case True
    define c' where "c' = finish_access completeAcc big (c\<lparr>split_main := None\<rparr>)"
    have "completeDataAccess completeAcc now (Frag j q) c = Inr c'" using st True assms(5) by (simp add: completeDataAccess_def c'_def)
    moreover have "split_ok completeAcc ps old big p1 p2 k (c', insert i A)"
      using s st(1,2) card True i by (auto simp: split_ok_def c'_def finish_access_def advanceInst_def)
    ultimately show ?thesis unfolding j by blast
  next
    case False
    then have a: "card A = length ps" using card by linarith
    define c' where "c' = c\<lparr>split_main := Some \<lparr>bigPkt = big, main_outstanding = 1, fragments = [None, None]\<rparr>\<rparr>"
    have "completeDataAccess completeAcc now (Frag j q) c = Inr c'" using st a assms(5) by (simp add: completeDataAccess_def c'_def)
    moreover have "split_ok completeAcc ps old big p1 p2 k (c', insert i A)"
      using s st card a i by (auto simp: split_ok_def c'_def)
    ultimately show ?thesis unfolding j by blast
  qed
qed

lemma split_step:
  assumes "split_ok completeAcc ps old big p1 p2 k x" "cache_step acc completeAcc x r" "isRead big \<noteq> isWrite big"
    "\<not> req_isMmappedIpr (pkt_req p1)" "\<not> req_isMmappedIpr (pkt_req p2)"
  shows "\<exists>y k'. r = Inr y \<and> split_ok completeAcc ps old big p1 p2 k' y"
  using assms(2)
proof cases
  case (retry c A)
  then show ?thesis using split_retry [OF assms(1) [unfolded retry(1)] retry(3) assms(3-5), of acc] by auto
next
  case (answer i c A q now)
  then show ?thesis using split_answer [OF assms(1) [unfolded answer(1)] answer(3-6), of now] by auto
qed

lemma split_run:
  assumes "cache_run acc completeAcc x y" "split_ok completeAcc ps old big p1 p2 k x" "isRead big \<noteq> isWrite big"
    "\<not> req_isMmappedIpr (pkt_req p1)" "\<not> req_isMmappedIpr (pkt_req p2)"
  shows "\<exists>k'. split_ok completeAcc ps old big p1 p2 k' y"
  using assms
proof (induction rule: cache_run.induct)
  case (more x y z)
  then obtain k' where "split_ok completeAcc ps old big p1 p2 k' y" by blast
  from split_step [OF this more.hyps(2) more.prems(2-4)] show ?case by auto
qed blast

lemma new_packet_data: "noneSet (pkt_flags (new_packet r c)) (STATIC_DATA OR DYNAMIC_DATA)" "pkt_req (new_packet r c) = r" "pkt_cmd (new_packet r c) = c"
  by (auto simp: new_packet_def Let_def isSet_def setFlag_def pkt_flag_defs)

lemma split_built:
  assumes "\<not> isSet (req_flags req) NO_ACCESS" "\<not> req_isMmappedIpr req1" "\<not> req_isMmappedIpr req2" "\<not> req_isSwap req1" "hasSize req1"
  shows "\<exists>p1 p2 big. buildSplitPacket req1 req2 req data read = Inr (p1, Some (p2, \<lparr>bigPkt = big, main_outstanding = 2, fragments = [Some p1, Some p2]\<rparr>)) \<and>
    pkt_req p1 = req1 \<and> pkt_req p2 = req2 \<and> pkt_data p1 = Some data \<and> pkt_data p2 = Some (drop (req_size req1) data) \<and>
    isRead big = read \<and> isWrite big = (\<not> read)"
proof -
  define cmd where "cmd r = (if read then makeReadCmd r else makeWriteCmd r)" for r
  have b: "buildPacket r read = new_packet r (cmd r)" for r by (simp add: buildPacket_def createRead_def createWrite_def cmd_def)
  define p1 where "p1 = (new_packet req1 (cmd req1))\<lparr>pkt_data := Some data, pkt_flags := setFlag (pkt_flags (new_packet req1 (cmd req1))) STATIC_DATA\<rparr>"
  define p2 where "p2 = (new_packet req2 (cmd req2))\<lparr>pkt_data := Some (drop (req_size req1) data), pkt_flags := setFlag (pkt_flags (new_packet req2 (cmd req2))) STATIC_DATA\<rparr>"
  define big where "big = (new_packet req (responseCommand (cmd req1)))\<lparr>pkt_data := Some data, pkt_flags := setFlag (pkt_flags (new_packet req (responseCommand (cmd req1)))) DYNAMIC_DATA\<rparr>"
  have "buildSplitPacket req1 req2 req data read = Inr (p1, Some (p2, \<lparr>bigPkt = big, main_outstanding = 2, fragments = [Some p1, Some p2]\<rparr>))"
    using assms(1-3,5) new_packet_data
    by (simp add: buildSplitPacket_def b dataDynamic_def dataStatic_def getReqSize_def hasSize_def p1_def p2_def big_def)
  moreover have "pkt_cmd big = responseCommand (cmd req1)" by (simp add: big_def new_packet_data)
  then have "isRead big = read" "isWrite big = (\<not> read)"
    using assms(4) by (auto simp: isRead_def isWrite_def cmd_def makeReadCmd_def makeWriteCmd_def cmd_defs responseCommand_def)
  ultimately show ?thesis by (auto simp: p1_def p2_def new_packet_data)
qed

lemma split_start:
  assumes "buildSplitPacket req1 req2 req data read = Inr (p1, Some (p2, \<lparr>bigPkt = big, main_outstanding = 2, fragments = [Some p1, Some p2]\<rparr>))"
    "\<not> isSet (req_flags req) NO_ACCESS" "\<not> req_isMmappedIpr (pkt_req p1)" "\<not> req_isMmappedIpr (pkt_req p2)"
  shows "\<exists>c1. sendSplitData acc completeAcc now req1 req2 req data read c = Inr c1 \<and>
    split_ok completeAcc (sent c) (completed c) big p1 p2 (if \<not> acc (attempts c) then 0 else if \<not> acc (attempts c + 1) then 1 else 2) (c1, {..<length (sent c)}) \<and>
    (acc (attempts c) \<and> \<not> acc (attempts c + 1) \<longrightarrow> cpu_status c1 = DcacheRetry)"
proof -
  define k where "k = (if \<not> acc (attempts c) then 0 else if \<not> acc (attempts c + 1) then 1 else 2 :: nat)"
  define c1 where "c1 = c\<lparr>cpu_status := if k = 2 then DcacheWaitResponse else DcacheRetry, dcache_pkt := if k = 2 then None else Some ([Frag 0 p1, Frag 1 p2] ! k),
    split_main := Some \<lparr>bigPkt = big, main_outstanding = 2, fragments = [if 1 \<le> k then None else Some p1, if 2 \<le> k then None else Some p2]\<rparr>,
    attempts := attempts c + (if k = 0 then 1 else 2), sent := sent c @ take k [Frag 0 p1, Frag 1 p2]\<rparr>"
  have "sendSplitData acc completeAcc now req1 req2 req data read c = Inr c1"
    using assms by (cases "acc (attempts c)"; cases "acc (Suc (attempts c))"; cases read)
      (simp_all add: sendSplitData_def handleReadPacket_def handleWritePacket_def send_result clearFromParent_def c1_def k_def)
  moreover have "split_ok completeAcc (sent c) (completed c) big p1 p2 k (c1, {..<length (sent c)})"
    by (auto simp: split_ok_def c1_def k_def)
  ultimately show ?thesis unfolding k_def by (auto simp: c1_def k_def)
qed

lemma split_progress:
  assumes "split_ok completeAcc ps old big p1 p2 k (c, A)" "A \<noteq> {..<length ps + 2}"
  shows "\<exists>r. cache_step acc completeAcc (c, A) r"
proof (cases "cpu_status c = DcacheRetry")
  case True
  then show ?thesis using cache_step.retry by blast
next
  case False
  have s: "A \<subseteq> {..<length ps + k}" "k \<le> 2" "sent c = ps @ take k [Frag 0 p1, Frag 1 p2]" using assms(1) by (simp_all add: split_ok_def)
  have "card A \<noteq> length ps + 2"
  proof
    assume "card A = length ps + 2"
    moreover have "A \<subseteq> {..<length ps + 2}" using s(1,2) by fastforce
    ultimately have "A = {..<length ps + 2}" by (intro card_subset_eq) auto
    then show False using assms(2) by simp
  qed
  then have "k = 2" using assms(1) False by (auto simp: split_ok_def split: if_splits)
  then obtain i where "i < length (sent c)" "i \<notin> A" using s assms(2) by auto
  moreover have "\<not> isError (new_packet empty_request ReadResp)" by (simp add: isError_def new_packet_data cmd_defs)
  ultimately show ?thesis using cache_step.answer False by blast
qed

text \<open>C11: an access that crosses a cache line completes exactly once. Whatever packets the cache refuses, and whenever it answers
  while none of them waits for a retry, the two fragments are sent at most once each and in order, no assertion fires, there is always a next step until both
  are answered, and the access is completed, with the whole data, exactly when both are answered.\<close>

theorem split_access_completes:
  assumes "\<not> isSet (req_flags req) NO_ACCESS" "\<not> req_isMmappedIpr req1" "\<not> req_isMmappedIpr req2" "\<not> req_isSwap req1" "hasSize req1"
  shows "\<exists>c1 big p1 p2. sendSplitData acc completeAcc now req1 req2 req data read c = Inr c1 \<and> pkt_req p1 = req1 \<and> pkt_req p2 = req2 \<and>
    pkt_data p1 = Some data \<and> pkt_data p2 = Some (drop (req_size req1) data) \<and>
    (\<forall>c' A. cache_run acc completeAcc (c1, {..<length (sent c)}) (c', A) \<longrightarrow>
      (\<forall>r. cache_step acc completeAcc (c', A) r \<longrightarrow> (\<exists>y. r = Inr y)) \<and>
      (A \<noteq> {..<length (sent c) + 2} \<longrightarrow> (\<exists>r. cache_step acc completeAcc (c', A) r)) \<and>
      (\<exists>k. sent c' = sent c @ take k [Frag 0 p1, Frag 1 p2]) \<and>
      completed c' = (if A = {..<length (sent c) + 2} then completed c @ [(Some big, completeAcc big)] else completed c))"
proof -
  obtain p1 p2 big where b: "buildSplitPacket req1 req2 req data read = Inr (p1, Some (p2, \<lparr>bigPkt = big, main_outstanding = 2, fragments = [Some p1, Some p2]\<rparr>))"
    "pkt_req p1 = req1" "pkt_req p2 = req2" "pkt_data p1 = Some data" "pkt_data p2 = Some (drop (req_size req1) data)" "isRead big \<noteq> isWrite big"
    using split_built [OF assms, of data read] by auto
  have ipr: "\<not> req_isMmappedIpr (pkt_req p1)" "\<not> req_isMmappedIpr (pkt_req p2)" using assms(2,3) b(2,3) by simp_all
  obtain c1 k where c1: "sendSplitData acc completeAcc now req1 req2 req data read c = Inr c1"
    "split_ok completeAcc (sent c) (completed c) big p1 p2 k (c1, {..<length (sent c)})" using split_start [OF b(1) assms(1) ipr] by blast
  have "(\<forall>r. cache_step acc completeAcc (c', A) r \<longrightarrow> (\<exists>y. r = Inr y)) \<and>
      (A \<noteq> {..<length (sent c) + 2} \<longrightarrow> (\<exists>r. cache_step acc completeAcc (c', A) r)) \<and>
      (\<exists>k. sent c' = sent c @ take k [Frag 0 p1, Frag 1 p2]) \<and>
      completed c' = (if A = {..<length (sent c) + 2} then completed c @ [(Some big, completeAcc big)] else completed c)"
    if run: "cache_run acc completeAcc (c1, {..<length (sent c)}) (c', A)" for c' A
  proof -
    obtain k' where ok: "split_ok completeAcc (sent c) (completed c) big p1 p2 k' (c', A)" using split_run [OF run c1(2) b(6) ipr] by blast
    have "A \<subseteq> {..<length (sent c) + 2}" using ok by (fastforce simp: split_ok_def)
    then have "card A = length (sent c) + 2 \<longleftrightarrow> A = {..<length (sent c) + 2}" using card_subset_eq [of "{..<length (sent c) + 2}" A] by auto
    then have "completed c' = (if A = {..<length (sent c) + 2} then completed c @ [(Some big, completeAcc big)] else completed c)"
      using ok by (auto simp: split_ok_def)
    moreover have "\<exists>k. sent c' = sent c @ take k [Frag 0 p1, Frag 1 p2]" using ok by (auto simp: split_ok_def)
    ultimately show ?thesis using split_step [OF ok _ b(6) ipr] split_progress [OF ok] by blast
  qed
  then show ?thesis using b(2-5) c1(1) by blast
qed

text \<open>C35: the answer to the first fragment, when the cache has refused the second one, stops the simulation: the handler asserts that no
  packet waits for a retry.\<close>

theorem early_answer_asserts:
  assumes "\<not> isSet (req_flags req) NO_ACCESS" "\<not> req_isMmappedIpr req1" "\<not> req_isMmappedIpr req2" "\<not> req_isSwap req1" "hasSize req1"
    "acc (attempts c)" "\<not> acc (attempts c + 1)" "\<not> isError q" "\<not> isSet (req_flags (pkt_req q)) NO_ACCESS"
  shows "\<exists>c1 p1. sendSplitData acc completeAcc now req1 req2 req data read c = Inr c1 \<and> sent c1 = sent c @ [Frag 0 p1] \<and>
    completeDataAccess completeAcc now (Frag 0 q) c1 = Inl (Assertion ''_status == DcacheWaitResponse || _status == DTBWaitResponse || NO_ACCESS'')"
proof -
  obtain p1 p2 big where b: "buildSplitPacket req1 req2 req data read = Inr (p1, Some (p2, \<lparr>bigPkt = big, main_outstanding = 2, fragments = [Some p1, Some p2]\<rparr>))"
    "pkt_req p1 = req1" "pkt_req p2 = req2" using split_built [OF assms(1-5), of data read] by auto
  have ipr: "\<not> req_isMmappedIpr (pkt_req p1)" "\<not> req_isMmappedIpr (pkt_req p2)" using assms(2,3) b(2,3) by simp_all
  obtain c1 where "sendSplitData acc completeAcc now req1 req2 req data read c = Inr c1" "cpu_status c1 = DcacheRetry" "sent c1 = sent c @ [Frag 0 p1]"
    using split_start [OF b(1) assms(1) ipr, of acc completeAcc now c] assms(6,7) by (auto simp: split_ok_def)
  then show ?thesis using assms(8,9) by (intro exI [of _ c1] exI [of _ p1]) (simp add: completeDataAccess_def)
qed


definition demo_part :: "addr \<Rightarrow> Request" where
  "demo_part a = phys_request a 4 0 0 0"

lemma demo_part_ok: "\<not> isSet (req_flags (demo_part a)) NO_ACCESS" "\<not> req_isMmappedIpr (demo_part a)" "\<not> req_isSwap (demo_part a)" "hasSize (demo_part a)"
  by (simp_all add: demo_part_def phys_request_def setPhys_def empty_request_def req_isMmappedIpr_def req_isSwap_def hasSize_def
      isSet_def setFlag_def clearFlags_def req_flag_defs private_flag_defs NO_ACCESS_def)

theorem split_access_completes_witness:
  "\<exists>c1 big. sendSplitData (\<lambda>n. n \<noteq> 1) (\<lambda>_. None) 0 (demo_part 60) (demo_part 64) (demo_part 60) [1, 2, 3, 4, 5, 6, 7, 8] False demo_cpu = Inr c1 \<and>
    (\<forall>c' A. cache_run (\<lambda>n. n \<noteq> 1) (\<lambda>_. None) (c1, {}) (c', A) \<longrightarrow> completed c' = (if A = {0, 1} then [(Some big, None)] else []))"
proof -
  have e: "{..<length (sent demo_cpu)} = {}" "{..<length (sent demo_cpu) + 2} = {0, 1}" "completed demo_cpu @ xs = xs" "completed demo_cpu = []" for xs
    by (auto simp: demo_cpu_def)
  show ?thesis
    using split_access_completes [where req = "demo_part 60" and ?req1.0 = "demo_part 60" and ?req2.0 = "demo_part 64" and acc = "\<lambda>n. n \<noteq> 1"
      and completeAcc = "\<lambda>_. None" and now = 0 and data = "[1, 2, 3, 4, 5, 6, 7, 8]" and read = False and c = demo_cpu,
      OF demo_part_ok(1) demo_part_ok(2) demo_part_ok(2) demo_part_ok(3) demo_part_ok(4)]
    unfolding e
    apply (elim exE)
    subgoal for c1 big p1 p2 by (intro exI [of _ c1] exI [of _ big]) simp
    done
qed

theorem early_answer_asserts_witness:
  "\<exists>c1 p1. sendSplitData (\<lambda>n. n \<noteq> 1) (\<lambda>_. None) 0 (demo_part 60) (demo_part 64) (demo_part 60) [1, 2, 3, 4, 5, 6, 7, 8] False demo_cpu = Inr c1 \<and>
    sent c1 = [Frag 0 p1] \<and>
    completeDataAccess (\<lambda>_. None) 0 (Frag 0 (new_packet (demo_part 60) WriteResp)) c1 =
      Inl (Assertion ''_status == DcacheWaitResponse || _status == DTBWaitResponse || NO_ACCESS'')"
proof -
  have e: "sent demo_cpu = []" "attempts demo_cpu = 0" by (simp_all add: demo_cpu_def)
  have q: "\<not> isError (new_packet (demo_part 60) WriteResp)" "\<not> isSet (req_flags (pkt_req (new_packet (demo_part 60) WriteResp))) NO_ACCESS"
    using demo_part_ok(1) by (simp_all add: isError_def new_packet_data cmd_defs)
  show ?thesis
    using early_answer_asserts [where req = "demo_part 60" and ?req1.0 = "demo_part 60" and ?req2.0 = "demo_part 64" and acc = "\<lambda>n. n \<noteq> 1"
      and completeAcc = "\<lambda>_. None" and now = 0 and data = "[1, 2, 3, 4, 5, 6, 7, 8]" and read = False and c = demo_cpu] demo_part_ok q e by simp
qed

end
