(* ===== verification/Row_Program.thy ===== *)
theory Row_Program
  imports Row_Ops
begin

text \<open>
  Programs of row instructions, as the workloads under \<open>microworkloads\<close> write them: vectors of rows in memory, and loops that run a
  sequence of row instructions on row \<open>i\<close> of every vector (the macros \<^verbatim>\<open>FOR_ALL_ROWS\<close> and \<^verbatim>\<open>ROW\<close>, the instructions of
  \<open>rowop.S\<close>). A statement names the operation and the base addresses of its operand vectors. The bitwise statements act on each bit
  of the vectors by itself, so a loop is the same little boolean program on every bit: the \<open>lane\<close> lemmas.
\<close>

type_synonym row_stmt = "RowOp \<times> nat \<times> nat \<times> nat"

fun row_body :: "nat \<Rightarrow> nat \<Rightarrow> row_stmt list \<Rightarrow> store \<Rightarrow> store result" where
  "row_body N i [] m = Inr m"
| "row_body N i ((op, d, a, b) # ss) m =
     rbind (row_op op N (ROW_SIZE div 8) (d + i * ROW_SIZE) (a + i * ROW_SIZE) (b + i * ROW_SIZE) m) (row_body N i ss)"

fun for_rows :: "nat \<Rightarrow> nat \<Rightarrow> nat \<Rightarrow> row_stmt list \<Rightarrow> store \<Rightarrow> store result" where
  "for_rows N i 0 ss m = Inr m"
| "for_rows N i (Suc k) ss m = rbind (row_body N i ss m) (for_rows N (Suc i) k ss)"

definition FOR_ALL_ROWS :: "nat \<Rightarrow> nat \<Rightarrow> row_stmt list \<Rightarrow> store \<Rightarrow> store result" where
  "FOR_ALL_ROWS N per_col_rows ss m = for_rows N 0 per_col_rows ss m"

subsection \<open>Lanes\<close>

definition lane :: "store \<Rightarrow> nat \<Rightarrow> nat \<Rightarrow> bool" where
  "lane m p x = bit (row_at m p (x div 64)) (x mod 64)"

fun lane_op :: "RowOp \<Rightarrow> bool \<Rightarrow> bool \<Rightarrow> bool" where
  "lane_op ROWAND x y = (x \<and> y)"
| "lane_op ROWOR x y = (x \<or> y)"
| "lane_op ROWXOR x y = (x \<noteq> y)"
| "lane_op ROWNOT x y = (\<not> x)"
| "lane_op _ x y = x"

fun lane_stmts :: "row_stmt list \<Rightarrow> (nat \<Rightarrow> bool) \<Rightarrow> nat \<Rightarrow> bool" where
  "lane_stmts [] e = e"
| "lane_stmts ((op, d, a, b) # ss) e = lane_stmts ss (e(d := lane_op op (e a) (e b)))"

definition bitwise :: "RowOp \<Rightarrow> bool" where
  "bitwise op \<longleftrightarrow> op \<in> {ROWAND, ROWOR, ROWXOR, ROWNOT, ROWAAP}"

definition two_sources :: "RowOp \<Rightarrow> bool" where
  "two_sources op \<longleftrightarrow> op \<in> {ROWAND, ROWOR, ROWXOR}"

text \<open>Vectors of \<open>R\<close> rows at the addresses \<open>P\<close>, inside the memory and apart from each other.\<close>

definition vectors_ok :: "nat \<Rightarrow> nat \<Rightarrow> nat set \<Rightarrow> bool" where
  "vectors_ok N R P \<longleftrightarrow> (\<forall>p \<in> P. p + R * ROW_SIZE \<le> N) \<and> (\<forall>p \<in> P. \<forall>q \<in> P. p \<noteq> q \<longrightarrow> p + R * ROW_SIZE \<le> q \<or> q + R * ROW_SIZE \<le> p)"

definition stmts_ok :: "nat set \<Rightarrow> row_stmt list \<Rightarrow> bool" where
  "stmts_ok P ss \<longleftrightarrow> (\<forall>(op, d, a, b) \<in> set ss. bitwise op \<and> d \<in> P \<and> a \<in> P \<and> (two_sources op \<longrightarrow> b \<in> P))"

definition kept_outside :: "nat \<Rightarrow> nat set \<Rightarrow> store \<Rightarrow> store \<Rightarrow> bool" where
  "kept_outside R P m m' \<longleftrightarrow> (\<forall>j. (\<forall>p \<in> P. j < p \<or> p + R * ROW_SIZE \<le> j) \<longrightarrow> m' j = m j)"

definition word_op :: "RowOp \<Rightarrow> 64 word \<Rightarrow> 64 word \<Rightarrow> 64 word" where
  "word_op op x y = (case op of ROWAND \<Rightarrow> x AND y | ROWOR \<Rightarrow> x OR y | ROWXOR \<Rightarrow> x XOR y | ROWNOT \<Rightarrow> NOT x | _ \<Rightarrow> x)"

lemma bit_word_op: "k < 64 \<Longrightarrow> bitwise op \<Longrightarrow> bit (word_op op x y) k = lane_op op (bit x k) (bit y k)"
  by (cases op) (auto simp: word_op_def bitwise_def bit_simps)

lemma bitwise_row:
  assumes "bitwise op" "d + 8 * n \<le> N" "a + 8 * n \<le> N" "in_place n d a" "two_sources op \<longrightarrow> b + 8 * n \<le> N \<and> in_place n d b"
  shows "\<exists>m'. row_op op N n d a b m = Inr m' \<and> same_outside n d m m' \<and> (\<forall>i < n. row_at m' d i = word_op op (row_at m a i) (row_at m b i))"
proof (cases "two_sources op")
  case True
  then have "row_op op N n d a b m = row_binary (word_op op) N n d a b m"
    by (cases op) (simp_all add: two_sources_def row_op_def word_op_def [abs_def])
  then show ?thesis using row_binary_ok [OF assms(2,3) _ assms(4), of b "word_op op" m] assms(5) True by (simp add: row_at_def)
next
  case False
  then have "row_op op N n d a b m = row_unary (\<lambda>x. word_op op x 0) N n d a m" and "\<And>x y. word_op op x y = word_op op x 0"
    using assms(1) by (cases op; simp add: two_sources_def bitwise_def row_op_def word_op_def)+
  then show ?thesis using row_unary_ok [OF assms(2-4), of "\<lambda>x. word_op op x 0" m] by (metis row_at_def)
qed

lemma row_at_offset: "row_at m (p + i * ROW_SIZE) w = row_at m p (i * (ROW_SIZE div 8) + w)"
  by (simp add: row_at_def ROW_SIZE_def algebra_simps)

lemma row_at_outside: "same_outside n d m m' \<Longrightarrow> p + 8 * w + 8 \<le> d \<or> d + 8 * n \<le> p + 8 * w \<Longrightarrow> row_at m' p w = row_at m p w"
  unfolding row_at_def by (rule read64_cong) (auto simp: same_outside_def)

lemma row_stmt_lanes:
  assumes "vectors_ok N R P" "i < R" "bitwise op" "d \<in> P" "a \<in> P" "two_sources op \<longrightarrow> b \<in> P"
  shows "\<exists>m'. row_op op N (ROW_SIZE div 8) (d + i * ROW_SIZE) (a + i * ROW_SIZE) (b + i * ROW_SIZE) m = Inr m' \<and>
    (\<forall>q \<in> P. \<forall>x < R * 65536. lane m' q x = (if q = d \<and> x div 65536 = i then lane_op op (lane m a x) (lane m b x) else lane m q x)) \<and>
    kept_outside R P m m'"
proof -
  define n where "n = ROW_SIZE div 8"
  have n: "8 * n = ROW_SIZE" "n = 1024" by (simp_all add: n_def ROW_SIZE_def)
  have iR: "i * ROW_SIZE + ROW_SIZE \<le> R * ROW_SIZE" using mult_le_mono1 [of "Suc i" R ROW_SIZE] assms(2) by simp
  have inN: "p + i * ROW_SIZE + 8 * n \<le> N" if "p \<in> P" for p using assms(1) that iR n(1) by (fastforce simp: vectors_ok_def)
  have ip: "in_place n (d + i * ROW_SIZE) (p + i * ROW_SIZE)" if "p \<in> P" for p
  proof (cases "p = d")
    case False
    then have "d + R * ROW_SIZE \<le> p \<or> p + R * ROW_SIZE \<le> d" using assms(1,4) that by (fastforce simp: vectors_ok_def)
    then show ?thesis using iR n(1) by (auto simp: in_place_def row_apart_def)
  qed (simp add: in_place_def)
  have src2: "two_sources op \<longrightarrow> b + i * ROW_SIZE + 8 * n \<le> N \<and> in_place n (d + i * ROW_SIZE) (b + i * ROW_SIZE)" using inN ip assms(6) by simp
  obtain m' where m': "row_op op N n (d + i * ROW_SIZE) (a + i * ROW_SIZE) (b + i * ROW_SIZE) m = Inr m'" "same_outside n (d + i * ROW_SIZE) m m'"
    "\<forall>w < n. row_at m' (d + i * ROW_SIZE) w = word_op op (row_at m (a + i * ROW_SIZE) w) (row_at m (b + i * ROW_SIZE) w)"
    using bitwise_row [OF assms(3) inN [OF assms(4)] inN [OF assms(5)] ip [OF assms(5)] src2, of m] by blast
  have row: "x div 65536 = x div 64 div 1024" for x :: nat by (simp add: div_mult2_eq [symmetric])
  have "lane m' q x = (if q = d \<and> x div 65536 = i then lane_op op (lane m a x) (lane m b x) else lane m q x)" if q: "q \<in> P" "x < R * 65536" for q x
  proof (cases "q = d \<and> x div 65536 = i")
    case True
    define w where "w = (x div 64) mod 1024"
    have w: "x div 64 = i * n + w" "w < n" using True n(2) unfolding row w_def by auto
    have "row_at m' d (x div 64) = word_op op (row_at m a (x div 64)) (row_at m b (x div 64))"
      using m'(3) w row_at_offset [of m' d i w] row_at_offset [of m a i w] row_at_offset [of m b i w] by (simp add: n_def)
    then show ?thesis using True bit_word_op [OF _ assms(3)] by (simp add: lane_def)
  next
    case False
    define y where "y = x div 64"
    have "y < R * 1024" using q(2) by (simp add: y_def div_less_iff_less_mult)
    then have x: "8 * y + 8 \<le> R * ROW_SIZE" by (simp add: ROW_SIZE_def)
    have "q + 8 * y + 8 \<le> d + i * ROW_SIZE \<or> d + i * ROW_SIZE + 8 * n \<le> q + 8 * y"
    proof (cases "q = d")
      case True
      then have "y div 1024 < i \<or> i < y div 1024" using False row by (auto simp: y_def)
      then have "y < i * 1024 \<or> Suc i * 1024 \<le> y" by (auto simp: div_less_iff_less_mult Suc_le_eq [symmetric] less_eq_div_iff_mult_less_eq)
      then show ?thesis using True n(1) by (auto simp: ROW_SIZE_def)
    next
      case False
      then have "d + R * ROW_SIZE \<le> q \<or> q + R * ROW_SIZE \<le> d" using assms(1,4) q(1) by (fastforce simp: vectors_ok_def)
      then show ?thesis using x iR n(1) by auto
    qed
    then have "lane m' q x = lane m q x" using row_at_outside [OF m'(2)] by (simp add: lane_def y_def)
    then show ?thesis unfolding if_not_P [OF False] .
  qed
  moreover have "kept_outside R P m m'"
    using m'(2) assms(4) iR n(1) unfolding kept_outside_def same_outside_def by fastforce
  ultimately show ?thesis using m'(1) unfolding n_def by blast
qed

definition lanes_of :: "nat set \<Rightarrow> store \<Rightarrow> nat \<Rightarrow> nat \<Rightarrow> bool" where
  "lanes_of P m x p \<longleftrightarrow> p \<in> P \<and> lane m p x"

lemma row_body_lanes:
  assumes "vectors_ok N R P" "i < R" "stmts_ok P ss"
  shows "\<exists>m'. row_body N i ss m = Inr m' \<and>
    (\<forall>q \<in> P. \<forall>x < R * 65536. lane m' q x = (if x div 65536 = i then lane_stmts ss (lanes_of P m x) q else lane m q x)) \<and> kept_outside R P m m'"
  using assms(3)
proof (induction ss arbitrary: m)
  case Nil
  then show ?case by (simp add: kept_outside_def lanes_of_def)
next
  case (Cons s ss)
  obtain op d a b where s: "s = (op, d, a, b)" by (cases s)
  have ok: "bitwise op" "d \<in> P" "a \<in> P" "two_sources op \<longrightarrow> b \<in> P" "stmts_ok P ss" using Cons.prems by (auto simp: s stmts_ok_def)
  obtain m1 where m1: "row_op op N (ROW_SIZE div 8) (d + i * ROW_SIZE) (a + i * ROW_SIZE) (b + i * ROW_SIZE) m = Inr m1"
    "\<forall>q \<in> P. \<forall>x < R * 65536. lane m1 q x = (if q = d \<and> x div 65536 = i then lane_op op (lane m a x) (lane m b x) else lane m q x)" "kept_outside R P m m1"
    using row_stmt_lanes [OF assms(1,2) ok(1-4)] by blast
  obtain m2 where m2: "row_body N i ss m1 = Inr m2"
    "\<forall>q \<in> P. \<forall>x < R * 65536. lane m2 q x = (if x div 65536 = i then lane_stmts ss (lanes_of P m1 x) q else lane m1 q x)" "kept_outside R P m1 m2"
    using Cons.IH [OF ok(5), of m1] by blast
  have one: "lane_op op (lane m a x) (lane m b x) = lane_op op (lanes_of P m x a) (lanes_of P m x b)" for x
    using ok by (cases op) (simp_all add: two_sources_def bitwise_def lanes_of_def)
  have "lanes_of P m1 x = (lanes_of P m x)(d := lane_op op (lanes_of P m x a) (lanes_of P m x b))" if "x < R * 65536" "x div 65536 = i" for x
  proof
    fix p
    show "lanes_of P m1 x p = ((lanes_of P m x)(d := lane_op op (lanes_of P m x a) (lanes_of P m x b))) p"
      using m1(2) that ok(2) one [of x] by (cases "p \<in> P"; cases "p = d") (simp_all add: lanes_of_def)
  qed
  then have "\<forall>q \<in> P. \<forall>x < R * 65536. lane m2 q x = (if x div 65536 = i then lane_stmts (s # ss) (lanes_of P m x) q else lane m q x)"
    using m2(2) m1(2) by (simp add: s)
  moreover have "kept_outside R P m m2" using m1(3) m2(3) by (simp add: kept_outside_def)
  ultimately show ?case using m1(1) m2(1) by (simp add: s)
qed


lemma for_rows_lanes:
  assumes "vectors_ok N R P" "stmts_ok P ss" "i + k \<le> R"
  shows "\<exists>m'. for_rows N i k ss m = Inr m' \<and>
    (\<forall>q \<in> P. \<forall>x < R * 65536. lane m' q x = (if i \<le> x div 65536 \<and> x div 65536 < i + k then lane_stmts ss (lanes_of P m x) q else lane m q x)) \<and> kept_outside R P m m'"
  using assms(3)
proof (induction k arbitrary: i m)
  case 0
  then show ?case by (auto simp: kept_outside_def)
next
  case (Suc k)
  obtain m1 where m1: "row_body N i ss m = Inr m1"
    "\<forall>q \<in> P. \<forall>x < R * 65536. lane m1 q x = (if x div 65536 = i then lane_stmts ss (lanes_of P m x) q else lane m q x)" "kept_outside R P m m1"
    using row_body_lanes [OF assms(1) _ assms(2), of i m] Suc.prems by auto
  obtain m2 where m2: "for_rows N (Suc i) k ss m1 = Inr m2"
    "\<forall>q \<in> P. \<forall>x < R * 65536. lane m2 q x = (if Suc i \<le> x div 65536 \<and> x div 65536 < Suc i + k then lane_stmts ss (lanes_of P m1 x) q else lane m1 q x)" "kept_outside R P m1 m2"
    using Suc.IH [of "Suc i" m1] Suc.prems by auto
  have "lanes_of P m1 x = lanes_of P m x" if "x < R * 65536" "x div 65536 \<noteq> i" for x
    using m1(2) that by (auto simp: lanes_of_def fun_eq_iff)
  then have "lane m2 q x = (if i \<le> x div 65536 \<and> x div 65536 < i + Suc k then lane_stmts ss (lanes_of P m x) q else lane m q x)" if "q \<in> P" "x < R * 65536" for q x
    using m1(2) m2(2) that by (cases "x div 65536 = i") auto
  moreover have "kept_outside R P m m2" using m1(3) m2(3) by (simp add: kept_outside_def)
  ultimately show ?case using m1(1) m2(1) by auto
qed

lemma FOR_ALL_ROWS_lanes:
  assumes "vectors_ok N R P" "stmts_ok P ss"
  shows "\<exists>m'. FOR_ALL_ROWS N R ss m = Inr m' \<and> (\<forall>q \<in> P. \<forall>x < R * 65536. lane m' q x = lane_stmts ss (lanes_of P m x) q) \<and> kept_outside R P m m'"
proof -
  have "x div 65536 < R" if "x < R * 65536" for x :: nat using that by (simp add: div_less_iff_less_mult)
  then show ?thesis using for_rows_lanes [OF assms, of 0 R m] by (auto simp: FOR_ALL_ROWS_def)
qed

subsection \<open>Words of 32 bits in the store\<close>

definition read32 :: "store \<Rightarrow> nat \<Rightarrow> 32 word" where
  "read32 m off = ucast (join_bytes (map (\<lambda>i. m (off + i)) [0..<4]))"

definition write32 :: "store \<Rightarrow> nat \<Rightarrow> 32 word \<Rightarrow> store" where
  "write32 m off w = (\<lambda>j. if off \<le> j \<and> j < off + 4 then ucast (drop_bit (8 * (j - off)) w) else m j)"

definition store32 :: "nat \<Rightarrow> store \<Rightarrow> nat \<Rightarrow> 32 word \<Rightarrow> store result" where
  "store32 N m off w = (if off + 4 \<le> N then Inr (write32 m off w) else Inl HostFault)"

lemma lane_byte: "lane m p x = bit (m (p + x div 8)) (x mod 8)"
proof -
  have "x mod 64 = 8 * (x div 8 mod 8) + x mod 8" "x div 64 = x div 8 div 8" using mod_mult2_eq [of x 8 8] div_mult2_eq [of x 8 8] by simp_all
  then have "8 * (x div 64) + x mod 64 div 8 = x div 8" "x mod 64 mod 8 = x mod 8" by simp_all
  then show ?thesis by (simp add: lane_def row_at_def bit_read64 add.assoc)
qed

lemma bit_read32: "bit (read32 m off) k \<longleftrightarrow> k < 32 \<and> bit (m (off + k div 8)) (k mod 8)"
  by (auto simp: read32_def bit_simps bit_join_bytes)

lemma read32_lane: "k < 32 \<Longrightarrow> bit (read32 m (p + 4 * w)) k = lane m p (32 * w + k)"
proof -
  assume "k < 32"
  moreover have "(32 * w + k) div 8 = 4 * w + k div 8" "(32 * w + k) mod 8 = k mod 8"
    using div_mult_self3 [of 8 "4 * w" k] mod_mult_self3 [of "4 * w" 8 k] by simp_all
  ultimately show ?thesis by (simp add: bit_read32 lane_byte add.assoc)
qed

lemma write32_lane:
  "lane (write32 m (p + 4 * i) w) p x = (if x div 32 = i then bit w (x mod 32) else lane m p x)"
proof -
  have d: "x mod 32 = 8 * (x div 8 mod 4) + x mod 8" "x div 32 = x div 8 div 4" using mod_mult2_eq [of x 8 4] div_mult2_eq [of x 8 4] by simp_all
  have "p + 4 * i \<le> p + x div 8 \<and> p + x div 8 < p + 4 * i + 4 \<longleftrightarrow> x div 32 = i" unfolding d(2) by auto
  moreover have "x div 8 - 4 * i = x div 8 mod 4" if "x div 32 = i" using that unfolding d(2) by (simp add: modulo_nat_def mult.commute)
  then have "x div 32 = i \<Longrightarrow> 8 * (p + x div 8 - (p + 4 * i)) + x mod 8 = x mod 32" using d(1) by simp
  ultimately show ?thesis by (auto simp: lane_byte write32_def bit_simps)
qed

lemma write32_lane_other:
  assumes "q + n \<le> p + 4 * i \<or> p + 4 * i + 4 \<le> q" "x < 8 * n"
  shows "lane (write32 m (p + 4 * i) w) q x = lane m q x"
proof -
  have "x div 8 < n" using assms(2) by (simp add: div_less_iff_less_mult mult.commute)
  then have no: "\<not> (p + 4 * i \<le> q + x div 8 \<and> q + x div 8 < p + 4 * i + 4)" using assms(1) by auto
  show ?thesis unfolding lane_byte write32_def if_not_P [OF no] ..
qed

text \<open>A loop that writes consecutive words.\<close>

fun fill_words :: "nat \<Rightarrow> (nat \<Rightarrow> 32 word) \<Rightarrow> nat \<Rightarrow> nat \<Rightarrow> nat \<Rightarrow> store \<Rightarrow> store result" where
  "fill_words N f p i 0 m = Inr m"
| "fill_words N f p i (Suc k) m = rbind (store32 N m (p + 4 * i) (f i)) (fill_words N f p (Suc i) k)"

lemma fill_words_lanes:
  assumes "p + 4 * (i + k) \<le> N"
  shows "\<exists>m'. fill_words N f p i k m = Inr m' \<and>
    (\<forall>x. lane m' p x = (if i \<le> x div 32 \<and> x div 32 < i + k then bit (f (x div 32)) (x mod 32) else lane m p x)) \<and>
    (\<forall>j. j < p \<or> p + 4 * (i + k) \<le> j \<longrightarrow> m' j = m j)"
  using assms
proof (induction k arbitrary: i m)
  case (Suc k)
  define m1 where "m1 = write32 m (p + 4 * i) (f i)"
  obtain m' where m': "fill_words N f p (Suc i) k m1 = Inr m'"
    "\<forall>x. lane m' p x = (if Suc i \<le> x div 32 \<and> x div 32 < Suc i + k then bit (f (x div 32)) (x mod 32) else lane m1 p x)"
    "\<forall>j. j < p \<or> p + 4 * (Suc i + k) \<le> j \<longrightarrow> m' j = m1 j"
    using Suc.IH [of "Suc i" m1] Suc.prems by auto
  have "m1 j = m j" if "j < p \<or> p + 4 * (i + Suc k) \<le> j" for j using that by (auto simp: m1_def write32_def)
  then have "\<forall>j. j < p \<or> p + 4 * (i + Suc k) \<le> j \<longrightarrow> m' j = m j" using m'(3) by simp
  moreover have "lane m' p x = (if i \<le> x div 32 \<and> x div 32 < i + Suc k then bit (f (x div 32)) (x mod 32) else lane m p x)" for x
    using m'(2) write32_lane [of m p i "f i" x] by (cases "x div 32 = i") (simp_all add: m1_def)
  moreover have "fill_words N f p i (Suc k) m = Inr m'" using m'(1) Suc.prems by (simp add: store32_def m1_def)
  ultimately show ?case by blast
qed auto

lemma vectors_apart:
  assumes "vectors_ok N R P" "p \<in> P" "q \<in> P" "q \<noteq> p"
  shows "q + R * ROW_SIZE \<le> p \<or> p + R * ROW_SIZE \<le> q"
  using assms by (auto simp: vectors_ok_def)

lemma lane_kept:
  assumes "\<forall>j. p \<le> j \<and> j < p + R * ROW_SIZE \<longrightarrow> m' j = m j" "x < R * 65536"
  shows "lane m' p x = lane m p x"
proof -
  have "x div 8 < R * ROW_SIZE" using assms(2) by (simp add: div_less_iff_less_mult ROW_SIZE_def)
  then show ?thesis using assms(1) by (simp add: lane_byte)
qed

end
