(* ===== verification/Row_Machine.thy ===== *)
theory Row_Machine
  imports Timing_Cpu Row_Program
begin

text \<open>
  Programs of row instructions on the machine: the opcodes of \<open>rowop.S\<close> as the decoder reads them, the data side of the CPU, the
  answers of the TLB and the memory behind it, an instruction at a time. The machine does to the memory what the program does to
  the store.
\<close>

fun rowop_opcode :: "RowOp \<Rightarrow> nat" where
  "rowop_opcode ROWAND = 0x5c" | "rowop_opcode ROWOR = 0x5d" | "rowop_opcode ROWNOT = 0x5e" | "rowop_opcode ROWXOR = 0x5f"
| "rowop_opcode ROWAP = 0x60" | "rowop_opcode ROWAAP = 0x61" | "rowop_opcode ROWLS = 0x62" | "rowop_opcode ROWRS = 0x63"

lemma decode_opcode [simp]: "decode_row_op (rowop_opcode op) = Some op"
  by (cases op) (simp_all add: decode_row_op_def)

text \<open>The machine: the CPU and the memory. The TLB answers the operands in order with the translation \<open>tr\<close>, the packet reaches the
  memory, and its response completes the instruction.\<close>

type_synonym machine = "TimingSimpleCPU \<times> AbstractMemory"

definition tlb_answers :: "(addr \<Rightarrow> addr) \<Rightarrow> RowOp \<Rightarrow> addr list \<Rightarrow> (nat \<times> tlb_reply) list" where
  "tlb_answers tr op regs = map (\<lambda>i. (i, Translated (tr (regs ! i)) 0)) [0..<row_parts op]"

definition row_instruction :: "(addr \<Rightarrow> addr) \<Rightarrow> tick \<Rightarrow> RowOp \<Rightarrow> addr \<Rightarrow> addr \<Rightarrow> addr \<Rightarrow> machine \<Rightarrow> machine result" where
  "row_instruction tr now op rdi rsi rdx x =
     (case x of (c, mem) \<Rightarrow>
      rbind (initiate_row_op now op rdi rsi rdx c) (\<lambda>(s, c1).
      rbind (run_ops (tlb_done now) (tlb_answers tr op [rdi, rsi, rdx]) s) (\<lambda>(_, s').
      rbind (finishTranslation (\<lambda>_. True) (\<lambda>_. None) now s' c1) (\<lambda>c2.
      rbind (access mem (the_pkt (last (sent c2)))) (\<lambda>(mem', rsp).
      rbind (completeDataAccess (\<lambda>_. None) now (Whole rsp) c2) (\<lambda>c3. Inr (c3, mem')))))))"

fun machine_body :: "(addr \<Rightarrow> addr) \<Rightarrow> tick \<Rightarrow> nat \<Rightarrow> row_stmt list \<Rightarrow> machine \<Rightarrow> machine result" where
  "machine_body tr now i [] x = Inr x"
| "machine_body tr now i ((op, d, a, b) # ss) x =
     (case decode_row_op (rowop_opcode op) of
        None \<Rightarrow> Inl (Panic ''UD2'')
      | Some op' \<Rightarrow>
          rbind (row_instruction tr now op' (of_nat (d + i * ROW_SIZE)) (of_nat (a + i * ROW_SIZE)) (of_nat (b + i * ROW_SIZE)) x)
            (machine_body tr now i ss))"

fun machine_rows :: "(addr \<Rightarrow> addr) \<Rightarrow> tick \<Rightarrow> nat \<Rightarrow> nat \<Rightarrow> row_stmt list \<Rightarrow> machine \<Rightarrow> machine result" where
  "machine_rows tr now i 0 ss x = Inr x"
| "machine_rows tr now i (Suc k) ss x = rbind (machine_body tr now i ss x) (machine_rows tr now (Suc i) k ss)"

subsection \<open>The machine implements the program\<close>

definition cpu_ready :: "TimingSimpleCPU \<Rightarrow> bool" where
  "cpu_ready c \<longleftrightarrow> (\<exists>k. cpu_lineSize c = 2 ^ k \<and> 5 \<le> k \<and> k < 32)"

definition maps_to_store :: "(addr \<Rightarrow> addr) \<Rightarrow> AbstractMemory \<Rightarrow> bool" where
  "maps_to_store tr mem \<longleftrightarrow> (\<forall>x < pmem_size mem. host_offset mem (tr (of_nat x)) = x)"

definition operands_in :: "nat \<Rightarrow> nat \<Rightarrow> row_stmt list \<Rightarrow> bool" where
  "operands_in N i ss \<longleftrightarrow> (\<forall>(op, d, a, b) \<in> set ss. d + i * ROW_SIZE < N \<and> a + i * ROW_SIZE < N \<and> (two_sources op \<longrightarrow> b + i * ROW_SIZE < N))"

lemma row_op_second: "(two_sources op \<longrightarrow> b = b') \<Longrightarrow> row_op op N n d a b m = row_op op N n d a b' m"
  by (cases op) (simp_all add: row_op_def two_sources_def)

lemma tlb_answers_ok:
  "all_parts op (tlb_answers tr op regs)" "plain_pages (tlb_answers tr op regs)"
  "\<forall>(i, r) \<in> set (tlb_answers tr op regs). \<exists>fl. r = Translated (tr (regs ! i)) fl"
  by (auto simp: tlb_answers_def all_parts_def plain_pages_def page_sets_iff isSet_def comp_def image_image)

lemma row_instruction_runs:
  assumes "cpu_ready c" "pmem mem = Some m"
    and "row_op op (pmem_size mem) (ROW_SIZE div 8) (host_offset mem (tr rdi)) (host_offset mem (tr rsi)) (host_offset mem (tr rdx)) m = Inr m'"
  shows "\<exists>c' rsp. row_instruction tr now op rdi rsi rdx (c, mem) = Inr (c', mem\<lparr>pmem := Some m'\<rparr>) \<and>
    cpu_ready c' \<and> cpu_status c' = Running \<and> completed c' = completed c @ [(Some rsp, None)] \<and> isResponse rsp"
proof -
  let ?as = "tlb_answers tr op [rdi, rsi, rdx]"
  obtain k where k: "cpu_lineSize c = 2 ^ k" "5 \<le> k" "k < 32" using assms(1) by (auto simp: cpu_ready_def)
  obtain s c1 s' c2 p where p: "initiate_row_op now op rdi rsi rdx c = Inr (s, c1)"
    "run_ops (tlb_done now) ?as s = Inr (replicate (row_parts op - 1) False @ [True], s')"
    "finishTranslation (\<lambda>_. True) (\<lambda>_. None) now s' c1 = Inr c2" "sent c2 = sent c @ [Whole p]" "cpu_status c2 = DcacheWaitResponse"
    "completed c2 = completed c" "cpu_lineSize c2 = cpu_lineSize c" "isRowOp p" "\<not> memInhibitAsserted p" "needsResponse p" "isRequest p"
    "getPtr p = Inr (payload_bytes (rowop_code op) (tr rdi) (if row_parts op < 2 then 0 else tr rsi) (if row_parts op < 3 then 0 else tr rdx))"
    using row_instruction_packet [where tr = tr and acc = "\<lambda>_. True" and now = now and t = now and completeAcc = "\<lambda>_. None",
        OF k tlb_answers_ok(1) tlb_answers_ok(3) tlb_answers_ok(2) TrueI] by blast
  have "row_op op (pmem_size mem) (ROW_SIZE div 8) (host_offset mem (tr rdi)) (host_offset mem (if row_parts op < 2 then 0 else tr rsi))
      (host_offset mem (if row_parts op < 3 then 0 else tr rdx)) m = Inr m'"
    using assms(3) row_op_unused [of op] by (simp add: if_distrib [of "host_offset mem"])
  then obtain p' where p': "access mem p = Inr (mem\<lparr>pmem := Some m'\<rparr>, p')" "isResponse p'" "\<not> isError p'"
    using access_rowop_runs [OF assms(2) p(8-12) rowop_code_of(2)] by blast
  let ?rsp = "p'\<lparr>pkt_req := setAccessLatency now (pkt_req p')\<rparr>"
  define c3 where "c3 = finish_access (\<lambda>_. None) ?rsp c2"
  have "completeDataAccess (\<lambda>_. None) now (Whole p') c2 = Inr c3" using p(5) p'(3) by (simp add: completeDataAccess_def c3_def)
  then have "row_instruction tr now op rdi rsi rdx (c, mem) = Inr (c3, mem\<lparr>pmem := Some m'\<rparr>)"
    using p(1-4) p'(1) by (simp add: row_instruction_def)
  moreover have "completed c3 = completed c @ [(Some ?rsp, None)]" "cpu_status c3 = Running" "cpu_ready c3"
    using p(6,7) k by (auto simp: c3_def finish_access_def advanceInst_def cpu_ready_def)
  moreover have "isResponse ?rsp" using p'(2) by (simp add: isResponse_def)
  ultimately show ?thesis by blast
qed

lemma machine_body_runs:
  assumes "row_body (pmem_size mem) i ss m = Inr m'" "cpu_ready c" "pmem mem = Some m" "maps_to_store tr mem" "operands_in (pmem_size mem) i ss"
  shows "\<exists>c'. machine_body tr now i ss (c, mem) = Inr (c', mem\<lparr>pmem := Some m'\<rparr>) \<and> cpu_ready c' \<and> length (completed c') = length (completed c) + length ss"
  using assms
proof (induction ss arbitrary: c mem m)
  case Nil
  then show ?case by auto
next
  case (Cons st ss)
  obtain op d a b where st: "st = (op, d, a, b)" by (cases st)
  let ?off = "\<lambda>p. p + i * ROW_SIZE"
  obtain m1 where m1: "row_op op (pmem_size mem) (ROW_SIZE div 8) (?off d) (?off a) (?off b) m = Inr m1" "row_body (pmem_size mem) i ss m1 = Inr m'"
    using Cons.prems(1) by (auto simp: st rbind_def split: sum.splits)
  have o: "host_offset mem (tr (of_nat (?off d))) = ?off d" "host_offset mem (tr (of_nat (?off a))) = ?off a"
      "two_sources op \<longrightarrow> ?off b = host_offset mem (tr (of_nat (?off b)))"
    using Cons.prems(4,5) by (simp_all add: maps_to_store_def operands_in_def st del: of_nat_add of_nat_mult)
  have "row_op op (pmem_size mem) (ROW_SIZE div 8) (?off d) (?off a) (host_offset mem (tr (of_nat (?off b)))) m = Inr m1"
    using m1(1) unfolding row_op_second [OF o(3)] .
  then obtain c1 where c1: "row_instruction tr now op (of_nat (?off d)) (of_nat (?off a)) (of_nat (?off b)) (c, mem) = Inr (c1, mem\<lparr>pmem := Some m1\<rparr>)" "cpu_ready c1"
    "length (completed c1) = Suc (length (completed c))"
    using row_instruction_runs [OF Cons.prems(2,3), of op tr "of_nat (?off d)" "of_nat (?off a)" "of_nat (?off b)" m1 now, unfolded o(1,2)] by auto
  let ?mem1 = "mem\<lparr>pmem := Some m1\<rparr>"
  have "maps_to_store tr ?mem1" using Cons.prems(4) by (simp add: maps_to_store_def host_offset_def)
  then obtain c2 where "machine_body tr now i ss (c1, ?mem1) = Inr (c2, ?mem1\<lparr>pmem := Some m'\<rparr>)" "cpu_ready c2"
    "length (completed c2) = length (completed c1) + length ss"
    using Cons.IH [of ?mem1 m1 c1] m1(2) c1(2) Cons.prems(5) by (auto simp: operands_in_def)
  then show ?case using c1 by (simp add: st)
qed

lemma machine_rows_runs:
  assumes "for_rows (pmem_size mem) i k ss m = Inr m'" "cpu_ready c" "pmem mem = Some m" "maps_to_store tr mem" "\<forall>r. i \<le> r \<and> r < i + k \<longrightarrow> operands_in (pmem_size mem) r ss"
  shows "\<exists>c'. machine_rows tr now i k ss (c, mem) = Inr (c', mem\<lparr>pmem := Some m'\<rparr>) \<and> cpu_ready c' \<and> length (completed c') = length (completed c) + k * length ss"
  using assms
proof (induction k arbitrary: i c mem m)
  case 0
  then show ?case by auto
next
  case (Suc k)
  obtain m1 where m1: "row_body (pmem_size mem) i ss m = Inr m1" "for_rows (pmem_size mem) (Suc i) k ss m1 = Inr m'"
    using Suc.prems(1) by (auto simp: rbind_def split: sum.splits)
  obtain c1 where c1: "machine_body tr now i ss (c, mem) = Inr (c1, mem\<lparr>pmem := Some m1\<rparr>)" "cpu_ready c1" "length (completed c1) = length (completed c) + length ss"
    using machine_body_runs [OF m1(1) Suc.prems(2-4)] Suc.prems(5) by auto
  let ?mem1 = "mem\<lparr>pmem := Some m1\<rparr>"
  have "maps_to_store tr ?mem1" using Suc.prems(4) by (simp add: maps_to_store_def host_offset_def)
  then obtain c2 where "machine_rows tr now (Suc i) k ss (c1, ?mem1) = Inr (c2, ?mem1\<lparr>pmem := Some m'\<rparr>)" "cpu_ready c2"
    "length (completed c2) = length (completed c1) + k * length ss"
    using Suc.IH [of ?mem1 "Suc i" m1 c1] m1(2) c1(2) Suc.prems(5) by auto
  then show ?case using c1 by simp
qed

lemma vectors_operands:
  assumes "vectors_ok N R P" "stmts_ok P ss" "i < R"
  shows "operands_in N i ss"
proof -
  have "i * ROW_SIZE + ROW_SIZE \<le> R * ROW_SIZE" using mult_le_mono1 [of "Suc i" R ROW_SIZE] assms(3) by simp
  then have "p + i * ROW_SIZE < N" if "p \<in> P" for p using assms(1) that by (fastforce simp: vectors_ok_def ROW_SIZE_def)
  then show ?thesis using assms(2) by (fastforce simp: stmts_ok_def operands_in_def)
qed

lemma machine_lanes:
  assumes "cpu_ready c" "pmem mem = Some m" "maps_to_store tr mem" "vectors_ok (pmem_size mem) R P" "stmts_ok P ss"
  shows "\<exists>c' m'. machine_rows tr now 0 R ss (c, mem) = Inr (c', mem\<lparr>pmem := Some m'\<rparr>) \<and>
    length (completed c') = length (completed c) + R * length ss \<and>
    (\<forall>q \<in> P. \<forall>x < R * 65536. lane m' q x = lane_stmts ss (lanes_of P m x) q) \<and> kept_outside R P m m'"
proof -
  obtain m' where m': "for_rows (pmem_size mem) 0 R ss m = Inr m'" "\<forall>q \<in> P. \<forall>x < R * 65536. lane m' q x = lane_stmts ss (lanes_of P m x) q" "kept_outside R P m m'"
    using FOR_ALL_ROWS_lanes [OF assms(4,5), of m] by (auto simp: FOR_ALL_ROWS_def)
  have "\<forall>r. 0 \<le> r \<and> r < 0 + R \<longrightarrow> operands_in (pmem_size mem) r ss" using vectors_operands [OF assms(4,5)] by simp
  from machine_rows_runs [OF m'(1) assms(1-3) this, of now] m'(2,3) show ?thesis by blast
qed

end
