(* ===== verification/Bit_Weave.thy ===== *)
theory Bit_Weave
  imports Row_Program
begin

text \<open>
  The range query on bit-sliced columns (\<open>microworkloads/bitweave-buddy.c\<close>) and the population count it shares with
  \<open>microworkloads/bitweave-baseline.c\<close>. Bit \<open>j\<close> of all values is one vector of rows, the first column the most significant; the
  query compares every value with two constants by row instructions and counts the values strictly between them. The
  memory allocator is the record of the addresses it has returned, \<^verbatim>\<open>rand\<close> is the sequence of its results, and the caches are
  transparent: the program and the row instructions work on one store. The names of the sections are those of \<^verbatim>\<open>main\<close>.
\<close>

definition upopcount :: "32 word \<Rightarrow> 32 word" where
  "upopcount val =
     (let v1 = val - (drop_bit 1 val AND 0x55555555);
          v2 = (v1 AND 0x33333333) + (drop_bit 2 v1 AND 0x33333333) in
      drop_bit 24 (((v2 + drop_bit 4 v2) AND 0x0F0F0F0F) * 0x01010101))"

subsection \<open>The population count works on bytes\<close>

lemma and_nat_le: "a AND c \<le> (a :: nat)"
proof -
  have "int (a AND c) \<le> int a" by (simp add: of_nat_and_eq AND_upper1)
  then show ?thesis by simp
qed

lemma and_digit:
  assumes "a < 2 ^ s" "c < 2 ^ s"
  shows "(a + 2 ^ s * u) AND (c + 2 ^ s * w) = (a AND c) + 2 ^ s * (u AND w :: nat)"
proof (rule bit_eqI)
  fix n
  have "a AND c < 2 ^ s" using assms(1) order_le_less_trans [OF and_nat_le] by blast
  then show "bit ((a + 2 ^ s * u) AND (c + 2 ^ s * w)) n = bit ((a AND c) + 2 ^ s * (u AND w)) n"
    using bit_add_high [OF assms(1), of u n] bit_add_high [OF assms(2), of w n] bit_add_high [of "a AND c" s "u AND w" n] by (auto simp: bit_simps)
qed

lemma and_low:
  assumes "a < 2 ^ k" "c < 2 ^ k"
  shows "(a + 2 ^ k * u) AND c = (a AND c :: nat)"
proof (rule bit_eqI)
  fix n
  have "bit c n \<Longrightarrow> n < k" using assms(2) by (metis bit_take_bit_iff take_bit_nat_eq_self)
  then show "bit ((a + 2 ^ k * u) AND c) n = bit (a AND c) n"
    using bit_add_high [OF assms(1), of u n] by (auto simp: bit_simps)
qed

lemma div_two_parts:
  fixes A B :: nat
  assumes "0 < A" "a < A * B"
  shows "(a + A * B * u) div A = a div A + B * (u mod A) + A * B * (u div A)" "a div A + B * (u mod A) < A * B"
proof -
  have "(a + A * B * u) div A = a div A + B * u" using assms(1) by (simp add: mult.assoc)
  also have "B * u = B * (u mod A + A * (u div A))" by simp
  also have "\<dots> = B * (u mod A) + A * B * (u div A)" by (simp only: distrib_left ac_simps)
  finally show "(a + A * B * u) div A = a div A + B * (u mod A) + A * B * (u div A)" by simp
  have "a div A < B" using assms by (simp add: div_less_iff_less_mult mult.commute)
  moreover have "B * (u mod A) \<le> B * (A - 1)" using mod_less_divisor [OF assms(1), of u] by (intro mult_le_mono2) linarith
  moreover have "B + B * (A - 1) = A * B" using assms(1) by (cases A) simp_all
  ultimately show "a div A + B * (u mod A) < A * B" by linarith
qed

lemma shifted_digit:
  assumes "a < 2 ^ s" "c < 2 ^ (s - k)" "k \<le> s"
  shows "((a + 2 ^ s * u) div 2 ^ k) AND (c + 2 ^ s * w) = ((a div 2 ^ k) AND c) + 2 ^ s * ((u div 2 ^ k) AND w :: nat)"
proof -
  have p: "2 ^ k * 2 ^ (s - k) = (2 ^ s :: nat)" using assms(3) by (simp flip: power_add)
  note d = div_two_parts [of "2 ^ k" a "2 ^ (s - k)" u, unfolded p, OF _ assms(1)]
  have a: "a div 2 ^ k < 2 ^ (s - k)" using assms(1) p by (simp add: div_less_iff_less_mult mult.commute)
  have "2 ^ (s - k) \<le> (2 ^ s :: nat)" by (rule power_increasing) simp_all
  then have "c < 2 ^ s" using assms(2) by linarith
  then show ?thesis using d and_digit [of "a div 2 ^ k + 2 ^ (s - k) * (u mod 2 ^ k)" s c "u div 2 ^ k" w] and_low [OF a assms(2), of "u mod 2 ^ k"] by simp
qed

text \<open>The three steps of the count on one digit, and on a number of several digits with the masks repeated: the digits have two bits in the
  first step, four in the second and eight in the third.\<close>

definition pop1 :: "nat \<Rightarrow> nat \<Rightarrow> nat" where "pop1 w n = n - ((n div 2) AND w)"

definition pop2 :: "nat \<Rightarrow> nat \<Rightarrow> nat" where "pop2 w n = (n AND w) + ((n div 4) AND w)"

definition pop3 :: "nat \<Rightarrow> nat \<Rightarrow> nat" where "pop3 w n = (n + n div 16) AND w"

lemma pop1_digit: "a < 4 \<Longrightarrow> pop1 (1 + 4 * w) (a + 4 * u) = pop1 1 a + 4 * pop1 w u"
proof -
  assume "a < 4"
  then have e: "((a + 4 * u) div 2) AND (1 + 4 * w) = ((a div 2) AND 1) + 4 * ((u div 2) AND w)" using shifted_digit [of a 2 1 1 u w] by simp
  have "(a div 2) AND 1 \<le> a" "(u div 2) AND w \<le> u" using and_nat_le [of "a div 2" 1] and_nat_le [of "u div 2" w] by linarith+
  then show ?thesis unfolding pop1_def e by (simp add: diff_mult_distrib2)
qed

lemma pop2_digit: "a < 16 \<Longrightarrow> pop2 (3 + 16 * w) (a + 16 * u) = pop2 3 a + 16 * pop2 w u"
proof -
  assume "a < 16"
  then have "((a + 16 * u) div 4) AND (3 + 16 * w) = ((a div 4) AND 3) + 16 * ((u div 4) AND w)"
    "(a + 16 * u) AND (3 + 16 * w) = (a AND 3) + 16 * (u AND w)" using shifted_digit [of a 4 3 2 u w] and_digit [of a 4 3 u w] by simp_all
  then show ?thesis unfolding pop2_def by simp
qed

lemma and_ones: "n AND 3 = (n mod 4 :: nat)" "n AND 15 = (n mod 16 :: nat)"
  using take_bit_eq_mask [of 2 n] take_bit_eq_mask [of 4 n] by (simp_all add: take_bit_eq_mod mask_eq_exp_minus_1)

lemma pop3_digit: "a + a div 16 + 16 * (u mod 16) < 256 \<Longrightarrow> pop3 (15 + 256 * w) (a + 256 * u) = pop3 15 a + 256 * pop3 w u"
proof -
  assume l: "a + a div 16 + 16 * (u mod 16) < 256"
  then have "(a + 256 * u) div 16 = a div 16 + 16 * (u mod 16) + 256 * (u div 16)" using div_two_parts(1) [of 16 a 16 u] by simp
  then have e: "a + 256 * u + (a + 256 * u) div 16 = (a + a div 16 + 16 * (u mod 16)) + 256 * (u + u div 16)" by simp
  have "(a + a div 16 + 16 * (u mod 16)) AND 15 = (a + a div 16) AND 15" by (simp only: and_ones mod_mult_self2)
  then show ?thesis unfolding pop3_def e using and_digit [of "a + a div 16 + 16 * (u mod 16)" 8 15 "u + u div 16" w, simplified, OF l] by simp
qed

primrec ones :: "nat \<Rightarrow> nat \<Rightarrow> nat" where
  "ones 0 n = 0"
| "ones (Suc k) n = ones k n + of_bool (bit n k)"

lemma ones_cong: "(\<And>i. i < k \<Longrightarrow> bit n i = bit n' i) \<Longrightarrow> ones k n = ones k n'"
  by (induction k) simp_all

lemma ones_le: "ones k n \<le> k"
  by (induction k) simp_all

lemma ones_card: "ones k n = card {i. i < k \<and> bit n i}"
proof (induction k)
  case (Suc k)
  have "{i. i < Suc k \<and> bit n i} = (if bit n k then insert k {i. i < k \<and> bit n i} else {i. i < k \<and> bit n i})" by (auto simp: less_Suc_eq)
  then show ?case using Suc by simp
qed simp

lemma ones_digit:
  assumes "a < 2 ^ s"
  shows "ones (s + k) (a + 2 ^ s * u) = ones s a + ones k u"
proof (induction k)
  case 0
  have "bit (a + 2 ^ s * u) i = bit a i" if "i < s" for i using bit_add_high [OF assms, of u i] that by simp
  then show ?case using ones_cong [of s "a + 2 ^ s * u" a] by simp
next
  case (Suc k)
  have "bit (a + 2 ^ s * u) (s + k) = bit u k" using bit_add_high [OF assms, of u "s + k"] by simp
  then show ?case unfolding add_Suc_right ones.simps using Suc by simp
qed

lemma pop1_pair: "a < 4 \<Longrightarrow> pop1 1 a = ones 2 a"
proof -
  assume "a < 4"
  moreover have "ones 2 a = of_bool (bit a 0) + of_bool (bit a 1)" by (simp add: numeral_2_eq_2)
  moreover have "a = 0 \<or> a = 1 \<or> a = 2 \<or> a = 3" using \<open>a < 4\<close> by linarith
  ultimately show ?thesis by (elim disjE) (simp_all add: pop1_def bit_0)
qed

lemma pop2_nibble: "x \<le> 2 \<Longrightarrow> y \<le> 2 \<Longrightarrow> pop2 3 (x + 4 * y) = x + y"
  by (simp add: pop2_def and_ones)

text \<open>Two digits of two bits in a nibble, two nibbles in a byte: the number of ones.\<close>

definition pops :: "nat \<Rightarrow> nat \<Rightarrow> nat \<Rightarrow> nat" where "pops w v n = pop2 w (pop1 v n)"

lemma pops_digit:
  assumes "a < 16"
  shows "pops (3 + 16 * w) (5 + 16 * v) (a + 16 * u) = ones 4 a + 16 * pops w v u"
proof -
  define x y where "x = a mod 4" and "y = a div 4"
  have a: "a = x + 4 * y" "x < 4" "y < 4" using assms by (auto simp: x_def y_def)
  have "pop1 (1 + 4 * (1 + 4 * v)) (x + 4 * (y + 4 * u)) = ones 2 x + 4 * (ones 2 y + 4 * pop1 v u)"
    using pop1_digit [OF a(2), of "1 + 4 * v" "y + 4 * u"] pop1_digit [OF a(3), of v u] a pop1_pair by simp
  then have e: "pop1 (5 + 16 * v) (a + 16 * u) = (ones 2 x + 4 * ones 2 y) + 16 * pop1 v u" by (simp add: a(1) add.assoc)
  have o: "ones 2 x \<le> 2" "ones 2 y \<le> 2" by (rule ones_le)+
  have "ones 4 a = ones 2 x + ones 2 y" using ones_digit [of x 2 2 y] a by simp
  then show ?thesis using pop2_digit [of "ones 2 x + 4 * ones 2 y" w "pop1 v u"] pop2_nibble [OF o] o unfolding pops_def e by simp
qed

lemma pops_byte:
  assumes "a < 256"
  shows "\<exists>x y. x \<le> 4 \<and> y \<le> 4 \<and> ones 8 a = x + y \<and> (\<forall>w v u. pops (0x33 + 256 * w) (0x55 + 256 * v) (a + 256 * u) = (x + 16 * y) + 256 * pops w v u)"
proof (intro exI conjI allI)
  define x y where "x = a mod 16" and "y = a div 16"
  have a: "a = x + 16 * y" "x < 16" "y < 16" using assms by (auto simp: x_def y_def)
  show "ones 8 a = ones 4 x + ones 4 y" using ones_digit [of x 4 4 y] a by simp
  fix w v u
  show "pops (0x33 + 256 * w) (0x55 + 256 * v) (a + 256 * u) = (ones 4 x + 16 * ones 4 y) + 256 * pops w v u"
    using pops_digit [OF a(2), of "3 + 16 * w" "5 + 16 * v" "y + 16 * u"] pops_digit [OF a(3), of w v u] by (simp add: a(1) add.assoc)
qed (rule ones_le)+

lemma pop3_byte:
  assumes "x \<le> 4" "y \<le> 4" "u mod 16 \<le> 4"
  shows "pop3 (15 + 256 * w) ((x + 16 * y) + 256 * u) = (x + y) + 256 * pop3 w u"
proof -
  have "(17 * y + x) mod 16 = x + y" using mod_mult_self2 [of "x + y" 16 y] assms(1,2) by (simp add: ac_simps)
  then show ?thesis using pop3_digit [of "x + 16 * y" u w] assms by (simp add: pop3_def [of 15] and_ones)
qed

lemma pop_word:
  assumes "a < 256" "b < 256" "c < 256" "d < 256"
  shows "pop3 0x0F0F0F0F (pops 0x33333333 0x55555555 (a + 256 * (b + 256 * (c + 256 * d)))) = ones 8 a + 256 * (ones 8 b + 256 * (ones 8 c + 256 * ones 8 d))"
proof -
  obtain a1 a2 where a: "a1 \<le> 4" "a2 \<le> 4" "ones 8 a = a1 + a2" "\<And>w v u. pops (0x33 + 256 * w) (0x55 + 256 * v) (a + 256 * u) = (a1 + 16 * a2) + 256 * pops w v u"
    using pops_byte [OF assms(1)] by blast
  obtain b1 b2 where b: "b1 \<le> 4" "b2 \<le> 4" "ones 8 b = b1 + b2" "\<And>w v u. pops (0x33 + 256 * w) (0x55 + 256 * v) (b + 256 * u) = (b1 + 16 * b2) + 256 * pops w v u"
    using pops_byte [OF assms(2)] by blast
  obtain c1 c2 where c: "c1 \<le> 4" "c2 \<le> 4" "ones 8 c = c1 + c2" "\<And>w v u. pops (0x33 + 256 * w) (0x55 + 256 * v) (c + 256 * u) = (c1 + 16 * c2) + 256 * pops w v u"
    using pops_byte [OF assms(3)] by blast
  obtain d1 d2 where d: "d1 \<le> 4" "d2 \<le> 4" "ones 8 d = d1 + d2" "\<And>w v u. pops (0x33 + 256 * w) (0x55 + 256 * v) (d + 256 * u) = (d1 + 16 * d2) + 256 * pops w v u"
    using pops_byte [OF assms(4)] by blast
  have z: "pops 0 0 0 = 0" "pop3 0 0 = 0" by (simp_all add: pops_def pop1_def pop2_def pop3_def)
  have m: "(x + 16 * y + 256 * u) mod 16 \<le> 4" if "x \<le> 4" for x y u :: nat
    using mod_mult_self2 [of x 16 "y + 16 * u"] that by (simp add: distrib_left add.assoc)
  have "pops 0x33333333 0x55555555 (a + 256 * (b + 256 * (c + 256 * d))) = (a1 + 16 * a2) + 256 * ((b1 + 16 * b2) + 256 * ((c1 + 16 * c2) + 256 * ((d1 + 16 * d2) + 256 * 0)))"
    using a(4) [of "0x333333" "0x555555" "b + 256 * (c + 256 * d)"] b(4) [of "0x3333" "0x5555" "c + 256 * d"] c(4) [of "0x33" "0x55" d] d(4) [of 0 0 0] z by simp
  moreover have "pop3 0x0F0F0F0F \<dots> = (a1 + a2) + 256 * ((b1 + b2) + 256 * ((c1 + c2) + 256 * (d1 + d2)))"
    using pop3_byte [OF a(1,2) m [OF b(1), of b2 "(c1 + 16 * c2) + 256 * (d1 + 16 * d2)"], of "0x0F0F0F"]
      pop3_byte [OF b(1,2) m [OF c(1), of c2 "d1 + 16 * d2"], of "0x0F0F"] pop3_byte [OF c(1,2) m [OF d(1), of d2 0], of "0x0F"]
      pop3_byte [OF d(1,2), of 0 0] z by simp
  ultimately show ?thesis using a(3) b(3) c(3) d(3) by simp
qed


lemma four_bytes:
  obtains a b c d where "unat (v :: 32 word) = a + 256 * (b + 256 * (c + 256 * d))" "a < 256" "b < 256" "c < 256" "d < 256"
proof
  let ?n = "unat v"
  show "?n = ?n mod 256 + 256 * (?n div 256 mod 256 + 256 * (?n div 256 div 256 mod 256 + 256 * (?n div 256 div 256 div 256)))" by simp
  have "?n < 4294967296" using unsigned_less [of v] by simp
  then show "?n div 256 div 256 div 256 < 256" by (simp add: div_mult2_eq [symmetric] div_less_iff_less_mult)
qed simp_all

text \<open>The multiplication adds the four counts in the top byte.\<close>

lemma byte_sum:
  assumes "a \<le> 8" "b \<le> 8" "c \<le> 8" "d \<le> (8 :: nat)"
  shows "((a + 256 * (b + 256 * (c + 256 * d))) * 0x01010101) mod 2 ^ 32 div 2 ^ 24 = a + b + c + d"
proof -
  define l where "l = a + 256 * (a + b) + 65536 * (a + b + c)"
  define h where "h = (b + c + d) + 256 * (c + d) + 65536 * d"
  have "(a + 256 * (b + 256 * (c + 256 * d))) * 0x01010101 = (l + 16777216 * (a + b + c + d)) + 4294967296 * h" by (simp add: l_def h_def algebra_simps)
  moreover have l: "l < 16777216" "l + 16777216 * (a + b + c + d) < 4294967296" using assms by (simp_all add: l_def)
  ultimately have "((a + 256 * (b + 256 * (c + 256 * d))) * 0x01010101) mod 4294967296 = l + 16777216 * (a + b + c + d)" by (simp only: mod_mult_self2 mod_less)
  then show ?thesis using l(1) by (simp del: div_mult_self3)
qed

lemma upopcount_ones: "unat (upopcount v) = ones 32 (unat v)"
proof -
  obtain a b c d where v: "unat v = a + 256 * (b + 256 * (c + 256 * d))" "a < 256" "b < 256" "c < 256" "d < 256" by (rule four_bytes [of v])
  define v1 where "v1 = v - (drop_bit 1 v AND 0x55555555)"
  define v2 where "v2 = (v1 AND 0x33333333) + (drop_bit 2 v1 AND 0x33333333)"
  define v3 where "v3 = (v2 + drop_bit 4 v2) AND 0x0F0F0F0F"
  have "drop_bit 1 v AND 0x55555555 \<le> v"
    unfolding word_le_nat_alt unsigned_and_eq unat_drop_bit_div using and_nat_le [of "unat v div 2" "0x55555555"] by simp
  then have v1: "unat v1 = pop1 0x55555555 (unat v)" by (simp add: v1_def pop1_def unat_sub unsigned_and_eq unat_drop_bit_div)
  have "unat (v1 AND 0x33333333) \<le> 0x33333333" "unat (drop_bit 2 v1 AND 0x33333333) \<le> 0x33333333"
    using and_nat_le [of "0x33333333"] by (simp_all add: unsigned_and_eq and.commute)
  then have v2: "unat v2 = pops 0x33333333 0x55555555 (unat v)"
    by (simp add: v2_def unat_word_ariths pops_def pop2_def v1 unsigned_and_eq unat_drop_bit_div)
  have "unat v2 \<le> 2 * 0x33333333" using \<open>unat (v1 AND 0x33333333) \<le> 0x33333333\<close> \<open>unat (drop_bit 2 v1 AND 0x33333333) \<le> 0x33333333\<close>
    unfolding v2_def unat_word_ariths by simp
  then have "unat v2 + unat v2 div 16 < 4294967296" by simp
  then have "unat v3 = pop3 0x0F0F0F0F (pops 0x33333333 0x55555555 (unat v))"
    by (simp add: v3_def unat_word_ariths pop3_def v2 [symmetric] unsigned_and_eq unat_drop_bit_div)
  then have v3: "unat v3 = ones 8 a + 256 * (ones 8 b + 256 * (ones 8 c + 256 * ones 8 d))" using pop_word [OF v(2-5)] v(1) by simp
  have "upopcount v = drop_bit 24 (v3 * 0x01010101)" by (simp add: upopcount_def v1_def v2_def v3_def Let_def)
  then have "unat (upopcount v) = (unat v3 * 0x01010101) mod 2 ^ 32 div 2 ^ 24" by (simp add: unat_drop_bit_div unat_word_ariths)
  also have "\<dots> = ones 8 a + ones 8 b + ones 8 c + ones 8 d" unfolding v3 by (rule byte_sum [OF ones_le ones_le ones_le ones_le])
  also have "\<dots> = ones 32 (unat v)"
    using ones_digit [of a 8 24 "b + 256 * (c + 256 * d)"] ones_digit [of b 8 16 "c + 256 * d"] ones_digit [of c 8 8 d] v by simp
  finally show ?thesis .
qed

lemma upopcount_card: "unat (upopcount v) = card {i. i < 32 \<and> bit v i}"
proof -
  have "bit (unat v) i = bit v i" if "i < 32" for i using that by (simp add: bit_unsigned_iff)
  then have "{i. i < 32 \<and> bit (unat v) i} = {i. i < 32 \<and> bit v i}" by auto
  then show ?thesis by (simp add: upopcount_ones ones_card)
qed

subsection \<open>The query\<close>

text \<open>The vectors of the program, by their addresses: a column per bit of the values, the masks and the output.\<close>

record bw_vectors =
  bw_vals :: "nat list"
  bw_output :: nat
  bw_meq1 :: nat
  bw_meq2 :: nat
  bw_mlt :: nat
  bw_mgt :: nat
  bw_neg :: nat
  bw_tmp :: nat

definition column_stmts :: "bw_vectors \<Rightarrow> bool \<Rightarrow> bool \<Rightarrow> nat \<Rightarrow> row_stmt list" where
  "column_stmts b test1 test2 vec =
     (if \<not> test1 \<and> \<not> test2 then
        [(ROWAND, bw_tmp b, bw_meq1 b, vec), (ROWOR, bw_mgt b, bw_mgt b, bw_tmp b),
         (ROWAND, bw_meq1 b, bw_meq1 b, bw_neg b), (ROWAND, bw_meq2 b, bw_meq2 b, bw_neg b)]
      else if test1 \<and> \<not> test2 then
        [(ROWAND, bw_meq1 b, bw_meq1 b, vec), (ROWAND, bw_meq2 b, bw_meq2 b, bw_neg b)]
      else if \<not> test1 \<and> test2 then
        [(ROWAND, bw_tmp b, bw_meq1 b, vec), (ROWOR, bw_mgt b, bw_mgt b, bw_tmp b),
         (ROWAND, bw_tmp b, bw_meq2 b, bw_neg b), (ROWOR, bw_mlt b, bw_mlt b, bw_tmp b),
         (ROWAND, bw_meq1 b, bw_meq1 b, bw_neg b), (ROWAND, bw_meq2 b, bw_meq2 b, vec)]
      else
        [(ROWAND, bw_tmp b, bw_meq2 b, bw_neg b), (ROWOR, bw_mlt b, bw_mlt b, bw_tmp b),
         (ROWAND, bw_meq1 b, bw_meq1 b, vec), (ROWAND, bw_meq2 b, bw_meq2 b, vec)])"

text \<open>One column; \<^verbatim>\<open>1 << j\<close> is a shift of an \<^verbatim>\<open>int\<close> and has no value from 31 on.\<close>

definition query_column :: "nat \<Rightarrow> nat \<Rightarrow> bw_vectors \<Rightarrow> 32 word \<Rightarrow> 32 word \<Rightarrow> nat \<Rightarrow> nat \<Rightarrow> store \<Rightarrow> store result" where
  "query_column N R b c1 c2 j vec m =
     rbind (FOR_ALL_ROWS N R [(ROWNOT, bw_neg b, vec, 0)] m) (\<lambda>m1.
     if 31 \<le> j then Inl HostFault
     else FOR_ALL_ROWS N R (column_stmts b (c1 AND push_bit j 1 \<noteq> 0) (c2 AND push_bit j 1 \<noteq> 0) vec) m1)"

fun query_columns :: "nat \<Rightarrow> nat \<Rightarrow> bw_vectors \<Rightarrow> 32 word \<Rightarrow> 32 word \<Rightarrow> nat \<Rightarrow> nat list \<Rightarrow> store \<Rightarrow> store result" where
  "query_columns N R b c1 c2 j [] m = Inr m"
| "query_columns N R b c1 c2 j (vec # vecs) m =
     rbind (query_column N R b c1 c2 j vec m) (query_columns N R b c1 c2 (Suc j) vecs)"

text \<open>The count: a row of the output at a time, a 32-bit word at a time.\<close>

fun count_words :: "store \<Rightarrow> nat \<Rightarrow> nat \<Rightarrow> nat \<Rightarrow> 32 word \<Rightarrow> 32 word" where
  "count_words m p j 0 result = result"
| "count_words m p j (Suc k) result = count_words m p (Suc j) k (result + upopcount (read32 m (p + 4 * j)))"

fun count_rows :: "nat \<Rightarrow> bw_vectors \<Rightarrow> nat \<Rightarrow> nat \<Rightarrow> 32 word \<Rightarrow> store \<Rightarrow> (32 word \<times> store) result" where
  "count_rows N b i 0 result m = Inr (result, m)"
| "count_rows N b i (Suc k) result m =
     rbind (row_body N i [(ROWAND, bw_output b, bw_mlt b, bw_mgt b)] m) (\<lambda>m1.
     count_rows N b (Suc i) k (count_words m1 (bw_output b + i * ROW_SIZE) 0 (ROW_SIZE div 4) result) m1)"

definition query_iteration :: "nat \<Rightarrow> nat \<Rightarrow> bw_vectors \<Rightarrow> 32 word \<Rightarrow> 32 word \<Rightarrow> store \<Rightarrow> (32 word \<times> store) result" where
  "query_iteration N R b c1 c2 m =
     rbind (query_columns N R b c1 c2 0 (bw_vals b) m) (\<lambda>m1. count_rows N b 0 R 0 m1)"

definition run_query :: "nat \<Rightarrow> nat \<Rightarrow> bw_vectors \<Rightarrow> 32 word \<Rightarrow> 32 word \<Rightarrow> store \<Rightarrow> (32 word \<times> store) result" where
  "run_query N R b c1 c2 m =
     rbind (query_iteration N R b c1 c2 m) (\<lambda>(_, m1). query_iteration N R b c1 c2 m1)"

subsection \<open>The whole program\<close>

fun init_columns :: "nat \<Rightarrow> (nat \<Rightarrow> 32 word) \<Rightarrow> nat \<Rightarrow> nat list \<Rightarrow> nat \<Rightarrow> store \<Rightarrow> store result" where
  "init_columns N rand r [] ints m = Inr m"
| "init_columns N rand r (vec # vecs) ints m =
     rbind (fill_words N (\<lambda>i. rand (r + i)) vec 0 ints m) (init_columns N rand (r + ints) vecs ints)"

fun init_masks :: "nat \<Rightarrow> bw_vectors \<Rightarrow> nat \<Rightarrow> nat \<Rightarrow> store \<Rightarrow> store result" where
  "init_masks N b i 0 m = Inr m"
| "init_masks N b i (Suc k) m =
     rbind (store32 N m (bw_meq1 b + 4 * i) 1) (\<lambda>m1.
     rbind (store32 N m1 (bw_meq2 b + 4 * i) 1) (\<lambda>m2.
     rbind (store32 N m2 (bw_mlt b + 4 * i) 0) (\<lambda>m3.
     rbind (store32 N m3 (bw_mgt b + 4 * i) 0) (init_masks N b (Suc i) k))))"

definition per_col_bytes :: "nat \<Rightarrow> nat" where "per_col_bytes num_vals = num_vals div 8"

definition per_col_ints :: "nat \<Rightarrow> nat" where "per_col_ints num_vals = num_vals div 32"

definition per_col_rows :: "nat \<Rightarrow> nat" where
  "per_col_rows num_vals = (per_col_bytes num_vals + ROW_SIZE - 1) div ROW_SIZE"

text \<open>The sizes are \<^verbatim>\<open>int\<close>: a shift or a product that leaves their range (\<^verbatim>\<open>num_vals\<close>, \<^verbatim>\<open>total_bits\<close>) has no defined result.\<close>

definition bitweave_main :: "nat \<Rightarrow> (nat \<Rightarrow> 32 word) \<Rightarrow> bw_vectors \<Rightarrow> nat \<Rightarrow> store \<Rightarrow> (32 word \<times> store) result" where
  "bitweave_main N rand b size_arg m =
     (let col_length = length (bw_vals b); num_vals = 1024 * 2 ^ size_arg; total_bits = col_length * num_vals;
          c1 = rand 0; c2 = rand 1; ints = per_col_ints num_vals in
      if 2 ^ 31 \<le> num_vals \<or> 2 ^ 31 \<le> total_bits then Inl HostFault else
      rbind (init_columns N rand 2 (bw_vals b) ints m) (\<lambda>m1.
      rbind (init_masks N b 0 ints m1) (\<lambda>m2.
      run_query N (per_col_rows num_vals) b c1 c2 m2)))"

subsection \<open>What the query computes on one lane\<close>

definition bw_all :: "bw_vectors \<Rightarrow> nat list" where
  "bw_all b = [bw_output b, bw_meq1 b, bw_meq2 b, bw_mlt b, bw_mgt b, bw_neg b, bw_tmp b] @ bw_vals b"

definition bw_ok :: "nat \<Rightarrow> nat \<Rightarrow> bw_vectors \<Rightarrow> bool" where
  "bw_ok N R b \<longleftrightarrow> vectors_ok N R (set (bw_all b)) \<and> distinct (bw_all b)"

text \<open>The order of bit strings of one length, the first bit the most significant.\<close>

fun less_bits :: "bool list \<Rightarrow> bool list \<Rightarrow> bool" where
  "less_bits (x # xs) (y # ys) = (\<not> x \<and> y \<or> x = y \<and> less_bits xs ys)"
| "less_bits _ _ = False"

fun bits_num :: "bool list \<Rightarrow> nat" where
  "bits_num [] = 0"
| "bits_num (x # xs) = of_bool x * 2 ^ length xs + bits_num xs"

lemma bits_num_less: "bits_num xs < 2 ^ length xs"
  by (induction xs) auto

lemma less_bits_num: "length xs = length ys \<Longrightarrow> less_bits xs ys \<longleftrightarrow> bits_num xs < bits_num ys"
proof (induction xs arbitrary: ys)
  case (Cons x xs)
  then obtain y zs where ys: "ys = y # zs" "length xs = length zs" by (cases ys) auto
  then show ?case using Cons.IH [OF ys(2)] bits_num_less [of xs] bits_num_less [of zs] by (cases x; cases y) auto
qed simp

lemma less_bits_irrefl: "\<not> less_bits xs xs"
  by (induction xs) auto

definition column_env :: "bw_vectors \<Rightarrow> bool \<Rightarrow> bool \<Rightarrow> nat \<Rightarrow> (nat \<Rightarrow> bool) \<Rightarrow> nat \<Rightarrow> bool" where
  "column_env b t1 t2 vec e = lane_stmts (column_stmts b t1 t2 vec) (e(bw_neg b := \<not> e vec))"

lemma masks_distinct:
  assumes "distinct (bw_all b)"
  shows "bw_meq1 b \<noteq> bw_meq2 b" "bw_meq1 b \<noteq> bw_mlt b" "bw_meq1 b \<noteq> bw_mgt b" "bw_meq1 b \<noteq> bw_neg b" "bw_meq1 b \<noteq> bw_tmp b"
    "bw_meq2 b \<noteq> bw_mlt b" "bw_meq2 b \<noteq> bw_mgt b" "bw_meq2 b \<noteq> bw_neg b" "bw_meq2 b \<noteq> bw_tmp b" "bw_mlt b \<noteq> bw_mgt b"
    "bw_mlt b \<noteq> bw_neg b" "bw_mlt b \<noteq> bw_tmp b" "bw_mgt b \<noteq> bw_neg b" "bw_mgt b \<noteq> bw_tmp b" "bw_neg b \<noteq> bw_tmp b"
  using assms by (simp_all add: bw_all_def)

lemma column_distinct:
  assumes "distinct (bw_all b)" "vec \<in> set (bw_vals b)"
  shows "vec \<noteq> bw_meq1 b" "vec \<noteq> bw_meq2 b" "vec \<noteq> bw_mlt b" "vec \<noteq> bw_mgt b" "vec \<noteq> bw_neg b" "vec \<noteq> bw_tmp b"
  using assms by (auto simp: bw_all_def)

lemma column_lane:
  assumes "distinct (bw_all b)" "vec \<in> set (bw_vals b)"
  shows "column_env b t1 t2 vec e (bw_meq1 b) = (e (bw_meq1 b) \<and> e vec = t1)"
    "column_env b t1 t2 vec e (bw_meq2 b) = (e (bw_meq2 b) \<and> e vec = t2)"
    "column_env b t1 t2 vec e (bw_mgt b) = (e (bw_mgt b) \<or> e (bw_meq1 b) \<and> \<not> t1 \<and> e vec)"
    "column_env b t1 t2 vec e (bw_mlt b) = (e (bw_mlt b) \<or> e (bw_meq2 b) \<and> \<not> e vec \<and> t2)"
proof -
  note ne = masks_distinct [OF assms(1)] column_distinct [OF assms]
  show "column_env b t1 t2 vec e (bw_meq1 b) = (e (bw_meq1 b) \<and> e vec = t1)"
    "column_env b t1 t2 vec e (bw_meq2 b) = (e (bw_meq2 b) \<and> e vec = t2)"
    "column_env b t1 t2 vec e (bw_mgt b) = (e (bw_mgt b) \<or> e (bw_meq1 b) \<and> \<not> t1 \<and> e vec)"
    "column_env b t1 t2 vec e (bw_mlt b) = (e (bw_mlt b) \<or> e (bw_meq2 b) \<and> \<not> e vec \<and> t2)"
    unfolding column_env_def column_stmts_def by (cases t1; cases t2; simp add: ne ne [symmetric])+
qed

lemma column_keeps:
  assumes "distinct (bw_all b)" "p \<in> set (bw_vals b)"
  shows "column_env b t1 t2 vec e p = e p"
proof -
  note ne = column_distinct [OF assms]
  show ?thesis unfolding column_env_def column_stmts_def by (cases t1; cases t2) (simp_all add: ne)
qed

lemma column_stmts_ok: "vec \<in> set (bw_vals b) \<Longrightarrow> stmts_ok (set (bw_all b)) (column_stmts b t1 t2 vec)"
  by (cases t1; cases t2) (simp_all add: column_stmts_def stmts_ok_def bitwise_def two_sources_def bw_all_def)

lemma and_single_bit: "j < 32 \<Longrightarrow> (c AND push_bit j 1 \<noteq> 0) = bit (c :: 32 word) j"
  using bit_eq_iff [of "c AND push_bit j 1" 0] by (auto simp: bit_simps)

lemma query_column_lanes:
  assumes "bw_ok N R b" "vec \<in> set (bw_vals b)" "j < 31"
  shows "\<exists>m'. query_column N R b c1 c2 j vec m = Inr m' \<and>
    (\<forall>q \<in> set (bw_all b). \<forall>x < R * 65536. lane m' q x = column_env b (bit c1 j) (bit c2 j) vec (lanes_of (set (bw_all b)) m x) q) \<and>
    kept_outside R (set (bw_all b)) m m'"
proof -
  let ?P = "set (bw_all b)"
  have P: "vec \<in> ?P" "bw_neg b \<in> ?P" using assms(2) by (auto simp: bw_all_def)
  have v: "vectors_ok N R ?P" using assms(1) by (simp add: bw_ok_def)
  have "stmts_ok ?P [(ROWNOT, bw_neg b, vec, 0)]" using P by (simp add: stmts_ok_def bitwise_def two_sources_def)
  then obtain m1 where m1: "FOR_ALL_ROWS N R [(ROWNOT, bw_neg b, vec, 0)] m = Inr m1"
    "\<forall>q \<in> ?P. \<forall>x < R * 65536. lane m1 q x = lane_stmts [(ROWNOT, bw_neg b, vec, 0)] (lanes_of ?P m x) q" "kept_outside R ?P m m1"
    using FOR_ALL_ROWS_lanes [OF v] by blast
  obtain m2 where m2: "FOR_ALL_ROWS N R (column_stmts b (bit c1 j) (bit c2 j) vec) m1 = Inr m2"
    "\<forall>q \<in> ?P. \<forall>x < R * 65536. lane m2 q x = lane_stmts (column_stmts b (bit c1 j) (bit c2 j) vec) (lanes_of ?P m1 x) q" "kept_outside R ?P m1 m2"
    using FOR_ALL_ROWS_lanes [OF v column_stmts_ok [OF assms(2)]] by blast
  have "lanes_of ?P m1 x = (lanes_of ?P m x)(bw_neg b := \<not> lanes_of ?P m x vec)" if "x < R * 65536" for x
    using m1(2) P that by (auto simp: fun_eq_iff lanes_of_def)
  then have "\<forall>q \<in> ?P. \<forall>x < R * 65536. lane m2 q x = column_env b (bit c1 j) (bit c2 j) vec (lanes_of ?P m x) q"
    using m2(2) by (simp add: column_env_def)
  moreover have "query_column N R b c1 c2 j vec m = Inr m2"
    using m1(1) m2(1) assms(3) and_single_bit [of j c1] and_single_bit [of j c2] by (simp add: query_column_def)
  moreover have "kept_outside R ?P m m2" using m1(3) m2(3) by (simp add: kept_outside_def)
  ultimately show ?thesis by blast
qed

text \<open>The masks after a list of columns: equality and order of the values of a lane with the bits of the constants.\<close>

definition lane_bits :: "store \<Rightarrow> nat list \<Rightarrow> nat \<Rightarrow> bool list" where
  "lane_bits m vecs x = map (\<lambda>v. lane m v x) vecs"

definition const_bits :: "32 word \<Rightarrow> nat \<Rightarrow> nat \<Rightarrow> bool list" where
  "const_bits c j k = map (bit c) [j..<j + k]"

definition masks_after :: "bw_vectors \<Rightarrow> 32 word \<Rightarrow> 32 word \<Rightarrow> nat \<Rightarrow> nat list \<Rightarrow> nat \<Rightarrow> store \<Rightarrow> store \<Rightarrow> bool" where
  "masks_after b c1 c2 j vecs x m m' \<longleftrightarrow>
     (let V = lane_bits m vecs x; B1 = const_bits c1 j (length vecs); B2 = const_bits c2 j (length vecs) in
      lane m' (bw_meq1 b) x = (lane m (bw_meq1 b) x \<and> V = B1) \<and>
      lane m' (bw_meq2 b) x = (lane m (bw_meq2 b) x \<and> V = B2) \<and>
      lane m' (bw_mgt b) x = (lane m (bw_mgt b) x \<or> lane m (bw_meq1 b) x \<and> less_bits B1 V) \<and>
      lane m' (bw_mlt b) x = (lane m (bw_mlt b) x \<or> lane m (bw_meq2 b) x \<and> less_bits V B2) \<and>
      (\<forall>v \<in> set (bw_vals b). lane m' v x = lane m v x))"

lemma query_columns_lanes:
  assumes "bw_ok N R b" "set vecs \<subseteq> set (bw_vals b)" "j + length vecs \<le> 31"
  shows "\<exists>m'. query_columns N R b c1 c2 j vecs m = Inr m' \<and> (\<forall>x < R * 65536. masks_after b c1 c2 j vecs x m m') \<and> kept_outside R (set (bw_all b)) m m'"
  using assms(2,3)
proof (induction vecs arbitrary: j m)
  case Nil
  then show ?case by (simp add: masks_after_def lane_bits_def const_bits_def kept_outside_def)
next
  case (Cons vec vecs)
  have vec: "vec \<in> set (bw_vals b)" "j < 31" and d: "distinct (bw_all b)" using Cons.prems assms(1) by (auto simp: bw_ok_def)
  have P: "bw_meq1 b \<in> set (bw_all b)" "bw_meq2 b \<in> set (bw_all b)" "bw_mlt b \<in> set (bw_all b)" "bw_mgt b \<in> set (bw_all b)" "set (bw_vals b) \<subseteq> set (bw_all b)"
    by (auto simp: bw_all_def)
  obtain m1 where m1: "query_column N R b c1 c2 j vec m = Inr m1"
    "\<forall>q \<in> set (bw_all b). \<forall>x < R * 65536. lane m1 q x = column_env b (bit c1 j) (bit c2 j) vec (lanes_of (set (bw_all b)) m x) q"
    "kept_outside R (set (bw_all b)) m m1"
    using query_column_lanes [OF assms(1) vec] by blast
  obtain m2 where m2: "query_columns N R b c1 c2 (Suc j) vecs m1 = Inr m2" "\<forall>x < R * 65536. masks_after b c1 c2 (Suc j) vecs x m1 m2"
    "kept_outside R (set (bw_all b)) m1 m2"
    using Cons.IH [of "Suc j" m1] Cons.prems by auto
  have "masks_after b c1 c2 j (vec # vecs) x m m2" if x: "x < R * 65536" for x
  proof -
    have keep: "lane m1 v x = lane m v x" if "v \<in> set (bw_vals b)" for v
      using m1(2) column_keeps [OF d that] that P(5) x by (auto simp: lanes_of_def)
    then have V: "lane_bits m1 vecs x = lane_bits m vecs x" using Cons.prems(1) by (auto simp: lane_bits_def)
    have C: "const_bits c j (length (vec # vecs)) = bit c j # const_bits c (Suc j) (length vecs)" for c
      by (simp add: const_bits_def upt_conv_Cons del: upt_Suc)
    have L: "lane_bits m (vec # vecs) x = lane m vec x # lane_bits m vecs x" by (simp add: lane_bits_def)
    have "lane m1 (bw_meq1 b) x = (lane m (bw_meq1 b) x \<and> lane m vec x = bit c1 j)"
      "lane m1 (bw_meq2 b) x = (lane m (bw_meq2 b) x \<and> lane m vec x = bit c2 j)"
      "lane m1 (bw_mgt b) x = (lane m (bw_mgt b) x \<or> lane m (bw_meq1 b) x \<and> \<not> bit c1 j \<and> lane m vec x)"
      "lane m1 (bw_mlt b) x = (lane m (bw_mlt b) x \<or> lane m (bw_meq2 b) x \<and> \<not> lane m vec x \<and> bit c2 j)"
      using m1(2) x P vec(1) column_lane [OF d vec(1)] by (simp_all add: lanes_of_def subset_iff)
    note step = this
    note after = m2(2) [rule_format, OF x, unfolded masks_after_def Let_def V]
    show ?thesis unfolding masks_after_def Let_def C L list.inject less_bits.simps
    proof (intro conjI ballI)
      show "lane m2 v x = lane m v x" if "v \<in> set (bw_vals b)" for v using after keep [OF that] that by simp
    qed (simp only: after step; blast)+
  qed
  moreover have "kept_outside R (set (bw_all b)) m m2" using m1(3) m2(3) by (simp add: kept_outside_def)
  ultimately show ?case using m1(1) m2(1) by simp
qed

subsection \<open>Counting\<close>

definition lanes_between :: "nat \<Rightarrow> nat \<Rightarrow> (nat \<Rightarrow> bool) \<Rightarrow> nat" where
  "lanes_between a c Q = card {x. a \<le> x \<and> x < c \<and> Q x}"

lemma lanes_join: "a \<le> b \<Longrightarrow> b \<le> c \<Longrightarrow> lanes_between a c Q = lanes_between a b Q + lanes_between b c Q"
proof -
  assume "a \<le> b" "b \<le> c"
  then have "{x. a \<le> x \<and> x < c \<and> Q x} = {x. a \<le> x \<and> x < b \<and> Q x} \<union> {x. b \<le> x \<and> x < c \<and> Q x}" by auto
  then show ?thesis unfolding lanes_between_def by (simp add: card_Un_disjoint disjoint_iff)
qed

lemma lanes_shift: "lanes_between (d + a) (d + c) Q = lanes_between a c (\<lambda>y. Q (d + y))"
proof -
  have "{x. d + a \<le> x \<and> x < d + c \<and> Q x} = (+) d ` {y. a \<le> y \<and> y < c \<and> Q (d + y)}"
    by (auto simp: image_iff intro: exI [of _ "_ - d"]) (metis add_diff_inverse_nat le_add_diff_inverse leD nat_add_left_cancel_le nat_add_left_cancel_less add_leD1)
  then show ?thesis unfolding lanes_between_def by (simp add: card_image)
qed

lemma lanes_cong: "(\<And>x. a \<le> x \<Longrightarrow> x < c \<Longrightarrow> Q x = Q' x) \<Longrightarrow> lanes_between a c Q = lanes_between a c Q'"
  unfolding lanes_between_def by (rule arg_cong [of _ _ card]) auto

lemma upopcount_lanes: "upopcount (read32 m (p + 4 * j)) = of_nat (lanes_between (32 * j) (32 * Suc j) (lane m p))"
proof -
  have "unat (upopcount (read32 m (p + 4 * j))) = lanes_between 0 32 (\<lambda>y. lane m p (32 * j + y))"
    unfolding upopcount_card lanes_between_def by (rule arg_cong [of _ _ card]) (auto simp: read32_lane)
  then have "unat (upopcount (read32 m (p + 4 * j))) = lanes_between (32 * j) (32 * Suc j) (lane m p)"
    using lanes_shift [of "32 * j" 0 32 "lane m p"] by (simp add: add.commute)
  then have "of_nat (unat (upopcount (read32 m (p + 4 * j)))) = (of_nat (lanes_between (32 * j) (32 * Suc j) (lane m p)) :: 32 word)" by (rule arg_cong)
  then show ?thesis by simp
qed

lemma count_words_lanes: "count_words m p j k result = result + of_nat (lanes_between (32 * j) (32 * (j + k)) (lane m p))"
proof (induction k arbitrary: j result)
  case 0
  have "lanes_between a a Q = 0" for a Q by (simp add: lanes_between_def)
  then show ?case by simp
next
  case (Suc k)
  then show ?case using upopcount_lanes [of m p j] lanes_join [of "32 * j" "32 * Suc j" "32 * (j + Suc k)" "lane m p"] by (simp add: ac_simps)
qed

lemma lane_offset: "lane m (p + i * ROW_SIZE) y = lane m p (65536 * i + y)"
proof -
  have "(65536 * i + y) div 8 = i * ROW_SIZE + y div 8" "(65536 * i + y) mod 8 = y mod 8"
    using div_mult_self3 [of 8 "8192 * i" y] mod_mult_self3 [of "8192 * i" 8 y] by (simp_all add: ROW_SIZE_def mult.assoc [symmetric])
  then show ?thesis by (simp add: lane_byte add.assoc)
qed

lemma count_row_lanes:
  "count_words m (p + i * ROW_SIZE) 0 (ROW_SIZE div 4) result = result + of_nat (lanes_between (65536 * i) (65536 * Suc i) (lane m p))"
proof -
  have "lanes_between 0 65536 (lane m (p + i * ROW_SIZE)) = lanes_between (65536 * i) (65536 * Suc i) (lane m p)"
    using lanes_shift [of "65536 * i" 0 65536 "lane m p"] by (simp add: lane_offset [abs_def] add.commute)
  then show ?thesis by (simp add: count_words_lanes ROW_SIZE_def)
qed

definition keeps_vectors :: "nat \<Rightarrow> bw_vectors \<Rightarrow> store \<Rightarrow> store \<Rightarrow> bool" where
  "keeps_vectors R b m m' \<longleftrightarrow> (\<forall>q \<in> set (bw_all b). q \<noteq> bw_output b \<longrightarrow> (\<forall>x < R * 65536. lane m' q x = lane m q x)) \<and> kept_outside R (set (bw_all b)) m m'"

lemma count_rows_lanes:
  assumes "bw_ok N R b" "i + k \<le> R"
  shows "\<exists>m'. count_rows N b i k result m = Inr (result + of_nat (lanes_between (65536 * i) (65536 * (i + k)) (\<lambda>x. lane m (bw_mlt b) x \<and> lane m (bw_mgt b) x)), m') \<and>
    keeps_vectors R b m m'"
  using assms(2)
proof (induction k arbitrary: i result m)
  case 0
  have "lanes_between a a Q = 0" for a Q by (simp add: lanes_between_def)
  then show ?case by (simp add: keeps_vectors_def kept_outside_def)
next
  case (Suc k)
  let ?P = "set (bw_all b)" and ?Q = "\<lambda>m x. lane m (bw_mlt b) x \<and> lane m (bw_mgt b) x"
  have v: "vectors_ok N R ?P" and d: "distinct (bw_all b)" using assms(1) by (simp_all add: bw_ok_def)
  have P: "bw_output b \<in> ?P" "bw_mlt b \<in> ?P" "bw_mgt b \<in> ?P" and ne: "bw_mlt b \<noteq> bw_output b" "bw_mgt b \<noteq> bw_output b" using d by (auto simp: bw_all_def)
  have "stmts_ok ?P [(ROWAND, bw_output b, bw_mlt b, bw_mgt b)]" using P by (simp add: stmts_ok_def bitwise_def two_sources_def)
  then obtain m1 where m1: "row_body N i [(ROWAND, bw_output b, bw_mlt b, bw_mgt b)] m = Inr m1"
    "\<forall>q \<in> ?P. \<forall>x < R * 65536. lane m1 q x = (if x div 65536 = i then lane_stmts [(ROWAND, bw_output b, bw_mlt b, bw_mgt b)] (lanes_of ?P m x) q else lane m q x)"
    "kept_outside R ?P m m1"
    using row_body_lanes [OF v, of i] Suc.prems by fastforce
  have keep: "lane m1 q x = lane m q x" if "q \<in> ?P" "q \<noteq> bw_output b" "x < R * 65536" for q x
    using m1(2) that by (simp add: lanes_of_def)
  define r where "r = count_words m1 (bw_output b + i * ROW_SIZE) 0 (ROW_SIZE div 4) result"
  obtain m2 where m2: "count_rows N b (Suc i) k r m1 = Inr (r + of_nat (lanes_between (65536 * Suc i) (65536 * (Suc i + k)) (?Q m1)), m2)" "keeps_vectors R b m1 m2"
    using Suc.IH [of "Suc i" r m1] Suc.prems by auto
  have R: "65536 * (Suc i + k) \<le> R * 65536" using Suc.prems by (simp add: mult.commute)
  have "lanes_between (65536 * i) (65536 * Suc i) (lane m1 (bw_output b)) = lanes_between (65536 * i) (65536 * Suc i) (?Q m)"
  proof (rule lanes_cong)
    fix x
    assume x: "65536 * i \<le> x" "x < 65536 * Suc i"
    then have "x div 65536 = i" by (intro div_nat_eqI) (simp_all add: mult.commute)
    moreover have "x < R * 65536" using x(2) R by simp
    ultimately show "lane m1 (bw_output b) x = ?Q m x" using m1(2) P by (simp add: lanes_of_def)
  qed
  then have r: "r = result + of_nat (lanes_between (65536 * i) (65536 * Suc i) (?Q m))" unfolding r_def count_row_lanes by simp
  have "lanes_between (65536 * Suc i) (65536 * (Suc i + k)) (?Q m1) = lanes_between (65536 * Suc i) (65536 * (Suc i + k)) (?Q m)"
    by (rule lanes_cong) (use keep P ne R in auto)
  moreover have "lanes_between (65536 * i) (65536 * (i + Suc k)) (?Q m) =
      lanes_between (65536 * i) (65536 * Suc i) (?Q m) + lanes_between (65536 * Suc i) (65536 * (Suc i + k)) (?Q m)"
    using lanes_join [of "65536 * i" "65536 * Suc i" "65536 * (i + Suc k)" "?Q m"] by simp
  ultimately have "count_rows N b i (Suc k) result m = Inr (result + of_nat (lanes_between (65536 * i) (65536 * (i + Suc k)) (?Q m)), m2)"
    using m1(1) m2(1) r by (simp add: r_def add.assoc)
  moreover have "keeps_vectors R b m m2" using m1(3) m2(2) keep by (simp add: keeps_vectors_def kept_outside_def)
  ultimately show ?case by blast
qed

subsection \<open>The result of the query\<close>

lemma query_iteration_lanes:
  assumes "bw_ok N R b" "length (bw_vals b) \<le> 31"
  shows "\<exists>m'. query_iteration N R b c1 c2 m = Inr (of_nat (lanes_between 0 (65536 * R) (\<lambda>x. lane m' (bw_mlt b) x \<and> lane m' (bw_mgt b) x)), m') \<and>
    (\<forall>x < R * 65536. masks_after b c1 c2 0 (bw_vals b) x m m') \<and> kept_outside R (set (bw_all b)) m m'"
proof -
  obtain m1 where m1: "query_columns N R b c1 c2 0 (bw_vals b) m = Inr m1" "\<forall>x < R * 65536. masks_after b c1 c2 0 (bw_vals b) x m m1"
    "kept_outside R (set (bw_all b)) m m1"
    using query_columns_lanes [OF assms(1) subset_refl, of 0 c1 c2 m] assms(2) by auto
  obtain m2 where m2: "count_rows N b 0 R 0 m1 = Inr (of_nat (lanes_between 0 (65536 * R) (\<lambda>x. lane m1 (bw_mlt b) x \<and> lane m1 (bw_mgt b) x)), m2)" "keeps_vectors R b m1 m2"
    using count_rows_lanes [OF assms(1), of 0 R 0 m1] by auto
  have d: "distinct (bw_all b)" using assms(1) by (simp add: bw_ok_def)
  have keep: "lane m2 q x = lane m1 q x" if "q \<in> set [bw_meq1 b, bw_meq2 b, bw_mlt b, bw_mgt b] \<union> set (bw_vals b)" "x < R * 65536" for q x
  proof -
    have "q \<in> set (bw_all b)" "q \<noteq> bw_output b" using that(1) d by (auto simp: bw_all_def)
    then show ?thesis using m2(2) that(2) by (simp add: keeps_vectors_def)
  qed
  have "lanes_between 0 (65536 * R) (\<lambda>x. lane m1 (bw_mlt b) x \<and> lane m1 (bw_mgt b) x) = lanes_between 0 (65536 * R) (\<lambda>x. lane m2 (bw_mlt b) x \<and> lane m2 (bw_mgt b) x)"
    by (rule lanes_cong) (simp add: keep mult.commute)
  moreover have "masks_after b c1 c2 0 (bw_vals b) x m m2" if "x < R * 65536" for x
    using m1(2) that keep [OF _ that] by (simp add: masks_after_def Let_def)
  moreover have "kept_outside R (set (bw_all b)) m m2" using m1(3) m2(2) by (simp add: keeps_vectors_def kept_outside_def)
  ultimately show ?thesis using m1(1) m2(1) unfolding query_iteration_def by auto
qed

text \<open>The second iteration starts from the masks of the first one and finds nothing new.\<close>

lemma masks_again:
  assumes "masks_after b c1 c2 0 (bw_vals b) x m m1" "masks_after b c1 c2 0 (bw_vals b) x m1 m2"
  shows "masks_after b c1 c2 0 (bw_vals b) x m m2"
proof -
  have V: "lane_bits m1 (bw_vals b) x = lane_bits m (bw_vals b) x" using assms(1) by (simp add: masks_after_def Let_def lane_bits_def)
  show ?thesis using assms less_bits_irrefl unfolding masks_after_def Let_def V by auto
qed

definition lane_value :: "store \<Rightarrow> bw_vectors \<Rightarrow> nat \<Rightarrow> nat" where
  "lane_value m b x = bits_num (lane_bits m (bw_vals b) x)"

definition const_value :: "32 word \<Rightarrow> bw_vectors \<Rightarrow> nat" where
  "const_value c b = bits_num (const_bits c 0 (length (bw_vals b)))"

lemma run_query_lanes:
  assumes "bw_ok N R b" "length (bw_vals b) \<le> 31"
    and "\<forall>x < R * 65536. \<not> lane m (bw_mlt b) x \<and> \<not> lane m (bw_mgt b) x \<and> lane m (bw_meq1 b) x = E x \<and> lane m (bw_meq2 b) x = E x"
  shows "\<exists>m'. run_query N R b c1 c2 m =
      Inr (of_nat (card {x. x < R * 65536 \<and> E x \<and> const_value c1 b < lane_value m b x \<and> lane_value m b x < const_value c2 b}), m') \<and>
    kept_outside R (set (bw_all b)) m m'"
proof -
  obtain r1 m1 where m1: "query_iteration N R b c1 c2 m = Inr (r1, m1)" "\<forall>x < R * 65536. masks_after b c1 c2 0 (bw_vals b) x m m1" "kept_outside R (set (bw_all b)) m m1"
    using query_iteration_lanes [OF assms(1,2)] by blast
  obtain m2 where m2: "query_iteration N R b c1 c2 m1 = Inr (of_nat (lanes_between 0 (65536 * R) (\<lambda>x. lane m2 (bw_mlt b) x \<and> lane m2 (bw_mgt b) x)), m2)"
    "\<forall>x < R * 65536. masks_after b c1 c2 0 (bw_vals b) x m1 m2" "kept_outside R (set (bw_all b)) m1 m2"
    using query_iteration_lanes [OF assms(1,2), of c1 c2 m1] by blast
  have "(lane m2 (bw_mlt b) x \<and> lane m2 (bw_mgt b) x) = (E x \<and> const_value c1 b < lane_value m b x \<and> lane_value m b x < const_value c2 b)" if x: "x < R * 65536" for x
  proof -
    have l: "length (lane_bits m (bw_vals b) x) = length (const_bits c 0 (length (bw_vals b)))" for c by (simp add: lane_bits_def const_bits_def)
    have "masks_after b c1 c2 0 (bw_vals b) x m m2" using masks_again m1(2) m2(2) x by blast
    then show ?thesis using assms(3) x unfolding masks_after_def Let_def lane_value_def const_value_def less_bits_num [OF l] less_bits_num [OF l [symmetric]] by (simp add: conj_ac)
  qed
  then have "lanes_between 0 (65536 * R) (\<lambda>x. lane m2 (bw_mlt b) x \<and> lane m2 (bw_mgt b) x) =
      card {x. x < R * 65536 \<and> E x \<and> const_value c1 b < lane_value m b x \<and> lane_value m b x < const_value c2 b}"
    unfolding lanes_between_def by (intro arg_cong [of _ _ card]) (auto simp: mult.commute)
  moreover have "kept_outside R (set (bw_all b)) m m2" using m1(3) m2(3) by (simp add: kept_outside_def)
  ultimately show ?thesis using m1(1) m2(1) by (simp add: run_query_def)
qed

subsection \<open>Initialisation\<close>

lemma word_of_lane: "4 * ints = R * ROW_SIZE \<Longrightarrow> x < R * 65536 \<Longrightarrow> x div 32 < ints"
  by (simp add: div_less_iff_less_mult ROW_SIZE_def)

lemma init_columns_lanes:
  assumes "vectors_ok N R P" "4 * ints = R * ROW_SIZE" "set vecs \<subseteq> P" "distinct vecs"
  shows "\<exists>m'. init_columns N rand r vecs ints m = Inr m' \<and>
    (\<forall>c < length vecs. \<forall>x < R * 65536. lane m' (vecs ! c) x = bit (rand (r + c * ints + x div 32)) (x mod 32)) \<and>
    (\<forall>q \<in> P - set vecs. \<forall>x < R * 65536. lane m' q x = lane m q x) \<and> kept_outside R P m m'"
  using assms(3,4)
proof (induction vecs arbitrary: r m)
  case Nil
  then show ?case by (simp add: kept_outside_def)
next
  case (Cons vec vecs)
  have vec: "vec \<in> P" "vec \<notin> set vecs" using Cons.prems by auto
  then have "vec + 4 * (0 + ints) \<le> N" using assms(1,2) by (simp add: vectors_ok_def)
  then obtain m1 where m1: "fill_words N (\<lambda>i. rand (r + i)) vec 0 ints m = Inr m1"
    "\<forall>x. lane m1 vec x = (if 0 \<le> x div 32 \<and> x div 32 < 0 + ints then bit (rand (r + x div 32)) (x mod 32) else lane m vec x)"
    "\<forall>j. j < vec \<or> vec + 4 * (0 + ints) \<le> j \<longrightarrow> m1 j = m j"
    using fill_words_lanes [of vec 0 ints N "\<lambda>i. rand (r + i)" m] by blast
  obtain m2 where m2: "init_columns N rand (r + ints) vecs ints m1 = Inr m2"
    "\<forall>c < length vecs. \<forall>x < R * 65536. lane m2 (vecs ! c) x = bit (rand (r + ints + c * ints + x div 32)) (x mod 32)"
    "\<forall>q \<in> P - set vecs. \<forall>x < R * 65536. lane m2 q x = lane m1 q x" "kept_outside R P m1 m2"
    using Cons.IH [of "r + ints" m1] Cons.prems by auto
  have "lane m1 q x = lane m q x" if q: "q \<in> P" "q \<noteq> vec" "x < R * 65536" for q x
    by (rule lane_kept [OF _ q(3)]) (use m1(3) assms(2) vectors_apart [OF assms(1) vec(1) q(1,2)] in auto)
  then have "\<forall>q \<in> P - set (vec # vecs). \<forall>x < R * 65536. lane m2 q x = lane m q x" using m2(3) by simp
  moreover have "lane m2 ((vec # vecs) ! c) x = bit (rand (r + c * ints + x div 32)) (x mod 32)" if "c < length (vec # vecs)" "x < R * 65536" for c x
    using that m2(2,3) m1(2) vec word_of_lane [OF assms(2) that(2)] by (cases c) (simp_all add: add.assoc)
  moreover have "kept_outside R P m m2" using m1(3) m2(4) vec(1) assms(2) by (auto simp: kept_outside_def)
  ultimately show ?case using m1(1) m2(1) by auto
qed

lemma store_word_lanes:
  assumes "vectors_ok N R P" "4 * ints = R * ROW_SIZE" "p \<in> P" "i < ints"
  shows "store32 N m (p + 4 * i) w = Inr (write32 m (p + 4 * i) w)"
    "q \<in> P \<Longrightarrow> x < R * 65536 \<Longrightarrow> lane (write32 m (p + 4 * i) w) q x = (if q = p \<and> x div 32 = i then bit w (x mod 32) else lane m q x)"
    "kept_outside R P m (write32 m (p + 4 * i) w)"
proof -
  have "p + R * ROW_SIZE \<le> N" using assms(1,3) by (simp add: vectors_ok_def)
  then show "store32 N m (p + 4 * i) w = Inr (write32 m (p + 4 * i) w)" using assms(2,4) by (simp add: store32_def)
  show "kept_outside R P m (write32 m (p + 4 * i) w)" using assms(2-4) by (fastforce simp: kept_outside_def write32_def)
  assume q: "q \<in> P" "x < R * 65536"
  show "lane (write32 m (p + 4 * i) w) q x = (if q = p \<and> x div 32 = i then bit w (x mod 32) else lane m q x)"
  proof (cases "q = p")
    case False
    have "lane (write32 m (p + 4 * i) w) q x = lane m q x"
      by (rule lane_kept [OF _ q(2)]) (use assms(2,4) vectors_apart [OF assms(1,3) q(1) False] in \<open>auto simp: write32_def\<close>)
    then show ?thesis using False by simp
  qed (simp add: write32_lane)
qed

lemma init_masks_lanes:
  assumes "bw_ok N R b" "4 * ints = R * ROW_SIZE" "i + k \<le> ints"
  shows "\<exists>m'. init_masks N b i k m = Inr m' \<and>
    (\<forall>q \<in> set (bw_all b). \<forall>x < R * 65536. lane m' q x =
      (if i \<le> x div 32 \<and> x div 32 < i + k \<and> q \<in> {bw_meq1 b, bw_meq2 b, bw_mlt b, bw_mgt b}
       then q \<in> {bw_meq1 b, bw_meq2 b} \<and> x mod 32 = 0 else lane m q x)) \<and> kept_outside R (set (bw_all b)) m m'"
  using assms(3)
proof (induction k arbitrary: i m)
  case 0
  then show ?case by (auto simp: kept_outside_def)
next
  case (Suc k)
  let ?P = "set (bw_all b)" and ?M = "{bw_meq1 b, bw_meq2 b, bw_mlt b, bw_mgt b}"
  have v: "vectors_ok N R ?P" and d: "distinct (bw_all b)" using assms(1) by (simp_all add: bw_ok_def)
  have P: "bw_meq1 b \<in> ?P" "bw_meq2 b \<in> ?P" "bw_mlt b \<in> ?P" "bw_mgt b \<in> ?P" by (auto simp: bw_all_def)
  have i: "i < ints" using Suc.prems by simp
  note w = store_word_lanes [OF v assms(2) _ i]
  define m1 where "m1 = write32 m (bw_meq1 b + 4 * i) 1"
  define m2 where "m2 = write32 m1 (bw_meq2 b + 4 * i) 1"
  define m3 where "m3 = write32 m2 (bw_mlt b + 4 * i) 0"
  define m4 where "m4 = write32 m3 (bw_mgt b + 4 * i) 0"
  obtain m' where m': "init_masks N b (Suc i) k m4 = Inr m'"
    "\<forall>q \<in> ?P. \<forall>x < R * 65536. lane m' q x = (if Suc i \<le> x div 32 \<and> x div 32 < Suc i + k \<and> q \<in> ?M then q \<in> {bw_meq1 b, bw_meq2 b} \<and> x mod 32 = 0 else lane m4 q x)"
    "kept_outside R ?P m4 m'"
    using Suc.IH [of "Suc i" m4] Suc.prems by auto
  have "lane m4 q x = (if x div 32 = i \<and> q \<in> ?M then q \<in> {bw_meq1 b, bw_meq2 b} \<and> x mod 32 = 0 else lane m q x)" if "q \<in> ?P" "x < R * 65536" for q x
  proof -
    have "lane m4 q x = (if q = bw_mgt b \<and> x div 32 = i then False else if q = bw_mlt b \<and> x div 32 = i then False
        else if q = bw_meq2 b \<and> x div 32 = i then x mod 32 = 0 else if q = bw_meq1 b \<and> x div 32 = i then x mod 32 = 0 else lane m q x)"
      unfolding m4_def w(2) [OF P(4) that] m3_def w(2) [OF P(3) that] m2_def w(2) [OF P(2) that] m1_def w(2) [OF P(1) that] by (simp add: bit_1_iff)
    then show ?thesis using masks_distinct [OF d] by (cases "x div 32 = i"; cases "q = bw_meq1 b"; cases "q = bw_meq2 b") simp_all
  qed
  then have "\<forall>q \<in> ?P. \<forall>x < R * 65536. lane m' q x = (if i \<le> x div 32 \<and> x div 32 < i + Suc k \<and> q \<in> ?M then q \<in> {bw_meq1 b, bw_meq2 b} \<and> x mod 32 = 0 else lane m q x)"
    using m'(2) by (auto simp: not_less_eq_eq le_Suc_eq)
  moreover have "init_masks N b i (Suc k) m = Inr m'"
    using m'(1) w(1) [OF P(1), of m 1] w(1) [OF P(2), of m1 1] w(1) [OF P(3), of m2 0] w(1) [OF P(4), of m3 0]
    unfolding m1_def [symmetric] m2_def [symmetric] m3_def [symmetric] m4_def [symmetric] by simp
  moreover have "kept_outside R ?P m m'"
    using m'(3) w(3) [OF P(1), of m 1] w(3) [OF P(2), of m1 1] w(3) [OF P(3), of m2 0] w(3) [OF P(4), of m3 0]
    unfolding m1_def [symmetric] m2_def [symmetric] m3_def [symmetric] m4_def [symmetric] by (simp add: kept_outside_def)
  ultimately show ?case by blast
qed

lemma column_sizes:
  assumes "6 \<le> k"
  shows "per_col_rows (1024 * 2 ^ k) = 2 ^ (k - 6)" "4 * per_col_ints (1024 * 2 ^ k) = 2 ^ (k - 6) * ROW_SIZE" "2 ^ (k - 6) * 65536 = (1024 * 2 ^ k :: nat)"
proof -
  obtain i where k: "k = i + 6" using assms by (metis le_add_diff_inverse2)
  have "(8192 * 2 ^ i + 8191) div 8192 = (2 ^ i :: nat)" using div_mult_self4 [of 8192 "2 ^ i" 8191] by simp
  then show "per_col_rows (1024 * 2 ^ k) = 2 ^ (k - 6)" by (simp add: k per_col_rows_def per_col_bytes_def ROW_SIZE_def power_add)
  show "4 * per_col_ints (1024 * 2 ^ k) = 2 ^ (k - 6) * ROW_SIZE" "2 ^ (k - 6) * 65536 = (1024 * 2 ^ k :: nat)"
    by (simp_all add: k per_col_ints_def ROW_SIZE_def power_add)
qed

text \<open>The value of a lane by the random numbers of its columns.\<close>

definition drawn_value :: "(nat \<Rightarrow> 32 word) \<Rightarrow> nat \<Rightarrow> nat \<Rightarrow> nat \<Rightarrow> nat" where
  "drawn_value rand cols ints x = bits_num (map (\<lambda>c. bit (rand (2 + c * ints + x div 32)) (x mod 32)) [0..<cols])"

text \<open>C14: the population count by three masked additions and a multiplication is the number of ones of the word.\<close>

theorem upopcount_counts: "unat (upopcount v) = card {i. i < 32 \<and> bit v i}"
  by (rule upopcount_card)

text \<open>C4: the query by row instructions counts the values strictly between the two constants. The masks \<open>meq1\<close> and \<open>meq2\<close> select the
  lanes the query looks at, \<open>mlt\<close> and \<open>mgt\<close> start empty; the values and the constants are read with the first column as the most
  significant bit; the second iteration, on the masks left by the first one, gives the same count, modulo the width of the result;
  nothing but the vectors of the program is written.\<close>

theorem query_counts:
  assumes "bw_ok N R b" "length (bw_vals b) \<le> 31"
    and "\<forall>x < R * 65536. \<not> lane m (bw_mlt b) x \<and> \<not> lane m (bw_mgt b) x \<and> lane m (bw_meq1 b) x = E x \<and> lane m (bw_meq2 b) x = E x"
  shows "\<exists>m'. run_query N R b c1 c2 m =
      Inr (of_nat (card {x. x < R * 65536 \<and> E x \<and> const_value c1 b < lane_value m b x \<and> lane_value m b x < const_value c2 b}), m') \<and>
    kept_outside R (set (bw_all b)) m m'"
  by (rule run_query_lanes [OF assms])

text \<open>C36: the whole program, on vectors that fill rows and with sizes that fit an \<^verbatim>\<open>int\<close>, looks at one value of every 32: it starts the
  masks \<open>meq1\<close> and \<open>meq2\<close> with 1 in every word, where a mask of all lanes has all bits of the word set. The size argument is from 6
  (one full row for each vector) to 20 (\<^verbatim>\<open>1024 << 21\<close> leaves the range of \<^verbatim>\<open>int\<close>), and so small that \<^verbatim>\<open>total_bits\<close> fits as well.\<close>

theorem main_counts_every_32nd:
  assumes "6 \<le> k" "bw_ok N (2 ^ (k - 6)) b" "length (bw_vals b) \<le> 31" "k \<le> 20" "length (bw_vals b) * (1024 * 2 ^ k) < 2 ^ 31"
  shows "\<exists>m'. bitweave_main N rand b k m =
    Inr (of_nat (card {x. x < 1024 * 2 ^ k \<and> 32 dvd x \<and>
           const_value (rand 0) b < drawn_value rand (length (bw_vals b)) (32 * 2 ^ k) x \<and>
           drawn_value rand (length (bw_vals b)) (32 * 2 ^ k) x < const_value (rand 1) b}), m')"
proof -
  let ?R = "2 ^ (k - 6)" and ?ints = "per_col_ints (1024 * 2 ^ k)" and ?P = "set (bw_all b)"
  note sizes = column_sizes [OF assms(1)]
  have v: "vectors_ok N ?R ?P" and d: "distinct (bw_all b)" using assms(2) by (simp_all add: bw_ok_def)
  have vals: "set (bw_vals b) \<subseteq> ?P" "distinct (bw_vals b)" using d by (auto simp: bw_all_def)
  obtain m1 where m1: "init_columns N rand 2 (bw_vals b) ?ints m = Inr m1"
    "\<forall>c < length (bw_vals b). \<forall>x < ?R * 65536. lane m1 (bw_vals b ! c) x = bit (rand (2 + c * ?ints + x div 32)) (x mod 32)"
    using init_columns_lanes [OF v sizes(2) vals, of rand 2 m] by blast
  have "0 + ?ints \<le> ?ints" by simp
  then obtain m2 where m2: "init_masks N b 0 ?ints m1 = Inr m2"
    "\<forall>q \<in> ?P. \<forall>x < ?R * 65536. lane m2 q x =
      (if 0 \<le> x div 32 \<and> x div 32 < 0 + ?ints \<and> q \<in> {bw_meq1 b, bw_meq2 b, bw_mlt b, bw_mgt b} then q \<in> {bw_meq1 b, bw_meq2 b} \<and> x mod 32 = 0 else lane m1 q x)"
    using init_masks_lanes [OF assms(2) sizes(2)] by blast
  have masks: "\<forall>x < ?R * 65536. \<not> lane m2 (bw_mlt b) x \<and> \<not> lane m2 (bw_mgt b) x \<and> lane m2 (bw_meq1 b) x = (32 dvd x) \<and> lane m2 (bw_meq2 b) x = (32 dvd x)"
    using m2(2) word_of_lane [OF sizes(2)] masks_distinct [OF d] by (simp add: bw_all_def dvd_eq_mod_eq_0)
  have "lane_value m2 b x = drawn_value rand (length (bw_vals b)) ?ints x" if "x < ?R * 65536" for x
  proof -
    have "lane m2 (bw_vals b ! c) x = bit (rand (2 + c * ?ints + x div 32)) (x mod 32)" if c: "c < length (bw_vals b)" for c
      using m1(2) m2(2) \<open>x < ?R * 65536\<close> c vals(1) column_distinct [OF d nth_mem [OF c]] by (auto simp: subset_iff)
    then show ?thesis unfolding lane_value_def drawn_value_def lane_bits_def by (intro arg_cong [of _ _ bits_num] nth_equalityI) simp_all
  qed
  moreover have "?ints = 32 * 2 ^ k" by (simp add: per_col_ints_def)
  ultimately have "{x. x < ?R * 65536 \<and> 32 dvd x \<and> const_value (rand 0) b < lane_value m2 b x \<and> lane_value m2 b x < const_value (rand 1) b} =
      {x. x < 1024 * 2 ^ k \<and> 32 dvd x \<and> const_value (rand 0) b < drawn_value rand (length (bw_vals b)) (32 * 2 ^ k) x \<and>
        drawn_value rand (length (bw_vals b)) (32 * 2 ^ k) x < const_value (rand 1) b}" unfolding sizes(3) by auto
  moreover have "1024 * 2 ^ k < (2 :: nat) ^ 31" using power_increasing [OF assms(4), of "2 :: nat"] by simp
  ultimately show ?thesis using m1(1) m2(1) sizes(1) assms(5) run_query_lanes [OF assms(2,3) masks, of "rand 0" "rand 1"] by (auto simp: bitweave_main_def Let_def)
qed

text \<open>A small instance: two columns and one row per vector, side by side.\<close>

definition demo_bw :: bw_vectors where
  "demo_bw = \<lparr>bw_vals = [57344, 65536], bw_output = 0, bw_meq1 = 8192, bw_meq2 = 16384, bw_mlt = 24576, bw_mgt = 32768, bw_neg = 40960, bw_tmp = 49152\<rparr>"

text \<open>All masks set and every value \<open>01\<close>.\<close>

definition demo_bw_store :: store where
  "demo_bw_store j = (if 8192 \<le> j \<and> j < 24576 \<or> 65536 \<le> j \<and> j < 73728 then 255 else 0)"

lemma demo_bw_ok: "bw_ok 73728 1 demo_bw" "length (bw_vals demo_bw) = 2"
  by (simp_all add: bw_ok_def bw_all_def demo_bw_def vectors_ok_def ROW_SIZE_def)

lemma demo_bw_const: "const_value 0 demo_bw = 0" "const_value 1 demo_bw = 2"
  by (simp_all add: const_value_def const_bits_def demo_bw_def upt_conv_Cons bit_1_iff)

lemma demo_bw_lane:
  assumes "x < 65536"
  shows "lane demo_bw_store 8192 x" "lane demo_bw_store 16384 x" "\<not> lane demo_bw_store 24576 x" "\<not> lane demo_bw_store 32768 x"
    "\<not> lane demo_bw_store 57344 x" "lane demo_bw_store 65536 x"
proof -
  have "x div 8 < 8192" using assms by (simp add: div_less_iff_less_mult)
  moreover have "bit (255 :: byte) (x mod 8)"
  proof -
    have "(255 :: byte) = mask 8" by (simp add: mask_eq_exp_minus_1)
    then show ?thesis by (simp only: bit_mask_iff) simp
  qed
  ultimately show "lane demo_bw_store 8192 x" "lane demo_bw_store 16384 x" "\<not> lane demo_bw_store 24576 x" "\<not> lane demo_bw_store 32768 x"
    "\<not> lane demo_bw_store 57344 x" "lane demo_bw_store 65536 x"
    by (simp_all add: lane_byte demo_bw_store_def)
qed

theorem query_counts_witness: "\<exists>m'. run_query 73728 1 demo_bw 0 1 demo_bw_store = Inr (65536, m')"
proof -
  have masks: "\<forall>x < 1 * 65536. \<not> lane demo_bw_store (bw_mlt demo_bw) x \<and> \<not> lane demo_bw_store (bw_mgt demo_bw) x \<and>
      lane demo_bw_store (bw_meq1 demo_bw) x = True \<and> lane demo_bw_store (bw_meq2 demo_bw) x = True"
    using demo_bw_lane by (simp add: demo_bw_def)
  have "lane_value demo_bw_store demo_bw x = 1" if "x < 65536" for x
    using demo_bw_lane [OF that] by (simp add: lane_value_def lane_bits_def demo_bw_def)
  then have "{x. x < 1 * 65536 \<and> True \<and> const_value 0 demo_bw < lane_value demo_bw_store demo_bw x \<and> lane_value demo_bw_store demo_bw x < const_value 1 demo_bw} = {..<65536}"
    by (auto simp: demo_bw_const)
  moreover have "length (bw_vals demo_bw) \<le> 31" by (simp add: demo_bw_ok)
  ultimately show ?thesis using query_counts [OF demo_bw_ok(1) _ masks, of 0 1] by auto
qed

text \<open>The same values drawn by the program: 2048 of the 65536 values between the constants are counted.\<close>

definition demo_rand :: "nat \<Rightarrow> 32 word" where
  "demo_rand n = (if n = 1 then 1 else if n < 2050 then 0 else - 1)"

theorem main_counts_every_32nd_witness: "\<exists>m'. bitweave_main 73728 demo_rand demo_bw 6 (\<lambda>_. 0) = Inr (2048, m')"
proof -
  have "drawn_value demo_rand 2 2048 x = 1" if "x < 65536" for x
  proof -
    have "x div 32 < 2048" using that by (simp add: div_less_iff_less_mult)
    then show ?thesis by (simp add: drawn_value_def demo_rand_def upt_conv_Cons)
  qed
  then have "{x. x < 1024 * 2 ^ 6 \<and> 32 dvd x \<and> const_value (demo_rand 0) demo_bw < drawn_value demo_rand (length (bw_vals demo_bw)) (32 * 2 ^ 6) x \<and>
      drawn_value demo_rand (length (bw_vals demo_bw)) (32 * 2 ^ 6) x < const_value (demo_rand 1) demo_bw} = (*) 32 ` {..<2048}"
    by (auto simp: demo_bw_const demo_bw_ok demo_rand_def)
  moreover have "card ((*) 32 ` {..<2048 :: nat}) = 2048" by (simp add: card_image inj_on_def)
  moreover have "length (bw_vals demo_bw) \<le> 31" by (simp add: demo_bw_ok)
  ultimately show ?thesis using main_counts_every_32nd [of 6 73728 demo_bw demo_rand "\<lambda>_. 0"] demo_bw_ok(1) by auto
qed

end
