(* ===== verification/Sad_Plus.thy ===== *)
theory Sad_Plus
  imports Row_Program
begin


text \<open>
  The sum of absolute differences on rows of words (\<open>microworkloads/sad_plus.c\<close>): functions that emit row instructions for shifting,
  adding, negating, taking absolute values and summing the words of a row. No branch depends on the data, so a function is the
  list of the row instructions it executes and the words it writes before them. The memory allocator is the record of
  the addresses it has returned in a call; the caches are transparent, as in the query on columns.
\<close>

subsection \<open>The functions\<close>

definition rowop_shift_n_mask :: "nat \<Rightarrow> nat \<Rightarrow> nat \<Rightarrow> nat \<Rightarrow> row_stmt list" where
  "rowop_shift_n_mask d s n mk = concat (replicate n [(ROWLS, d, s, 0), (ROWAND, d, d, mk)])"

record add_rows =
  ar_mask :: nat
  ar_and0 :: nat
  ar_xor0 :: nat
  ar_andN :: nat
  ar_orN :: nat
  ar_andNshift :: nat
  ar_orNshift :: nat
  ar_andTemp :: nat
  ar_andNCopy :: nat

definition add_first :: "add_rows \<Rightarrow> row_stmt list" where
  "add_first t =
     rowop_shift_n_mask (ar_orNshift t) (ar_and0 t) 1 (ar_mask t) @
     rowop_shift_n_mask (ar_andNshift t) (ar_xor0 t) 1 (ar_mask t) @
     [(ROWAAP, ar_andNCopy t, ar_and0 t, 0),
      (ROWAND, ar_andTemp t, ar_xor0 t, ar_andNshift t),
      (ROWAND, ar_andN t, ar_xor0 t, ar_orNshift t),
      (ROWOR, ar_orN t, ar_andNCopy t, ar_andTemp t)]"

definition add_next :: "add_rows \<Rightarrow> nat \<Rightarrow> row_stmt list" where
  "add_next t shift =
     rowop_shift_n_mask (ar_orNshift t) (ar_orN t) shift (ar_mask t) @
     rowop_shift_n_mask (ar_andNshift t) (ar_andN t) shift (ar_mask t) @
     [(ROWAND, ar_andTemp t, ar_andN t, ar_orNshift t),
      (ROWAND, ar_andN t, ar_andN t, ar_andNshift t),
      (ROWOR, ar_orN t, ar_orN t, ar_orNshift t)]"

function add_loop :: "add_rows \<Rightarrow> nat \<Rightarrow> nat \<Rightarrow> row_stmt list" where
  "add_loop t shift n =
     (if 0 < shift \<and> shift < n then (if shift = 1 then add_first t else add_next t shift) @ add_loop t (shift * 2) n else [])"
  by pat_completeness auto
termination by (relation "measure (\<lambda>(t, shift, n). n - shift)") auto

definition add_stmts :: "add_rows \<Rightarrow> nat \<Rightarrow> nat \<Rightarrow> nat \<Rightarrow> nat \<Rightarrow> row_stmt list" where
  "add_stmts t d s1 s2 n =
     [(ROWAND, ar_and0 t, s1, s2), (ROWXOR, ar_xor0 t, s1, s2)] @ add_loop t 1 n @
     rowop_shift_n_mask (ar_orNshift t) (ar_orN t) 1 (ar_mask t) @ [(ROWXOR, d, ar_xor0 t, ar_orNshift t)]"

text \<open>The loops that fill a row of constants; a width under 8 divides by zero.\<close>

definition fill_const :: "nat \<Rightarrow> 32 word \<Rightarrow> nat \<Rightarrow> nat \<Rightarrow> nat \<Rightarrow> store \<Rightarrow> store result" where
  "fill_const N w p n row_bytes m =
     (if n < 8 then Inl HostFault else fill_words N (\<lambda>_. w) p 0 (row_bytes div (n div 8) * (n div 32)) m)"

definition row_add :: "nat \<Rightarrow> add_rows \<Rightarrow> nat \<Rightarrow> nat \<Rightarrow> nat \<Rightarrow> nat \<Rightarrow> nat \<Rightarrow> store \<Rightarrow> store result" where
  "row_add N t d s1 s2 n row_bytes m =
     rbind (fill_const N (NOT 1) (ar_mask t) n row_bytes m) (row_body N 0 (add_stmts t d s1 s2 n))"

definition row_twos_comp :: "nat \<Rightarrow> add_rows \<Rightarrow> nat \<Rightarrow> nat \<Rightarrow> nat \<Rightarrow> nat \<Rightarrow> nat \<Rightarrow> store \<Rightarrow> store result" where
  "row_twos_comp N t ones_row d s n row_bytes m =
     rbind (fill_const N 1 ones_row n row_bytes m) (\<lambda>m1.
     rbind (row_body N 0 [(ROWNOT, d, s, 0)] m1) (\<lambda>m2.
     row_add N t d d ones_row n row_bytes m2))"

definition row_abs_val :: "nat \<Rightarrow> add_rows \<Rightarrow> nat \<Rightarrow> nat \<Rightarrow> nat \<Rightarrow> nat \<Rightarrow> nat \<Rightarrow> nat \<Rightarrow> nat \<Rightarrow> store \<Rightarrow> store result" where
  "row_abs_val N t ones_row mk sign_extend d s n row_bytes m =
     rbind (fill_const N (push_bit (n - 1) 1) mk n row_bytes m) (\<lambda>m1.
     rbind (row_body N 0
              ((ROWAND, sign_extend, s, mk) #
               concat (replicate n [(ROWRS, sign_extend, sign_extend, 0), (ROWOR, mk, mk, sign_extend)]) @
               [(ROWAND, sign_extend, s, mk)]) m1) (\<lambda>m2.
     rbind (row_twos_comp N t ones_row sign_extend sign_extend n row_bytes m2) (\<lambda>m3.
     row_body N 0 [(ROWNOT, mk, mk, 0), (ROWAND, d, s, mk), (ROWOR, d, d, sign_extend)] m3)))"

text \<open>\<open>shift\<close> single shifts into the temporary row, the first one from the source.\<close>

definition reduce_shifts :: "nat \<Rightarrow> nat \<Rightarrow> nat \<Rightarrow> row_stmt list" where
  "reduce_shifts temp s shift = map (\<lambda>i. (ROWLS, temp, if i = 0 then s else temp, 0)) [0..<shift]"

function row_reduce_loop :: "nat \<Rightarrow> (nat \<Rightarrow> add_rows) \<Rightarrow> nat \<Rightarrow> nat \<Rightarrow> nat \<Rightarrow> nat \<Rightarrow> nat \<Rightarrow> nat \<Rightarrow> store \<Rightarrow> store result" where
  "row_reduce_loop N t temp d s n row_bytes shift m =
     (if 0 < shift \<and> shift < ROW_SIZE then
        rbind (row_body N 0 (reduce_shifts temp (if shift = n then s else d) shift) m) (\<lambda>m1.
        rbind (row_add N (t shift) d d temp n row_bytes m1) (row_reduce_loop N t temp d s n row_bytes (shift * 2)))
      else Inr m)"
  by pat_completeness auto
termination by (relation "measure (\<lambda>(N, t, temp, d, s, n, row_bytes, shift, m). ROW_SIZE - shift)") auto

definition row_reduce :: "nat \<Rightarrow> (nat \<Rightarrow> add_rows) \<Rightarrow> nat \<Rightarrow> nat \<Rightarrow> nat \<Rightarrow> nat \<Rightarrow> nat \<Rightarrow> store \<Rightarrow> store result" where
  "row_reduce N t temp d s n row_bytes m = row_reduce_loop N t temp d s n row_bytes n m"

fun vec_red :: "store \<Rightarrow> nat \<Rightarrow> nat \<Rightarrow> 32 word" where
  "vec_red m vec 0 = 0"
| "vec_red m vec (Suc len) = vec_red m vec len + read32 m (vec + 4 * len)"

definition abs32 :: "32 word \<Rightarrow> 32 word" where
  "abs32 w = (if sint w < 0 then - w else w)"

fun vec_abs_val_red :: "store \<Rightarrow> nat \<Rightarrow> nat \<Rightarrow> 32 word" where
  "vec_abs_val_red m vec 0 = 0"
| "vec_abs_val_red m vec (Suc len) = vec_abs_val_red m vec len + abs32 (read32 m (vec + 4 * len))"

text \<open>The part of \<^verbatim>\<open>main\<close> between the counters, by the value of \<^verbatim>\<open>SELECT\<close>.\<close>

record sad_rows =
  sr_vec1 :: nat
  sr_vec2 :: nat
  sr_output :: nat
  sr_twoComp :: nat
  sr_diff :: nat
  sr_ones1 :: nat
  sr_ones2 :: nat
  sr_abs_mask :: nat
  sr_sign :: nat
  sr_temp :: nat
  sr_add1 :: add_rows
  sr_add2 :: add_rows
  sr_add3 :: add_rows
  sr_adds :: "nat \<Rightarrow> add_rows"

definition sad_query :: "nat \<Rightarrow> nat \<Rightarrow> nat \<Rightarrow> nat \<Rightarrow> sad_rows \<Rightarrow> store \<Rightarrow> 32 word result" where
  "sad_query N select size_vals dwidth r m =
     (let row_bytes = size_vals * dwidth div 8;
          abs_diff = (\<lambda>m. row_abs_val N (sr_add3 r) (sr_ones2 r) (sr_abs_mask r) (sr_sign r) (sr_diff r) (sr_diff r) dwidth row_bytes m) in
      rbind (row_twos_comp N (sr_add1 r) (sr_ones1 r) (sr_twoComp r) (sr_vec2 r) dwidth row_bytes m) (\<lambda>m1.
      rbind (row_add N (sr_add2 r) (sr_diff r) (sr_vec1 r) (sr_twoComp r) dwidth row_bytes m1) (\<lambda>m2.
      if select = 0 then
        rbind (abs_diff m2) (\<lambda>m3.
        rbind (row_reduce N (sr_adds r) (sr_temp r) (sr_output r) (sr_diff r) dwidth row_bytes m3) (\<lambda>m4. Inr (read32 m4 (sr_output r))))
      else if select = 1 then rbind (abs_diff m2) (\<lambda>m3. Inr (vec_red m3 (sr_diff r) size_vals))
      else Inr (vec_abs_val_red m2 (sr_diff r) size_vals))))"

subsection \<open>Rows as vectors of words\<close>

definition word32_op :: "RowOp \<Rightarrow> 32 word \<Rightarrow> 32 word \<Rightarrow> 32 word" where
  "word32_op op x y = (case op of ROWAND \<Rightarrow> x AND y | ROWOR \<Rightarrow> x OR y | ROWXOR \<Rightarrow> x XOR y | ROWNOT \<Rightarrow> NOT x | _ \<Rightarrow> x)"

lemma bit_word32_op: "k < 32 \<Longrightarrow> bitwise op \<Longrightarrow> bit (word32_op op x y) k = lane_op op (bit x k) (bit y k)"
  by (cases op) (auto simp: word32_op_def bitwise_def bit_simps)

lemma word_lane: "w < 2048 \<Longrightarrow> k < 32 \<Longrightarrow> 32 * w + k < (65536 :: nat)"
  by simp

lemma row_body_append: "row_body N i (ss @ ts) m = rbind (row_body N i ss m) (row_body N i ts)"
  by (induction ss arbitrary: m) (auto simp: rbind_def split: sum.splits)

lemma bitwise_words:
  assumes "vectors_ok N 1 P" "bitwise op" "d \<in> P" "a \<in> P" "two_sources op \<longrightarrow> b \<in> P"
  shows "\<exists>m'. row_body N 0 [(op, d, a, b)] m = Inr m' \<and>
    (\<forall>q \<in> P. \<forall>w < 2048. read32 m' (q + 4 * w) = (if q = d then word32_op op (read32 m (a + 4 * w)) (read32 m (b + 4 * w)) else read32 m (q + 4 * w))) \<and>
    kept_outside 1 P m m'"
proof -
  obtain m' where m': "row_op op N (ROW_SIZE div 8) d a b m = Inr m'"
    "\<forall>q \<in> P. \<forall>x < 65536. lane m' q x = (if q = d \<and> x div 65536 = 0 then lane_op op (lane m a x) (lane m b x) else lane m q x)" "kept_outside 1 P m m'"
    using row_stmt_lanes [OF assms(1) zero_less_one assms(2-5), of m] by auto
  have "read32 m' (q + 4 * w) = (if q = d then word32_op op (read32 m (a + 4 * w)) (read32 m (b + 4 * w)) else read32 m (q + 4 * w))" if "q \<in> P" "w < 2048" for q w
    by (rule bit_word_eqI) (use m'(2) that in \<open>simp add: read32_lane bit_word32_op [OF _ assms(2)]\<close>)
  then show ?thesis using m'(1,3) by simp
qed

lemma shift_row:
  assumes "vectors_ok N 1 P" "d \<in> P" "s \<in> P" "d \<noteq> s"
  shows "\<exists>m'. row_body N 0 [(ROWLS, d, s, z)] m = Inr m' \<and>
    (\<forall>q \<in> P. \<forall>x < 65536. lane m' q x = (if q = d then 0 < x \<and> lane m s (x - 1) else lane m q x)) \<and> kept_outside 1 P m m'"
proof -
  let ?n = "ROW_SIZE div 8"
  have n: "8 * ?n = ROW_SIZE" "?n = 1024" by (simp_all add: ROW_SIZE_def)
  have in_N: "p + 8 * ?n \<le> N" if "p \<in> P" for p using assms(1) that n(1) by (simp add: vectors_ok_def)
  have apart: "row_apart ?n d p" if "p \<in> P" "p \<noteq> d" for p
    using vectors_apart [OF assms(1,2) that] n(1) by (auto simp: row_apart_def)
  obtain m' where m': "row_op ROWLS N ?n d s z m = Inr m'" "same_outside ?n d m m'"
    "\<forall>i < ?n. row_at m' d i = row_spec ROWLS ?n (row_at m d) (row_at m s) (row_at m z) i"
    using row_op_words [OF in_N [OF assms(2)], of ROWLS s z m] in_N [OF assms(3)] apart [OF assms(3)] assms(4) by (auto simp: row_sources_def)
  have "lane m' q x = (if q = d then 0 < x \<and> lane m s (x - 1) else lane m q x)" if q: "q \<in> P" "x < 65536" for q x
  proof (cases "q = d")
    case True
    have "x div 64 < ?n" using q(2) by (simp add: n div_less_iff_less_mult)
    then have "lane m' d x = (if x mod 64 = 0 then x div 64 \<noteq> 0 \<and> bit (row_at m s (x div 64 - 1)) 63 else bit (row_at m s (x div 64)) (x mod 64 - 1))"
      using m'(3) by (simp add: lane_def bit_row_spec_ls)
    moreover have "x div 64 \<noteq> 0 \<longleftrightarrow> 0 < x" if "x mod 64 = 0" using that by (cases "x = 0") auto
    ultimately show ?thesis using True nat_bit_pred [of x] nat_bit_pred0 [of x] by (cases "x mod 64 = 0"; cases "x = 0") (auto simp: lane_def)
  next
    case False
    have "lane m' q x = lane m q x"
      by (rule lane_kept [of q 1]) (use m'(2) apart [OF q(1) False] n q(2) in \<open>auto simp: same_outside_def row_apart_def\<close>)
    then show ?thesis using False by simp
  qed
  moreover have "kept_outside 1 P m m'" using m'(2) assms(2) n(1) by (auto simp: kept_outside_def same_outside_def)
  ultimately show ?thesis using m'(1) by simp
qed

text \<open>A shift of the row and the mask that clears the lowest bit of every word shift each word.\<close>

lemma shift_words:
  assumes "vectors_ok N 1 P" "d \<in> P" "s \<in> P" "mk \<in> P" "d \<noteq> s" "d \<noteq> mk" "W \<le> 2048" "\<forall>w < W. read32 m (mk + 4 * w) = NOT 1"
  shows "\<exists>m'. row_body N 0 [(ROWLS, d, s, z), (ROWAND, d, d, mk)] m = Inr m' \<and>
    (\<forall>q \<in> P. \<forall>w < W. read32 m' (q + 4 * w) = (if q = d then push_bit 1 (read32 m (s + 4 * w)) else read32 m (q + 4 * w))) \<and> kept_outside 1 P m m'"
proof -
  obtain m1 where m1: "row_body N 0 [(ROWLS, d, s, z)] m = Inr m1"
    "\<forall>q \<in> P. \<forall>x < 65536. lane m1 q x = (if q = d then 0 < x \<and> lane m s (x - 1) else lane m q x)" "kept_outside 1 P m m1"
    using shift_row [OF assms(1-3,5)] by blast
  obtain m2 where m2: "row_body N 0 [(ROWAND, d, d, mk)] m1 = Inr m2"
    "\<forall>q \<in> P. \<forall>w < 2048. read32 m2 (q + 4 * w) = (if q = d then word32_op ROWAND (read32 m1 (d + 4 * w)) (read32 m1 (mk + 4 * w)) else read32 m1 (q + 4 * w))"
    "kept_outside 1 P m1 m2"
    using bitwise_words [OF assms(1) _ assms(2,2), of ROWAND mk m1] assms(4) by (auto simp: bitwise_def)
  have same: "read32 m1 (q + 4 * w) = read32 m (q + 4 * w)" if "q \<in> P" "q \<noteq> d" "w < W" for q w
    by (rule bit_word_eqI) (use m1(2) that assms(7) in \<open>simp add: read32_lane\<close>)
  have "read32 m1 (d + 4 * w) AND NOT 1 = push_bit 1 (read32 m (s + 4 * w))" if "w < W" for w
  proof (rule bit_word_eqI)
    fix k assume "k < LENGTH(32)"
    then have k: "k < 32" by simp
    have "bit (read32 m1 (d + 4 * w)) k = (0 < 32 * w + k \<and> lane m s (32 * w + k - 1))" using m1(2) assms(2,7) that k by (simp add: read32_lane)
    moreover have "lane m s (32 * w + k - 1) = bit (read32 m (s + 4 * w)) (k - 1)" if "0 < k"
      using that k read32_lane [of "k - 1" m s w] by simp
    ultimately show "bit (read32 m1 (d + 4 * w) AND NOT 1) k = bit (push_bit 1 (read32 m (s + 4 * w))) k"
      using k unfolding bit_and_iff bit_not_iff bit_1_iff bit_push_bit_iff by (cases "k = 0") auto
  qed
  then have "\<forall>q \<in> P. \<forall>w < W. read32 m2 (q + 4 * w) = (if q = d then push_bit 1 (read32 m (s + 4 * w)) else read32 m (q + 4 * w))"
    using m2(2) same assms(4,6-8) by (simp add: word32_op_def)
  moreover have "kept_outside 1 P m m2" using m1(3) m2(3) by (simp add: kept_outside_def)
  moreover have "row_body N 0 [(ROWLS, d, s, z), (ROWAND, d, d, mk)] m = Inr m2"
    using row_body_append [of N 0 "[(ROWLS, d, s, z)]" "[(ROWAND, d, d, mk)]" m] by (simp only: append.simps m1(1) m2(1) rbind_simps)
  ultimately show ?thesis by blast
qed

subsection \<open>Blocks of statements on one word\<close>

text \<open>The statements \<open>ss\<close> do \<open>F\<close> to every one of the first \<open>W\<close> words of the rows \<open>P\<close>, when the row \<open>mk\<close> masks the lowest bit of each word.\<close>

definition wenv :: "nat set \<Rightarrow> store \<Rightarrow> nat \<Rightarrow> nat \<Rightarrow> 32 word" where
  "wenv P m w p = (if p \<in> P then read32 m (p + 4 * w) else 0)"

definition does :: "nat \<Rightarrow> nat \<Rightarrow> nat set \<Rightarrow> nat \<Rightarrow> row_stmt list \<Rightarrow> ((nat \<Rightarrow> 32 word) \<Rightarrow> nat \<Rightarrow> 32 word) \<Rightarrow> bool" where
  "does N W P mk ss F \<longleftrightarrow> (\<forall>m. (\<forall>w < W. read32 m (mk + 4 * w) = NOT 1) \<longrightarrow>
     (\<exists>m'. row_body N 0 ss m = Inr m' \<and> (\<forall>w < W. read32 m' (mk + 4 * w) = NOT 1) \<and> (\<forall>w < W. wenv P m' w = F (wenv P m w)) \<and> kept_outside 1 P m m'))"

lemma does_append: "does N W P mk ss F \<Longrightarrow> does N W P mk ts G \<Longrightarrow> does N W P mk (ss @ ts) (\<lambda>e. G (F e))"
  unfolding does_def
proof (intro allI impI)
  fix m
  assume s: "\<forall>m. (\<forall>w < W. read32 m (mk + 4 * w) = NOT 1) \<longrightarrow>
     (\<exists>m'. row_body N 0 ss m = Inr m' \<and> (\<forall>w < W. read32 m' (mk + 4 * w) = NOT 1) \<and> (\<forall>w < W. wenv P m' w = F (wenv P m w)) \<and> kept_outside 1 P m m')"
    and t: "\<forall>m. (\<forall>w < W. read32 m (mk + 4 * w) = NOT 1) \<longrightarrow>
     (\<exists>m'. row_body N 0 ts m = Inr m' \<and> (\<forall>w < W. read32 m' (mk + 4 * w) = NOT 1) \<and> (\<forall>w < W. wenv P m' w = G (wenv P m w)) \<and> kept_outside 1 P m m')"
    and m: "\<forall>w < W. read32 m (mk + 4 * w) = NOT 1"
  obtain m1 where m1: "row_body N 0 ss m = Inr m1" "\<forall>w < W. read32 m1 (mk + 4 * w) = NOT 1" "\<forall>w < W. wenv P m1 w = F (wenv P m w)" "kept_outside 1 P m m1"
    using s m by blast
  obtain m2 where m2: "row_body N 0 ts m1 = Inr m2" "\<forall>w < W. read32 m2 (mk + 4 * w) = NOT 1" "\<forall>w < W. wenv P m2 w = G (wenv P m1 w)" "kept_outside 1 P m1 m2"
    using t m1(2) by blast
  have "row_body N 0 (ss @ ts) m = Inr m2" using m1(1) m2(1) by (simp add: row_body_append)
  moreover have "kept_outside 1 P m m2" using m1(4) m2(4) by (simp add: kept_outside_def)
  ultimately show "\<exists>m'. row_body N 0 (ss @ ts) m = Inr m' \<and> (\<forall>w < W. read32 m' (mk + 4 * w) = NOT 1) \<and> (\<forall>w < W. wenv P m' w = G (F (wenv P m w))) \<and> kept_outside 1 P m m'"
    using m1(3) m2(2,3) by auto
qed

lemma wenv_upd:
  assumes "d \<in> P" "\<forall>q \<in> P. read32 m' (q + 4 * w) = (if q = d then v else read32 m (q + 4 * w))"
  shows "wenv P m' w = (wenv P m w)(d := v)"
proof
  fix p
  show "wenv P m' w p = ((wenv P m w)(d := v)) p" using assms by (cases "p \<in> P") (auto simp: wenv_def)
qed

lemma does_bitwise:
  assumes "vectors_ok N 1 P" "W \<le> 2048" "bitwise op" "d \<in> P" "a \<in> P" "b \<in> P \<or> b = 0 \<and> \<not> two_sources op" "mk \<in> P" "d \<noteq> mk"
  shows "does N W P mk [(op, d, a, b)] (\<lambda>e. e(d := word32_op op (e a) (e b)))"
  unfolding does_def
proof (intro allI impI)
  fix m
  assume m: "\<forall>w < W. read32 m (mk + 4 * w) = NOT 1"
  obtain m' where m': "row_body N 0 [(op, d, a, b)] m = Inr m'"
    "\<forall>q \<in> P. \<forall>w < 2048. read32 m' (q + 4 * w) = (if q = d then word32_op op (read32 m (a + 4 * w)) (read32 m (b + 4 * w)) else read32 m (q + 4 * w))" "kept_outside 1 P m m'"
    using bitwise_words [OF assms(1,3-5), of b m] assms(6) by auto
  have "word32_op op (read32 m (a + 4 * w)) (read32 m (b + 4 * w)) = word32_op op (wenv P m w a) (wenv P m w b)" for w
    using assms(3,5,6) by (cases op) (auto simp: word32_op_def wenv_def two_sources_def)
  then have "wenv P m' w = (wenv P m w)(d := word32_op op (wenv P m w a) (wenv P m w b))" if "w < W" for w
    using wenv_upd [OF assms(4), of m' w _ m] m'(2) assms(2) that by simp
  then show "\<exists>m'. row_body N 0 [(op, d, a, b)] m = Inr m' \<and> (\<forall>w < W. read32 m' (mk + 4 * w) = NOT 1) \<and>
      (\<forall>w < W. wenv P m' w = (wenv P m w)(d := word32_op op (wenv P m w a) (wenv P m w b))) \<and> kept_outside 1 P m m'"
    using m' m assms(2,7,8) by auto
qed

lemma does_shift:
  assumes "vectors_ok N 1 P" "W \<le> 2048" "d \<in> P" "s \<in> P" "mk \<in> P" "d \<noteq> s" "d \<noteq> mk"
  shows "does N W P mk [(ROWLS, d, s, 0), (ROWAND, d, d, mk)] (\<lambda>e. e(d := push_bit 1 (e s)))"
  unfolding does_def
proof (intro allI impI)
  fix m
  assume m: "\<forall>w < W. read32 m (mk + 4 * w) = NOT 1"
  obtain m' where m': "row_body N 0 [(ROWLS, d, s, 0), (ROWAND, d, d, mk)] m = Inr m'"
    "\<forall>q \<in> P. \<forall>w < W. read32 m' (q + 4 * w) = (if q = d then push_bit 1 (read32 m (s + 4 * w)) else read32 m (q + 4 * w))" "kept_outside 1 P m m'"
    using shift_words [OF assms(1,3-7,2) m] by blast
  moreover have "wenv P m' w = (wenv P m w)(d := push_bit 1 (wenv P m w s))" if "w < W" for w
    using wenv_upd [OF assms(3), of m' w "push_bit 1 (read32 m (s + 4 * w))" m] m'(2) assms(4) that by (simp add: wenv_def [of P m w s])
  ultimately show "\<exists>m'. row_body N 0 [(ROWLS, d, s, 0), (ROWAND, d, d, mk)] m = Inr m' \<and> (\<forall>w < W. read32 m' (mk + 4 * w) = NOT 1) \<and>
      (\<forall>w < W. wenv P m' w = (wenv P m w)(d := push_bit 1 (wenv P m w s))) \<and> kept_outside 1 P m m'"
    using m assms(5,7) by (intro exI [of _ m']) simp
qed

text \<open>Every round of the wrapper shifts the source again, so the number of rounds makes no difference.\<close>

lemma does_shift_n:
  assumes "vectors_ok N 1 P" "W \<le> 2048" "d \<in> P" "s \<in> P" "mk \<in> P" "d \<noteq> s" "d \<noteq> mk" "0 < n"
  shows "does N W P mk (rowop_shift_n_mask d s n mk) (\<lambda>e. e(d := push_bit 1 (e s)))"
  using assms(8)
proof (induction n)
  case (Suc n)
  note one = does_shift [OF assms(1-7)]
  show ?case
  proof (cases n)
    case (Suc k)
    have eq: "rowop_shift_n_mask d s (Suc n) mk = [(ROWLS, d, s, 0), (ROWAND, d, d, mk)] @ rowop_shift_n_mask d s n mk" by (simp add: rowop_shift_n_mask_def)
    have F: "(\<lambda>e. (e(d := push_bit 1 (e s)))(d := push_bit 1 ((e(d := push_bit 1 (e s))) s))) = (\<lambda>e. e(d := push_bit 1 (e s)))"
      using assms(6) by (auto simp: fun_eq_iff)
    have "0 < n" using Suc by simp
    from does_append [OF one Suc.IH [OF this]] show ?thesis by (simp only: eq F)
  next
    case 0
    then have "rowop_shift_n_mask d s (Suc n) mk = [(ROWLS, d, s, 0), (ROWAND, d, d, mk)]" by (simp add: rowop_shift_n_mask_def)
    then show ?thesis using one by (simp only:)
  qed
qed simp

subsection \<open>The addition\<close>

text \<open>What the statements compute on one word, in place of the sum.\<close>

definition smear :: "32 word \<Rightarrow> 32 word" where "smear v = v OR push_bit 1 v"

definition row_add_word :: "32 word \<Rightarrow> 32 word \<Rightarrow> 32 word" where
  "row_add_word a b =
     (let x = a XOR b; g = (a AND b) OR (x AND push_bit 1 x) in
      x XOR push_bit 1 (smear (smear (smear (smear g)))))"

definition ar_all :: "add_rows \<Rightarrow> nat list" where
  "ar_all t = [ar_mask t, ar_and0 t, ar_xor0 t, ar_andN t, ar_orN t, ar_andNshift t, ar_orNshift t, ar_andTemp t, ar_andNCopy t]"

definition add_ok :: "nat \<Rightarrow> nat set \<Rightarrow> add_rows \<Rightarrow> bool" where
  "add_ok N P t \<longleftrightarrow> vectors_ok N 1 P \<and> set (ar_all t) \<subseteq> P \<and> distinct (ar_all t)"

definition first_env :: "add_rows \<Rightarrow> (nat \<Rightarrow> 32 word) \<Rightarrow> nat \<Rightarrow> 32 word" where
  "first_env t e = (let e1 = e(ar_orNshift t := push_bit 1 (e (ar_and0 t))); e2 = e1(ar_andNshift t := push_bit 1 (e1 (ar_xor0 t)));
     e3 = e2(ar_andNCopy t := e2 (ar_and0 t)); e4 = e3(ar_andTemp t := e3 (ar_xor0 t) AND e3 (ar_andNshift t));
     e5 = e4(ar_andN t := e4 (ar_xor0 t) AND e4 (ar_orNshift t)) in e5(ar_orN t := e5 (ar_andNCopy t) OR e5 (ar_andTemp t)))"

definition next_env :: "add_rows \<Rightarrow> (nat \<Rightarrow> 32 word) \<Rightarrow> nat \<Rightarrow> 32 word" where
  "next_env t e = (let e1 = e(ar_orNshift t := push_bit 1 (e (ar_orN t))); e2 = e1(ar_andNshift t := push_bit 1 (e1 (ar_andN t)));
     e3 = e2(ar_andTemp t := e2 (ar_andN t) AND e2 (ar_orNshift t)); e4 = e3(ar_andN t := e3 (ar_andN t) AND e3 (ar_andNshift t)) in
     e4(ar_orN t := e4 (ar_orN t) OR e4 (ar_orNshift t)))"

lemma add_ok_rows:
  assumes "add_ok N P t"
  shows "vectors_ok N 1 P" "ar_mask t \<in> P" "ar_and0 t \<in> P" "ar_xor0 t \<in> P" "ar_andN t \<in> P" "ar_orN t \<in> P" "ar_andNshift t \<in> P"
    "ar_orNshift t \<in> P" "ar_andTemp t \<in> P" "ar_andNCopy t \<in> P"
  using assms by (simp_all add: add_ok_def ar_all_def)

lemma add_ok_distinct:
  assumes "add_ok N P t"
  shows "ar_mask t \<noteq> ar_and0 t" "ar_mask t \<noteq> ar_xor0 t" "ar_mask t \<noteq> ar_andN t" "ar_mask t \<noteq> ar_orN t" "ar_mask t \<noteq> ar_andNshift t" "ar_mask t \<noteq> ar_orNshift t"
    "ar_mask t \<noteq> ar_andTemp t" "ar_mask t \<noteq> ar_andNCopy t" "ar_and0 t \<noteq> ar_xor0 t" "ar_and0 t \<noteq> ar_andN t" "ar_and0 t \<noteq> ar_orN t" "ar_and0 t \<noteq> ar_andNshift t"
    "ar_and0 t \<noteq> ar_orNshift t" "ar_and0 t \<noteq> ar_andTemp t" "ar_and0 t \<noteq> ar_andNCopy t" "ar_xor0 t \<noteq> ar_andN t" "ar_xor0 t \<noteq> ar_orN t" "ar_xor0 t \<noteq> ar_andNshift t"
    "ar_xor0 t \<noteq> ar_orNshift t" "ar_xor0 t \<noteq> ar_andTemp t" "ar_xor0 t \<noteq> ar_andNCopy t" "ar_andN t \<noteq> ar_orN t" "ar_andN t \<noteq> ar_andNshift t" "ar_andN t \<noteq> ar_orNshift t"
    "ar_andN t \<noteq> ar_andTemp t" "ar_andN t \<noteq> ar_andNCopy t" "ar_orN t \<noteq> ar_andNshift t" "ar_orN t \<noteq> ar_orNshift t" "ar_orN t \<noteq> ar_andTemp t" "ar_orN t \<noteq> ar_andNCopy t"
    "ar_andNshift t \<noteq> ar_orNshift t" "ar_andNshift t \<noteq> ar_andTemp t" "ar_andNshift t \<noteq> ar_andNCopy t" "ar_orNshift t \<noteq> ar_andTemp t" "ar_orNshift t \<noteq> ar_andNCopy t" "ar_andTemp t \<noteq> ar_andNCopy t"
  using assms by (simp_all add: add_ok_def ar_all_def)

lemma add_first_does:
  assumes "add_ok N P t" "W \<le> 2048"
  shows "does N W P (ar_mask t) (add_first t) (first_env t)"
proof -
  note r = add_ok_rows [OF assms(1)] and ne = add_ok_distinct [OF assms(1)]
  note st = does_bitwise [OF r(1) assms(2), where mk = "ar_mask t"] and sh = does_shift_n [OF r(1) assms(2), where mk = "ar_mask t" and n = 1]
  have a: "does N W P (ar_mask t) (rowop_shift_n_mask (ar_orNshift t) (ar_and0 t) 1 (ar_mask t)) (\<lambda>e. e(ar_orNshift t := push_bit 1 (e (ar_and0 t))))"
    "does N W P (ar_mask t) (rowop_shift_n_mask (ar_andNshift t) (ar_xor0 t) 1 (ar_mask t)) (\<lambda>e. e(ar_andNshift t := push_bit 1 (e (ar_xor0 t))))"
    by (rule sh; simp add: r ne ne [symmetric])+
  have b: "does N W P (ar_mask t) [(ROWAAP, ar_andNCopy t, ar_and0 t, 0)] (\<lambda>e. e(ar_andNCopy t := word32_op ROWAAP (e (ar_and0 t)) (e 0)))"
    "does N W P (ar_mask t) [(ROWAND, ar_andTemp t, ar_xor0 t, ar_andNshift t)] (\<lambda>e. e(ar_andTemp t := word32_op ROWAND (e (ar_xor0 t)) (e (ar_andNshift t))))"
    "does N W P (ar_mask t) [(ROWAND, ar_andN t, ar_xor0 t, ar_orNshift t)] (\<lambda>e. e(ar_andN t := word32_op ROWAND (e (ar_xor0 t)) (e (ar_orNshift t))))"
    "does N W P (ar_mask t) [(ROWOR, ar_orN t, ar_andNCopy t, ar_andTemp t)] (\<lambda>e. e(ar_orN t := word32_op ROWOR (e (ar_andNCopy t)) (e (ar_andTemp t))))"
    by (rule st; simp add: r ne ne [symmetric] bitwise_def two_sources_def)+
  have "first_env t = (\<lambda>e. let e1 = e(ar_orNshift t := push_bit 1 (e (ar_and0 t))); e2 = e1(ar_andNshift t := push_bit 1 (e1 (ar_xor0 t)));
     e3 = e2(ar_andNCopy t := e2 (ar_and0 t)); e4 = e3(ar_andTemp t := e3 (ar_xor0 t) AND e3 (ar_andNshift t));
     e5 = e4(ar_andN t := e4 (ar_xor0 t) AND e4 (ar_orNshift t)) in e5(ar_orN t := e5 (ar_andNCopy t) OR e5 (ar_andTemp t)))"
    by (rule ext) (rule first_env_def)
  then show ?thesis
    using does_append [OF a(1) does_append [OF a(2) does_append [OF b(1) does_append [OF b(2) does_append [OF b(3) b(4)]]]]]
    unfolding add_first_def by (simp only: word32_op_def RowOp.case Let_def append.simps)
qed

lemma add_next_does:
  assumes "add_ok N P t" "W \<le> 2048" "0 < n"
  shows "does N W P (ar_mask t) (add_next t n) (next_env t)"
proof -
  note r = add_ok_rows [OF assms(1)] and ne = add_ok_distinct [OF assms(1)]
  note st = does_bitwise [OF r(1) assms(2), where mk = "ar_mask t"] and sh = does_shift_n [OF r(1) assms(2), where mk = "ar_mask t" and n = n]
  have a: "does N W P (ar_mask t) (rowop_shift_n_mask (ar_orNshift t) (ar_orN t) n (ar_mask t)) (\<lambda>e. e(ar_orNshift t := push_bit 1 (e (ar_orN t))))"
    "does N W P (ar_mask t) (rowop_shift_n_mask (ar_andNshift t) (ar_andN t) n (ar_mask t)) (\<lambda>e. e(ar_andNshift t := push_bit 1 (e (ar_andN t))))"
    by (rule sh; simp add: r ne ne [symmetric] assms(3))+
  have b: "does N W P (ar_mask t) [(ROWAND, ar_andTemp t, ar_andN t, ar_orNshift t)] (\<lambda>e. e(ar_andTemp t := word32_op ROWAND (e (ar_andN t)) (e (ar_orNshift t))))"
    "does N W P (ar_mask t) [(ROWAND, ar_andN t, ar_andN t, ar_andNshift t)] (\<lambda>e. e(ar_andN t := word32_op ROWAND (e (ar_andN t)) (e (ar_andNshift t))))"
    "does N W P (ar_mask t) [(ROWOR, ar_orN t, ar_orN t, ar_orNshift t)] (\<lambda>e. e(ar_orN t := word32_op ROWOR (e (ar_orN t)) (e (ar_orNshift t))))"
    by (rule st; simp add: r ne ne [symmetric] bitwise_def two_sources_def)+
  have "next_env t = (\<lambda>e. let e1 = e(ar_orNshift t := push_bit 1 (e (ar_orN t))); e2 = e1(ar_andNshift t := push_bit 1 (e1 (ar_andN t)));
     e3 = e2(ar_andTemp t := e2 (ar_andN t) AND e2 (ar_orNshift t)); e4 = e3(ar_andN t := e3 (ar_andN t) AND e3 (ar_andNshift t)) in
     e4(ar_orN t := e4 (ar_orN t) OR e4 (ar_orNshift t)))"
    by (rule ext) (rule next_env_def)
  then show ?thesis using does_append [OF a(1) does_append [OF a(2) does_append [OF b(1) does_append [OF b(2) b(3)]]]]
    unfolding add_next_def by (simp only: word32_op_def RowOp.case Let_def append.simps)
qed

lemma env_values:
  assumes "add_ok N P t"
  shows "first_env t e (ar_xor0 t) = e (ar_xor0 t)"
    "first_env t e (ar_orN t) = e (ar_and0 t) OR (e (ar_xor0 t) AND push_bit 1 (e (ar_xor0 t)))"
    "next_env t e (ar_xor0 t) = e (ar_xor0 t)" "next_env t e (ar_orN t) = smear (e (ar_orN t))"
proof -
  note ne = add_ok_distinct [OF assms]
  show "first_env t e (ar_xor0 t) = e (ar_xor0 t)"
    "first_env t e (ar_orN t) = e (ar_and0 t) OR (e (ar_xor0 t) AND push_bit 1 (e (ar_xor0 t)))"
    by (simp_all add: first_env_def Let_def ne ne [symmetric])
  show "next_env t e (ar_xor0 t) = e (ar_xor0 t)" "next_env t e (ar_orN t) = smear (e (ar_orN t))"
    by (simp_all add: next_env_def Let_def smear_def ne ne [symmetric])
qed

lemma env_keeps: "p \<notin> set (ar_all t) \<Longrightarrow> first_env t e p = e p" "p \<notin> set (ar_all t) \<Longrightarrow> next_env t e p = e p"
  by (simp_all add: first_env_def next_env_def Let_def ar_all_def)

declare add_loop.simps [simp del]

lemma add_loop_32: "add_loop t 1 32 = add_first t @ add_next t 2 @ add_next t 4 @ add_next t 8 @ add_next t 16"
  by (simp add: add_loop.simps [of t "Suc 0"] add_loop.simps [of t 2] add_loop.simps [of t 4] add_loop.simps [of t 8] add_loop.simps [of t 16] add_loop.simps [of t 32])

definition add_env :: "add_rows \<Rightarrow> nat \<Rightarrow> nat \<Rightarrow> nat \<Rightarrow> (nat \<Rightarrow> 32 word) \<Rightarrow> nat \<Rightarrow> 32 word" where
  "add_env t d s1 s2 e = (let e1 = e(ar_and0 t := e s1 AND e s2); e2 = e1(ar_xor0 t := e1 s1 XOR e1 s2);
     e3 = next_env t (next_env t (next_env t (next_env t (first_env t e2)))); e4 = e3(ar_orNshift t := push_bit 1 (e3 (ar_orN t))) in
     e4(d := e4 (ar_xor0 t) XOR e4 (ar_orNshift t)))"

lemma add_stmts_does:
  assumes "add_ok N P t" "W \<le> 2048" "d \<in> P" "s1 \<in> P" "s2 \<in> P" "d \<notin> set (ar_all t)"
  shows "does N W P (ar_mask t) (add_stmts t d s1 s2 32) (add_env t d s1 s2)"
proof -
  note r = add_ok_rows [OF assms(1)] and ne = add_ok_distinct [OF assms(1)]
  note st = does_bitwise [OF r(1) assms(2), where mk = "ar_mask t"]
  have d: "d \<noteq> ar_mask t" using assms(6) by (auto simp: ar_all_def)
  have a: "does N W P (ar_mask t) [(ROWAND, ar_and0 t, s1, s2)] (\<lambda>e. e(ar_and0 t := word32_op ROWAND (e s1) (e s2)))"
    "does N W P (ar_mask t) [(ROWXOR, ar_xor0 t, s1, s2)] (\<lambda>e. e(ar_xor0 t := word32_op ROWXOR (e s1) (e s2)))"
    "does N W P (ar_mask t) [(ROWXOR, d, ar_xor0 t, ar_orNshift t)] (\<lambda>e. e(d := word32_op ROWXOR (e (ar_xor0 t)) (e (ar_orNshift t))))"
    by (rule st; simp add: r ne ne [symmetric] bitwise_def two_sources_def assms(3-5) d)+
  have b: "does N W P (ar_mask t) (rowop_shift_n_mask (ar_orNshift t) (ar_orN t) 1 (ar_mask t)) (\<lambda>e. e(ar_orNshift t := push_bit 1 (e (ar_orN t))))"
    by (rule does_shift_n [OF r(1) assms(2)]; simp add: r ne ne [symmetric])
  have nx: "does N W P (ar_mask t) (add_next t k) (next_env t)" if "0 < k" for k using add_next_does [OF assms(1,2) that] .
  have c: "does N W P (ar_mask t) (add_loop t 1 32) (\<lambda>e. next_env t (next_env t (next_env t (next_env t (first_env t e)))))"
    using does_append [OF add_first_does [OF assms(1,2)] does_append [OF nx does_append [OF nx does_append [OF nx nx]]], of 2 4 8 16] unfolding add_loop_32 by simp
  have "add_env t d s1 s2 = (\<lambda>e. let e1 = e(ar_and0 t := e s1 AND e s2); e2 = e1(ar_xor0 t := e1 s1 XOR e1 s2);
     e3 = next_env t (next_env t (next_env t (next_env t (first_env t e2)))); e4 = e3(ar_orNshift t := push_bit 1 (e3 (ar_orN t))) in
     e4(d := e4 (ar_xor0 t) XOR e4 (ar_orNshift t)))" by (rule ext) (rule add_env_def)
  then show ?thesis
    using does_append [OF a(1) does_append [OF a(2) does_append [OF c does_append [OF b a(3)]]]]
    unfolding add_stmts_def by (simp only: word32_op_def RowOp.case Let_def append.simps)
qed

lemma add_env_values:
  assumes "add_ok N P t" "d \<notin> set (ar_all t)" "s1 \<notin> set (ar_all t)" "s2 \<notin> set (ar_all t)"
  shows "add_env t d s1 s2 e d = row_add_word (e s1) (e s2)" "q \<notin> set (ar_all t) \<Longrightarrow> q \<noteq> d \<Longrightarrow> add_env t d s1 s2 e q = e q"
proof -
  note ne = add_ok_distinct [OF assms(1)] and v = env_values [OF assms(1)]
  have n: "s1 \<noteq> ar_and0 t" "s2 \<noteq> ar_and0 t" using assms(3,4) by (auto simp: ar_all_def)
  show "add_env t d s1 s2 e d = row_add_word (e s1) (e s2)"
    by (simp add: add_env_def Let_def v ne ne [symmetric] n row_add_word_def)
  assume q: "q \<notin> set (ar_all t)" "q \<noteq> d"
  then have "q \<noteq> ar_and0 t" "q \<noteq> ar_xor0 t" "q \<noteq> ar_orNshift t" by (auto simp: ar_all_def)
  then show "add_env t d s1 s2 e q = e q" using q by (simp add: add_env_def Let_def env_keeps)
qed

lemma fill_const_words:
  assumes "vectors_ok N 1 P" "p \<in> P" "row_bytes \<le> ROW_SIZE"
  shows "\<exists>m'. fill_const N v p 32 row_bytes m = Inr m' \<and>
    (\<forall>q \<in> P. \<forall>w < row_bytes div 4. read32 m' (q + 4 * w) = (if q = p then v else read32 m (q + 4 * w))) \<and> kept_outside 1 P m m'"
proof -
  let ?W = "row_bytes div 4"
  have W: "4 * ?W \<le> ROW_SIZE" using assms(3) by simp
  have "p + 4 * (0 + ?W) \<le> N" using assms(1,2) W by (auto simp: vectors_ok_def)
  then obtain m' where m': "fill_words N (\<lambda>_. v) p 0 ?W m = Inr m'"
    "\<forall>x. lane m' p x = (if 0 \<le> x div 32 \<and> x div 32 < 0 + ?W then bit v (x mod 32) else lane m p x)"
    "\<forall>j. j < p \<or> p + 4 * (0 + ?W) \<le> j \<longrightarrow> m' j = m j"
    using fill_words_lanes [of p 0 ?W N "\<lambda>_. v" m] by blast
  have "read32 m' (q + 4 * w) = (if q = p then v else read32 m (q + 4 * w))" if q: "q \<in> P" "w < ?W" for q w
  proof (rule bit_word_eqI)
    fix k assume "k < LENGTH(32)"
    then have k: "k < 32" by simp
    then have x: "(32 * w + k) div 32 = w" "(32 * w + k) mod 32 = k" "32 * w + k < 65536" using q(2) W by (simp_all add: ROW_SIZE_def)
    show "bit (read32 m' (q + 4 * w)) k = bit (if q = p then v else read32 m (q + 4 * w)) k"
    proof (cases "q = p")
      case False
      have "lane m' q (32 * w + k) = lane m q (32 * w + k)"
        by (rule lane_kept [of q 1]) (use m'(3) W vectors_apart [OF assms(1,2) q(1) False] x(3) in auto)
      then show ?thesis using False k by (simp add: read32_lane)
    qed (use m'(2) x k q(2) in \<open>simp add: read32_lane\<close>)
  qed
  moreover have "kept_outside 1 P m m'" using m'(3) assms(2) W by (auto simp: kept_outside_def)
  ultimately show ?thesis using m'(1) by (auto simp: fill_const_def)
qed

lemma row_add_effect:
  assumes "add_ok N P t" "d \<in> P" "s1 \<in> P" "s2 \<in> P" "d \<notin> set (ar_all t)" "s1 \<notin> set (ar_all t)" "s2 \<notin> set (ar_all t)" "row_bytes \<le> ROW_SIZE"
  shows "\<exists>m'. row_add N t d s1 s2 32 row_bytes m = Inr m' \<and>
    (\<forall>w < row_bytes div 4. read32 m' (d + 4 * w) = row_add_word (read32 m (s1 + 4 * w)) (read32 m (s2 + 4 * w))) \<and>
    (\<forall>q \<in> P. q \<notin> set (ar_all t) \<longrightarrow> q \<noteq> d \<longrightarrow> (\<forall>w < row_bytes div 4. read32 m' (q + 4 * w) = read32 m (q + 4 * w))) \<and> kept_outside 1 P m m'"
proof -
  let ?W = "row_bytes div 4"
  note r = add_ok_rows [OF assms(1)]
  have W: "?W \<le> 2048" using assms(8) by (simp add: ROW_SIZE_def)
  obtain m1 where m1: "fill_const N (NOT 1) (ar_mask t) 32 row_bytes m = Inr m1"
    "\<forall>q \<in> P. \<forall>w < ?W. read32 m1 (q + 4 * w) = (if q = ar_mask t then NOT 1 else read32 m (q + 4 * w))" "kept_outside 1 P m m1"
    using fill_const_words [OF r(1,2) assms(8)] by blast
  have mk: "\<forall>w < ?W. read32 m1 (ar_mask t + 4 * w) = NOT 1" using m1(2) r(2) by simp
  obtain m2 where m2: "row_body N 0 (add_stmts t d s1 s2 32) m1 = Inr m2" "\<forall>w < ?W. wenv P m2 w = add_env t d s1 s2 (wenv P m1 w)" "kept_outside 1 P m1 m2"
    using add_stmts_does [OF assms(1) W assms(2-5)] mk unfolding does_def by blast
  have keep: "wenv P m1 w q = read32 m (q + 4 * w)" if "q \<in> P" "q \<notin> set (ar_all t)" "w < ?W" for q w
    using m1(2) that by (auto simp: wenv_def ar_all_def)
  have out: "read32 m2 (q + 4 * w) = add_env t d s1 s2 (wenv P m1 w) q" if "q \<in> P" "w < ?W" for q w
    using fun_cong [OF m2(2) [rule_format, OF that(2)], of q] that(1) by (simp add: wenv_def [of P m2])
  note v = add_env_values [OF assms(1,5-7)]
  have "read32 m2 (d + 4 * w) = row_add_word (read32 m (s1 + 4 * w)) (read32 m (s2 + 4 * w))" if "w < ?W" for w
    using out [OF assms(2) that] keep [OF assms(3,6) that] keep [OF assms(4,7) that] v(1) by simp
  moreover have "read32 m2 (q + 4 * w) = read32 m (q + 4 * w)" if "q \<in> P" "q \<notin> set (ar_all t)" "q \<noteq> d" "w < ?W" for q w
    using out [OF that(1,4)] keep [OF that(1,2,4)] v(2) [OF that(2,3)] by simp
  moreover have "kept_outside 1 P m m2" using m1(3) m2(3) by (simp add: kept_outside_def)
  ultimately show ?thesis using m1(1) m2(1) by (simp add: row_add_def)
qed

subsection \<open>The query\<close>

lemma row_twos_comp_effect:
  assumes "add_ok N P t" "d \<in> P" "s \<in> P" "u \<in> P" "d \<notin> set (ar_all t)" "u \<notin> set (ar_all t)" "d \<noteq> u" "s \<noteq> u" "row_bytes \<le> ROW_SIZE"
  shows "\<exists>m'. row_twos_comp N t u d s 32 row_bytes m = Inr m' \<and>
    (\<forall>w < row_bytes div 4. read32 m' (d + 4 * w) = row_add_word (NOT (read32 m (s + 4 * w))) 1) \<and>
    (\<forall>q \<in> P. q \<notin> set (ar_all t) \<longrightarrow> q \<noteq> d \<longrightarrow> q \<noteq> u \<longrightarrow> (\<forall>w < row_bytes div 4. read32 m' (q + 4 * w) = read32 m (q + 4 * w))) \<and> kept_outside 1 P m m'"
proof -
  note r = add_ok_rows [OF assms(1)]
  have W: "w < 2048" if "w < row_bytes div 4" for w using assms(9) that by (simp add: ROW_SIZE_def)
  obtain m1 where m1: "fill_const N 1 u 32 row_bytes m = Inr m1"
    "\<forall>q \<in> P. \<forall>w < row_bytes div 4. read32 m1 (q + 4 * w) = (if q = u then 1 else read32 m (q + 4 * w))" "kept_outside 1 P m m1"
    using fill_const_words [OF r(1) assms(4,9)] by blast
  obtain m2 where m2: "row_body N 0 [(ROWNOT, d, s, 0)] m1 = Inr m2"
    "\<forall>q \<in> P. \<forall>w < 2048. read32 m2 (q + 4 * w) = (if q = d then word32_op ROWNOT (read32 m1 (s + 4 * w)) (read32 m1 (0 + 4 * w)) else read32 m1 (q + 4 * w))"
    "kept_outside 1 P m1 m2"
    using bitwise_words [OF r(1) _ assms(2,3), of ROWNOT 0 m1] by (auto simp: bitwise_def two_sources_def)
  obtain m3 where m3: "row_add N t d d u 32 row_bytes m2 = Inr m3"
    "\<forall>w < row_bytes div 4. read32 m3 (d + 4 * w) = row_add_word (read32 m2 (d + 4 * w)) (read32 m2 (u + 4 * w))"
    "\<forall>q \<in> P. q \<notin> set (ar_all t) \<longrightarrow> q \<noteq> d \<longrightarrow> (\<forall>w < row_bytes div 4. read32 m3 (q + 4 * w) = read32 m2 (q + 4 * w))" "kept_outside 1 P m2 m3"
    using row_add_effect [OF assms(1,2,2,4,5,5,6,9)] by blast
  have "read32 m3 (d + 4 * w) = row_add_word (NOT (read32 m (s + 4 * w))) 1" if "w < row_bytes div 4" for w
    using m3(2) m2(2) m1(2) that W [OF that] assms(2-4,7,8) by (simp add: word32_op_def)
  moreover have "read32 m3 (q + 4 * w) = read32 m (q + 4 * w)" if "q \<in> P" "q \<notin> set (ar_all t)" "q \<noteq> d" "q \<noteq> u" "w < row_bytes div 4" for q w
    using m3(3) m2(2) m1(2) that W [OF that(5)] by simp
  moreover have "kept_outside 1 P m m3" using m1(3) m2(3) m3(4) by (simp add: kept_outside_def)
  moreover have "row_twos_comp N t u d s 32 row_bytes m = Inr m3" using m1(1) m2(1) m3(1) by (simp only: row_twos_comp_def rbind_simps)
  ultimately show ?thesis by blast
qed

lemma vec_abs_val_red_sum: "vec_abs_val_red m vec len = (\<Sum>i<len. abs32 (read32 m (vec + 4 * i)))"
  by (induction len) simp_all

definition sad_ok :: "nat \<Rightarrow> sad_rows \<Rightarrow> bool" where
  "sad_ok N r \<longleftrightarrow> (let A = set (ar_all (sr_add1 r)) \<union> set (ar_all (sr_add2 r)); D = [sr_vec1 r, sr_vec2 r, sr_twoComp r, sr_diff r, sr_ones1 r] in
     vectors_ok N 1 (A \<union> set D) \<and> distinct D \<and> A \<inter> set D = {} \<and> distinct (ar_all (sr_add1 r)) \<and> distinct (ar_all (sr_add2 r)))"

text \<open>C15: the addition of rows leaves in every word \<open>x XOR (g << 1 OR ... OR g << 5)\<close>, where \<open>x\<close> is the exclusive or of the two words and \<open>g\<close> is
  their conjunction or two neighbouring ones of \<open>x\<close>. This is not their sum: the carries run over at most five places, and they
  start where no carry is generated. Every other row of the caller is unchanged.\<close>

theorem row_add_words:
  assumes "add_ok N P t" "d \<in> P" "s1 \<in> P" "s2 \<in> P" "d \<notin> set (ar_all t)" "s1 \<notin> set (ar_all t)" "s2 \<notin> set (ar_all t)" "row_bytes \<le> ROW_SIZE"
  shows "\<exists>m'. row_add N t d s1 s2 32 row_bytes m = Inr m' \<and>
    (\<forall>w < row_bytes div 4. read32 m' (d + 4 * w) = row_add_word (read32 m (s1 + 4 * w)) (read32 m (s2 + 4 * w))) \<and>
    (\<forall>q \<in> P. q \<notin> set (ar_all t) \<longrightarrow> q \<noteq> d \<longrightarrow> (\<forall>w < row_bytes div 4. read32 m' (q + 4 * w) = read32 m (q + 4 * w))) \<and> kept_outside 1 P m m'"
  by (rule row_add_effect [OF assms])

text \<open>C37: the program, when the processor takes the absolute values, returns the sum of what the two row additions leave of every pair of
  words, and not the sum of the absolute differences.\<close>

theorem sad_query_result:
  assumes "sad_ok N r" "size_vals \<le> 2048" "2 \<le> select"
  shows "sad_query N select size_vals 32 r m =
    Inr (\<Sum>i < size_vals. abs32 (row_add_word (read32 m (sr_vec1 r + 4 * i)) (row_add_word (NOT (read32 m (sr_vec2 r + 4 * i))) 1)))"
proof -
  define P where "P = set (ar_all (sr_add1 r)) \<union> set (ar_all (sr_add2 r)) \<union> set [sr_vec1 r, sr_vec2 r, sr_twoComp r, sr_diff r, sr_ones1 r]"
  have ok: "add_ok N P (sr_add1 r)" "add_ok N P (sr_add2 r)" using assms(1) by (auto simp: sad_ok_def add_ok_def P_def Let_def)
  have P: "sr_vec1 r \<in> P" "sr_vec2 r \<in> P" "sr_twoComp r \<in> P" "sr_diff r \<in> P" "sr_ones1 r \<in> P" by (simp_all add: P_def)
  have A: "sr_vec1 r \<notin> set (ar_all (sr_add1 r))" "sr_twoComp r \<notin> set (ar_all (sr_add1 r))" "sr_ones1 r \<notin> set (ar_all (sr_add1 r))"
    "sr_vec1 r \<notin> set (ar_all (sr_add2 r))" "sr_twoComp r \<notin> set (ar_all (sr_add2 r))" "sr_diff r \<notin> set (ar_all (sr_add2 r))"
    using assms(1) by (auto simp: sad_ok_def Let_def)
  have ne: "sr_twoComp r \<noteq> sr_ones1 r" "sr_vec2 r \<noteq> sr_ones1 r" "sr_vec1 r \<noteq> sr_twoComp r" "sr_vec1 r \<noteq> sr_ones1 r" using assms(1) by (auto simp: sad_ok_def Let_def)
  let ?rb = "size_vals * 32 div 8"
  have rb: "?rb \<le> ROW_SIZE" "?rb div 4 = size_vals" using assms(2) by (simp_all add: ROW_SIZE_def)
  obtain m1 where m1: "row_twos_comp N (sr_add1 r) (sr_ones1 r) (sr_twoComp r) (sr_vec2 r) 32 ?rb m = Inr m1"
    "\<forall>w < ?rb div 4. read32 m1 (sr_twoComp r + 4 * w) = row_add_word (NOT (read32 m (sr_vec2 r + 4 * w))) 1"
    "\<forall>q \<in> P. q \<notin> set (ar_all (sr_add1 r)) \<longrightarrow> q \<noteq> sr_twoComp r \<longrightarrow> q \<noteq> sr_ones1 r \<longrightarrow> (\<forall>w < ?rb div 4. read32 m1 (q + 4 * w) = read32 m (q + 4 * w))"
    using row_twos_comp_effect [OF ok(1) P(3,2,5) A(2,3) ne(1,2) rb(1)] by blast
  obtain m2 where m2: "row_add N (sr_add2 r) (sr_diff r) (sr_vec1 r) (sr_twoComp r) 32 ?rb m1 = Inr m2"
    "\<forall>w < ?rb div 4. read32 m2 (sr_diff r + 4 * w) = row_add_word (read32 m1 (sr_vec1 r + 4 * w)) (read32 m1 (sr_twoComp r + 4 * w))"
    using row_add_effect [OF ok(2) P(4,1,3) A(6,4,5) rb(1)] by blast
  have "read32 m2 (sr_diff r + 4 * w) = row_add_word (read32 m (sr_vec1 r + 4 * w)) (row_add_word (NOT (read32 m (sr_vec2 r + 4 * w))) 1)" if "w < size_vals" for w
    using m2(2) m1(2,3) that ne(3,4) A(1) P(1) unfolding rb(2) by simp
  then have "vec_abs_val_red m2 (sr_diff r) size_vals =
      (\<Sum>i < size_vals. abs32 (row_add_word (read32 m (sr_vec1 r + 4 * i)) (row_add_word (NOT (read32 m (sr_vec2 r + 4 * i))) 1)))"
    unfolding vec_abs_val_red_sum by (intro sum.cong) simp_all
  moreover have "sad_query N select size_vals 32 r m = Inr (vec_abs_val_red m2 (sr_diff r) size_vals)"
    using m1(1) m2(1) assms(3) by (simp add: sad_query_def Let_def)
  ultimately show ?thesis by simp
qed

text \<open>Rows side by side: the temporary rows of an addition, the two vectors, the results.\<close>

definition demo_add :: add_rows where
  "demo_add = \<lparr>ar_mask = 0, ar_and0 = 8192, ar_xor0 = 16384, ar_andN = 24576, ar_orN = 32768, ar_andNshift = 40960, ar_orNshift = 49152,
     ar_andTemp = 57344, ar_andNCopy = 65536\<rparr>"

definition demo_sad :: sad_rows where
  "demo_sad = \<lparr>sr_vec1 = 73728, sr_vec2 = 81920, sr_output = 0, sr_twoComp = 90112, sr_diff = 98304, sr_ones1 = 106496, sr_ones2 = 0,
     sr_abs_mask = 0, sr_sign = 0, sr_temp = 0, sr_add1 = demo_add, sr_add2 = demo_add, sr_add3 = demo_add, sr_adds = (\<lambda>_. demo_add)\<rparr>"

definition same_words :: "byte \<Rightarrow> store" where
  "same_words v j = (if j mod 4 = 0 then v else 0)"

lemma read_same_words: "4 dvd p \<Longrightarrow> read32 (same_words v) (p + 4 * w) = ucast v"
proof -
  assume "4 dvd p"
  then obtain k where "p = 4 * k" by blast
  then have "(p + 4 * w + i) mod 4 = i mod 4" for i using mod_mult_self4 [of 4 "k + w" i] by (simp add: algebra_simps)
  then have "map (\<lambda>i. same_words v (p + 4 * w + i)) [0..<4] = [v, 0, 0, 0]" by (simp add: same_words_def upt_conv_Cons)
  moreover have "(ucast (ucast v :: 64 word) :: 32 word) = ucast v" by (rule bit_word_eqI) (auto simp: bit_simps dest: bit_imp_le_length)
  ultimately show ?thesis by (simp add: read32_def)
qed

lemma demo_sad_ok: "sad_ok 114688 demo_sad"
  by (simp add: sad_ok_def demo_sad_def demo_add_def ar_all_def vectors_ok_def ROW_SIZE_def)

lemma row_add_values: "row_add_word 3 3 = 126" "row_add_word (- 2) 1 = 3" "row_add_word 1 3 = 60"
  by (simp_all add: row_add_word_def smear_def)

text \<open>Equal vectors of ones: every word contributes 60 in place of 0.\<close>

theorem sad_query_result_witness: "sad_query 114688 2 1024 32 demo_sad (same_words 1) = Inr 61440"
proof -
  have "read32 (same_words 1) (sr_vec1 demo_sad + 4 * i) = 1" "read32 (same_words 1) (sr_vec2 demo_sad + 4 * i) = 1" for i
    using read_same_words [of 73728 1 i] read_same_words [of 81920 1 i] by (simp_all add: demo_sad_def)
  then show ?thesis using sad_query_result [OF demo_sad_ok, of 1024 2 "same_words 1"] by (simp add: row_add_values abs32_def)
qed

text \<open>3 + 3 is 126.\<close>

theorem row_add_words_witness: "\<exists>m'. row_add 114688 demo_add 98304 73728 81920 32 8192 (same_words 3) = Inr m' \<and> (\<forall>w < 2048. read32 m' (98304 + 4 * w) = 126)"
proof -
  let ?P = "set (ar_all demo_add) \<union> {73728, 81920, 98304}"
  have "add_ok 114688 ?P demo_add" by (simp add: add_ok_def demo_add_def ar_all_def vectors_ok_def ROW_SIZE_def)
  moreover have "98304 \<notin> set (ar_all demo_add)" "73728 \<notin> set (ar_all demo_add)" "81920 \<notin> set (ar_all demo_add)" by (simp_all add: demo_add_def ar_all_def)
  moreover have "read32 (same_words 3) (73728 + 4 * w) = 3" "read32 (same_words 3) (81920 + 4 * w) = 3" for w
    using read_same_words [of 73728 3 w] read_same_words [of 81920 3 w] by simp_all
  ultimately show ?thesis using row_add_words [of 114688 ?P demo_add 98304 73728 81920 8192 "same_words 3"] row_add_values(1) by (auto simp: ROW_SIZE_def)
qed

end
