(* ===== verification/Spec2Isabelle.thy ===== *)
theory Spec2Isabelle
  imports Dram_Port Event_Calendar Cache_Tags Stack_Dist Row_Machine Bit_Weave Sad_Plus
begin

text \<open>
  A verification library for the memory system of a fork of the gem5 simulator in which whole DRAM rows are combined
  inside the memory, and for the small workloads that use these row operations. Paths below are relative to
  \<^verbatim>\<open>src/gem5/src\<close>, except those under \<^verbatim>\<open>src/microworkloads\<close>.

  \<^bold>\<open>The program.\<close> A workload issues row instructions (\<^verbatim>\<open>microworkloads/rowop.S\<close>, decoded by
  \<^verbatim>\<open>arch/x86/isa/decoder/two_byte_opcodes.isa\<close>). The timing CPU (\<^verbatim>\<open>cpu/simple/timing.cc\<close>) turns one into a write whose data
  names the operation and the three operand rows, has the addresses translated (\<^verbatim>\<open>cpu/translation.hh\<close>) and sends a packet
  (\<^verbatim>\<open>mem/packet.hh\<close>). The DRAM controller (\<^verbatim>\<open>mem/dram_ctrl.cc\<close>) queues the packet, carries it out on the backing store
  (\<^verbatim>\<open>mem/abstract_mem.cc\<close>), and later spends the time of the activate and precharge commands it stands for; refreshes and power
  states run beside it. Address ranges route requests, an event queue (\<^verbatim>\<open>sim/eventq.cc\<close>) orders everything, and cache
  tags and a stack distance calculator are the other state-carrying parts of the memory system modelled here.

  \<^bold>\<open>Conventions.\<close> State is a record with the source's field names and is passed explicitly; an operation that may
  stop the simulation returns a value of type \<open>'a result\<close>, with \<open>Assertion\<close>, \<open>Panic\<close>, \<open>Fatal\<close> or \<open>HostFault\<close> (an access
  outside an array or an undefined C operation) on the left. Addresses and data are words of their width; ticks are natural
  numbers, with the wrap-around written out where the code subtracts (\<open>tick_sub\<close>). Loops are recursive functions with a
  termination proof; walking the linked lists of the event queue and servicing its events, which need not end, are partial
  functions to an option type, and theorems say that or when they return. No definition takes fuel.
  Events of the controller are fields with the tick they are scheduled for. What lies outside the model (the TLB, the
  processor's instruction semantics, the caches between CPU and memory, the allocator, \<^verbatim>\<open>rand\<close>) is an argument of the
  definitions that use it.

  \<^bold>\<open>The theories.\<close>
  \<^item> \<open>Gem5_Prelude\<close>: types, results and generic lemmas. \<open>Refinement\<close>: the locale \<open>simulation\<close> for sessions of operations
    on a component and its specification, interpreted on the stack distance calculator.
  \<^item> \<open>Int_Math\<close>, \<open>Bit_Field\<close>: \<^verbatim>\<open>base/intmath.hh\<close>, \<^verbatim>\<open>base/bitfield.hh\<close>, \<^verbatim>\<open>base/flags.hh\<close>, each helper with its arithmetic meaning.
  \<^item> \<open>Addr_Range\<close>: \<^verbatim>\<open>base/addr_range.hh\<close> and the interval map \<^verbatim>\<open>base/addr_range_map.hh\<close>. On well-formed maps lookup and insertion
    are exact, and the merging constructor accepts partitions only.
  \<^item> \<open>Mem_Request\<close>, \<open>Mem_Packet\<close>: \<^verbatim>\<open>mem/request.hh\<close>, \<^verbatim>\<open>mem/packet.hh\<close>, \<^verbatim>\<open>mem/packet.cc\<close>; the command table, responses, and functional
    accesses that meet queued packets.
  \<^item> \<open>Row_Ops\<close>, \<open>Abstract_Mem\<close>: \<^verbatim>\<open>mem/abstract_mem.{hh,cc}\<close>. The locale \<open>row_operation\<close> is the contract of a row operation and
    \<open>exclusive_monitor\<close> that of load-locked and store-conditional; both are interpreted on the memory. Row operations are
    bitwise functions and shifts of rows, also onto a source row; reads return what was written; a store-conditional
    succeeds exactly with an undisturbed reservation.
  \<^item> \<open>Dram_Config\<close>, \<open>Dram_Bank\<close>, \<open>Dram_Refresh\<close>, \<open>Dram_Sched\<close>, \<open>Dram_Ctrl\<close>, \<open>Dram_Loop\<close>, \<open>Dram_Port\<close>: \<^verbatim>\<open>mem/dram_ctrl.{hh,cc}\<close>.
    The decoder; the bank commands and the activation window; refresh and power states; the arbiter (locale \<open>arbiter\<close>,
    interpreted on \<open>chooseNext\<close> and used by the request loop); the queues; the invariant \<open>ctrl_ok\<close> under the request loop; and
    the port, where \<open>port_run\<close> is the interleaving of requests with all events and every request is answered once.
  \<^item> \<open>Event_Queue\<close>, \<open>Event_Calendar\<close>: \<^verbatim>\<open>sim/eventq.{hh,cc}\<close> and \<^verbatim>\<open>sim/eventq_impl.hh\<close>. The linked bins are kept in a store of
    cells; they implement a list of events in service order (locale \<open>event_actions\<close> for what the processing of an event may do).
  \<^item> \<open>Cache_Tags\<close>: \<^verbatim>\<open>mem/cache/blk.hh\<close> and \<^verbatim>\<open>mem/cache/tags\<close>. The least-recently-used tags implement a recency list for each set.
  \<^item> \<open>Stack_Dist\<close>: \<^verbatim>\<open>mem/stack_dist_calc.{hh,cc}\<close>. The tree of partial sums computes reuse distances, for at most \<open>2 ^ 31\<close>
    operations (beyond, the code shifts an \<^verbatim>\<open>int\<close> too far).
  \<^item> \<open>Data_Translation\<close>, \<open>Timing_Cpu\<close>: \<^verbatim>\<open>cpu/translation.hh\<close> and the data side of \<^verbatim>\<open>cpu/simple/timing.{hh,cc}\<close>, with the row
    instructions of \<^verbatim>\<open>arch/x86/isa/microops/rowbit.isa\<close>. A row instruction reaches the memory with its translated operands; split
    accesses complete once.
  \<^item> \<open>Row_Program\<close>, \<open>Row_Machine\<close>: loops of row instructions as the workloads write them, on a store, where each bit position is a
    small boolean program (\<open>lane_stmts\<close>), and on the machine of CPU, TLB and memory, which does the same.
  \<^item> \<open>Bit_Weave\<close>, \<open>Sad_Plus\<close>: \<^verbatim>\<open>microworkloads/bitweave-buddy.c\<close> and \<^verbatim>\<open>microworkloads/sad_plus.c\<close>, what they compute and where that is
    not what they mean to compute.

  \<^bold>\<open>Not modelled.\<close> The other CPU models and the fetch side of the timing CPU; the caches above their tags (miss handling,
  coherence, prefetching), crossbars, bridges and the packet queues of the ports, which pass packets on; Ruby and the
  DRAMSim2 wrapper, which are other memory systems; page tables and the TLB, whose answers are arguments; devices, kernels
  and the other instruction sets; statistics, tracing, printing, checkpointing and the power estimates of the DRAMPower library,
  which do not act back on the modelled state; the configuration scripts; the baseline workloads, which do not use row
  operations.
\<close>

subsection \<open>Row programs from the workload to the memory\<close>

text \<open>C3: the whole way of a loop of bitwise row instructions: decoded from its opcodes, with its operands translated, sent by the
  CPU and executed by the memory, it completes one instruction after the other and leaves in every bit position of the vectors
  what the boolean program of that position computes; nothing outside the vectors is changed. The instructions may write
  their own sources. The vectors are apart from each other, the TLB maps their addresses to the store in order, the cache
  takes every packet and no instruction faults.\<close>

theorem row_program_on_machine:
  assumes "cpu_ready c" "pmem mem = Some m" "maps_to_store tr mem" "vectors_ok (pmem_size mem) R P" "stmts_ok P ss"
  shows "\<exists>c' m'. machine_rows tr now 0 R ss (c, mem) = Inr (c', mem\<lparr>pmem := Some m'\<rparr>) \<and>
    length (completed c') = length (completed c) + R * length ss \<and>
    (\<forall>q \<in> P. \<forall>x < R * 65536. lane m' q x = lane_stmts ss (lanes_of P m x) q) \<and> kept_outside R P m m'"
  by (rule machine_lanes [OF assms])

theorem row_program_on_machine_witness:
  "\<exists>c' m'. machine_rows (\<lambda>a. a) 0 0 1 [(ROWNOT, 8192, 0, 0), (ROWOR, 8192, 8192, 16384)] (demo_cpu, demo_mem) =
      Inr (c', demo_mem\<lparr>pmem := Some m'\<rparr>) \<and> length (completed c') = 2 \<and> lane m' 8192 7 \<and> \<not> lane m' 16384 7"
proof -
  let ?P = "{0, 8192, 16384 :: nat}" and ?ss = "[(ROWNOT, 8192, 0, 0), (ROWOR, 8192, 8192, 16384)]"
  have "cpu_lineSize demo_cpu = 2 ^ 6" by (simp add: demo_cpu_def)
  then have c: "cpu_ready demo_cpu" unfolding cpu_ready_def by (intro exI [of _ 6]) simp
  have "unat (of_nat x :: addr) = x" if "x < 0x10000" for x using that by (simp add: unat_of_nat take_bit_nat_eq_self)
  then have t: "maps_to_store (\<lambda>a. a) demo_mem" by (simp add: maps_to_store_def host_offset_def demo_mem_def plain_range_def)
  have v: "vectors_ok (pmem_size demo_mem) 1 ?P" by (simp add: vectors_ok_def demo_mem_def ROW_SIZE_def)
  have s: "stmts_ok ?P ?ss" by (simp add: stmts_ok_def bitwise_def)
  have m: "pmem demo_mem = Some (\<lambda>_. 0)" "completed demo_cpu = []" by (simp_all add: demo_mem_def demo_cpu_def)
  have z: "\<not> lanes_of ?P (\<lambda>_. 0) 7 p" for p by (simp add: lanes_of_def lane_byte)
  obtain c' m' where r: "machine_rows (\<lambda>a. a) 0 0 1 ?ss (demo_cpu, demo_mem) = Inr (c', demo_mem\<lparr>pmem := Some m'\<rparr>)"
      "length (completed c') = 2" "\<forall>q \<in> ?P. \<forall>x < 1 * 65536. lane m' q x = lane_stmts ?ss (lanes_of ?P (\<lambda>_. 0) x) q"
    using row_program_on_machine [OF c m(1) t v s, of 0] m(2) by auto
  have "lane m' 8192 7" "\<not> lane m' 16384 7" using r(3) z by simp_all
  then show ?thesis using r(1,2) by blast
qed

end
